(* ===== verification/Prelude.thy ===== *)
theory Prelude
  imports Main "HOL-Library.Word" "HOL-Library.Multiset"
begin

text \<open>
  Shared vocabulary of the development: the integer types and constants of
  \<^verbatim>\<open>include/utils.h\<close>, the build switches, the error values a C++ run can end
  with, the fold that stops at the first error, and the list and word facts that several
  components use.  The collections \<open>ul_simps\<close>, \<open>ht_simps\<close> and \<open>hs_simps\<close> gather
  the rewrite rules of the unrolled list, the hash table and the hash set.
\<close>

named_theorems ul_simps \<open>rewrite rules of the unrolled list\<close>
named_theorems ht_simps \<open>rewrite rules of the hash table\<close>
named_theorems hs_simps \<open>rewrite rules of the hash set\<close>

section \<open>Keys and constants\<close>

text \<open>
  \<open>KeyType\<close> is \<open>int32_t\<close>: a key is its 32-bit pattern, read as a signed number by
  \<open>sint\<close> wherever the code compares keys with \<open><\<close> or \<open>></\<close>.
\<close>

type_synonym key = "32 word"
type_synonym u32 = "32 word"

definition EMPTY_KEY :: key where
  "EMPTY_KEY = 0xFFFFFFFF"

definition INVAL_KEY :: key where
  "INVAL_KEY = 0xEEEEEEEE"

definition L2_CACHE_LINE :: nat where
  "L2_CACHE_LINE = 64"

definition HS_BUCKET_SIZE :: nat where
  "HS_BUCKET_SIZE = 1 * L2_CACHE_LINE div 4"

definition ELEMS_IN_BUCKET :: nat where
  "ELEMS_IN_BUCKET = L2_CACHE_LINE div 4"

text \<open>
  A key that may be stored: neither of the two markers the hash table keeps in its array.
\<close>

definition valid_key :: "key \<Rightarrow> bool" where
  "valid_key k \<longleftrightarrow> k \<noteq> EMPTY_KEY \<and> k \<noteq> INVAL_KEY"

lemma empty_not_inval [simp]: "EMPTY_KEY \<noteq> INVAL_KEY" "INVAL_KEY \<noteq> EMPTY_KEY"
  by (simp_all add: EMPTY_KEY_def INVAL_KEY_def)

lemma valid_keyD [dest]: "valid_key k \<Longrightarrow> k \<noteq> EMPTY_KEY" "valid_key k \<Longrightarrow> k \<noteq> INVAL_KEY"
  by (simp_all add: valid_key_def)

lemma ELEMS_IN_BUCKET_pos [simp]: "0 < ELEMS_IN_BUCKET" "ELEMS_IN_BUCKET \<noteq> 0"
  by (simp_all add: ELEMS_IN_BUCKET_def L2_CACHE_LINE_def)

lemma ELEMS_IN_BUCKET_16: "ELEMS_IN_BUCKET = 16"
  by (simp add: ELEMS_IN_BUCKET_def L2_CACHE_LINE_def)

lemma HS_BUCKET_SIZE_16: "HS_BUCKET_SIZE = 16"
  by (simp add: HS_BUCKET_SIZE_def L2_CACHE_LINE_def)

text \<open>A number below half the range of its width is read as itself.\<close>

lemma sint_small:
  "n < 2 ^ 31 \<Longrightarrow> sint (of_nat n :: 32 word) = int n"
  "n < 2 ^ 63 \<Longrightarrow> sint (of_nat n :: 64 word) = int n"
  by (simp_all add: sint_sbintrunc' signed_take_bit_int_eq_self signed_of_nat)

lemma sint_unat: "unat (w :: 32 word) < 2 ^ 31 \<Longrightarrow> sint w = int (unat w)"
  using sint_small(1) [of "unat w"] by simp

section \<open>Build switches\<close>

text \<open>
  The three \<^verbatim>\<open>#define\<close>s of \<^verbatim>\<open>utils.h\<close>.  \<open>USE_AVX512\<close> is undefined again
  when the compiler does not offer the instruction set, so every combination can be built.
\<close>

record build =
  USE_AVX512 :: bool
  USE_VECTOR_LOOKUP :: bool
  USE_HOPSCOTCH :: bool

definition default_build :: build where
  "default_build = \<lparr>USE_AVX512 = True, USE_VECTOR_LOOKUP = True, USE_HOPSCOTCH = True\<rparr>"

definition VECTOR_SIZE :: "build \<Rightarrow> nat" where
  "VECTOR_SIZE bld = (if USE_AVX512 bld then 16 else 1)"

lemma VECTOR_SIZE_pos [simp]: "0 < VECTOR_SIZE bld" "VECTOR_SIZE bld \<noteq> 0"
  by (simp_all add: VECTOR_SIZE_def)

section \<open>Errors\<close>

text \<open>
  What a run can end with instead of a value.  \<open>UndefinedShift\<close>, \<open>OutOfBounds\<close>,
  \<open>NullDereference\<close>,
  \<open>DanglingPointer\<close> and \<open>Uninitialised\<close> are the undefined behaviours the code can reach;
  \<open>AllocFailed\<close> is an allocation of a size no machine has; \<open>HopscotchFailed\<close> is the explicit \<^verbatim>\<open>exit(1)\<close> of \<open>hopscotchInsert\<close>;
  \<open>UncaughtException\<close> an exception of the library that nothing catches;
  \<open>AssertionFailed\<close> a failed \<open>assert\<close>; \<open>OutOfFuel\<close> is the model's own bound
  on recursion.
\<close>

datatype error =
    UndefinedShift
  | OutOfBounds
  | NullDereference
  | DanglingPointer
  | Uninitialised
  | AllocFailed
  | HopscotchFailed
  | UncaughtException
  | AssertionFailed
  | OutOfFuel

type_synonym 'a result = "error + 'a"

definition bind_result :: "'a result \<Rightarrow> ('a \<Rightarrow> 'b result) \<Rightarrow> 'b result" where
  "bind_result r f = (case r of Inl e \<Rightarrow> Inl e | Inr x \<Rightarrow> f x)"

lemma bind_result_simps [simp]:
  "bind_result (Inl e) f = Inl e"
  "bind_result (Inr x) f = f x"
  by (simp_all add: bind_result_def)

lemma bind_result_Inr_iff [simp]:
  "bind_result r f = Inr y \<longleftrightarrow> (\<exists>x. r = Inr x \<and> f x = Inr y)"
  by (cases r) simp_all

lemma bind_resultE: "bind_result r f = Inr y \<Longrightarrow> (\<And>x. r = Inr x \<Longrightarrow> f x = Inr y \<Longrightarrow> Q) \<Longrightarrow> Q"
  by auto

lemma case_pairE: "(case z of (a, b) \<Rightarrow> f a b) = Inr y \<Longrightarrow> (\<And>a b. z = (a, b) \<Longrightarrow> f a b = Inr y \<Longrightarrow> Q) \<Longrightarrow> Q"
  by (cases z) simp

fun fold_result :: "('a \<Rightarrow> 's \<Rightarrow> 's result) \<Rightarrow> 'a list \<Rightarrow> 's \<Rightarrow> 's result" where
  "fold_result f [] s = Inr s"
| "fold_result f (x # xs) s = bind_result (f x s) (fold_result f xs)"

lemma fold_result_append [simp]:
  "fold_result f (xs @ ys) s = bind_result (fold_result f xs s) (fold_result f ys)"
proof (induction xs arbitrary: s)
  case (Cons x xs)
  then show ?case by (cases "f x s") simp_all
qed simp

lemma fold_result_snoc: "fold_result f (xs @ [x]) s = bind_result (fold_result f xs s) (f x)"
proof -
  have "bind_result (f x y) (fold_result f []) = f x y" for y by (cases "f x y") simp_all
  then show ?thesis unfolding fold_result_append by (cases "fold_result f xs s") simp_all
qed

text \<open>A loop whose rounds either update the state or stop with one and the same error.\<close>

lemma fold_result_guarded:
  assumes "\<And>x s. x \<in> set xs \<Longrightarrow> step x s = (if ok x then Inr (h x s) else Inl er)"
  shows "fold_result step xs s = (if \<forall>x \<in> set xs. ok x then Inr (fold h xs s) else Inl er)"
  using assms by (induction xs arbitrary: s) auto

lemma fold_result_invariant:
  assumes "fold_result f xs s = Inr t" and "I s"
    and "\<And>x s t. x \<in> set xs \<Longrightarrow> I s \<Longrightarrow> f x s = Inr t \<Longrightarrow> I t"
  shows "I t"
  using assms by (induction xs arbitrary: s) auto

text \<open>
  A \<open>size_t\<close> counter going down wraps at zero.  Going up it never reaches its limit, since
  every counted element occupies memory.
\<close>

definition size_dec :: "nat \<Rightarrow> nat" where
  "size_dec n = (if n = 0 then 2 ^ 64 - 1 else n - 1)"

lemma size_dec_Suc [simp]: "size_dec (Suc n) = n"
  by (simp add: size_dec_def)

lemma size_dec_pos: "0 < n \<Longrightarrow> size_dec n = n - 1"
  by (simp add: size_dec_def)

section \<open>Lists\<close>

lemma take_update_last:
  "n < length xs \<Longrightarrow> take (Suc n) (xs[n := y]) = take n xs @ [y]"
  by (simp add: take_Suc_conv_app_nth)

lemma last_take_Suc: "n < length xs \<Longrightarrow> last (take (Suc n) xs) = xs ! n"
  by (simp add: take_Suc_conv_app_nth)

lemma butlast_take_Suc: "n < length xs \<Longrightarrow> butlast (take (Suc n) xs) = take n xs"
  by (simp add: take_Suc_conv_app_nth)

lemma filter_distinct_length_card:
  "distinct xs \<Longrightarrow> length (filter P xs) = card {x \<in> set xs. P x}"
  by (simp flip: distinct_card set_filter)

text \<open>A list of blocks of one length, seen as the flat list of its elements.\<close>

lemma length_concat_uniform:
  "\<forall>b \<in> set bs. length b = n \<Longrightarrow> length (concat bs) = n * length bs"
  by (induction bs) auto

lemma nth_concat_uniform:
  "\<lbrakk>\<forall>b \<in> set bs. length b = n; i < length bs; j < n\<rbrakk>
   \<Longrightarrow> concat bs ! (n * i + j) = bs ! i ! j"
proof (induction bs arbitrary: i)
  case (Cons b bs)
  then show ?case by (cases i) (auto simp: nth_append)
qed simp

lemma concat_update_uniform:
  "\<lbrakk>\<forall>b \<in> set bs. length b = n; i < length bs; j < n\<rbrakk>
   \<Longrightarrow> concat (bs[i := (bs ! i)[j := x]]) = (concat bs)[n * i + j := x]"
proof (induction bs arbitrary: i)
  case (Cons b bs)
  then show ?case by (cases i) (auto simp: list_update_append)
qed simp

text \<open>The position of the first occurrence, as the search loops find it.\<close>

fun first_index :: "'a \<Rightarrow> 'a list \<Rightarrow> nat" where
  "first_index x [] = 0"
| "first_index x (y # ys) = (if x = y then 0 else Suc (first_index x ys))"

lemma first_index_less: "x \<in> set xs \<Longrightarrow> first_index x xs < length xs"
  by (induction xs) auto

lemma first_index_nth: "x \<in> set xs \<Longrightarrow> xs ! first_index x xs = x"
  by (induction xs) auto

lemma first_index_notin: "x \<notin> set xs \<Longrightarrow> first_index x xs = length xs"
  by (induction xs) auto

lemma first_index_minimal: "i < first_index x xs \<Longrightarrow> i < length xs \<Longrightarrow> xs ! i \<noteq> x"
proof (induction xs arbitrary: i)
  case (Cons y ys)
  then show ?case by (cases i) (auto split: if_splits)
qed simp

lemma first_index_append:
  "first_index x (xs @ ys) =
     (if x \<in> set xs then first_index x xs else length xs + first_index x ys)"
  by (induction xs) auto

lemma mset_overwrite_by_last:
  assumes "i < length xs"
  shows "mset (butlast (xs[i := last xs])) = mset xs - {#xs ! i#}"
proof (cases xs rule: rev_cases)
  case (snoc ys y)
  show ?thesis
  proof (cases "i = length ys")
    case True
    with snoc show ?thesis by simp
  next
    case False
    with assms snoc have i: "i < length ys" by simp
    then have "mset (ys[i := y]) = add_mset y (mset ys - {#ys ! i#})"
      by (rule mset_update)
    with i snoc show ?thesis
      by (simp add: list_update_append nth_append insert_DiffM2 nth_mem_mset)
  qed
qed (use assms in simp)

end
