(* ===== verification/Avx512.thy ===== *)
theory Avx512
  imports Prelude
begin

text \<open>
  The AVX-512 operations the code uses, lane by lane.  A \<^verbatim>\<open>__m512i\<close> is a list of
  sixteen 32-bit lanes, a \<^verbatim>\<open>__mmask16\<close> a 16-bit word whose bit \<open>i\<close> belongs to
  lane \<open>i\<close>.  A load or gather that would read outside the array is the error value
  \<open>OutOfBounds\<close>.
\<close>

type_synonym m512 = "key list"
type_synonym mmask16 = "16 word"

unbundle bit_operations_syntax

definition mask_of :: "bool list \<Rightarrow> mmask16" where
  "mask_of bs = horner_sum of_bool 2 bs"

definition set1_epi32 :: "key \<Rightarrow> m512" where
  "set1_epi32 x = replicate 16 x"

definition cmpeq_epi32_mask :: "m512 \<Rightarrow> m512 \<Rightarrow> mmask16" where
  "cmpeq_epi32_mask a b = mask_of (map2 (=) a b)"

definition loadu_epi32 :: "key list \<Rightarrow> nat \<Rightarrow> m512 result" where
  "loadu_epi32 arr p =
     (if p + 16 \<le> length arr then Inr (take 16 (drop p arr)) else Inl OutOfBounds)"

text \<open>A masked gather reads the selected lanes only; the others come from \<open>src\<close>.\<close>

definition mask_i32gather_epi32 ::
  "m512 \<Rightarrow> mmask16 \<Rightarrow> u32 list \<Rightarrow> key list \<Rightarrow> m512 result" where
  "mask_i32gather_epi32 src m idx arr =
     (if \<forall>i \<in> set [0..<16]. bit m i \<longrightarrow> unat (idx ! i) < length arr
      then Inr (map (\<lambda>i. if bit m i then arr ! unat (idx ! i) else src ! i) [0..<16])
      else Inl OutOfBounds)"

definition mullo_epi32 :: "m512 \<Rightarrow> m512 \<Rightarrow> m512" where
  "mullo_epi32 a b = map2 (*) a b"

definition add_epi32 :: "m512 \<Rightarrow> m512 \<Rightarrow> m512" where
  "add_epi32 a b = map2 (+) a b"

definition srli_epi32 :: "m512 \<Rightarrow> nat \<Rightarrow> m512" where
  "srli_epi32 a n = map (drop_bit n) a"

text \<open>
  \<open>__builtin_ctz\<close>: the index of the lowest set bit; the builtin leaves the value for \<open>0\<close>
  undefined, and the code never uses it then.
\<close>

definition builtin_ctz :: "mmask16 \<Rightarrow> nat" where
  "builtin_ctz m = length (takeWhile (\<lambda>i. \<not> bit m i) [0..<16])"

definition popcnt_u32 :: "mmask16 \<Rightarrow> nat" where
  "popcnt_u32 m = length (filter (bit m) [0..<16])"

section \<open>Masks as predicates on lanes\<close>

lemma bit_mask_of: "bit (mask_of bs) i \<longleftrightarrow> i < 16 \<and> i < length bs \<and> bs ! i"
  by (auto simp: mask_of_def bit_horner_sum_bit_word_iff)

lemma bit_cmpeq:
  assumes "length a = 16" and "length b = 16"
  shows "bit (cmpeq_epi32_mask a b) i \<longleftrightarrow> i < 16 \<and> a ! i = b ! i"
  using assms by (auto simp: cmpeq_epi32_mask_def bit_mask_of)

lemma bit_mmask16_less: "bit (m :: mmask16) i \<Longrightarrow> i < 16"
  using bit_imp_le_length [of m i] by simp

lemma mmask16_zero_iff: "(m :: mmask16) = 0 \<longleftrightarrow> (\<forall>i < 16. \<not> bit m i)"
  by (auto simp: bit_eq_iff dest: bit_mmask16_less)

lemma mmask16_eq_iff: "(m :: mmask16) = n \<longleftrightarrow> (\<forall>i < 16. bit m i \<longleftrightarrow> bit n i)"
  by (auto simp: bit_eq_iff dest: bit_mmask16_less)

lemma cmpeq_zero_iff:
  assumes "length a = 16" and "length b = 16"
  shows "cmpeq_epi32_mask a b = 0 \<longleftrightarrow> (\<forall>i < 16. a ! i \<noteq> b ! i)"
  using assms by (simp add: mmask16_zero_iff bit_cmpeq)

lemma length_set1 [simp]: "length (set1_epi32 x) = 16"
  by (simp add: set1_epi32_def)

lemma nth_set1 [simp]: "i < 16 \<Longrightarrow> set1_epi32 x ! i = x"
  by (simp add: set1_epi32_def)

lemma loadu_Inr:
  "loadu_epi32 arr p = Inr v \<longleftrightarrow> p + 16 \<le> length arr \<and> v = take 16 (drop p arr)"
  by (auto simp: loadu_epi32_def)

lemma length_window: "p + 16 \<le> length arr \<Longrightarrow> length (take 16 (drop p arr)) = 16"
  by simp

lemma takeWhile_upt_Not:
  "length (takeWhile (\<lambda>i. \<not> P i) [0..<n]) = (if \<exists>i < n. P i then (LEAST i. P i) else n)"
proof (cases "\<exists>i < n. P i")
  case True
  define k where "k = (LEAST i. P i)"
  from True have k: "P k" "k < n" and below: "\<And>i. i < k \<Longrightarrow> \<not> P i"
    unfolding k_def by (auto intro: LeastI dest: not_less_Least order_le_less_trans [OF Least_le])
  have "[0..<n] = [0..<k] @ k # [Suc k..<n]"
    using k(2) by (metis less_imp_le upt_add_eq_append upt_conv_Cons zero_le le_add_diff_inverse)
  then have "takeWhile (\<lambda>i. \<not> P i) [0..<n] = [0..<k]"
    using k below by (simp add: takeWhile_append)
  with True show ?thesis by (simp add: k_def)
next
  case False
  then have all: "takeWhile (\<lambda>i. \<not> P i) [0..<n] = [0..<n]"
    by (simp add: takeWhile_eq_all_conv)
  have "length (takeWhile (\<lambda>i. \<not> P i) [0..<n]) = n"
    by (simp only: all length_upt diff_zero)
  with False show ?thesis by (simp only: if_False)
qed

lemma builtin_ctz_props:
  assumes "m \<noteq> 0"
  shows "bit m (builtin_ctz m)" and "builtin_ctz m < 16"
    and "\<And>i. i < builtin_ctz m \<Longrightarrow> \<not> bit m i"
proof -
  from assms have ex: "\<exists>i < 16. bit m i" by (simp add: mmask16_zero_iff)
  then have eq: "builtin_ctz m = (LEAST i. bit m i)"
    by (simp add: builtin_ctz_def takeWhile_upt_Not)
  from ex show "bit m (builtin_ctz m)" unfolding eq by (auto intro: LeastI)
  then show "builtin_ctz m < 16" by (rule bit_mmask16_less)
  show "\<not> bit m i" if "i < builtin_ctz m" for i
    using that unfolding eq by (rule not_less_Least)
qed

lemma bit_list_end_mask:
  assumes "off < 16"
  shows "bit (push_bit (Suc off) 1 - 1 :: mmask16) i \<longleftrightarrow> i \<le> off"
proof -
  have "push_bit (Suc off) 1 - 1 = (mask (Suc off) :: mmask16)"
    by (simp add: mask_eq_exp_minus_1 push_bit_eq_mult)
  then show ?thesis using assms by (auto simp: bit_mask_iff)
qed

end
