(* ===== verification/UnrolledList.thy ===== *)
theory UnrolledList
  imports Avx512
begin

text \<open>
  The unrolled linked list of \<^verbatim>\<open>include/UnrolledList.h\<close> and
  \<^verbatim>\<open>src/UnrolledList.cpp\<close>: a chain of cache-line-sized buckets of sixteen keys, of
  which the tail bucket is live up to \<open>offset\<close>.  The chain is the list of its buckets, from
  \<open>head\<close> to \<open>tail\<close>; a bucket pointer is the bucket's position in the chain, the null
  pointer is \<open>None\<close>.  What the memory logger is told is in \<open>MemAccount\<close>, and
  the placement in a chunk in \<open>SetPool\<close>.
\<close>

section \<open>State\<close>

record ulist =
  buckets :: "key list list"
  offset :: nat
  num_of_buckets :: nat
  num_of_elems :: nat
  isSorted :: bool
  iter :: "nat option"
  iter_offs :: nat

definition UnrolledList :: ulist where
  "UnrolledList = \<lparr>buckets = [], offset = 0, num_of_buckets = 0, num_of_elems = 0,
     isSorted = True, iter = None, iter_offs = 0\<rparr>"

definition create_bucket :: "key list" where
  "create_bucket = replicate ELEMS_IN_BUCKET INVAL_KEY"

definition tail_ix :: "ulist \<Rightarrow> nat" where
  "tail_ix l = length (buckets l) - 1"

definition elem_at :: "ulist \<Rightarrow> nat \<Rightarrow> nat \<Rightarrow> key" where
  "elem_at l b j = buckets l ! b ! j"

definition set_elem :: "nat \<Rightarrow> nat \<Rightarrow> key \<Rightarrow> ulist \<Rightarrow> ulist" where
  "set_elem b j x l = l\<lparr>buckets := (buckets l)[b := (buckets l ! b)[j := x]]\<rparr>"

definition ul_size :: "ulist \<Rightarrow> nat" where
  "ul_size l = num_of_elems l"

definition ul_empty :: "ulist \<Rightarrow> bool" where
  "ul_empty l \<longleftrightarrow> ul_size l = 0"

definition ul_front :: "ulist \<Rightarrow> key" where
  "ul_front l = (if ul_empty l then EMPTY_KEY else elem_at l 0 0)"

definition ul_back :: "ulist \<Rightarrow> key" where
  "ul_back l = (if ul_empty l then EMPTY_KEY else elem_at l (tail_ix l) (offset l))"

section \<open>Operations\<close>

definition push_back :: "key \<Rightarrow> ulist \<Rightarrow> ulist" where
  "push_back el l =
     (if buckets l = [] then
        (let l = l\<lparr>buckets := [create_bucket], num_of_buckets := Suc (num_of_buckets l),
                   offset := 0\<rparr>
         in (set_elem 0 0 el l)\<lparr>num_of_elems := Suc (num_of_elems l)\<rparr>)
      else
        (let prev_elem = elem_at l (tail_ix l) (offset l);
             l = (if offset l = ELEMS_IN_BUCKET - 1
                  then l\<lparr>buckets := buckets l @ [create_bucket],
                         num_of_buckets := Suc (num_of_buckets l), offset := 0\<rparr>
                  else l\<lparr>offset := Suc (offset l)\<rparr>);
             l = (set_elem (tail_ix l) (offset l) el l)\<lparr>num_of_elems := Suc (num_of_elems l)\<rparr>
         in if sint prev_elem > sint el then l\<lparr>isSorted := False\<rparr> else l))"

definition pop_back :: "ulist \<Rightarrow> ulist" where
  "pop_back l =
     (let l = l\<lparr>num_of_elems := size_dec (num_of_elems l)\<rparr> in
      if offset l = 0 then
        (if length (buckets l) \<le> 1  \<comment> \<open>\<open>head == tail\<close>, also when both are null\<close>
         then l\<lparr>buckets := [], offset := 0, num_of_buckets := size_dec (num_of_buckets l)\<rparr>
         else l\<lparr>buckets := butlast (buckets l), offset := ELEMS_IN_BUCKET - 1,
                num_of_buckets := size_dec (num_of_buckets l)\<rparr>)
      else l\<lparr>offset := offset l - 1\<rparr>)"

text \<open>
  The two bodies of \<open>find_element\<close>.  Without AVX-512 the loop walks the live elements; the
  read \<open>elems[pom_offs]\<close> is in range because \<open>pom_offs\<close> starts at 0 and restarts there.
\<close>

function find_element_scalar :: "ulist \<Rightarrow> key \<Rightarrow> nat \<Rightarrow> nat \<Rightarrow> (nat \<times> nat) option" where
  "find_element_scalar l el pom pom_offs =
     (if pom < length (buckets l) \<and> pom_offs < ELEMS_IN_BUCKET \<and>
         \<not> (pom = tail_ix l \<and> pom_offs = offset l + 1)
      then if elem_at l pom pom_offs = el then Some (pom, pom_offs)
           else if Suc pom_offs = ELEMS_IN_BUCKET then find_element_scalar l el (Suc pom) 0
           else find_element_scalar l el pom (Suc pom_offs)
      else None)"
  by pat_completeness auto
termination
  by (relation "measures [\<lambda>(l, el, p, j). length (buckets l) - p, \<lambda>(l, el, p, j). ELEMS_IN_BUCKET - j]")
     auto

declare find_element_scalar.simps [simp del]

text \<open>
  With AVX-512 each bucket is compared window by window, all of its lanes (the end mask is
  \<open>0xFFFF\<close>), live or not.
\<close>

definition END_MASK :: mmask16 where
  "END_MASK = 0xFFFF"

fun find_in_windows :: "key \<Rightarrow> key list \<Rightarrow> nat list \<Rightarrow> nat option" where
  "find_in_windows el bucket [] = None"
| "find_in_windows el bucket (pom_offs # rest) =
     (let load_vec = take 16 (drop pom_offs bucket);
          cmp_mask = cmpeq_epi32_mask (set1_epi32 el) load_vec;
          cmp_mask = (if pom_offs + 16 \<ge> ELEMS_IN_BUCKET then cmp_mask AND END_MASK
                      else cmp_mask)
      in if cmp_mask \<noteq> 0 then Some (pom_offs + builtin_ctz cmp_mask)
         else find_in_windows el bucket rest)"

definition windows :: "nat list" where
  "windows = map (\<lambda>i. 16 * i) [0..<ELEMS_IN_BUCKET div 16]"

fun find_element_avx :: "key \<Rightarrow> key list list \<Rightarrow> nat \<Rightarrow> (nat \<times> nat) option" where
  "find_element_avx el [] pom = None"
| "find_element_avx el (bucket # rest) pom =
     (case find_in_windows el bucket windows of
        Some pom_offs \<Rightarrow> Some (pom, pom_offs)
      | None \<Rightarrow> find_element_avx el rest (Suc pom))"

definition find_element :: "build \<Rightarrow> key \<Rightarrow> ulist \<Rightarrow> (nat \<times> nat) option" where
  "find_element bld el l =
     (if USE_AVX512 bld then find_element_avx el (buckets l) 0
      else find_element_scalar l el 0 0)"

definition remove :: "build \<Rightarrow> key \<Rightarrow> ulist \<Rightarrow> ulist" where
  "remove bld el l =
     (case find_element bld el l of
        None \<Rightarrow> l
      | Some (b, j) \<Rightarrow> pop_back (set_elem b j (elem_at l (tail_ix l) (offset l)) l))"

text \<open>\<open>for_each\<close> threads the state of the callback through the visited elements.\<close>

function for_each_loop ::
  "(key \<Rightarrow> 's \<Rightarrow> 's) \<Rightarrow> ulist \<Rightarrow> nat \<Rightarrow> nat \<Rightarrow> 's \<Rightarrow> 's" where
  "for_each_loop f l pom pom_offs s =
     (if pom < length (buckets l) \<and> pom_offs < ELEMS_IN_BUCKET \<and>
         \<not> (pom = tail_ix l \<and> pom_offs = offset l + 1)
      then let s = f (elem_at l pom pom_offs) s in
           if ELEMS_IN_BUCKET = Suc pom_offs then for_each_loop f l (Suc pom) 0 s
           else for_each_loop f l pom (Suc pom_offs) s
      else s)"
  by pat_completeness auto
termination
  by (relation "measures [\<lambda>(f, l, p, j, s). length (buckets l) - p,
       \<lambda>(f, l, p, j, s). ELEMS_IN_BUCKET - j]") auto

declare for_each_loop.simps [simp del]

definition ul_for_each :: "(key \<Rightarrow> 's \<Rightarrow> 's) \<Rightarrow> ulist \<Rightarrow> 's \<Rightarrow> 's" where
  "ul_for_each f l s = (if buckets l = [] \<or> ul_empty l then s else for_each_loop f l 0 0 s)"

definition reset_iterator :: "ulist \<Rightarrow> ulist" where
  "reset_iterator l = l\<lparr>iter := None, iter_offs := 0\<rparr>"

definition end_iter :: "ulist \<Rightarrow> bool" where
  "end_iter l \<longleftrightarrow>
     buckets l = [] \<or> (iter l = Some (tail_ix l) \<and> iter_offs l = offset l)"

text \<open>
  \<open>get_next\<close> answers \<open>-1\<close>, that is \<open>EMPTY_KEY\<close>, at the end.
\<close>

definition get_next :: "ulist \<Rightarrow> key \<times> ulist" where
  "get_next l =
     (if buckets l = [] \<or> (iter l = Some (tail_ix l) \<and> iter_offs l = offset l)
      then (-1, l)
      else
        (let l = (case iter l of
                    None \<Rightarrow> l\<lparr>iter := Some 0, iter_offs := 0\<rparr>
                  | Some b \<Rightarrow>
                      (let l = l\<lparr>iter_offs := Suc (iter_offs l)\<rparr> in
                       if ELEMS_IN_BUCKET = iter_offs l
                       then l\<lparr>iter_offs := 0, iter := Some (Suc b)\<rparr> else l))
         in (elem_at l (the (iter l)) (iter_offs l), l)))"

fun kill_buckets :: "ulist \<Rightarrow> key list list \<Rightarrow> ulist" where
  "kill_buckets l [] = l\<lparr>buckets := []\<rparr>"
| "kill_buckets l (b # bs) = kill_buckets (l\<lparr>buckets := bs\<rparr>) bs"

definition kill_list :: "ulist \<Rightarrow> ulist" where
  "kill_list l =
     (kill_buckets l (buckets l))\<lparr>offset := 0, num_of_elems := 0, num_of_buckets := 0\<rparr>"

fun copy_elems :: "nat list \<Rightarrow> key list \<Rightarrow> key list \<Rightarrow> key list" where
  "copy_elems [] pom novi = novi"
| "copy_elems (i # ks) pom novi = copy_elems ks pom (novi[i := pom ! i])"

fun copy_list :: "key list list \<Rightarrow> key list list" where
  "copy_list [] = []"
| "copy_list (pom # rest) =
     copy_elems [0..<ELEMS_IN_BUCKET] pom create_bucket # copy_list rest"

definition UnrolledList_copy :: "ulist \<Rightarrow> ulist" where
  "UnrolledList_copy other =
     \<lparr>buckets = copy_list (buckets other), offset = offset other,
      num_of_buckets = num_of_buckets other, num_of_elems = num_of_elems other,
      isSorted = isSorted other, iter = None, iter_offs = 0\<rparr>"

section \<open>Invariant and abstraction\<close>

text \<open>
  Every bucket has sixteen cells, and the two counters agree with the chain: all buckets but
  the tail are full, the tail is live up to \<open>offset\<close>.  The list stands for its live keys in
  order; the cells of the tail bucket after \<open>offset\<close> keep whatever was written there last.
\<close>

definition ul_inv :: "ulist \<Rightarrow> bool" where
  "ul_inv l \<longleftrightarrow>
     (\<forall>b \<in> set (buckets l). length b = ELEMS_IN_BUCKET) \<and>
     num_of_buckets l = length (buckets l) \<and>
     (if buckets l = [] then offset l = 0 \<and> num_of_elems l = 0
      else offset l < ELEMS_IN_BUCKET \<and>
           num_of_elems l = ELEMS_IN_BUCKET * (length (buckets l) - 1) + offset l + 1)"

definition to_list :: "ulist \<Rightarrow> key list" where
  "to_list l = take (num_of_elems l) (concat (buckets l))"

lemma ul_inv_buckets:
  "ul_inv l \<Longrightarrow> b \<in> set (buckets l) \<Longrightarrow> length b = ELEMS_IN_BUCKET"
  by (simp add: ul_inv_def)

lemma ul_inv_nonempty:
  assumes "ul_inv l" and "buckets l \<noteq> []"
  shows "offset l < ELEMS_IN_BUCKET"
    and "num_of_elems l = ELEMS_IN_BUCKET * tail_ix l + offset l + 1"
    and "tail_ix l < length (buckets l)"
  using assms by (simp_all add: ul_inv_def tail_ix_def)

lemma ul_inv_flat_length:
  "ul_inv l \<Longrightarrow> length (concat (buckets l)) = ELEMS_IN_BUCKET * length (buckets l)"
  by (rule length_concat_uniform) (simp add: ul_inv_def)

lemma ul_inv_num_le:
  assumes "ul_inv l"
  shows "num_of_elems l \<le> ELEMS_IN_BUCKET * length (buckets l)"
proof (cases "buckets l = []")
  case False
  with assms ul_inv_nonempty [OF assms False] show ?thesis
    by (cases "buckets l") (auto simp: tail_ix_def ELEMS_IN_BUCKET_16)
qed (use assms in \<open>simp add: ul_inv_def\<close>)

lemma length_to_list [simp]: "ul_inv l \<Longrightarrow> length (to_list l) = num_of_elems l"
  by (simp add: to_list_def ul_inv_flat_length ul_inv_num_le min_absorb2)

lemma num_of_elems_0_iff: "ul_inv l \<Longrightarrow> num_of_elems l = 0 \<longleftrightarrow> buckets l = []"
  by (auto simp: ul_inv_def split: if_splits)

lemma to_list_Nil_iff: "ul_inv l \<Longrightarrow> to_list l = [] \<longleftrightarrow> buckets l = []"
  by (metis length_0_conv length_to_list num_of_elems_0_iff)

lemma nth_to_list:
  assumes "ul_inv l" and "b < length (buckets l)" and "j < ELEMS_IN_BUCKET"
    and "ELEMS_IN_BUCKET * b + j < num_of_elems l"
  shows "to_list l ! (ELEMS_IN_BUCKET * b + j) = elem_at l b j"
  using assms by (simp add: to_list_def elem_at_def nth_concat_uniform ul_inv_def)

lemma ul_size_correct [ul_simps]: "ul_inv l \<Longrightarrow> ul_size l = length (to_list l)"
  by (simp add: ul_size_def)

lemma ul_empty_correct [ul_simps]: "ul_inv l \<Longrightarrow> ul_empty l \<longleftrightarrow> to_list l = []"
  by (simp add: ul_empty_def ul_size_def to_list_Nil_iff num_of_elems_0_iff)

lemma ul_inv_new [simp]: "ul_inv UnrolledList"
  by (simp add: ul_inv_def UnrolledList_def)

lemma to_list_new [simp]: "to_list UnrolledList = []"
  by (simp add: to_list_def UnrolledList_def)

lemma ul_back_correct [ul_simps]:
  assumes "ul_inv l" and "to_list l \<noteq> []"
  shows "ul_back l = last (to_list l)"
proof -
  from assms have ne: "buckets l \<noteq> []" by (simp add: to_list_Nil_iff)
  note inv = ul_inv_nonempty [OF assms(1) ne]
  have "to_list l ! (ELEMS_IN_BUCKET * tail_ix l + offset l) = elem_at l (tail_ix l) (offset l)"
    using inv assms(1) by (intro nth_to_list) auto
  with inv assms show ?thesis
    by (simp add: ul_back_def ul_simps last_conv_nth)
qed

lemma ul_front_correct [ul_simps]:
  assumes "ul_inv l" and "to_list l \<noteq> []"
  shows "ul_front l = hd (to_list l)"
proof -
  from assms have ne: "buckets l \<noteq> []" by (simp add: to_list_Nil_iff)
  have "to_list l ! (ELEMS_IN_BUCKET * 0 + 0) = elem_at l 0 0"
    using ne assms ul_inv_nonempty [OF assms(1) ne] by (intro nth_to_list) auto
  with assms show ?thesis by (simp add: ul_front_def ul_simps hd_conv_nth)
qed

section \<open>Writing, pushing and popping\<close>

lemma set_elem_fields [simp]:
  "offset (set_elem b j x l) = offset l"
  "num_of_buckets (set_elem b j x l) = num_of_buckets l"
  "num_of_elems (set_elem b j x l) = num_of_elems l"
  "length (buckets (set_elem b j x l)) = length (buckets l)"
  "isSorted (set_elem b j x l) = isSorted l"
  "iter (set_elem b j x l) = iter l"
  "iter_offs (set_elem b j x l) = iter_offs l"
  by (simp_all add: set_elem_def)

lemma set_elem_uniform:
  assumes "\<forall>b \<in> set (buckets l). length b = ELEMS_IN_BUCKET" and "b < length (buckets l)"
  shows "\<forall>b \<in> set (buckets (set_elem b j x l)). length b = ELEMS_IN_BUCKET"
  using assms by (auto simp: set_elem_def dest: set_update_subset_insert [THEN subsetD])

lemma set_elem_flat:
  assumes "\<forall>b \<in> set (buckets l). length b = ELEMS_IN_BUCKET"
    and "b < length (buckets l)" and "j < ELEMS_IN_BUCKET"
  shows "concat (buckets (set_elem b j x l)) = (concat (buckets l))[ELEMS_IN_BUCKET * b + j := x]"
  using assms by (simp add: set_elem_def concat_update_uniform)

lemma length_create_bucket [simp]: "length create_bucket = ELEMS_IN_BUCKET"
  by (simp add: create_bucket_def)

text \<open>Writing the first dead cell of the tail and counting it appends the key.\<close>

lemma append_cell:
  assumes uni: "\<forall>b \<in> set (buckets l). length b = ELEMS_IN_BUCKET"
    and ne: "buckets l \<noteq> []" and off: "offset l < ELEMS_IN_BUCKET"
    and nb: "num_of_buckets l = length (buckets l)"
    and num: "n = ELEMS_IN_BUCKET * tail_ix l + offset l"
    and l': "l' = (set_elem (tail_ix l) (offset l) x l)\<lparr>num_of_elems := Suc n\<rparr>"
  shows "ul_inv l'" and "to_list l' = take n (concat (buckets l)) @ [x]"
proof -
  have tail: "tail_ix l < length (buckets l)" using ne by (simp add: tail_ix_def)
  have "length (buckets l') = length (buckets l)" unfolding l' by simp
  moreover from this ne have "buckets l' \<noteq> []" by (metis length_0_conv)
  moreover have "\<forall>b \<in> set (buckets l'). length b = ELEMS_IN_BUCKET"
    unfolding l' using set_elem_uniform [OF uni tail] by simp
  moreover have "num_of_buckets l' = num_of_buckets l" "offset l' = offset l"
    "num_of_elems l' = Suc n"
    unfolding l' by simp_all
  ultimately show "ul_inv l'"
    unfolding ul_inv_def using nb off num by (simp only: tail_ix_def if_False simp_thms) simp
  have "n < length (concat (buckets l))"
  proof -
    have "n < ELEMS_IN_BUCKET * Suc (tail_ix l)" using off num by simp
    also have "Suc (tail_ix l) = length (buckets l)" using tail by (simp add: tail_ix_def)
    finally show ?thesis by (simp add: length_concat_uniform [OF uni])
  qed
  then have "take (Suc n) ((concat (buckets l))[n := x]) = take n (concat (buckets l)) @ [x]"
    by (rule take_update_last)
  moreover have "to_list l' = take (Suc n) ((concat (buckets l))[n := x])"
    unfolding to_list_def l' num by (simp add: set_elem_flat [OF uni tail off])
  ultimately show "to_list l' = take n (concat (buckets l)) @ [x]" by simp
qed

lemma push_back_inv [simp]: "ul_inv l \<Longrightarrow> ul_inv (push_back x l)"
  and push_back_to_list [ul_simps]: "ul_inv l \<Longrightarrow> to_list (push_back x l) = to_list l @ [x]"
proof -
  assume inv: "ul_inv l"
  let ?bs = "buckets l"
  have "ul_inv (push_back x l) \<and> to_list (push_back x l) = to_list l @ [x]"
  proof (cases "?bs = []")
    case True
    define l1 where "l1 = l\<lparr>buckets := [create_bucket], num_of_buckets := Suc 0, offset := 0\<rparr>"
    have p: "push_back x l = (set_elem (tail_ix l1) (offset l1) x l1)\<lparr>num_of_elems := Suc 0\<rparr>"
      using True inv by (simp add: push_back_def l1_def tail_ix_def ul_inv_def Let_def)
    show ?thesis
      using True inv append_cell [OF _ _ _ _ _ p] by (simp add: l1_def tail_ix_def to_list_def)
  next
    case False
    note inv' = ul_inv_nonempty [OF inv False]
    define l1 where "l1 = (if offset l = ELEMS_IN_BUCKET - 1
      then l\<lparr>buckets := ?bs @ [create_bucket], num_of_buckets := Suc (num_of_buckets l), offset := 0\<rparr>
      else l\<lparr>offset := Suc (offset l)\<rparr>)"
    define l2 where
      "l2 = (set_elem (tail_ix l1) (offset l1) x l1)\<lparr>num_of_elems := Suc (num_of_elems l)\<rparr>"
    have "num_of_elems l1 = num_of_elems l" by (simp add: l1_def)
    then have p: "push_back x l = l2 \<or> push_back x l = l2\<lparr>isSorted := False\<rparr>"
      using False by (auto simp: push_back_def l1_def l2_def Let_def)
    have num: "num_of_elems l = ELEMS_IN_BUCKET * tail_ix l1 + offset l1"
      using inv' False by (cases ?bs) (auto simp: l1_def tail_ix_def ELEMS_IN_BUCKET_16)
    have "take (num_of_elems l) (concat (buckets l1)) = to_list l"
      using ul_inv_num_le [OF inv] ul_inv_flat_length [OF inv]
      by (simp add: l1_def to_list_def)
    moreover have "ul_inv l2 \<and> to_list l2 = take (num_of_elems l) (concat (buckets l1)) @ [x]"
    proof -
      have "\<forall>b \<in> set (buckets l1). length b = ELEMS_IN_BUCKET" and "buckets l1 \<noteq> []"
        and "offset l1 < ELEMS_IN_BUCKET" and "num_of_buckets l1 = length (buckets l1)"
        using inv inv'(1) False by (auto simp: l1_def ul_inv_def ELEMS_IN_BUCKET_16)
      from append_cell [OF this num l2_def] show ?thesis by simp
    qed
    ultimately have "ul_inv l2 \<and> to_list l2 = to_list l @ [x]" by simp
    with p show ?thesis by (auto simp: ul_inv_def to_list_def)
  qed
  then show "ul_inv (push_back x l)" and "to_list (push_back x l) = to_list l @ [x]"
    by simp_all
qed

lemma butlast_take_flat:
  "n \<le> length xs \<Longrightarrow> butlast (take n xs) = take (n - 1) xs"
  by (simp add: butlast_take)

lemma pop_back_inv [simp]: "ul_inv l \<Longrightarrow> to_list l \<noteq> [] \<Longrightarrow> ul_inv (pop_back l)"
  and pop_back_to_list [ul_simps]:
    "ul_inv l \<Longrightarrow> to_list l \<noteq> [] \<Longrightarrow> to_list (pop_back l) = butlast (to_list l)"
proof -
  assume inv: "ul_inv l" and ne: "to_list l \<noteq> []"
  then have ne': "buckets l \<noteq> []" by (simp add: to_list_Nil_iff)
  then obtain bs t where bs: "buckets l = bs @ [t]" by (cases "buckets l" rule: rev_cases) auto
  note inv' = ul_inv_nonempty [OF inv ne']
  have num: "num_of_elems l = ELEMS_IN_BUCKET * length bs + Suc (offset l)"
    using inv' bs by (simp add: tail_ix_def)
  have uni: "\<forall>b \<in> set bs. length b = ELEMS_IN_BUCKET" using inv bs by (simp add: ul_inv_def)
  have nb: "num_of_buckets l = Suc (length bs)" using inv bs by (simp add: ul_inv_def)
  have "ul_inv (pop_back l) \<and> to_list (pop_back l) = take (num_of_elems l - 1) (concat (buckets l))"
  proof (cases "offset l = 0")
    case off: True
    show ?thesis
    proof (cases bs)
      case Nil
      then show ?thesis
        using off num nb bs by (simp add: pop_back_def ul_inv_def to_list_def Let_def)
    next
      case (Cons c cs)
      then have "\<not> length (buckets l) \<le> 1" using bs by simp
      then show ?thesis
        using off num nb bs uni Cons length_concat_uniform [OF uni]
        by (simp add: pop_back_def ul_inv_def to_list_def ELEMS_IN_BUCKET_16 size_dec_def Let_def)
    qed
  next
    case False
    then show ?thesis
      using num inv inv' bs by (simp add: pop_back_def ul_inv_def to_list_def size_dec_pos Let_def)
  qed
  then show "ul_inv (pop_back l)" and "to_list (pop_back l) = butlast (to_list l)"
    using ul_inv_num_le [OF inv] ul_inv_flat_length [OF inv]
    by (simp_all add: to_list_def butlast_take_flat)
qed

section \<open>Traversal\<close>

text \<open>The flat position of a cell that the loops have not passed the end with.\<close>

lemma live_cell_iff:
  assumes "ul_inv l" and "j < ELEMS_IN_BUCKET" and "ELEMS_IN_BUCKET * b + j \<le> num_of_elems l"
  shows "b < length (buckets l) \<and> \<not> (b = tail_ix l \<and> j = offset l + 1) \<longleftrightarrow>
    ELEMS_IN_BUCKET * b + j < num_of_elems l"
proof (cases "buckets l = []")
  case True
  with assms show ?thesis by (simp add: ul_inv_def)
next
  case False
  note inv = ul_inv_nonempty [OF assms(1) False]
  have tail: "Suc (tail_ix l) = length (buckets l)" using False by (simp add: tail_ix_def)
  show ?thesis
  proof (cases "b < tail_ix l")
    case True
    with inv assms(2) tail show ?thesis by (simp add: ELEMS_IN_BUCKET_16)
  next
    case False
    with inv assms(2,3) show ?thesis
      unfolding tail [symmetric] ELEMS_IN_BUCKET_16 by linarith
  qed
qed

lemma next_cell:
  "j < ELEMS_IN_BUCKET \<Longrightarrow> Suc (ELEMS_IN_BUCKET * b + j) =
     (if Suc j = ELEMS_IN_BUCKET then ELEMS_IN_BUCKET * Suc b + 0 else ELEMS_IN_BUCKET * b + Suc j)"
  by simp

lemma drop_live_cell:
  assumes "ul_inv l" and "j < ELEMS_IN_BUCKET" and "b < length (buckets l)"
    and "ELEMS_IN_BUCKET * b + j < num_of_elems l"
  shows "drop (ELEMS_IN_BUCKET * b + j) (to_list l) =
    elem_at l b j # drop (Suc (ELEMS_IN_BUCKET * b + j)) (to_list l)"
  using assms nth_to_list [OF assms(1,3,2,4)]
  by (metis Cons_nth_drop_Suc length_to_list)

lemma for_each_loop_correct:
  assumes "ul_inv l" and "j < ELEMS_IN_BUCKET" and "ELEMS_IN_BUCKET * b + j \<le> num_of_elems l"
  shows "for_each_loop f l b j s = fold f (drop (ELEMS_IN_BUCKET * b + j) (to_list l)) s"
  using assms
proof (induction f l b j s rule: for_each_loop.induct)
  case (1 f l b j s)
  let ?k = "ELEMS_IN_BUCKET * b + j"
  note live = live_cell_iff [OF "1.prems"]
  show ?case
  proof (cases "?k < num_of_elems l")
    case True
    with live have g: "b < length (buckets l) \<and> j < ELEMS_IN_BUCKET \<and>
        \<not> (b = tail_ix l \<and> j = offset l + 1)" using "1.prems" by blast
    have d: "drop ?k (to_list l) = elem_at l b j # drop (Suc ?k) (to_list l)"
      using drop_live_cell "1.prems" g True by blast
    let ?s = "f (elem_at l b j) s"
    have "for_each_loop f l b j s = fold f (drop (Suc ?k) (to_list l)) ?s"
    proof (cases "ELEMS_IN_BUCKET = Suc j")
      case T: True
      have "for_each_loop f l (Suc b) 0 ?s =
          fold f (drop (ELEMS_IN_BUCKET * Suc b + 0) (to_list l)) ?s"
        using T True "1.prems" by (intro "1.IH"(1) [OF g refl T]) auto
      with T g show ?thesis
        by (subst for_each_loop.simps) (simp add: next_cell Let_def)
    next
      case F: False
      have "for_each_loop f l b (Suc j) ?s =
          fold f (drop (ELEMS_IN_BUCKET * b + Suc j) (to_list l)) ?s"
        using F True "1.prems" by (intro "1.IH"(2) [OF g refl F]) auto
      with F g show ?thesis
        by (subst for_each_loop.simps) (simp add: Let_def)
    qed
    with d show ?thesis by simp
  next
    case False
    with live have stop: "(b < length (buckets l) \<and> j < ELEMS_IN_BUCKET \<and>
        \<not> (b = tail_ix l \<and> j = offset l + 1)) = False" by blast
    have "drop ?k (to_list l) = []" using False "1.prems" by simp
    then show ?thesis
      by (subst for_each_loop.simps) (simp only: stop if_False fold_simps)
  qed
qed

lemma ul_for_each_fold [ul_simps]: "ul_inv l \<Longrightarrow> ul_for_each f l s = fold f (to_list l) s"
  using for_each_loop_correct [of l 0 0 f s] to_list_Nil_iff [of l]
  by (auto simp: ul_for_each_def ul_simps)

section \<open>Searching\<close>

text \<open>The bucket and offset of a flat position.\<close>

definition cell_of :: "nat \<Rightarrow> nat \<times> nat" where
  "cell_of k = (k div ELEMS_IN_BUCKET, k mod ELEMS_IN_BUCKET)"

lemma cell_of_pos: "j < ELEMS_IN_BUCKET \<Longrightarrow> cell_of (ELEMS_IN_BUCKET * b + j) = (b, j)"
  by (simp add: cell_of_def)

lemma cell_inj:
  "j < ELEMS_IN_BUCKET \<Longrightarrow> j' < ELEMS_IN_BUCKET \<Longrightarrow>
   ELEMS_IN_BUCKET * b + j = ELEMS_IN_BUCKET * b' + j' \<longleftrightarrow> b = b' \<and> j = j'"
  by (metis cell_of_pos prod.inject)

lemma find_element_scalar_correct:
  assumes "ul_inv l" and "j < ELEMS_IN_BUCKET" and "ELEMS_IN_BUCKET * b + j \<le> num_of_elems l"
  shows "find_element_scalar l el b j =
    (let k = ELEMS_IN_BUCKET * b + j; xs = drop k (to_list l)
     in if el \<in> set xs then Some (cell_of (k + first_index el xs)) else None)"
  using assms
proof (induction l el b j rule: find_element_scalar.induct)
  case (1 l el b j)
  let ?k = "ELEMS_IN_BUCKET * b + j"
  note live = live_cell_iff [OF "1.prems"]
  show ?case
  proof (cases "?k < num_of_elems l")
    case True
    with live have g: "b < length (buckets l) \<and> j < ELEMS_IN_BUCKET \<and>
        \<not> (b = tail_ix l \<and> j = offset l + 1)" using "1.prems" by blast
    have d: "drop ?k (to_list l) = elem_at l b j # drop (Suc ?k) (to_list l)"
      using drop_live_cell "1.prems" g True by blast
    show ?thesis
    proof (cases "elem_at l b j = el")
      case E: True
      with g d "1.prems" show ?thesis
        by (subst find_element_scalar.simps) (simp add: cell_of_pos)
    next
      case N: False
      have "find_element_scalar l el b j =
        (if el \<in> set (drop (Suc ?k) (to_list l))
         then Some (cell_of (Suc ?k + first_index el (drop (Suc ?k) (to_list l)))) else None)"
      proof (cases "Suc j = ELEMS_IN_BUCKET")
        case T: True
        have "find_element_scalar l el (Suc b) 0 =
          (let k = ELEMS_IN_BUCKET * Suc b + 0; xs = drop k (to_list l)
           in if el \<in> set xs then Some (cell_of (k + first_index el xs)) else None)"
          using T True "1.prems" by (intro "1.IH"(1) [OF g N T]) auto
        with T N g show ?thesis
          by (subst find_element_scalar.simps) (simp add: next_cell Let_def)
      next
        case F: False
        have "find_element_scalar l el b (Suc j) =
          (let k = ELEMS_IN_BUCKET * b + Suc j; xs = drop k (to_list l)
           in if el \<in> set xs then Some (cell_of (k + first_index el xs)) else None)"
          using F True "1.prems" by (intro "1.IH"(2) [OF g N F]) auto
        with F N g show ?thesis
          by (subst find_element_scalar.simps) (simp add: Let_def)
      qed
      with d N show ?thesis by (auto simp: Let_def)
    qed
  next
    case False
    with live have stop: "(b < length (buckets l) \<and> j < ELEMS_IN_BUCKET \<and>
        \<not> (b = tail_ix l \<and> j = offset l + 1)) = False" by blast
    have "drop ?k (to_list l) = []" using False "1.prems" by simp
    then show ?thesis
      by (subst find_element_scalar.simps)
         (simp only: stop if_False Let_def list.set empty_iff simp_thms)
  qed
qed

lemma windows_single: "windows = [0]"
  by (simp add: windows_def ELEMS_IN_BUCKET_16)

lemma END_MASK_minus_1: "END_MASK = -1"
  by (simp add: END_MASK_def)

lemma END_MASK_and [simp]: "m AND END_MASK = m"
  unfolding END_MASK_minus_1 by simp

lemma find_in_windows_correct:
  assumes "length bucket = ELEMS_IN_BUCKET"
  shows "find_in_windows el bucket windows =
    (if el \<in> set bucket then Some (first_index el bucket) else None)"
proof -
  from assms have len: "length bucket = 16" by (simp add: ELEMS_IN_BUCKET_16)
  let ?m = "cmpeq_epi32_mask (set1_epi32 el) bucket"
  have bit: "bit ?m i \<longleftrightarrow> i < 16 \<and> el = bucket ! i" for i
    using len by (auto simp: bit_cmpeq)
  have zero: "?m = 0 \<longleftrightarrow> el \<notin> set bucket"
    using len by (auto simp: mmask16_zero_iff bit in_set_conv_nth)
  have "first_index el bucket = builtin_ctz ?m" if "el \<in> set bucket"
  proof (rule ccontr)
    assume ne: "first_index el bucket \<noteq> builtin_ctz ?m"
    from that zero have nz: "?m \<noteq> 0" by simp
    have "bucket ! first_index el bucket = el" "first_index el bucket < 16"
      using that len first_index_less [OF that] by (simp_all add: first_index_nth)
    with builtin_ctz_props [OF nz] bit ne have "builtin_ctz ?m < first_index el bucket"
      by (metis linorder_neqE_nat)
    with first_index_minimal [OF this] builtin_ctz_props [OF nz] bit len show False by auto
  qed
  with zero len show ?thesis by (simp add: windows_single ELEMS_IN_BUCKET_16 Let_def)
qed

lemma find_element_avx_correct:
  assumes "\<forall>b \<in> set bs. length b = ELEMS_IN_BUCKET"
  shows "find_element_avx el bs pom =
    (if el \<in> set (concat bs) then Some (cell_of (ELEMS_IN_BUCKET * pom + first_index el (concat bs)))
     else None)"
  using assms
proof (induction bs arbitrary: pom)
  case (Cons b bs)
  then have len: "length b = ELEMS_IN_BUCKET" by simp
  show ?case
  proof (cases "el \<in> set b")
    case True
    with first_index_less [OF True] len show ?thesis
      by (simp add: find_in_windows_correct first_index_append cell_of_pos)
  next
    case False
    with Cons len show ?thesis
      by (simp add: find_in_windows_correct first_index_append algebra_simps)
  qed
qed simp

text \<open>The cells of the tail bucket that are no longer, or not yet, in use.\<close>

definition dead_cells :: "ulist \<Rightarrow> key list" where
  "dead_cells l = drop (num_of_elems l) (concat (buckets l))"

lemma flat_split: "concat (buckets l) = to_list l @ dead_cells l"
  by (simp add: to_list_def dead_cells_def)

lemma find_element_live:
  assumes "ul_inv l" and "el \<in> set (to_list l)"
  shows "find_element bld el l = Some (cell_of (first_index el (to_list l)))"
  using assms find_element_scalar_correct [OF assms(1), of 0 0 el]
  by (simp add: find_element_def find_element_avx_correct ul_inv_def flat_split first_index_append)

lemma find_element_absent:
  assumes "ul_inv l" and "el \<notin> set (to_list l)"
    and "USE_AVX512 bld \<Longrightarrow> el \<notin> set (dead_cells l)"
  shows "find_element bld el l = None"
  using assms find_element_scalar_correct [OF assms(1), of 0 0 el]
  by (simp add: find_element_def find_element_avx_correct ul_inv_def flat_split)

section \<open>Removing\<close>

lemma cell_of_in_range:
  assumes "ul_inv l" and "k < num_of_elems l" and "cell_of k = (b, j)"
  shows "b < length (buckets l)" and "j < ELEMS_IN_BUCKET" and "ELEMS_IN_BUCKET * b + j = k"
proof -
  from assms(3) have b: "b = k div ELEMS_IN_BUCKET" and j: "j = k mod ELEMS_IN_BUCKET"
    by (simp_all add: cell_of_def)
  show "j < ELEMS_IN_BUCKET" by (simp add: j)
  show "ELEMS_IN_BUCKET * b + j = k" by (simp add: b j)
  have "k < ELEMS_IN_BUCKET * length (buckets l)"
    using ul_inv_num_le [OF assms(1)] assms(2) by simp
  then show "b < length (buckets l)"
    by (simp add: b less_mult_imp_div_less mult.commute)
qed

lemma set_elem_correct:
  assumes "ul_inv l" and "k < num_of_elems l" and "cell_of k = (b, j)"
  shows "ul_inv (set_elem b j x l)" and "to_list (set_elem b j x l) = (to_list l)[k := x]"
proof -
  note c = cell_of_in_range [OF assms]
  have uni: "\<forall>b \<in> set (buckets l). length b = ELEMS_IN_BUCKET"
    using assms(1) by (simp add: ul_inv_def)
  have "buckets l \<noteq> []" using c(1) by auto
  moreover have "buckets (set_elem b j x l) \<noteq> []" using c(1) by (auto simp: set_elem_def)
  ultimately show "ul_inv (set_elem b j x l)"
    using assms(1) set_elem_uniform [OF uni c(1)] unfolding ul_inv_def by simp
  show "to_list (set_elem b j x l) = (to_list l)[k := x]"
    unfolding to_list_def set_elem_flat [OF uni c(1,2)] c(3)
    using assms(2) by (simp add: take_update_swap)
qed

lemma tail_elem_last:
  assumes "ul_inv l" and "to_list l \<noteq> []"
  shows "elem_at l (tail_ix l) (offset l) = last (to_list l)"
  using ul_back_correct [OF assms] assms by (simp add: ul_back_def ul_simps)

lemma remove_inv: "ul_inv l \<Longrightarrow> el \<in> set (to_list l) \<Longrightarrow> ul_inv (remove bld el l)"
  and remove_to_list: "ul_inv l \<Longrightarrow> el \<in> set (to_list l) \<Longrightarrow>
    to_list (remove bld el l) =
      butlast ((to_list l)[first_index el (to_list l) := last (to_list l)])"
proof -
  assume inv: "ul_inv l" and el: "el \<in> set (to_list l)"
  let ?k = "first_index el (to_list l)"
  obtain b j where c: "cell_of ?k = (b, j)" by (cases "cell_of ?k")
  have ne: "to_list l \<noteq> []" using el by auto
  have k: "?k < num_of_elems l" using first_index_less [OF el] inv by simp
  define l1 where "l1 = set_elem b j (last (to_list l)) l"
  have l1: "ul_inv l1" "to_list l1 = (to_list l)[?k := last (to_list l)]"
    unfolding l1_def using set_elem_correct [OF inv k c] by simp_all
  have "remove bld el l = pop_back l1"
    using c by (simp add: remove_def find_element_live [OF inv el] tail_elem_last [OF inv ne] l1_def)
  moreover have "to_list l1 \<noteq> []" using l1(2) ne by simp
  ultimately show "ul_inv (remove bld el l)"
    and "to_list (remove bld el l) = butlast ((to_list l)[?k := last (to_list l)])"
    using l1 by (simp_all add: ul_simps)
qed

lemma remove_mset:
  assumes "ul_inv l" and "el \<in> set (to_list l)"
  shows "mset (to_list (remove bld el l)) = mset (to_list l) - {#el#}"
  using mset_overwrite_by_last [OF first_index_less [OF assms(2)]]
  by (simp add: remove_to_list [OF assms] first_index_nth [OF assms(2)])

lemma remove_distinct:
  assumes "ul_inv l" and "el \<in> set (to_list l)" and "distinct (to_list l)"
  shows "distinct (to_list (remove bld el l))"
    and "set (to_list (remove bld el l)) = set (to_list l) - {el}"
proof -
  have m: "mset (to_list (remove bld el l)) = mset (remove1 el (to_list l))"
    by (simp add: remove_mset [OF assms(1,2)])
  from mset_eq_imp_distinct_iff [OF m] show "distinct (to_list (remove bld el l))"
    using assms(3) by simp
  from mset_eq_setD [OF m] show "set (to_list (remove bld el l)) = set (to_list l) - {el}"
    using assms(3) by simp
qed

lemma remove_absent:
  assumes "ul_inv l" and "el \<notin> set (to_list l)"
    and "USE_AVX512 bld \<Longrightarrow> el \<notin> set (dead_cells l)"
  shows "remove bld el l = l"
  using find_element_absent [OF assms] by (simp add: remove_def)

section \<open>The iterator\<close>

text \<open>The number of keys \<open>get_next\<close> has handed out since the last reset.\<close>

definition iter_pos :: "ulist \<Rightarrow> nat" where
  "iter_pos l = (case iter l of None \<Rightarrow> 0 | Some b \<Rightarrow> Suc (ELEMS_IN_BUCKET * b + iter_offs l))"

definition iter_inv :: "ulist \<Rightarrow> bool" where
  "iter_inv l \<longleftrightarrow> ul_inv l \<and> iter_pos l \<le> num_of_elems l \<and>
     (iter l \<noteq> None \<longrightarrow> iter_offs l < ELEMS_IN_BUCKET)"

lemma iter_inv_reset [simp]: "ul_inv l \<Longrightarrow> iter_inv (reset_iterator l)"
  by (simp add: iter_inv_def reset_iterator_def iter_pos_def ul_inv_def)

lemma iter_pos_reset [simp]: "iter_pos (reset_iterator l) = 0"
  by (simp add: reset_iterator_def iter_pos_def)

lemma to_list_reset [simp]: "to_list (reset_iterator l) = to_list l"
  by (simp add: reset_iterator_def to_list_def)

lemma at_tail_iff:
  assumes "iter_inv l" and "buckets l \<noteq> []"
  shows "iter l = Some (tail_ix l) \<and> iter_offs l = offset l \<longleftrightarrow> iter_pos l = num_of_elems l"
proof (cases "iter l")
  case None
  with assms show ?thesis by (simp add: iter_inv_def iter_pos_def num_of_elems_0_iff)
next
  case (Some b)
  have "ul_inv l" using assms(1) by (simp add: iter_inv_def)
  note inv = ul_inv_nonempty [OF this assms(2)]
  have j: "iter_offs l < ELEMS_IN_BUCKET" using assms(1) Some by (simp add: iter_inv_def)
  have "ELEMS_IN_BUCKET * b + iter_offs l = ELEMS_IN_BUCKET * tail_ix l + offset l \<longleftrightarrow>
      b = tail_ix l \<and> iter_offs l = offset l"
    using j inv(1) by (rule cell_inj)
  with inv(2) Some show ?thesis by (simp add: iter_pos_def)
qed

lemma end_iter_correct:
  assumes "iter_inv l"
  shows "end_iter l \<longleftrightarrow> iter_pos l = length (to_list l)"
proof (cases "buckets l = []")
  case True
  with assms show ?thesis by (auto simp: end_iter_def iter_inv_def ul_inv_def)
next
  case False
  with assms at_tail_iff [OF assms False] show ?thesis
    by (auto simp: end_iter_def iter_inv_def)
qed

lemma get_next_end:
  assumes "iter_inv l" and "iter_pos l = length (to_list l)"
  shows "get_next l = (EMPTY_KEY, l)"
  using end_iter_correct [OF assms(1)] assms(2)
  by (auto simp: get_next_def end_iter_def EMPTY_KEY_def)

lemma get_next_step:
  assumes inv: "iter_inv l" and pos: "iter_pos l < length (to_list l)"
    and nx: "get_next l = (x, l')"
  shows "x = to_list l ! iter_pos l" and "iter_inv l'" and "iter_pos l' = Suc (iter_pos l)"
    and "to_list l' = to_list l"
proof -
  have ul: "ul_inv l" using inv by (simp add: iter_inv_def)
  have "num_of_elems l \<noteq> 0" using pos ul by simp
  then have ne: "buckets l \<noteq> []" by (simp add: num_of_elems_0_iff [OF ul])
  define b where "b = iter_pos l div ELEMS_IN_BUCKET"
  define j where "j = iter_pos l mod ELEMS_IN_BUCKET"
  define l1 where "l1 = l\<lparr>iter := Some b, iter_offs := j\<rparr>"
  have k: "ELEMS_IN_BUCKET * b + j = iter_pos l" and j: "j < ELEMS_IN_BUCKET"
    by (simp_all add: b_def j_def)
  have less: "iter_pos l < num_of_elems l" using pos ul by simp
  have "cell_of (iter_pos l) = (b, j)" by (simp add: cell_of_def b_def j_def)
  note c = cell_of_in_range [OF ul less this]
  have "get_next l = (elem_at l1 b j, l1)"
  proof (cases "iter l")
    case None
    with ne show ?thesis by (simp add: get_next_def l1_def b_def j_def iter_pos_def Let_def)
  next
    case (Some b')
    have "\<not> (iter l = Some (tail_ix l) \<and> iter_offs l = offset l)"
      using at_tail_iff [OF inv ne] less by simp
    moreover have "iter_offs l < ELEMS_IN_BUCKET" using inv Some by (simp add: iter_inv_def)
    moreover have "iter_pos l = Suc (ELEMS_IN_BUCKET * b' + iter_offs l)"
      using Some by (simp add: iter_pos_def)
    ultimately show ?thesis
      using Some ne k j
      by (auto simp: get_next_def l1_def b_def j_def Let_def elem_at_def ELEMS_IN_BUCKET_16
          div_Suc mod_Suc)
  qed
  with nx have l': "l' = l1" and x: "x = elem_at l b j" by (simp_all add: l1_def elem_at_def)
  show "x = to_list l ! iter_pos l"
    using nth_to_list [OF ul c(1) j] less k x by simp
  show "to_list l' = to_list l" by (simp add: l' l1_def to_list_def)
  show p: "iter_pos l' = Suc (iter_pos l)" using k by (simp add: l' l1_def iter_pos_def)
  have "ul_inv l'" using ul by (simp add: l' l1_def ul_inv_def)
  with p less j show "iter_inv l'" by (simp add: iter_inv_def l' l1_def)
qed

section \<open>Copying and clearing\<close>

lemma copy_elems_correct:
  "\<lbrakk>length novi = length pom; n \<le> length pom\<rbrakk>
   \<Longrightarrow> copy_elems [0..<n] pom novi = take n pom @ drop n novi"
proof -
  have app: "copy_elems (ks @ js) pom novi = copy_elems js pom (copy_elems ks pom novi)"
    for ks js and novi :: "key list"
    by (induction ks arbitrary: novi) auto
  assume "length novi = length pom" "n \<le> length pom"
  then show ?thesis
    by (induction n)
      (auto simp: app list_update_append take_Suc_conv_app_nth Cons_nth_drop_Suc [symmetric])
qed

lemma copy_list_correct:
  "\<forall>b \<in> set bs. length b = ELEMS_IN_BUCKET \<Longrightarrow> copy_list bs = bs"
  by (induction bs) (auto simp: copy_elems_correct)

lemma copy_correct:
  assumes "ul_inv l"
  shows "ul_inv (UnrolledList_copy l)" and "to_list (UnrolledList_copy l) = to_list l"
    and "iter_pos (UnrolledList_copy l) = 0"
  using assms by (simp_all add: UnrolledList_copy_def ul_inv_def to_list_def copy_list_correct
      iter_pos_def)

lemma kill_buckets_fields:
  "kill_buckets l bs = l\<lparr>buckets := []\<rparr>"
  by (induction bs arbitrary: l) auto

lemma kill_list_correct: "ul_inv (kill_list l)" "to_list (kill_list l) = []"
  by (simp_all add: kill_list_def kill_buckets_fields ul_inv_def to_list_def)

section \<open>The sortedness flag\<close>

definition sorted_keys :: "key list \<Rightarrow> bool" where
  "sorted_keys xs \<longleftrightarrow> sorted (map sint xs)"

definition flag_sound :: "ulist \<Rightarrow> bool" where
  "flag_sound l \<longleftrightarrow> (isSorted l \<longrightarrow> sorted_keys (to_list l))"

lemma isSorted_push_back:
  "isSorted (push_back x l) \<longleftrightarrow>
     isSorted l \<and> (buckets l = [] \<or> sint (elem_at l (tail_ix l) (offset l)) \<le> sint x)"
  by (auto simp: push_back_def Let_def not_less)

lemma sorted_snoc_last:
  "sorted (xs @ [x :: int]) \<longleftrightarrow> sorted xs \<and> (xs = [] \<or> last xs \<le> x)"
proof (cases xs rule: rev_cases)
  case (snoc ys y)
  then show ?thesis by (fastforce simp: sorted_append)
qed simp

lemma push_back_flag_sound:
  assumes "ul_inv l" and "flag_sound l"
  shows "flag_sound (push_back x l)"
proof (cases "to_list l = []")
  case True
  then show ?thesis using assms(1) by (simp add: flag_sound_def sorted_keys_def ul_simps)
next
  case False
  then have "buckets l \<noteq> []" using assms(1) by (simp add: to_list_Nil_iff)
  with assms False tail_elem_last [OF assms(1) False] show ?thesis
    by (auto simp: flag_sound_def sorted_keys_def ul_simps isSorted_push_back sorted_snoc_last
        last_map)
qed

lemma isSorted_pop_back [simp]: "isSorted (pop_back l) = isSorted l"
  by (simp add: pop_back_def Let_def)

lemma pop_back_flag_sound:
  assumes "ul_inv l" and "to_list l \<noteq> []" and "flag_sound l"
  shows "flag_sound (pop_back l)"
proof -
  obtain ys y where "to_list l = ys @ [y]" using assms(2) by (cases "to_list l" rule: rev_cases) auto
  with assms show ?thesis
    by (simp add: flag_sound_def sorted_keys_def ul_simps sorted_snoc_last)
qed

section \<open>The list interface\<close>

text \<open>
  What the hash set asks of its element list: appending and dropping at the back, the last
  element, the length and an in-order traversal.  The lemmas of the locale are the two loops
  the set runs over a list: filling one by \<open>push_back\<close>, and emptying one from the back.
\<close>

locale elem_list =
  fixes inv :: "'l \<Rightarrow> bool"
    and elems :: "'l \<Rightarrow> 'a list"
    and new :: 'l
    and push :: "'a \<Rightarrow> 'l \<Rightarrow> 'l"
    and pop :: "'l \<Rightarrow> 'l"
    and last_of :: "'l \<Rightarrow> 'a"
    and size_of :: "'l \<Rightarrow> nat"
  assumes inv_new: "inv new"
    and elems_new: "elems new = []"
    and inv_push: "inv l \<Longrightarrow> inv (push x l)"
    and elems_push: "inv l \<Longrightarrow> elems (push x l) = elems l @ [x]"
    and inv_pop: "inv l \<Longrightarrow> elems l \<noteq> [] \<Longrightarrow> inv (pop l)"
    and elems_pop: "inv l \<Longrightarrow> elems l \<noteq> [] \<Longrightarrow> elems (pop l) = butlast (elems l)"
    and last_of: "inv l \<Longrightarrow> elems l \<noteq> [] \<Longrightarrow> last_of l = last (elems l)"
    and size_of: "inv l \<Longrightarrow> size_of l = length (elems l)"
begin

lemma push_all:
  "inv l \<Longrightarrow> inv (fold push xs l) \<and> elems (fold push xs l) = elems l @ xs"
  by (induction xs arbitrary: l) (simp_all add: inv_push elems_push)

lemma push_filter:
  "inv l \<Longrightarrow> inv (fold (\<lambda>x l. if P x then push x l else l) xs l) \<and>
    elems (fold (\<lambda>x l. if P x then push x l else l) xs l) = elems l @ filter P xs"
  by (induction xs arbitrary: l) (simp_all add: inv_push elems_push)

lemma split_last:
  assumes "inv l" and "elems l \<noteq> []"
  obtains ys y where "elems l = ys @ [y]" "last_of l = y" "inv (pop l)" "elems (pop l) = ys"
proof -
  obtain ys y where "elems l = ys @ [y]" using assms(2) by (cases "elems l" rule: rev_cases) auto
  with assms that show ?thesis by (simp add: last_of inv_pop elems_pop)
qed

end

interpretation ul: elem_list ul_inv to_list UnrolledList push_back pop_back ul_back ul_size
  by unfold_locales (simp_all add: ul_simps)

end
