(* ===== verification/SimpleHashTable.thy ===== *)
theory SimpleHashTable
  imports Avx512
begin

text \<open>
  The open-addressing hash table of \<^verbatim>\<open>include/SimpleHashTable.h\<close>: an array of
  \<open>capacity\<close> slots, a power of two, followed by \<open>VECTOR_SIZE - 1\<close> cells that hold
  \<open>INVAL_KEY\<close> so that a vector load may start at any slot.  Both lookups (scalar and
  vector), both insertions and the hopscotch insertion with its reconstruction are modelled.
\<close>

section \<open>State and environment\<close>

record hash_table =
  array :: "key list"
  capacity :: nat
  phys_capacity :: nat
  num_of_keys :: nat              \<comment> \<open>\<open>num_of_elems\<close>\<close>
  number_of_attempts :: nat
  a_hash :: u32
  b_hash :: u32
  M_hash :: nat

text \<open>
  The constructor leaves the hash parameters uninitialised; no operation reads them before
  \<open>reserve\<close> has set them, since every lookup of an empty table returns at once.
\<close>

definition SimpleHashTable :: hash_table where
  "SimpleHashTable = \<lparr>array = [], capacity = 0, phys_capacity = 0, num_of_keys = 0,
     number_of_attempts = 0, a_hash = 0, b_hash = 0, M_hash = 0\<rparr>"

text \<open>
  What \<open>reserve\<close> takes from its surroundings.  \<open>rand_r\<close> returns a value and the next seed.
  \<open>time_at M\<close> is the clock when the table is given \<open>2 ^ M\<close> slots; a table is sized to each
  power at most once, because every reconstruction doubles it.  \<open>shl_overflow\<close> is what the
  target makes of \<open>1 << 32\<close> on a 32-bit \<open>int\<close>, which the language leaves undefined: an
  error, or the value the instruction yields.
\<close>

record env =
  rand_r :: "u32 \<Rightarrow> u32 \<times> u32"
  time_at :: "nat \<Rightarrow> u32"
  shl_overflow :: "nat result"

definition builtin_clz :: "u32 \<Rightarrow> nat" where
  "builtin_clz x = length (takeWhile (\<lambda>i. \<not> bit x i) (rev [0..<32]))"

section \<open>Sizing\<close>

definition shift_one_left :: "env \<Rightarrow> nat \<Rightarrow> nat result" where
  "shift_one_left e n =
     (if n < 31 then Inr (2 ^ n)
      else if n = 31 then Inl AllocFailed  \<comment> \<open>negative, so a \<open>size_t\<close> near \<open>2 ^ 64\<close>\<close>
      else shl_overflow e)"

text \<open>
  \<open>2 * cap - 1\<close> is computed as a \<open>size_t\<close> and passed to a builtin that takes 32 bits.
\<close>

definition index_bits :: "nat \<Rightarrow> nat" where
  "index_bits cap = 32 - builtin_clz (word_of_int (2 * int cap - 1))"

definition reserve :: "build \<Rightarrow> env \<Rightarrow> nat \<Rightarrow> hash_table \<Rightarrow> hash_table result" where
  "reserve bld e cap t =
     bind_result (shift_one_left e (index_bits cap)) (\<lambda>cap'.
       let phys = cap' + VECTOR_SIZE bld - 1;
           M = index_bits cap;
           local_seed = time_at e M;
           (r1, local_seed) = rand_r e local_seed;
           (r2, local_seed) = rand_r e local_seed
       in Inr (t\<lparr>capacity := cap', num_of_keys := 0, phys_capacity := phys,
                 number_of_attempts := (if USE_HOPSCOTCH bld then HS_BUCKET_SIZE else phys),
                 M_hash := M, a_hash := r1 OR 1, b_hash := r2 AND (push_bit (32 - M) 1 - 1),
                 array := replicate cap' EMPTY_KEY @ replicate (phys - cap') INVAL_KEY\<rparr>))"

section \<open>Hashing\<close>

definition hashFunction :: "hash_table \<Rightarrow> key \<Rightarrow> u32" where
  "hashFunction t el = drop_bit (32 - M_hash t) (el * a_hash t + b_hash t)"

definition vectorHashFunction :: "hash_table \<Rightarrow> m512 \<Rightarrow> m512" where
  "vectorHashFunction t el_vector =
     (let a_vec = set1_epi32 (a_hash t); b_vec = set1_epi32 (b_hash t);
          rem_vec = mullo_epi32 a_vec el_vector;
          rem_vec = add_epi32 rem_vec b_vec
      in srli_epi32 rem_vec (32 - M_hash t))"

abbreviation home :: "hash_table \<Rightarrow> key \<Rightarrow> nat" where
  "home t el \<equiv> unat (hashFunction t el)"

section \<open>Lookup\<close>

definition ht_for_each :: "(key \<Rightarrow> 's \<Rightarrow> 's) \<Rightarrow> hash_table \<Rightarrow> 's \<Rightarrow> 's" where
  "ht_for_each f t s =
     fold (\<lambda>i s. if array t ! i \<noteq> EMPTY_KEY \<and> array t ! i \<noteq> INVAL_KEY
                 then f (array t ! i) s else s) [0..<phys_capacity t] s"

definition read_cell :: "key list \<Rightarrow> nat \<Rightarrow> key result" where
  "read_cell arr i = (if i < length arr then Inr (arr ! i) else Inl OutOfBounds)"

fun contains_loop :: "hash_table \<Rightarrow> key \<Rightarrow> nat \<Rightarrow> nat \<Rightarrow> bool result" where
  "contains_loop t el 0 pos = Inr False"
| "contains_loop t el (Suc n) pos =
     bind_result (read_cell (array t) pos) (\<lambda>cell.
       if cell = el then Inr True
       else if cell = -1 then Inr False
       else contains_loop t el n ((pos + 1) mod capacity t))"

fun contains_avx_loop :: "hash_table \<Rightarrow> key \<Rightarrow> nat \<Rightarrow> nat \<Rightarrow> bool result" where
  "contains_avx_loop t el 0 pos = Inr False"
| "contains_avx_loop t el (Suc n) pos =
     bind_result (loadu_epi32 (array t) pos) (\<lambda>elem_vec.
       let el_cmp_mask = cmpeq_epi32_mask elem_vec (set1_epi32 el);
           empty_cmp_mask = cmpeq_epi32_mask elem_vec (set1_epi32 EMPTY_KEY)
       in if el_cmp_mask \<noteq> 0 then Inr True
          else if empty_cmp_mask \<noteq> 0 then Inr False
          else let pos = pos + 16; pos = (if pos > capacity t then 0 else pos)
               in contains_avx_loop t el n pos)"

text \<open>The default argument \<open>pos = -1\<close> is \<open>None\<close>.\<close>

definition contains :: "build \<Rightarrow> hash_table \<Rightarrow> key \<Rightarrow> nat option \<Rightarrow> bool result" where
  "contains bld t el pos =
     (if num_of_keys t = 0 then Inr False
      else let pos = (case pos of None \<Rightarrow> home t el | Some p \<Rightarrow> p) in
        if USE_AVX512 bld then contains_avx_loop t el (number_of_attempts t div 16 + 1) pos
        else contains_loop t el (number_of_attempts t) pos)"

definition vector_lookup :: "build \<Rightarrow> hash_table \<Rightarrow> m512 \<Rightarrow> mmask16 \<Rightarrow> mmask16 result" where
  "vector_lookup bld t el_vector msk =
     (if num_of_keys t = 0 then Inr 0
      else let rem_vec = vectorHashFunction t el_vector in
        bind_result (mask_i32gather_epi32 (set1_epi32 INVAL_KEY) msk rem_vec (array t)) (\<lambda>fetched_vec.
          let el_cmp_mask = msk AND cmpeq_epi32_mask el_vector fetched_vec;
              empty_cmp_mask = cmpeq_epi32_mask (set1_epi32 EMPTY_KEY) fetched_vec;
              done_mask = el_cmp_mask OR empty_cmp_mask OR NOT msk
          in fold_result (\<lambda>i el_cmp_mask.
               if NOT done_mask AND push_bit i 1 \<noteq> 0
               then bind_result (contains bld t (el_vector ! i) (Some (unat (rem_vec ! i))))
                      (\<lambda>found. Inr (el_cmp_mask OR push_bit i (of_bool found)))
               else Inr el_cmp_mask) [0..<16] el_cmp_mask))"

section \<open>Insertion without hopscotch\<close>

fun insert_probe :: "hash_table \<Rightarrow> key \<Rightarrow> nat \<Rightarrow> nat \<Rightarrow> nat option result" where
  "insert_probe t el 0 pos = Inr (Some pos)"
| "insert_probe t el (Suc n) pos =
     bind_result (read_cell (array t) pos) (\<lambda>cell.
       if cell = -1 then Inr (Some pos)
       else if cell = el then Inr None
       else insert_probe t el n ((pos + 1) mod capacity t))"

fun insert_avx_probe :: "hash_table \<Rightarrow> key \<Rightarrow> nat \<Rightarrow> nat \<Rightarrow> nat option result" where
  "insert_avx_probe t el 0 pos = Inl OutOfBounds  \<comment> \<open>\<open>result_pos\<close> is still \<open>-1\<close>\<close>"
| "insert_avx_probe t el (Suc n) pos =
     bind_result (loadu_epi32 (array t) pos) (\<lambda>elem_vec.
       let el_cmp_mask = cmpeq_epi32_mask elem_vec (set1_epi32 el);
           empty_cmp_mask = cmpeq_epi32_mask elem_vec (set1_epi32 EMPTY_KEY);
           off = builtin_ctz empty_cmp_mask
       in if el_cmp_mask \<noteq> 0 then Inr None
          else if empty_cmp_mask \<noteq> 0 then Inr (Some (pos + off))
          else let pos = pos + 16; pos = (if pos > capacity t then 0 else pos)
               in insert_avx_probe t el n pos)"

definition ht_insert :: "build \<Rightarrow> key \<Rightarrow> hash_table \<Rightarrow> hash_table result" where
  "ht_insert bld el t =
     bind_result
       (if USE_AVX512 bld
        then insert_avx_probe t el (number_of_attempts t div 16 + 1) (home t el)
        else insert_probe t el (number_of_attempts t) (home t el))
       (\<lambda>pos. case pos of
          None \<Rightarrow> Inr t
        | Some pos \<Rightarrow>
            if pos < length (array t)
            then Inr (t\<lparr>array := (array t)[pos := el], num_of_keys := Suc (num_of_keys t)\<rparr>)
            else Inl OutOfBounds)"

section \<open>Hopscotch insertion\<close>

definition distance :: "nat \<Rightarrow> nat \<Rightarrow> nat \<Rightarrow> nat" where
  "distance first second cap =
     (if first \<ge> second then first - second else first + cap - second)"

text \<open>
  The probe answers \<open>None\<close> when the key is found, else the position where it stopped.  All
  positions are reduced modulo \<open>capacity\<close>, so the reads are in range.
\<close>

fun hopscotch_probe :: "hash_table \<Rightarrow> key \<Rightarrow> nat \<Rightarrow> nat \<Rightarrow> nat option" where
  "hopscotch_probe t el 0 pos = Some pos"
| "hopscotch_probe t el (Suc n) pos =
     (if array t ! pos = EMPTY_KEY then Some pos
      else if array t ! pos = el then None
      else hopscotch_probe t el n ((pos + 1) mod capacity t))"

text \<open>
  The scan \<open>for (j = start; j != pos; j = (j+1) % capacity)\<close>; it meets \<open>pos\<close> within
  \<open>capacity\<close> steps.
\<close>

fun find_movable :: "hash_table \<Rightarrow> nat \<Rightarrow> nat \<Rightarrow> nat \<Rightarrow> nat option" where
  "find_movable t pos 0 j = None"
| "find_movable t pos (Suc n) j =
     (if j = pos then None
      else if distance pos (home t (array t ! j)) (capacity t) \<le> HS_BUCKET_SIZE - 1 then Some j
      else find_movable t pos n ((j + 1) mod capacity t))"

text \<open>
  Moving the free slot towards \<open>init_pos\<close>: the result says whether it came close enough.
  Every round brings it nearer, so \<open>capacity\<close> rounds are enough.
\<close>

fun displace :: "nat \<Rightarrow> nat \<Rightarrow> nat \<Rightarrow> hash_table \<Rightarrow> (bool \<times> nat \<times> hash_table) result" where
  "displace 0 init_pos pos t = Inl OutOfFuel"
| "displace (Suc n) init_pos pos t =
     (if distance pos init_pos (capacity t) \<ge> HS_BUCKET_SIZE then
        (let start = (if pos + 1 < HS_BUCKET_SIZE then pos + 1 + capacity t - HS_BUCKET_SIZE
                      else pos + 1 - HS_BUCKET_SIZE)
         in case find_movable t pos (capacity t) start of
              None \<Rightarrow> Inr (False, pos, t)
            | Some j \<Rightarrow> displace n init_pos j (t\<lparr>array := (array t)[pos := array t ! j]\<rparr>))
      else Inr (True, pos, t))"

text \<open>
  \<open>hopscotchTryInsert\<close>, \<open>hopscotchInsert\<close> and \<open>hopscotchReconstruct\<close> call each other; the
  first two take the reconstruction as an argument.
\<close>

definition hopscotchTryInsert ::
  "(hash_table \<Rightarrow> hash_table result) \<Rightarrow> key \<Rightarrow> hash_table \<Rightarrow> (bool \<times> hash_table) result" where
  "hopscotchTryInsert reconstruct el t =
     (let init_pos = home t el in
      case hopscotch_probe t el (capacity t) init_pos of
        None \<Rightarrow> Inr (True, t)
      | Some pos \<Rightarrow>
          bind_result (displace (Suc (capacity t)) init_pos pos t) (\<lambda>(found, pos, t).
            if found
            then Inr (True, t\<lparr>array := (array t)[pos := el], num_of_keys := Suc (num_of_keys t)\<rparr>)
            else bind_result (reconstruct t) (\<lambda>t. Inr (False, t))))"

fun hopscotchInsert_loop ::
  "(hash_table \<Rightarrow> hash_table result) \<Rightarrow> key \<Rightarrow> nat \<Rightarrow> hash_table \<Rightarrow> hash_table result" where
  "hopscotchInsert_loop reconstruct el 0 t = Inl HopscotchFailed"
| "hopscotchInsert_loop reconstruct el (Suc cnt) t =
     bind_result (hopscotchTryInsert reconstruct el t) (\<lambda>(success, t).
       if success then Inr t
       else bind_result (reconstruct t) (hopscotchInsert_loop reconstruct el cnt))"

primrec hopscotchReconstruct :: "build \<Rightarrow> env \<Rightarrow> nat \<Rightarrow> hash_table \<Rightarrow> hash_table result" where
  "hopscotchReconstruct bld e 0 t = Inl OutOfFuel"
| "hopscotchReconstruct bld e (Suc n) t =
     (let oldArray = array t; old_capac = phys_capacity t in
      bind_result (reserve bld e (capacity t) t) (\<lambda>t.
        fold_result (\<lambda>i t.
          if oldArray ! i \<noteq> EMPTY_KEY \<and> oldArray ! i \<noteq> INVAL_KEY
          then hopscotchInsert_loop (hopscotchReconstruct bld e n) (oldArray ! i) 10 t
          else Inr t) [0..<old_capac] t))"

text \<open>
  A reconstruction doubles the table and \<open>reserve\<close> fails beyond \<open>2 ^ 30\<close> slots, so nested
  reconstructions are at most 31 deep; 32 levels of fuel are never used up.
\<close>

definition hopscotchInsert :: "build \<Rightarrow> env \<Rightarrow> key \<Rightarrow> hash_table \<Rightarrow> hash_table result" where
  "hopscotchInsert bld e el t = hopscotchInsert_loop (hopscotchReconstruct bld e 32) el 10 t"

section \<open>Positions on the ring of slots\<close>

lemma ring_add:
  "h < (cap :: nat) \<Longrightarrow> k \<le> cap \<Longrightarrow> (h + k) mod cap = (if h + k < cap then h + k else h + k - cap)"
  by (simp add: mod_if)

lemma distance_less [simp]: "p < cap \<Longrightarrow> h < cap \<Longrightarrow> distance p h cap < cap"
  by (auto simp: distance_def)

lemma distance_self [simp]: "distance h h cap = 0"
  by (simp add: distance_def)

lemma ring_distance [simp]: "p < cap \<Longrightarrow> h < cap \<Longrightarrow> (h + distance p h cap) mod cap = p"
  by (simp add: distance_def)

lemma distance_ring [simp]: "d < cap \<Longrightarrow> h < cap \<Longrightarrow> distance ((h + d) mod cap) h cap = d"
  by (auto simp: ring_add distance_def)

lemma ring_less [simp]: "0 < cap \<Longrightarrow> (h + k) mod cap < (cap :: nat)"
  by simp

lemma distance_0_iff: "p < cap \<Longrightarrow> h < cap \<Longrightarrow> distance p h cap = 0 \<longleftrightarrow> p = h"
  by (auto simp: distance_def)

text \<open>
  Two stretches of slots that end at the same position: the shorter is a part of the longer.
\<close>

lemma ring_suffix:
  assumes "p < cap" "h < cap" "i < cap"
    and "distance p h cap \<le> distance p i cap" and "k < distance p h cap"
  shows "(h + k) mod cap = (i + (distance p i cap - distance p h cap + k)) mod cap"
    and "distance p i cap - distance p h cap + k < distance p i cap"
proof -
  have "k \<le> cap" "distance p i cap - distance p h cap + k \<le> cap"
    using assms distance_less [of p cap h] distance_less [of p cap i] by linarith+
  then show "(h + k) mod cap = (i + (distance p i cap - distance p h cap + k)) mod cap"
    using assms by (auto simp: ring_add distance_def split: if_splits)
  show "distance p i cap - distance p h cap + k < distance p i cap"
    using assms by linarith
qed

section \<open>Sizing\<close>

lemma builtin_clz_bound:
  assumes "x \<noteq> 0"
  shows "builtin_clz x < 32" and "2 ^ (31 - builtin_clz x) \<le> unat x"
    and "unat x < 2 ^ (32 - builtin_clz x)"
proof -
  define c where "c = builtin_clz x"
  let ?P = "\<lambda>i. \<not> bit x i"
  have rev: "rev [0..<32] ! i = 31 - i" if "i < 32" for i
    using that by (simp add: rev_nth)
  have tw: "builtin_clz x = length (takeWhile ?P (rev [0..<32]))" by (simp add: builtin_clz_def)
  have "\<exists>i < 32. bit x i" using assms bit_imp_le_length [of x] by (auto simp: bit_eq_iff)
  then have "\<exists>i \<in> set (rev [0..<32]). \<not> ?P i" by auto
  then have "takeWhile ?P (rev [0..<32]) \<noteq> rev [0..<32]"
    by (metis set_takeWhileD)
  then have c: "c < 32"
    unfolding c_def tw
    by (metis length_rev length_takeWhile_le length_upt diff_zero le_neq_implies_less
        takeWhile_eq_take take_all_iff order_refl)
  then show "builtin_clz x < 32" by (simp add: c_def)
  have set: "bit x (31 - c)"
    using nth_length_takeWhile [of ?P "rev [0..<32]"] c rev [of c] unfolding c_def tw by simp
  have above: "\<not> bit x i" if "31 - c < i" "i < 32" for i
  proof -
    have l: "31 - i < c" using that c by simp
    have "takeWhile ?P (rev [0..<32]) ! (31 - i) = rev [0..<32] ! (31 - i)"
      using l by (intro takeWhile_nth) (simp add: c_def tw)
    also have "\<dots> = i" using rev [of "31 - i"] that by simp
    finally show ?thesis
      using l nth_mem [of "31 - i" "takeWhile ?P (rev [0..<32])"] set_takeWhileD
      unfolding c_def tw by metis
  qed
  have "take_bit (32 - c) x = x"
  proof (rule bit_word_eqI)
    fix n assume "n < LENGTH(32)"
    then show "bit (take_bit (32 - c) x) n \<longleftrightarrow> bit x n"
      using above [of n] c by (cases "31 - c < n") (auto simp: bit_take_bit_iff)
  qed
  then have "unat (take_bit (32 - c) x) = unat x" by simp
  then have "take_bit (32 - c) (unat x) = unat x" by (simp add: unsigned_take_bit_eq)
  then show "unat x < 2 ^ (32 - builtin_clz x)"
    by (metis c_def take_bit_nat_eq_self_iff)
  have "bit (unat x) (31 - c)" using set by (simp add: bit_unsigned_iff)
  then show "2 ^ (31 - builtin_clz x) \<le> unat x"
    unfolding c_def [symmetric] by (metis bit_iff_odd div_less even_zero linorder_not_less)
qed

lemma index_bits_bounds:
  assumes "0 < cap" and "cap < 2 ^ 31"
  shows "1 \<le> index_bits cap" and "index_bits cap \<le> 32"
    and "2 * cap \<le> 2 ^ index_bits cap" and "2 ^ index_bits cap < 4 * cap"
proof -
  define x :: u32 where "x = word_of_nat (2 * cap - 1)"
  have "2 * int cap - 1 = int (2 * cap - 1)" using assms(1) by simp
  then have "word_of_int (2 * int cap - 1) = x"
    unfolding x_def by (simp only: of_int_of_nat_eq)
  then have ib: "index_bits cap = 32 - builtin_clz x" by (simp add: index_bits_def)
  have "unat x = 2 * cap - 1"
    using assms unfolding x_def unat_of_nat by simp
  moreover from this assms have "x \<noteq> 0" by auto
  note builtin_clz_bound [OF this]
  ultimately have b: "builtin_clz x < 32" "2 ^ (31 - builtin_clz x) \<le> 2 * cap - 1"
      "2 * cap - 1 < 2 ^ index_bits cap" "index_bits cap = 32 - builtin_clz x"
    using ib by simp_all
  show "1 \<le> index_bits cap" "index_bits cap \<le> 32" using b by simp_all
  show "2 * cap \<le> 2 ^ index_bits cap" using b(3) by simp
  have "index_bits cap = Suc (31 - builtin_clz x)" using b by simp
  then have "2 ^ index_bits cap = 2 * (2 :: nat) ^ (31 - builtin_clz x)" by simp
  then show "2 ^ index_bits cap < 4 * cap" using b(2) assms by simp
qed

lemma index_bits_0: "index_bits 0 = 32"
  by (simp add: index_bits_def builtin_clz_def upt_rec)

lemma index_bits_power:
  assumes "M < 31"
  shows "index_bits (2 ^ M) = Suc M"
proof -
  have "(2 :: nat) ^ M < 2 ^ 31" using assms by (intro power_strict_increasing) auto
  note b = index_bits_bounds [OF _ this]
  have "(2 :: nat) ^ Suc M \<le> 2 ^ index_bits (2 ^ M)"
    using b by simp
  then have "Suc M \<le> index_bits (2 ^ M)"
    by (rule power_le_imp_le_exp [rotated]) simp
  moreover have "(2 :: nat) ^ index_bits (2 ^ M) < 2 ^ Suc (Suc M)"
    using b by simp
  then have "index_bits (2 ^ M) < Suc (Suc M)"
    by (rule power_less_imp_less_exp [rotated]) simp
  ultimately show ?thesis by simp
qed

section \<open>Invariant and abstraction\<close>

text \<open>The frame of an allocated table: its sizes, its padding, the range of its hash values.\<close>

definition ht_frame :: "build \<Rightarrow> hash_table \<Rightarrow> bool" where
  "ht_frame bld t \<longleftrightarrow>
     1 \<le> M_hash t \<and> M_hash t \<le> 30 \<and> capacity t = 2 ^ M_hash t \<and>
     phys_capacity t = capacity t + VECTOR_SIZE bld - 1 \<and>
     length (array t) = phys_capacity t \<and>
     number_of_attempts t = (if USE_HOPSCOTCH bld then HS_BUCKET_SIZE else phys_capacity t) \<and>
     (\<forall>i < phys_capacity t. array t ! i = INVAL_KEY \<longleftrightarrow> capacity t \<le> i)"

text \<open>
  A key is well placed when a probe from its home slot meets it within the number of attempts
  and meets no free slot before it.
\<close>

definition well_placed :: "hash_table \<Rightarrow> nat \<Rightarrow> bool" where
  "well_placed t i \<longleftrightarrow>
     (let h = home t (array t ! i); d = distance i h (capacity t) in
      d < number_of_attempts t \<and>
      (\<forall>k < d. array t ! ((h + k) mod capacity t) \<noteq> EMPTY_KEY))"

definition used_slots :: "hash_table \<Rightarrow> nat set" where
  "used_slots t = {i. i < capacity t \<and> array t ! i \<noteq> EMPTY_KEY}"

definition keys :: "hash_table \<Rightarrow> key set" where
  "keys t = (!) (array t) ` used_slots t"

definition ht_inv :: "build \<Rightarrow> hash_table \<Rightarrow> bool" where
  "ht_inv bld t \<longleftrightarrow> ht_frame bld t \<and> inj_on ((!) (array t)) (used_slots t) \<and>
     num_of_keys t = card (used_slots t) \<and> (\<forall>i \<in> used_slots t. well_placed t i)"

lemma finite_used_slots [simp]: "finite (used_slots t)"
  by (simp add: used_slots_def)

lemma finite_keys [simp]: "finite (keys t)"
  by (simp add: keys_def)

lemma num_of_keys_card: "ht_inv bld t \<Longrightarrow> num_of_keys t = card (keys t)"
  by (simp add: ht_inv_def keys_def card_image)

lemma frame_bounds:
  assumes "ht_frame bld t"
  shows "2 \<le> capacity t" and "0 < capacity t" and "capacity t \<le> phys_capacity t"
    and "phys_capacity t = length (array t)" and "capacity t \<le> 2 ^ 30"
    and "i < capacity t \<Longrightarrow> i < length (array t)"
proof -
  from assms have M: "1 \<le> M_hash t" "M_hash t \<le> 30" "capacity t = 2 ^ M_hash t"
    and p: "phys_capacity t = capacity t + VECTOR_SIZE bld - 1" "length (array t) = phys_capacity t"
    by (simp_all add: ht_frame_def)
  have "(2 :: nat) ^ 1 \<le> 2 ^ M_hash t" using M(1) by (rule power_increasing) simp
  then show "2 \<le> capacity t" using M(3) by simp
  then show "0 < capacity t" by simp
  show "capacity t \<le> 2 ^ 30" unfolding M(3) using M(2) by (rule power_increasing) simp
  show le: "capacity t \<le> phys_capacity t" using p by (simp add: VECTOR_SIZE_def)
  show "phys_capacity t = length (array t)" using p by simp
  show "i < capacity t \<Longrightarrow> i < length (array t)" using le p by simp
qed

lemma frame_padding:
  "ht_frame bld t \<Longrightarrow> i < length (array t) \<Longrightarrow> array t ! i = INVAL_KEY \<longleftrightarrow> capacity t \<le> i"
  by (simp add: ht_frame_def)

text \<open>Multiply-shift hashing yields a slot: the code indexes the array with it unchecked.\<close>

lemma hash_less:
  assumes "M_hash t \<le> 32"
  shows "home t el < 2 ^ M_hash t"
proof -
  have "unat (el * a_hash t + b_hash t) < 2 ^ 32"
    using unsigned_less [of "el * a_hash t + b_hash t"] by simp
  also have "(2 :: nat) ^ 32 = 2 ^ M_hash t * 2 ^ (32 - M_hash t)"
    using assms by (simp flip: power_add)
  finally show ?thesis
    by (simp add: hashFunction_def unat_drop_bit_eq drop_bit_nat_def less_mult_imp_div_less)
qed

lemma home_less [simp]: "ht_frame bld t \<Longrightarrow> home t el < capacity t"
  using hash_less [of t el] by (simp add: ht_frame_def)

lemma vectorHash_nth:
  assumes "length els = 16" and "i < 16"
  shows "vectorHashFunction t els ! i = hashFunction t (els ! i)"
  using assms
  by (simp add: vectorHashFunction_def hashFunction_def srli_epi32_def add_epi32_def
      mullo_epi32_def Let_def mult.commute)

text \<open>The only slot a key can be in, and what the slots before it hold.\<close>

lemma key_position:
  assumes "ht_inv bld t" and "el \<in> keys t"
  obtains d where "d < number_of_attempts t" "d < capacity t"
    "array t ! ((home t el + d) mod capacity t) = el"
    "\<And>k. k < d \<Longrightarrow> array t ! ((home t el + k) mod capacity t) \<noteq> EMPTY_KEY"
    "\<And>k. k < d \<Longrightarrow> array t ! ((home t el + k) mod capacity t) \<noteq> el"
proof -
  from assms(1) have fr: "ht_frame bld t" and inj: "inj_on ((!) (array t)) (used_slots t)"
    and wp: "\<And>i. i \<in> used_slots t \<Longrightarrow> well_placed t i"
    by (simp_all add: ht_inv_def)
  from assms(2) obtain i where i: "i \<in> used_slots t" "array t ! i = el"
    by (auto simp: keys_def)
  let ?h = "home t el" and ?c = "capacity t"
  define d where "d = distance i ?h ?c"
  have ic: "i < ?c" using i(1) by (simp add: used_slots_def)
  have pos: "(?h + d) mod ?c = i" using ic fr by (simp add: d_def)
  have dc: "d < ?c" using ic fr by (simp add: d_def)
  have path: "array t ! ((?h + k) mod ?c) \<noteq> EMPTY_KEY" if "k < d" for k
    using wp [OF i(1)] i(2) that by (simp add: well_placed_def Let_def d_def)
  show thesis
  proof (rule that [of d])
    show "d < number_of_attempts t"
      using wp [OF i(1)] i(2) by (simp add: well_placed_def Let_def d_def)
    show "array t ! ((?h + k) mod ?c) \<noteq> el" if "k < d" for k
    proof
      assume "array t ! ((?h + k) mod ?c) = el"
      moreover have "(?h + k) mod ?c \<in> used_slots t"
        using path [OF that] frame_bounds(2) [OF fr] by (simp add: used_slots_def)
      ultimately have "(?h + k) mod ?c = i" using inj i by (auto dest: inj_onD)
      moreover have "distance ((?h + k) mod ?c) ?h ?c = k" using that dc fr by simp
      ultimately show False using that by (simp add: d_def)
    qed
  qed (use dc pos i path in auto)
qed

lemma keys_nth: "i < capacity t \<Longrightarrow> array t ! i \<noteq> EMPTY_KEY \<Longrightarrow> array t ! i \<in> keys t"
  by (auto simp: keys_def used_slots_def)

lemma EMPTY_notin_keys [simp]: "EMPTY_KEY \<notin> keys t"
  by (auto simp: keys_def used_slots_def)

lemma slot_in_array: "ht_frame bld t \<Longrightarrow> h mod capacity t < length (array t)"
  using frame_bounds(2,6) by (metis mod_less_divisor)

lemma INVAL_notin_keys:
  assumes "ht_frame bld t"
  shows "INVAL_KEY \<notin> keys t"
proof
  assume "INVAL_KEY \<in> keys t"
  then obtain i where "i < capacity t" "array t ! i = INVAL_KEY"
    by (auto simp: keys_def used_slots_def)
  moreover from this have "i < phys_capacity t" using frame_bounds(3) [OF assms] by simp
  ultimately show False using assms by (simp add: ht_frame_def)
qed

lemma minus_1_EMPTY [simp]: "(-1 :: key) = EMPTY_KEY"
  by (simp add: EMPTY_KEY_def)

section \<open>Scalar lookup\<close>

lemma contains_loop_present:
  assumes fr: "ht_frame bld t" and "el \<noteq> EMPTY_KEY"
    and "d < n" and "array t ! ((h + d) mod capacity t) = el"
    and "\<And>k. k < d \<Longrightarrow> array t ! ((h + k) mod capacity t) \<noteq> EMPTY_KEY"
  shows "contains_loop t el n (h mod capacity t) = Inr True"
  using assms(2-)
proof (induction d arbitrary: n h)
  case 0
  then obtain n' where "n = Suc n'" by (cases n) auto
  with 0 slot_in_array [OF fr] show ?case by (simp add: read_cell_def)
next
  case (Suc d)
  then obtain n' where n: "n = Suc n'" by (cases n) auto
  have cell: "array t ! (h mod capacity t) \<noteq> EMPTY_KEY" using Suc.prems(4) [of 0] by simp
  have "contains_loop t el n' (Suc h mod capacity t) = Inr True"
  proof (rule Suc.IH)
    show "array t ! ((Suc h + k) mod capacity t) \<noteq> EMPTY_KEY" if "k < d" for k
      using Suc.prems(4) [of "Suc k"] that by simp
  qed (use Suc.prems n in simp_all)
  with cell n slot_in_array [OF fr] show ?case by (simp add: read_cell_def mod_Suc_eq)
qed

lemma contains_loop_absent:
  assumes fr: "ht_frame bld t" and "el \<noteq> EMPTY_KEY" and "el \<notin> keys t"
  shows "contains_loop t el n (h mod capacity t) = Inr False"
proof (induction n arbitrary: h)
  case (Suc n)
  have "array t ! (h mod capacity t) \<noteq> el"
    using keys_nth [of "h mod capacity t" t] assms frame_bounds [OF fr] by auto
  with Suc.IH [of "Suc h"] slot_in_array [OF fr] show ?case
    by (simp add: read_cell_def mod_Suc_eq)
qed simp

lemma contains_scalar_correct:
  assumes "ht_inv bld t" and "el \<noteq> EMPTY_KEY"
  shows "contains_loop t el (number_of_attempts t) (home t el) = Inr (el \<in> keys t)"
proof -
  have fr: "ht_frame bld t" using assms(1) by (simp add: ht_inv_def)
  have h: "home t el mod capacity t = home t el" using fr by simp
  show ?thesis
  proof (cases "el \<in> keys t")
    case True
    then obtain d where "d < number_of_attempts t"
      "array t ! ((home t el + d) mod capacity t) = el"
      "\<And>k. k < d \<Longrightarrow> array t ! ((home t el + k) mod capacity t) \<noteq> EMPTY_KEY"
      using key_position [OF assms(1) True] by metis
    from contains_loop_present [OF fr assms(2) this] True h show ?thesis by simp
  next
    case False
    with contains_loop_absent [OF fr assms(2) False, of _ "home t el"] h show ?thesis by simp
  qed
qed

section \<open>Vector lookup\<close>

lemma window_hit:
  assumes "p + 16 \<le> length arr"
  shows "cmpeq_epi32_mask (take 16 (drop p arr)) (set1_epi32 x) \<noteq> 0 \<longleftrightarrow>
    (\<exists>i < 16. arr ! (p + i) = x)"
  using assms by (auto simp: cmpeq_zero_iff)

lemma contains_avx_step:
  assumes "p + 16 \<le> length (array t)"
  shows "contains_avx_loop t el (Suc n) p =
    (if \<exists>i < 16. array t ! (p + i) = el then Inr True
     else if \<exists>i < 16. array t ! (p + i) = EMPTY_KEY then Inr False
     else contains_avx_loop t el n (if p + 16 > capacity t then 0 else p + 16))"
proof -
  have "loadu_epi32 (array t) p = Inr (take 16 (drop p (array t)))"
    using assms by (simp add: loadu_epi32_def)
  then show ?thesis
    unfolding contains_avx_loop.simps bind_result_simps Let_def window_hit [OF assms]
    by (simp only: bind_result_simps Let_def window_hit [OF assms])
qed

lemma contains_avx_out_of_bounds:
  assumes "length (array t) < p + 16"
  shows "contains_avx_loop t el (Suc n) p = Inl OutOfBounds"
  using assms by (simp add: loadu_epi32_def)

lemma array_neq_absent:
  assumes fr: "ht_frame bld t" and "valid_key el" and "el \<notin> keys t" and "i < length (array t)"
  shows "array t ! i \<noteq> el"
proof (cases "i < capacity t")
  case True
  with assms(2,3) keys_nth [OF True] show ?thesis by auto
next
  case False
  then have "array t ! i = INVAL_KEY" using fr assms(4) by (simp add: ht_frame_def)
  with assms(2) show ?thesis by auto
qed

text \<open>
  In the hopscotch build the loop runs twice.  The second load starts at \<open>capacity\<close> when
  the home slot is exactly sixteen slots before the end, because the wrap-around test is
  \<open>pos > capacity\<close>; it then reads one cell beyond the array.
\<close>

definition load_past_end :: "hash_table \<Rightarrow> key \<Rightarrow> nat \<Rightarrow> bool" where
  "load_past_end t el h \<longleftrightarrow> h + 16 = capacity t \<and>
     (\<forall>i < 16. array t ! (h + i) \<noteq> el \<and> array t ! (h + i) \<noteq> EMPTY_KEY)"

lemma load_past_end_home:
  "load_past_end t el h \<Longrightarrow> el \<noteq> array t ! h \<and> array t ! h \<noteq> EMPTY_KEY"
  by (auto simp: load_past_end_def dest: spec [of _ 0])

lemma avx_frame:
  assumes "ht_inv bld t" and "USE_AVX512 bld" and "USE_HOPSCOTCH bld"
  shows "ht_frame bld t" and "length (array t) = capacity t + 15" and "number_of_attempts t = 16"
    and "home t el < capacity t" and "2 \<le> capacity t"
proof -
  show fr: "ht_frame bld t" using assms(1) by (simp add: ht_inv_def)
  show "length (array t) = capacity t + 15" "number_of_attempts t = 16"
    using fr assms(2,3) by (simp_all add: ht_frame_def VECTOR_SIZE_def HS_BUCKET_SIZE_16)
  show "home t el < capacity t" "2 \<le> capacity t" using fr frame_bounds(1) [OF fr] by simp_all
qed

lemma contains_avx_twice:
  assumes "ht_inv bld t" and "USE_AVX512 bld" and "USE_HOPSCOTCH bld"
  shows "contains_avx_loop t el (number_of_attempts t div 16 + 1) (home t el) =
     (if \<exists>i < 16. array t ! (home t el + i) = el then Inr True
      else if \<exists>i < 16. array t ! (home t el + i) = EMPTY_KEY then Inr False
      else contains_avx_loop t el (Suc 0) (if home t el + 16 > capacity t then 0 else home t el + 16))"
proof -
  note f = avx_frame [OF assms]
  have "number_of_attempts t div 16 + 1 = Suc (Suc 0)" using f(3) by simp
  then show ?thesis using f(2) f(4) [of el] by (simp only:) (intro contains_avx_step, simp)
qed

lemma contains_avx_absent:
  assumes inv: "ht_inv bld t" and el: "valid_key el" "el \<notin> keys t"
    and avx: "USE_AVX512 bld" and hop: "USE_HOPSCOTCH bld"
  shows "contains_avx_loop t el (number_of_attempts t div 16 + 1) (home t el) =
    (if load_past_end t el (home t el) then Inl OutOfBounds else Inr False)"
proof -
  note f = avx_frame [OF inv avx hop] and first = contains_avx_twice [OF inv avx hop]
  let ?h = "home t el" and ?c = "capacity t" and ?p = "if home t el + 16 > capacity t then 0 else home t el + 16"
  have no: "array t ! i \<noteq> el" if "i < length (array t)" for i
    using array_neq_absent [OF f(1) el that] .
  have no1: "\<not> (\<exists>i < 16. array t ! (?h + i) = el)" using no f(2) f(4) [of el] by auto
  show ?thesis
  proof (cases "?h + 16 = ?c")
    case True
    then have "contains_avx_loop t el (Suc 0) ?p = Inl OutOfBounds"
      using f(2) by (intro contains_avx_out_of_bounds) simp
    with True no1 show ?thesis unfolding first load_past_end_def by auto
  next
    case ne: False
    then have p: "?p + 16 \<le> length (array t)" using f(2,5) f(4) [of el] by auto
    then have "\<not> (\<exists>i < 16. array t ! (?p + i) = el)" using no by auto
    then have "contains_avx_loop t el (Suc 0) ?p = Inr False" unfolding contains_avx_step [OF p] by simp
    with ne no1 show ?thesis unfolding first load_past_end_def by simp
  qed
qed

lemma contains_avx_present:
  assumes inv: "ht_inv bld t" and el: "el \<in> keys t" and avx: "USE_AVX512 bld" and hop: "USE_HOPSCOTCH bld"
  shows "contains_avx_loop t el (number_of_attempts t div 16 + 1) (home t el) = Inr True"
    and "\<not> load_past_end t el (home t el)"
proof -
  note f = avx_frame [OF inv avx hop] and first = contains_avx_twice [OF inv avx hop]
  let ?h = "home t el" and ?c = "capacity t" and ?p = "if home t el + 16 > capacity t then 0 else home t el + 16"
  note h = f(4) [of el]
  obtain d where d: "d < 16" "d < ?c" "array t ! ((?h + d) mod ?c) = el"
    and path: "\<And>k. k < d \<Longrightarrow> array t ! ((?h + k) mod ?c) \<noteq> EMPTY_KEY"
    using key_position [OF inv el] f(3) by metis
  have "contains_avx_loop t el (number_of_attempts t div 16 + 1) ?h = Inr True \<and> \<not> load_past_end t el ?h"
  proof (cases "?h + d < ?c")
    case near: True
    then have "array t ! (?h + d) = el" using d by simp
    then have "\<exists>i < 16. array t ! (?h + i) = el" using d(1) by blast
    then show ?thesis unfolding first load_past_end_def by auto
  next
    case far: False
    have ne: "array t ! (?h + i) \<noteq> EMPTY_KEY" if "i < 16" for i
    proof (cases "?h + i < ?c")
      case i: True
      then show ?thesis using path [of i] far by simp
    next
      case i: False
      have "?h + i < length (array t)" using that h f(2) by simp
      then have "array t ! (?h + i) = INVAL_KEY" using i by (simp add: frame_padding [OF f(1)])
      then show ?thesis by simp
    qed
    have p: "?p = 0" using far d(1) by simp
    have "array t ! (0 + (?h + d - ?c)) = el" "?h + d - ?c < 16"
      using d far h by (simp_all add: ring_add)
    then have "\<exists>i < 16. array t ! (0 + i) = el" by blast
    moreover have "0 + 16 \<le> length (array t)" using f(2,5) by simp
    ultimately have "contains_avx_loop t el (Suc 0) ?p = Inr True"
      unfolding p using contains_avx_step by simp
    then show ?thesis using ne far d(1) unfolding first load_past_end_def by auto
  qed
  then show "contains_avx_loop t el (number_of_attempts t div 16 + 1) ?h = Inr True" "\<not> load_past_end t el ?h" by blast+
qed

lemma contains_avx_correct:
  assumes inv: "ht_inv bld t" and el: "valid_key el"
    and avx: "USE_AVX512 bld" and hop: "USE_HOPSCOTCH bld"
  shows "contains_avx_loop t el (number_of_attempts t div 16 + 1) (home t el) =
    (if load_past_end t el (home t el) then Inl OutOfBounds else Inr (el \<in> keys t))"
  using contains_avx_absent [OF inv el _ avx hop] contains_avx_present [OF inv _ avx hop] by (cases "el \<in> keys t") simp_all

lemma contains_correct:
  assumes inv: "ht_inv bld t" and el: "valid_key el"
    and build: "USE_AVX512 bld \<Longrightarrow> USE_HOPSCOTCH bld"
    and pos: "pos = None \<or> pos = Some (home t el)"
  shows "contains bld t el pos =
    (if USE_AVX512 bld \<and> load_past_end t el (home t el) then Inl OutOfBounds
     else Inr (el \<in> keys t))"
proof (cases "num_of_keys t = 0")
  case True
  then have "keys t = {}" using num_of_keys_card [OF inv] by simp
  moreover from this have "\<not> load_past_end t el (home t el)"
    using inv keys_nth [of "home t el" t]
    by (fastforce simp: load_past_end_def ht_inv_def dest: spec [of _ 0])
  ultimately show ?thesis using True by (simp add: contains_def)
next
  case False
  have "contains bld t el pos =
     (if USE_AVX512 bld then contains_avx_loop t el (number_of_attempts t div 16 + 1) (home t el)
      else contains_loop t el (number_of_attempts t) (home t el))"
    using False pos by (auto simp: contains_def simp del: contains_avx_loop.simps)
  then show ?thesis
    using contains_avx_correct [OF inv el] contains_scalar_correct [OF inv] el build
    by (auto simp del: contains_avx_loop.simps)
qed

text \<open>The loop over the lanes that the gather did not settle.\<close>

lemma lane_loop:
  fixes m0 :: mmask16
  assumes "n \<le> 16"
    and "\<And>i. i < n \<Longrightarrow> cond i \<Longrightarrow> c i = (if bad i then Inl OutOfBounds else Inr (f i))"
  defines "step \<equiv> \<lambda>i m. if cond i then bind_result (c i) (\<lambda>found. Inr (m OR push_bit i (of_bool found)))
                        else Inr m"
  shows "if \<exists>i < n. cond i \<and> bad i then fold_result step [0..<n] m0 = Inl OutOfBounds
    else \<exists>r. fold_result step [0..<n] m0 = Inr r \<and>
      (\<forall>j < 16. bit r j \<longleftrightarrow> bit m0 j \<or> j < n \<and> cond j \<and> f j)"
  using assms(1,2)
proof (induction n)
  case (Suc n)
  from Suc.prems have IH: "if \<exists>i < n. cond i \<and> bad i then fold_result step [0..<n] m0 = Inl OutOfBounds
    else \<exists>r. fold_result step [0..<n] m0 = Inr r \<and>
      (\<forall>j < 16. bit r j \<longleftrightarrow> bit m0 j \<or> j < n \<and> cond j \<and> f j)"
    by (intro Suc.IH) auto
  have c: "cond n \<Longrightarrow> c n = (if bad n then Inl OutOfBounds else Inr (f n))" using Suc.prems by simp
  show ?case
  proof (cases "\<exists>i < n. cond i \<and> bad i")
    case True
    with IH have "fold_result step [0..<n] m0 = Inl OutOfBounds" by simp
    moreover have "\<exists>i < Suc n. cond i \<and> bad i" using True less_SucI by blast
    ultimately show ?thesis by simp
  next
    case False
    with IH obtain r where r: "fold_result step [0..<n] m0 = Inr r"
      and bits: "\<forall>j < 16. bit r j \<longleftrightarrow> bit m0 j \<or> j < n \<and> cond j \<and> f j" by auto
    have bit_n: "bit (r OR push_bit n (of_bool b)) j \<longleftrightarrow> bit r j \<or> j = n \<and> b" if "j < 16" for j b
      using that by (auto simp: bit_or_iff bit_push_bit_iff bit_1_iff)
    have ex: "(\<exists>i < Suc n. cond i \<and> bad i) \<longleftrightarrow> cond n \<and> bad n"
      using False by (auto simp: less_Suc_eq)
    show ?thesis
    proof (cases "cond n")
      case cn: True
      show ?thesis
      proof (cases "bad n")
        case bn: False
        let ?r = "r OR push_bit n (of_bool (f n))"
        have "fold_result step [0..<Suc n] m0 = Inr ?r" using r c [OF cn] cn bn by (simp add: step_def)
        moreover have "\<forall>j < 16. bit ?r j \<longleftrightarrow> bit m0 j \<or> j < Suc n \<and> cond j \<and> f j"
          using bits bit_n cn by (auto simp: less_Suc_eq)
        ultimately show ?thesis unfolding ex using bn by (simp only: simp_thms if_False) blast
      qed (use r c [OF cn] cn ex in \<open>simp add: step_def\<close>)
    next
      case cn: False
      then have "fold_result step [0..<Suc n] m0 = Inr r" using r by (simp add: step_def)
      moreover have "\<forall>j < 16. bit r j \<longleftrightarrow> bit m0 j \<or> j < Suc n \<and> cond j \<and> f j"
        using bits cn by (auto simp: less_Suc_eq)
      ultimately show ?thesis unfolding ex using cn by (simp only: simp_thms if_False) blast
    qed
  qed
qed simp

text \<open>
  The gather settles a lane whose home slot holds the key, and a lane whose home slot is
  free; the scalar loop finishes the others.
\<close>

lemma home_free_absent:
  assumes "ht_inv bld t" and "array t ! home t el = EMPTY_KEY"
  shows "el \<notin> keys t"
proof
  assume el: "el \<in> keys t"
  have "ht_frame bld t" using assms(1) by (simp add: ht_inv_def)
  then have h: "home t el mod capacity t = home t el" by simp
  obtain d where d: "array t ! ((home t el + d) mod capacity t) = el"
    and path: "\<And>k. k < d \<Longrightarrow> array t ! ((home t el + k) mod capacity t) \<noteq> EMPTY_KEY"
    using key_position [OF assms(1) el] by metis
  show False
  proof (cases d)
    case 0
    with d h assms(2) el show False by auto
  next
    case (Suc n)
    with path [of 0] h assms(2) show False by simp
  qed
qed

text \<open>The gathered lanes, the lanes that match, and those that are left to the loop.\<close>

lemma gathered:
  assumes fr: "ht_frame bld t" and len: "length els = 16"
  obtains fetched where "mask_i32gather_epi32 (set1_epi32 INVAL_KEY) m (vectorHashFunction t els) (array t) = Inr fetched"
    "\<And>i. i < 16 \<Longrightarrow> bit (m AND cmpeq_epi32_mask els fetched) i \<longleftrightarrow> bit m i \<and> els ! i = array t ! home t (els ! i)"
    "\<And>i. i < 16 \<Longrightarrow> NOT (m AND cmpeq_epi32_mask els fetched OR cmpeq_epi32_mask (set1_epi32 EMPTY_KEY) fetched OR NOT m) AND push_bit i 1 \<noteq> 0 \<longleftrightarrow>
      bit m i \<and> els ! i \<noteq> array t ! home t (els ! i) \<and> array t ! home t (els ! i) \<noteq> EMPTY_KEY"
proof -
  define fetched where "fetched = map (\<lambda>i. if bit m i then array t ! home t (els ! i) else INVAL_KEY) [0..<16]"
  have rem: "vectorHashFunction t els ! i = hashFunction t (els ! i)" if "i < 16" for i
    using vectorHash_nth [OF len that] .
  have gather: "mask_i32gather_epi32 (set1_epi32 INVAL_KEY) m (vectorHashFunction t els) (array t) = Inr fetched"
    using rem frame_bounds(6) [OF fr] home_less [OF fr]
    by (auto simp: mask_i32gather_epi32_def fetched_def)
  have lf: "length fetched = 16" and n: "i < 16 \<Longrightarrow> fetched ! i = (if bit m i then array t ! home t (els ! i) else INVAL_KEY)" for i
    by (simp_all add: fetched_def)
  have e: "bit (cmpeq_epi32_mask els fetched) i \<longleftrightarrow> els ! i = (if bit m i then array t ! home t (els ! i) else INVAL_KEY)"
    "bit (cmpeq_epi32_mask (set1_epi32 EMPTY_KEY) fetched) i \<longleftrightarrow> bit m i \<and> array t ! home t (els ! i) = EMPTY_KEY" if "i < 16" for i
    using that len lf n [OF that] by (auto simp: bit_cmpeq)
  have "bit (m AND cmpeq_epi32_mask els fetched) i \<longleftrightarrow> bit m i \<and> els ! i = array t ! home t (els ! i)" if "i < 16" for i
    using e(1) [OF that] by (auto simp: bit_and_iff)
  moreover have "NOT (m AND cmpeq_epi32_mask els fetched OR cmpeq_epi32_mask (set1_epi32 EMPTY_KEY) fetched OR NOT m) AND push_bit i 1 \<noteq> 0 \<longleftrightarrow>
      bit m i \<and> els ! i \<noteq> array t ! home t (els ! i) \<and> array t ! home t (els ! i) \<noteq> EMPTY_KEY" if "i < 16" for i
    unfolding bit_iff_and_push_bit_not_eq_0 [symmetric] using that e [OF that] by (auto simp: bit_not_iff bit_or_iff bit_and_iff)
  ultimately show thesis using that gather by blast
qed

text \<open>What the lanes that match and the loop find, together.\<close>

lemma lanes_found:
  assumes inv: "ht_inv bld t" and x: "b \<Longrightarrow> valid_key x"
  shows "b \<and> x = array t ! home t x \<or> (b \<and> x \<noteq> array t ! home t x \<and> array t ! home t x \<noteq> EMPTY_KEY) \<and> x \<in> keys t \<longleftrightarrow>
    b \<and> x \<in> keys t"
proof -
  have "ht_frame bld t" using inv by (simp add: ht_inv_def)
  then show ?thesis
    using x home_free_absent [OF inv, of x] keys_nth [of "home t x" t] home_less by (auto simp: valid_key_def)
qed

lemma vector_lookup_correct:
  assumes inv: "ht_inv bld t" and avx: "USE_AVX512 bld" and hop: "USE_HOPSCOTCH bld"
    and len: "length els = 16" and valid: "\<And>i. i < 16 \<Longrightarrow> bit m i \<Longrightarrow> valid_key (els ! i)"
  defines "bad \<equiv> \<lambda>i. bit m i \<and> load_past_end t (els ! i) (home t (els ! i))"
  shows "if \<exists>i < 16. bad i then vector_lookup bld t els m = Inl OutOfBounds
    else \<exists>r. vector_lookup bld t els m = Inr r \<and>
      (\<forall>i < 16. bit r i \<longleftrightarrow> bit m i \<and> els ! i \<in> keys t)"
proof (cases "num_of_keys t = 0")
  case True
  then have "keys t = {}" using num_of_keys_card [OF inv] by simp
  moreover have "\<not> bad i" if "i < 16" for i
    using contains_correct [OF inv valid [OF that], of "None"] avx hop True
    by (auto simp: bad_def contains_def)
  ultimately show ?thesis using True by (simp add: vector_lookup_def)
next
  case False
  have fr: "ht_frame bld t" using inv by (simp add: ht_inv_def)
  let ?rem = "vectorHashFunction t els"
  obtain fetched where gather: "mask_i32gather_epi32 (set1_epi32 INVAL_KEY) m ?rem (array t) = Inr fetched"
    and bit_el: "\<And>i. i < 16 \<Longrightarrow> bit (m AND cmpeq_epi32_mask els fetched) i \<longleftrightarrow> bit m i \<and> els ! i = array t ! home t (els ! i)"
    and left: "\<And>i. i < 16 \<Longrightarrow> NOT (m AND cmpeq_epi32_mask els fetched OR cmpeq_epi32_mask (set1_epi32 EMPTY_KEY) fetched OR NOT m) AND push_bit i 1 \<noteq> 0 \<longleftrightarrow>
      bit m i \<and> els ! i \<noteq> array t ! home t (els ! i) \<and> array t ! home t (els ! i) \<noteq> EMPTY_KEY"
    by (rule gathered [OF fr len]) blast
  define el_cmp where "el_cmp = m AND cmpeq_epi32_mask els fetched"
  define cond where "cond = (\<lambda>i. NOT (el_cmp OR cmpeq_epi32_mask (set1_epi32 EMPTY_KEY) fetched OR NOT m) AND push_bit i 1 \<noteq> 0)"
  have cond: "cond i \<longleftrightarrow> bit m i \<and> els ! i \<noteq> array t ! home t (els ! i) \<and> array t ! home t (els ! i) \<noteq> EMPTY_KEY" if "i < 16" for i
    using left [OF that] by (simp only: cond_def el_cmp_def)
  define c where "c = (\<lambda>i. contains bld t (els ! i) (Some (unat (?rem ! i))))"
  have c: "c i = (if load_past_end t (els ! i) (home t (els ! i)) then Inl OutOfBounds
      else Inr (els ! i \<in> keys t))" if "i < 16" "cond i" for i
    unfolding c_def vectorHash_nth [OF len that(1)]
    using contains_correct [OF inv valid [OF that(1)], of "Some (home t (els ! i))"] cond [THEN iffD1, OF that] avx hop by simp
  have run: "vector_lookup bld t els m = fold_result (\<lambda>i m. if cond i
      then bind_result (c i) (\<lambda>found. Inr (m OR push_bit i (of_bool found))) else Inr m) [0..<16] el_cmp"
    unfolding c_def cond_def el_cmp_def vector_lookup_def Let_def gather bind_result_simps
    by (subst if_not_P [OF False]) (rule refl)
  have bad: "(\<exists>i < 16. cond i \<and> load_past_end t (els ! i) (home t (els ! i))) \<longleftrightarrow> (\<exists>i < 16. bad i)"
    using cond load_past_end_home [of t] unfolding bad_def by metis
  note loop = lane_loop [of 16 cond c "\<lambda>i. load_past_end t (els ! i) (home t (els ! i))"
      "\<lambda>i. els ! i \<in> keys t" el_cmp, OF order_refl c, folded run, unfolded bad]
  show ?thesis
  proof (cases "\<exists>i < 16. bad i")
    case True
    with loop show ?thesis by (simp only: if_True)
  next
    case no: False
    with loop obtain r where r: "vector_lookup bld t els m = Inr r"
      and bits: "\<forall>j < 16. bit r j \<longleftrightarrow> bit el_cmp j \<or> j < 16 \<and> cond j \<and> els ! j \<in> keys t"
      by (simp only: if_False) blast
    have "bit r i \<longleftrightarrow> bit m i \<and> els ! i \<in> keys t" if "i < 16" for i
      using bits that lanes_found [OF inv valid [OF that]] cond [OF that] bit_el [OF that] by (simp add: el_cmp_def)
    with r no show ?thesis by (simp only: if_False) blast
  qed
qed

end
