(* ===== verification/Hopscotch.thy ===== *)
theory Hopscotch
  imports SimpleHashTable
begin

text \<open>
  Correctness of the operations that change the hash table: sizing, plain insertion, and
  hopscotch insertion with its displacement loop and reconstructions.
\<close>

section \<open>A freshly sized table\<close>

lemma reserve_fields:
  assumes "reserve bld e cap t = Inr t'" and "shift_one_left e (index_bits cap) = Inr c"
  shows "capacity t' = c" and "num_of_keys t' = 0" and "M_hash t' = index_bits cap"
    and "phys_capacity t' = c + VECTOR_SIZE bld - 1"
    and "number_of_attempts t' = (if USE_HOPSCOTCH bld then HS_BUCKET_SIZE else phys_capacity t')"
    and "array t' = replicate c EMPTY_KEY @ replicate (phys_capacity t' - c) INVAL_KEY"
  using assms by (auto simp: reserve_def Let_def split: prod.splits)

lemma reserve_correct:
  assumes "0 < cap" and "cap \<le> 2 ^ 30"
  shows "if index_bits cap \<le> 30
    then \<exists>t'. reserve bld e cap t = Inr t' \<and> ht_inv bld t' \<and> keys t' = {} \<and>
              M_hash t' = index_bits cap \<and> 2 * cap \<le> capacity t'
    else reserve bld e cap t = Inl AllocFailed"
proof -
  have "cap < 2 ^ 31" using assms(2) by simp
  note ib = index_bits_bounds [OF assms(1) this]
  have "(2 :: nat) ^ index_bits cap < 2 ^ 32" using ib(4) assms(2) by simp
  then have lt: "index_bits cap < 32" by (rule power_less_imp_less_exp [rotated]) simp
  show ?thesis
  proof (cases "index_bits cap \<le> 30")
    case True
    then have s: "shift_one_left e (index_bits cap) = Inr (2 ^ index_bits cap)"
      by (simp add: shift_one_left_def)
    have "\<exists>t'. reserve bld e cap t = Inr t'"
      using s by (simp add: reserve_def Let_def split: prod.split)
    then obtain t' where t': "reserve bld e cap t = Inr t'" ..
    note f = reserve_fields [OF t' s]
    have fr: "ht_frame bld t'"
      using f ib(1) True by (auto simp: ht_frame_def VECTOR_SIZE_def nth_append)
    have no: "used_slots t' = {}" using f by (auto simp: used_slots_def nth_append)
    then have "ht_inv bld t'" "keys t' = {}" using fr f by (simp_all add: ht_inv_def keys_def)
    with t' f True ib(3) show ?thesis by auto
  next
    case False
    with lt have "index_bits cap = 31" by simp
    with False show ?thesis by (simp add: reserve_def shift_one_left_def)
  qed
qed

section \<open>Replacing a cell\<close>

lemma home_array_update [simp]:
  "home (t\<lparr>array := a\<rparr>) el = home t el"
  "home (t\<lparr>array := a, num_of_keys := n\<rparr>) el = home t el"
  "home (t\<lparr>num_of_keys := n\<rparr>) el = home t el"
  by (simp_all add: hashFunction_def)

lemma frame_update:
  assumes "ht_frame bld t" and "pos < capacity t" and "x \<noteq> INVAL_KEY"
  shows "ht_frame bld (t\<lparr>array := (array t)[pos := x]\<rparr>)"
    and "ht_frame bld (t\<lparr>array := (array t)[pos := x], num_of_keys := n\<rparr>)"
proof -
  have len: "pos < length (array t)" using frame_bounds(6) [OF assms(1,2)] .
  have "\<forall>i < phys_capacity t. (array t)[pos := x] ! i = INVAL_KEY \<longleftrightarrow> capacity t \<le> i"
  proof (intro allI impI)
    fix i assume "i < phys_capacity t"
    then show "(array t)[pos := x] ! i = INVAL_KEY \<longleftrightarrow> capacity t \<le> i"
      using assms len by (cases "i = pos") (auto simp: ht_frame_def)
  qed
  with assms(1) show "ht_frame bld (t\<lparr>array := (array t)[pos := x]\<rparr>)"
    and "ht_frame bld (t\<lparr>array := (array t)[pos := x], num_of_keys := n\<rparr>)"
    by (simp_all add: ht_frame_def)
qed

lemma slots_update:
  assumes "ht_frame bld t" and "pos < capacity t" and "x \<noteq> EMPTY_KEY"
  shows "used_slots (t\<lparr>array := (array t)[pos := x]\<rparr>) = insert pos (used_slots t)"
    and "used_slots (t\<lparr>array := (array t)[pos := x], num_of_keys := n\<rparr>) = insert pos (used_slots t)"
  using assms frame_bounds(6) [OF assms(1)] by (auto simp: used_slots_def nth_list_update)

section \<open>A table with a hole\<close>

text \<open>
  While the free slot travels towards the home of \<open>el\<close>, the table is one in which the slot
  \<open>pos\<close> does not count: it is free at first and holds a stale copy of a moved key later.
\<close>

definition hole :: "build \<Rightarrow> key \<Rightarrow> nat \<Rightarrow> hash_table \<Rightarrow> bool" where
  "hole bld el pos t \<longleftrightarrow> ht_frame bld t \<and> pos < capacity t \<and>
     inj_on ((!) (array t)) (used_slots t - {pos}) \<and>
     num_of_keys t = card (used_slots t - {pos}) \<and>
     keys t = (!) (array t) ` (used_slots t - {pos}) \<and> el \<notin> keys t \<and>
     (\<forall>i \<in> used_slots t - {pos}.
        let h = home t (array t ! i); d = distance i h (capacity t) in
        d < number_of_attempts t \<and>
        (\<forall>k < d. (h + k) mod capacity t = pos \<or> array t ! ((h + k) mod capacity t) \<noteq> EMPTY_KEY)) \<and>
     (\<forall>k < distance pos (home t el) (capacity t).
        array t ! ((home t el + k) mod capacity t) \<noteq> EMPTY_KEY)"

text \<open>Every slot up to sixteen before the hole is in use.\<close>

lemma hole_stretch:
  assumes "hole bld el pos t" and "h < capacity t"
    and "distance pos h (capacity t) \<le> distance pos (home t el) (capacity t)"
    and "k < distance pos h (capacity t)"
  shows "array t ! ((h + k) mod capacity t) \<noteq> EMPTY_KEY"
proof -
  from assms(1) have fr: "ht_frame bld t" and pos: "pos < capacity t"
    and ip: "\<And>k. k < distance pos (home t el) (capacity t) \<Longrightarrow>
      array t ! ((home t el + k) mod capacity t) \<noteq> EMPTY_KEY"
    by (simp_all add: hole_def)
  from ring_suffix [OF pos assms(2) home_less [OF fr] assms(3,4)] ip show ?thesis by simp
qed

lemma find_movable_Some:
  assumes "find_movable t pos n (s mod capacity t) = Some j"
  shows "\<exists>m < n. j = (s + m) mod capacity t \<and> (\<forall>m' \<le> m. (s + m') mod capacity t \<noteq> pos) \<and>
    distance pos (home t (array t ! j)) (capacity t) \<le> HS_BUCKET_SIZE - 1"
  using assms
proof (induction n arbitrary: s)
  case (Suc n)
  show ?case
  proof (cases "Some j = Some (s mod capacity t) \<and>
      distance pos (home t (array t ! j)) (capacity t) \<le> HS_BUCKET_SIZE - 1 \<and> s mod capacity t \<noteq> pos")
    case True
    then show ?thesis by (intro exI [of _ 0]) auto
  next
    case False
    with Suc.prems have np: "s mod capacity t \<noteq> pos"
      and f: "find_movable t pos n (Suc s mod capacity t) = Some j"
      by (auto split: if_splits simp: mod_Suc_eq)
    from Suc.IH [OF f] obtain m where m: "m < n" "j = (Suc s + m) mod capacity t"
      "\<forall>m' \<le> m. (Suc s + m') mod capacity t \<noteq> pos"
      "distance pos (home t (array t ! j)) (capacity t) \<le> HS_BUCKET_SIZE - 1" by auto
    have "(s + m') mod capacity t \<noteq> pos" if "m' \<le> Suc m" for m'
      using np m(3) that by (cases m') auto
    with m show ?thesis by (intro exI [of _ "Suc m"]) auto
  qed
qed simp

text \<open>What a hole gives.\<close>

lemma holeD:
  assumes "hole bld el pos t"
  shows "ht_frame bld t" and "pos < capacity t" and "inj_on ((!) (array t)) (used_slots t - {pos})"
    and "num_of_keys t = card (used_slots t - {pos})" and "keys t = (!) (array t) ` (used_slots t - {pos})" and "el \<notin> keys t"
    and "i \<in> used_slots t - {pos} \<Longrightarrow> distance i (home t (array t ! i)) (capacity t) < number_of_attempts t"
    and "i \<in> used_slots t - {pos} \<Longrightarrow> k < distance i (home t (array t ! i)) (capacity t) \<Longrightarrow>
      (home t (array t ! i) + k) mod capacity t = pos \<or> array t ! ((home t (array t ! i) + k) mod capacity t) \<noteq> EMPTY_KEY"
    and "k < distance pos (home t el) (capacity t) \<Longrightarrow> array t ! ((home t el + k) mod capacity t) \<noteq> EMPTY_KEY"
  using assms by (auto simp: hole_def Let_def)

text \<open>An entry is copied from \<open>j\<close> to \<open>pos\<close>: the entries without \<open>j\<close> are those that were there without \<open>pos\<close>.\<close>

lemma copied_entries:
  fixes A :: "'a list"
  assumes A': "A' = A[pos := A ! j]" and pos: "pos < length A" and j: "j \<in> U - {pos}" and inj: "inj_on ((!) A) (U - {pos})"
  shows "(!) A' ` (insert pos U - {j}) = (!) A ` (U - {pos})" and "(!) A' ` insert pos U = (!) A ` (U - {pos})"
    and "inj_on ((!) A') (insert pos U - {j})" and "finite U \<Longrightarrow> card (insert pos U - {j}) = card (U - {pos})"
proof -
  have nth: "A' ! i = (if i = pos then A ! j else A ! i)" for i
    using pos by (simp add: A' nth_list_update)
  have D: "insert pos U - {j} = insert pos (U - {pos} - {j})" using j by auto
  have img: "(!) A' ` S = (!) A ` S" if "pos \<notin> S" for S using that by (auto simp: nth image_iff)
  show "(!) A' ` (insert pos U - {j}) = (!) A ` (U - {pos})"
    unfolding D image_insert using img [of "U - {pos} - {j}"] j by (auto simp: nth)
  have "insert pos U = insert pos (U - {pos})" by auto
  then show "(!) A' ` insert pos U = (!) A ` (U - {pos})" using img [of "U - {pos}"] j by (auto simp: nth)
  show "inj_on ((!) A') (insert pos U - {j})"
    unfolding D
  proof (rule inj_onI)
    fix x y assume xy: "x \<in> insert pos (U - {pos} - {j})" "y \<in> insert pos (U - {pos} - {j})" "A' ! x = A' ! y"
    consider "x = pos" "y = pos" | "x = pos" "y \<noteq> pos" | "x \<noteq> pos" "y = pos" | "x \<noteq> pos" "y \<noteq> pos"
      by blast
    then show "x = y"
      using xy inj_onD [OF inj] j by cases (auto simp: nth)
  qed
  show "card (insert pos U - {j}) = card (U - {pos})" if "finite U"
    unfolding D using that j card_Suc_Diff1 [of "U - {pos}" j] by (subst card_insert_disjoint) simp_all
qed

text \<open>Moving a key from \<open>j\<close> into the hole makes \<open>j\<close> the hole, closer to the home of \<open>el\<close>.\<close>

lemma hole_move:
  assumes hl: "hole bld el pos t" and hop: "USE_HOPSCOTCH bld"
    and j: "j \<in> used_slots t" "j \<noteq> pos"
    and near: "distance pos (home t (array t ! j)) (capacity t) < HS_BUCKET_SIZE"
    and far: "HS_BUCKET_SIZE \<le> distance pos (home t el) (capacity t)"
    and closer: "distance j (home t el) (capacity t) < distance pos (home t el) (capacity t)"
  defines "t' \<equiv> t\<lparr>array := (array t)[pos := array t ! j]\<rparr>"
  shows "hole bld el j t'" and "keys t' = keys t"
proof -
  let ?A = "array t" and ?U = "used_slots t" and ?c = "capacity t"
  let ?A' = "?A[pos := ?A ! j]"
  note h = holeD [OF hl]
  have jc: "j < ?c" and jE: "?A ! j \<noteq> EMPTY_KEY" using j by (auto simp: used_slots_def)
  have jI: "?A ! j \<noteq> INVAL_KEY"
    using keys_nth [OF jc jE] INVAL_notin_keys [OF h(1)] by auto
  have posA: "pos < length ?A" using frame_bounds(6) [OF h(1,2)] .
  have fr': "ht_frame bld t'" unfolding t'_def by (rule frame_update) (use h(1,2) jI in auto)
  have U': "used_slots t' = insert pos ?U" unfolding t'_def by (rule slots_update) (use h(1,2) jE in auto)
  have att: "number_of_attempts t = HS_BUCKET_SIZE" "number_of_attempts t' = HS_BUCKET_SIZE"
    using h(1) fr' hop by (simp_all add: ht_frame_def)
  have A': "array t' = ?A'" and c': "capacity t' = ?c" and n': "num_of_keys t' = num_of_keys t"
    and h': "home t' x = home t x" for x by (simp_all add: t'_def)
  have nth': "?A' ! i = (if i = pos then ?A ! j else ?A ! i)" for i
    using posA by (simp add: nth_list_update)
  have ne: "?A' ! i \<noteq> EMPTY_KEY" if "i = pos \<or> ?A ! i \<noteq> EMPTY_KEY" for i
    using that jE by (auto simp: nth')
  note cp = copied_entries [OF refl posA _ h(3), of j]
  have jin: "j \<in> ?U - {pos}" using j by simp
  show keys': "keys t' = keys t" unfolding keys_def [of t'] U' A' cp(2) [OF jin] h(5) ..
  show "hole bld el j t'"
    unfolding hole_def U' A' c' n' h' keys'
  proof (intro conjI ballI allI impI)
    show "inj_on ((!) ?A') (insert pos ?U - {j})" by (rule cp(3) [OF jin])
    show "num_of_keys t = card (insert pos ?U - {j})" using cp(4) [OF jin] h(4) by simp
    show "keys t = (!) ?A' ` (insert pos ?U - {j})" unfolding cp(1) [OF jin] h(5) ..
    show "?A' ! ((home t el + k) mod ?c) \<noteq> EMPTY_KEY" if "k < distance j (home t el) ?c" for k
      using h(9) [of k] that closer by (intro ne) simp
  next
    fix i assume i: "i \<in> insert pos ?U - {j}"
    show "let h = home t (?A' ! i); d = distance i h ?c in d < number_of_attempts t' \<and>
      (\<forall>k < d. (h + k) mod ?c = j \<or> ?A' ! ((h + k) mod ?c) \<noteq> EMPTY_KEY)"
    proof (cases "i = pos")
      case True
      have "?A' ! ((home t (?A ! j) + k) mod ?c) \<noteq> EMPTY_KEY"
        if "k < distance pos (home t (?A ! j)) ?c" for k
        using hole_stretch [OF hl _ _ that] near far h(1) by (intro ne) simp
      with True near show ?thesis by (simp add: nth' Let_def att)
    next
      case False
      then have "i \<in> ?U - {pos}" using i by auto
      with h(7,8) [OF this] ne False show ?thesis by (auto simp: nth' Let_def att)
    qed
  qed (use fr' jc h(6) in simp_all)
qed

text \<open>Once the hole is close enough, the new key fills it.\<close>

lemma hole_fill:
  assumes hl: "hole bld el pos t" and el: "valid_key el"
    and near: "distance pos (home t el) (capacity t) < number_of_attempts t"
  defines "t' \<equiv> t\<lparr>array := (array t)[pos := el], num_of_keys := Suc (num_of_keys t)\<rparr>"
  shows "ht_inv bld t'" and "keys t' = insert el (keys t)"
proof -
  let ?A = "array t" and ?U = "used_slots t" and ?c = "capacity t"
  let ?A' = "?A[pos := el]"
  note h = holeD [OF hl]
  note fr = h(1) and pos = h(2)
  have posA: "pos < length ?A" using frame_bounds(6) [OF fr pos] .
  have fr': "ht_frame bld t'" unfolding t'_def by (rule frame_update) (use fr pos el in auto)
  have U': "used_slots t' = insert pos (?U - {pos})"
    unfolding t'_def by (subst slots_update) (use fr pos el in auto)
  have f': "array t' = ?A'" "capacity t' = ?c" "num_of_keys t' = Suc (num_of_keys t)"
    "number_of_attempts t' = number_of_attempts t" "\<And>x. home t' x = home t x"
    by (simp_all add: t'_def)
  have nth': "?A' ! i = (if i = pos then el else ?A ! i)" for i
    using posA by (simp add: nth_list_update)
  have ne: "?A' ! i \<noteq> EMPTY_KEY" if "i = pos \<or> ?A ! i \<noteq> EMPTY_KEY" for i
    using that el by (auto simp: nth')
  have img: "(!) ?A' ` (?U - {pos}) = keys t" unfolding h(5) by (auto simp: nth' image_iff)
  show "keys t' = insert el (keys t)"
    unfolding keys_def [of t'] U' f' image_insert img by (simp add: nth')
  show "ht_inv bld t'"
    unfolding ht_inv_def U' f'
  proof (intro conjI ballI)
    show "ht_frame bld t'" by (rule fr')
    have "inj_on ((!) ?A') (?U - {pos})"
      using h(3) by (subst inj_on_cong [of _ _ "(!) ?A"]) (auto simp: nth')
    then show "inj_on ((!) ?A') (insert pos (?U - {pos}))"
      unfolding inj_on_insert Diff_idemp img using h(6) nth' [of pos] by simp
    show "Suc (num_of_keys t) = card (insert pos (?U - {pos}))"
      by (subst card_insert_disjoint) (simp_all add: h(4))
  next
    fix i assume i: "i \<in> insert pos (?U - {pos})"
    show "well_placed t' i"
    proof (cases "i = pos")
      case True
      have "?A' ! ((home t el + k) mod ?c) \<noteq> EMPTY_KEY" if "k < distance pos (home t el) ?c" for k
        using h(9) [OF that] by (intro ne) simp
      with True near show ?thesis by (simp add: well_placed_def f' nth' Let_def)
    next
      case False
      then have i': "i \<in> ?U - {pos}" using i by simp
      have "?A' ! ((home t (?A ! i) + k) mod ?c) \<noteq> EMPTY_KEY"
        if "k < distance i (home t (?A ! i)) ?c" for k
        using h(8) [OF i' that] by (intro ne)
      with h(7) [OF i'] False show ?thesis by (simp add: well_placed_def f' nth' Let_def)
    qed
  qed
qed

section \<open>The displacement loop\<close>

text \<open>The scan starts fifteen slots before the hole; what it finds is used, near enough, and closer to the home.\<close>

lemma movable_key:
  assumes hl: "hole bld el pos t" and far: "HS_BUCKET_SIZE \<le> distance pos (home t el) (capacity t)"
    and start: "start = (if pos + 1 < HS_BUCKET_SIZE then pos + 1 + capacity t - HS_BUCKET_SIZE else pos + 1 - HS_BUCKET_SIZE)"
    and found: "find_movable t pos (capacity t) start = Some j"
  shows "j \<in> used_slots t" and "j \<noteq> pos" and "distance pos (home t (array t ! j)) (capacity t) < HS_BUCKET_SIZE"
    and "distance j (home t el) (capacity t) < distance pos (home t el) (capacity t)"
proof -
  let ?c = "capacity t" and ?h = "home t el"
  have pos: "pos < ?c" and h: "?h < ?c" using holeD(1,2) [OF hl] by auto
  have "HS_BUCKET_SIZE < ?c" using far distance_less [OF pos h] by simp
  then have sc: "start < ?c" and sd: "distance pos start ?c = 15"
    using pos by (auto simp: start distance_def HS_BUCKET_SIZE_16)
  have "find_movable t pos ?c (start mod ?c) = Some j" using found sc by simp
  from find_movable_Some [OF this] obtain m where j: "j = (start + m) mod ?c"
    and before: "\<And>m'. m' \<le> m \<Longrightarrow> (start + m') mod ?c \<noteq> pos"
    and near: "distance pos (home t (array t ! j)) ?c \<le> HS_BUCKET_SIZE - 1" by blast
  have "(start + 15) mod ?c = pos" using ring_distance [OF pos sc] sd by simp
  then have "\<not> 15 \<le> m" using before by blast
  then have m: "m < distance pos start ?c" using sd by simp
  have sle: "distance pos start ?c \<le> distance pos ?h ?c" using sd far by (simp add: HS_BUCKET_SIZE_16)
  note suf = ring_suffix [OF pos sc h sle m]
  have "distance j ?h ?c = distance pos ?h ?c - distance pos start ?c + m"
    unfolding j suf(1) by (rule distance_ring) (use suf(2) distance_less [OF pos h] h in linarith)+
  with suf(2) show "distance j ?h ?c < distance pos ?h ?c" by simp
  have "array t ! j \<noteq> EMPTY_KEY" using hole_stretch [OF hl sc sle m] by (simp add: j)
  then show "j \<in> used_slots t" using h j by (simp add: used_slots_def)
  show "j \<noteq> pos" using before [of m] j by simp
  show "distance pos (home t (array t ! j)) ?c < HS_BUCKET_SIZE" using near by (simp add: HS_BUCKET_SIZE_16)
qed

lemma displace_correct:
  assumes hop: "USE_HOPSCOTCH bld"
    and "hole bld el pos t" and "distance pos (home t el) (capacity t) < n"
  shows "\<exists>found pos' t'. displace n (home t el) pos t = Inr (found, pos', t') \<and>
    hole bld el pos' t' \<and> keys t' = keys t \<and> capacity t' = capacity t \<and> M_hash t' = M_hash t \<and>
    home t' el = home t el \<and>
    (found \<longrightarrow> distance pos' (home t el) (capacity t) < HS_BUCKET_SIZE)"
  using assms(2-)
proof (induction n arbitrary: pos t)
  case (Suc n)
  let ?c = "capacity t" and ?h = "home t el"
  show ?case
  proof (cases "distance pos ?h ?c \<ge> HS_BUCKET_SIZE")
    case far: True
    define start where "start = (if pos + 1 < HS_BUCKET_SIZE then pos + 1 + ?c - HS_BUCKET_SIZE
                      else pos + 1 - HS_BUCKET_SIZE)"
    have step: "displace (Suc n) ?h pos t = (case find_movable t pos ?c start of
         None \<Rightarrow> Inr (False, pos, t)
       | Some j \<Rightarrow> displace n ?h j (t\<lparr>array := (array t)[pos := array t ! j]\<rparr>))"
      using far by (simp add: start_def Let_def)
    show ?thesis
    proof (cases "find_movable t pos ?c start")
      case None
      then show ?thesis using Suc.prems(1) step by auto
    next
      case (Some j)
      note m = movable_key [OF Suc.prems(1) far start_def Some]
      note mv = hole_move [OF Suc.prems(1) hop m(1-3) far m(4)]
      let ?t = "t\<lparr>array := (array t)[pos := array t ! j]\<rparr>"
      have "distance j (home ?t el) (capacity ?t) < n" using m(4) Suc.prems(2) by simp
      from Suc.IH [OF mv(1) this] mv(2) show ?thesis
        unfolding step Some option.case by auto
    qed
  next
    case False
    then show ?thesis using Suc.prems(1) by auto
  qed
qed simp

section \<open>The probe for a free slot\<close>

lemma hopscotch_probe_stop:
  assumes "k < n" and "array t ! ((s + k) mod capacity t) = EMPTY_KEY"
    and "\<And>k'. k' < k \<Longrightarrow> array t ! ((s + k') mod capacity t) \<noteq> EMPTY_KEY"
    and "\<And>k'. k' < k \<Longrightarrow> array t ! ((s + k') mod capacity t) \<noteq> el"
  shows "hopscotch_probe t el n (s mod capacity t) = Some ((s + k) mod capacity t)"
  using assms
proof (induction k arbitrary: n s)
  case 0
  then show ?case by (cases n) auto
next
  case (Suc k)
  then obtain n' where n: "n = Suc n'" by (cases n) auto
  have "hopscotch_probe t el n' (Suc s mod capacity t) = Some ((Suc s + k) mod capacity t)"
  proof (rule Suc.IH)
    show "array t ! ((Suc s + k') mod capacity t) \<noteq> EMPTY_KEY"
      "array t ! ((Suc s + k') mod capacity t) \<noteq> el" if "k' < k" for k'
      using Suc.prems(3) [of "Suc k'"] Suc.prems(4) [of "Suc k'"] that by simp_all
  qed (use Suc.prems n in simp_all)
  with n Suc.prems(3) [of 0] Suc.prems(4) [of 0] show ?case by (simp add: mod_Suc_eq)
qed

lemma hopscotch_probe_found:
  assumes "k < n" and "el \<noteq> EMPTY_KEY" and "array t ! ((s + k) mod capacity t) = el"
    and "\<And>k'. k' < k \<Longrightarrow> array t ! ((s + k') mod capacity t) \<noteq> EMPTY_KEY"
  shows "hopscotch_probe t el n (s mod capacity t) = None"
  using assms
proof (induction k arbitrary: n s)
  case 0
  then show ?case by (cases n) auto
next
  case (Suc k)
  then obtain n' where n: "n = Suc n'" by (cases n) auto
  have "hopscotch_probe t el n' (Suc s mod capacity t) = None"
  proof (rule Suc.IH)
    show "array t ! ((Suc s + k') mod capacity t) \<noteq> EMPTY_KEY" if "k' < k" for k'
      using Suc.prems(4) [of "Suc k'"] that by simp
  qed (use Suc.prems n in simp_all)
  with n Suc.prems(4) [of 0] show ?case by (simp add: mod_Suc_eq)
qed

text \<open>A table with a free slot has a nearest one, no further away than there are keys.\<close>

lemma nearest_free:
  assumes fr: "ht_frame bld t" and room: "card (used_slots t) < capacity t" and h: "h < capacity t"
  obtains k where "k \<le> card (used_slots t)" "array t ! ((h + k) mod capacity t) = EMPTY_KEY"
    "\<And>k'. k' < k \<Longrightarrow> array t ! ((h + k') mod capacity t) \<noteq> EMPTY_KEY"
proof -
  let ?free = "\<lambda>k. array t ! ((h + k) mod capacity t) = EMPTY_KEY"
  let ?m = "card (used_slots t)"
  have "\<exists>k \<le> ?m. ?free k"
  proof (rule ccontr)
    assume "\<not> (\<exists>k \<le> ?m. ?free k)"
    then have "(\<lambda>k. (h + k) mod capacity t) ` {..?m} \<subseteq> used_slots t"
      using h by (auto simp: used_slots_def)
    then have "card ((\<lambda>k. (h + k) mod capacity t) ` {..?m}) \<le> ?m" by (intro card_mono) auto
    moreover have "inj_on (\<lambda>k. (h + k) mod capacity t) {..?m}"
    proof (rule inj_onI)
      fix x y assume "x \<in> {..?m}" "y \<in> {..?m}" and eq: "(h + x) mod capacity t = (h + y) mod capacity t"
      then have "x < capacity t" "y < capacity t" using room by auto
      with eq h show "x = y" by (metis distance_ring)
    qed
    ultimately show False by (simp add: card_image)
  qed
  then obtain k0 where "k0 \<le> ?m" "?free k0" by blast
  then have "?free (LEAST k. ?free k)" "(LEAST k. ?free k) \<le> ?m"
    by (auto intro: LeastI Least_le order_trans)
  with that [of "LEAST k. ?free k"] show thesis using not_less_Least by blast
qed

lemma probe_correct:
  assumes inv: "ht_inv bld t" and el: "valid_key el"
    and room: "num_of_keys t < capacity t" and n: "capacity t \<le> n"
  shows "if el \<in> keys t then hopscotch_probe t el n (home t el) = None
    else \<exists>pos. hopscotch_probe t el n (home t el) = Some pos \<and> hole bld el pos t \<and>
      distance pos (home t el) (capacity t) \<le> num_of_keys t"
proof -
  let ?h = "home t el" and ?c = "capacity t"
  have fr: "ht_frame bld t" using inv by (simp add: ht_inv_def)
  have h: "?h < ?c" "?h mod ?c = ?h" using fr by simp_all
  have elE: "el \<noteq> EMPTY_KEY" using el by auto
  show ?thesis
  proof (cases "el \<in> keys t")
    case True
    obtain d where d: "d < ?c" "array t ! ((?h + d) mod ?c) = el"
      "\<And>k. k < d \<Longrightarrow> array t ! ((?h + k) mod ?c) \<noteq> EMPTY_KEY"
      using key_position [OF inv True] by metis
    have "d < n" using d(1) n by simp
    from hopscotch_probe_found [OF this elE d(2,3)] True h show ?thesis by simp
  next
    case False
    have num: "num_of_keys t = card (used_slots t)" using inv by (simp add: ht_inv_def)
    obtain k where k: "k \<le> card (used_slots t)" "array t ! ((?h + k) mod ?c) = EMPTY_KEY"
      and before: "\<And>k'. k' < k \<Longrightarrow> array t ! ((?h + k') mod ?c) \<noteq> EMPTY_KEY"
      using nearest_free [OF fr _ h(1)] room num by metis
    let ?pos = "(?h + k) mod ?c"
    have kc: "k < ?c" using k(1) room num by simp
    have pc: "?pos < ?c" using h by simp
    have dist: "distance ?pos ?h ?c = k" using kc h by simp
    have "array t ! ((?h + k') mod ?c) \<noteq> el" if "k' < k" for k'
      using False keys_nth [of "(?h + k') mod ?c" t] h before [OF that] by auto
    moreover have "k < n" using kc n by simp
    ultimately have p: "hopscotch_probe t el n ?h = Some ?pos"
      using hopscotch_probe_stop [OF _ k(2) before] h by simp
    have np: "used_slots t - {?pos} = used_slots t" using k(2) by (auto simp: used_slots_def)
    have "hole bld el ?pos t"
      unfolding hole_def np dist
      using inv fr h pc False before num
      by (auto simp: ht_inv_def keys_def well_placed_def ht_frame_def Let_def)
    with p dist k(1) num False show ?thesis by auto
  qed
qed

section \<open>Insertion and reconstruction\<close>

text \<open>
  The ways an insertion may end without a table: the explicit exit after ten attempts, or an
  array too large to allocate.  Running out of the model's fuel is not among them.
\<close>

definition give_up :: "error \<Rightarrow> bool" where
  "give_up er \<longleftrightarrow> er = AllocFailed \<or> er = HopscotchFailed"

definition outcome :: "hash_table result \<Rightarrow> (hash_table \<Rightarrow> bool) \<Rightarrow> bool" where
  "outcome r P \<longleftrightarrow> (case r of Inl er \<Rightarrow> give_up er | Inr t \<Rightarrow> P t)"

lemma outcome_simps [simp]:
  "outcome (Inl er) P = give_up er"
  "outcome (Inr t) P = P t"
  by (simp_all add: outcome_def)

lemma outcome_bind:
  assumes "outcome r P" and "\<And>t. P t \<Longrightarrow> outcome (f t) Q"
  shows "outcome (bind_result r f) Q"
  using assms by (cases r) auto

text \<open>
  What \<open>hopscotchInsert\<close> needs of the reconstruction of tables with at least \<open>2 ^ m\<close> slots.
  The table may be one whose displacement stopped half way, so only its frame and its keys count.
\<close>

definition rebuilds :: "build \<Rightarrow> nat \<Rightarrow> (hash_table \<Rightarrow> hash_table result) \<Rightarrow> bool" where
  "rebuilds bld m rec \<longleftrightarrow>
     (\<forall>t. ht_frame bld t \<longrightarrow> 2 * card (keys t) \<le> capacity t \<longrightarrow> m \<le> M_hash t \<longrightarrow>
       outcome (rec t) (\<lambda>t'. ht_inv bld t' \<and> keys t' = keys t \<and> M_hash t \<le> M_hash t'))"

lemma rebuildsD:
  "rebuilds bld m rec \<Longrightarrow> ht_frame bld t \<Longrightarrow> 2 * card (keys t) \<le> capacity t \<Longrightarrow> m \<le> M_hash t \<Longrightarrow>
    outcome (rec t) (\<lambda>t'. ht_inv bld t' \<and> keys t' = keys t \<and> M_hash t \<le> M_hash t')"
  by (simp add: rebuilds_def)

lemma capacity_mono:
  "ht_inv bld t \<Longrightarrow> ht_inv bld' t' \<Longrightarrow> M_hash t \<le> M_hash t' \<Longrightarrow> capacity t \<le> capacity t'"
  by (simp add: ht_inv_def ht_frame_def)

lemma load_room:
  assumes "ht_inv bld t" and "2 * card (insert el (keys t)) \<le> capacity t"
  shows "num_of_keys t < capacity t" and "2 * card (keys t) \<le> capacity t"
proof -
  have "card (keys t) \<le> card (insert el (keys t))" by (intro card_mono) auto
  moreover have "0 < card (insert el (keys t))" by (simp add: card_gt_0_iff)
  ultimately show "num_of_keys t < capacity t" "2 * card (keys t) \<le> capacity t"
    using assms(2) num_of_keys_card [OF assms(1)] by simp_all
qed

lemma hopscotchTryInsert_correct:
  assumes rec: "rebuilds bld m rec" and inv: "ht_inv bld t" and hop: "USE_HOPSCOTCH bld"
    and el: "valid_key el" and load: "2 * card (insert el (keys t)) \<le> capacity t"
    and m: "m \<le> M_hash t"
  shows "case hopscotchTryInsert rec el t of Inl er \<Rightarrow> give_up er
    | Inr (success, t') \<Rightarrow> ht_inv bld t' \<and> M_hash t \<le> M_hash t' \<and>
        keys t' = (if success then insert el (keys t) else keys t)"
proof -
  note room = load_room [OF inv load]
  note probe = probe_correct [OF inv el room(1) order_refl]
  show ?thesis
  proof (cases "el \<in> keys t")
    case True
    then show ?thesis using probe inv by (simp add: hopscotchTryInsert_def insert_absorb)
  next
    case False
    with probe obtain pos where p: "hopscotch_probe t el (capacity t) (home t el) = Some pos"
      and hl: "hole bld el pos t" by auto
    have fr: "ht_frame bld t" and "pos < capacity t" using hl by (simp_all add: hole_def)
    moreover note home_less [OF fr, of el]
    ultimately have "distance pos (home t el) (capacity t) < Suc (capacity t)"
      using distance_less [of pos "capacity t" "home t el"] by linarith
    from displace_correct [OF hop hl this] obtain found pos' t'
      where d: "displace (Suc (capacity t)) (home t el) pos t = Inr (found, pos', t')"
        and hl': "hole bld el pos' t'" and k': "keys t' = keys t" "capacity t' = capacity t"
          "M_hash t' = M_hash t" "home t' el = home t el"
        and near: "found \<longrightarrow> distance pos' (home t el) (capacity t) < HS_BUCKET_SIZE" by blast
    show ?thesis
    proof (cases found)
      case True
      have "ht_frame bld t'" using hl' by (simp add: hole_def)
      then have "distance pos' (home t' el) (capacity t') < number_of_attempts t'"
        using near True k' hop by (simp add: ht_frame_def)
      from hole_fill [OF hl' el this] p d True k' show ?thesis
        by (simp add: hopscotchTryInsert_def Let_def)
    next
      case F: False
      have "ht_frame bld t'" using hl' by (simp add: hole_def)
      then have out: "outcome (rec t') (\<lambda>t''. ht_inv bld t'' \<and> keys t'' = keys t' \<and> M_hash t' \<le> M_hash t'')"
        using room(2) k' m by (intro rebuildsD [OF rec]) simp_all
      have "hopscotchTryInsert rec el t = bind_result (rec t') (\<lambda>t. Inr (False, t))"
        using p d F by (simp add: hopscotchTryInsert_def Let_def)
      with out k' show ?thesis by (cases "rec t'") auto
    qed
  qed
qed

lemma hopscotchInsert_loop_correct:
  assumes rec: "rebuilds bld m rec" and hop: "USE_HOPSCOTCH bld" and el: "valid_key el"
    and "ht_inv bld t" and "2 * card (insert el (keys t)) \<le> capacity t" and "m \<le> M_hash t"
  shows "outcome (hopscotchInsert_loop rec el cnt t)
    (\<lambda>t'. ht_inv bld t' \<and> keys t' = insert el (keys t) \<and> M_hash t \<le> M_hash t')"
  using assms(4-)
proof (induction cnt arbitrary: t)
  case 0
  show ?case by (simp add: give_up_def)
next
  case (Suc cnt)
  note attempt = hopscotchTryInsert_correct [OF rec Suc.prems(1) hop el Suc.prems(2,3)]
  show ?case
  proof (cases "hopscotchTryInsert rec el t")
    case (Inl er)
    with attempt show ?thesis by simp
  next
    case (Inr r)
    obtain success t1 where r: "r = (success, t1)" by (cases r)
    show ?thesis
    proof (cases success)
      case True
      with attempt Inr r show ?thesis by simp
    next
      case False
      with attempt Inr r have t1: "ht_inv bld t1" "M_hash t \<le> M_hash t1" "keys t1 = keys t" by simp_all
      have cap: "capacity t \<le> capacity t1" using capacity_mono Suc.prems(1) t1 by blast
      have "outcome (rec t1) (\<lambda>t2. ht_inv bld t2 \<and> keys t2 = keys t1 \<and> M_hash t1 \<le> M_hash t2)"
        using t1 Suc.prems(3) cap load_room(2) [OF Suc.prems(1,2)]
        by (intro rebuildsD [OF rec]) (simp_all add: ht_inv_def)
      then have "outcome (bind_result (rec t1) (hopscotchInsert_loop rec el cnt))
         (\<lambda>t'. ht_inv bld t' \<and> keys t' = insert el (keys t) \<and> M_hash t \<le> M_hash t')"
      proof (rule outcome_bind)
        fix t2 assume t2: "ht_inv bld t2 \<and> keys t2 = keys t1 \<and> M_hash t1 \<le> M_hash t2"
        have "capacity t1 \<le> capacity t2" using capacity_mono t1(1) t2 by blast
        then have "outcome (hopscotchInsert_loop rec el cnt t2)
           (\<lambda>t'. ht_inv bld t' \<and> keys t' = insert el (keys t2) \<and> M_hash t2 \<le> M_hash t')"
          using t1 t2 cap Suc.prems by (intro Suc.IH) auto
        with t1 t2 show "outcome (hopscotchInsert_loop rec el cnt t2)
           (\<lambda>t'. ht_inv bld t' \<and> keys t' = insert el (keys t) \<and> M_hash t \<le> M_hash t')"
          by (cases "hopscotchInsert_loop rec el cnt t2") auto
      qed
      with Inr r False show ?thesis by simp
    qed
  qed
qed

text \<open>The keys of a framed table are what its reconstruction reads off the array.\<close>

lemma keys_scan:
  assumes "ht_frame bld t"
  shows "keys t = {array t ! i | i. i < phys_capacity t \<and> array t ! i \<noteq> EMPTY_KEY \<and> array t ! i \<noteq> INVAL_KEY}"
proof -
  have "i < phys_capacity t \<and> array t ! i \<noteq> INVAL_KEY \<longleftrightarrow> i < capacity t" for i
    using assms frame_bounds(3) [OF assms] by (auto simp: ht_frame_def)
  then show ?thesis by (auto simp: keys_def used_slots_def)
qed

lemma keys_valid: "ht_frame bld t \<Longrightarrow> k \<in> keys t \<Longrightarrow> valid_key k"
  using INVAL_notin_keys [of bld t] by (auto simp: valid_key_def)

text \<open>Inserting the old keys one after the other.\<close>

lemma reinsert_all:
  assumes rec: "rebuilds bld m rec" and hop: "USE_HOPSCOTCH bld"
    and K: "finite K" "2 * card K \<le> c" and valid: "\<And>k. k \<in> K \<Longrightarrow> valid_key k"
    and old: "\<And>i. i < n \<Longrightarrow> old ! i \<noteq> EMPTY_KEY \<Longrightarrow> old ! i \<noteq> INVAL_KEY \<Longrightarrow> old ! i \<in> K"
    and t: "ht_inv bld t" "keys t = {}" "c \<le> capacity t" "m \<le> M_hash t"
  shows "outcome (fold_result (\<lambda>i t. if old ! i \<noteq> EMPTY_KEY \<and> old ! i \<noteq> INVAL_KEY
      then hopscotchInsert_loop rec (old ! i) cnt t else Inr t) [0..<n] t)
    (\<lambda>t'. ht_inv bld t' \<and> M_hash t \<le> M_hash t' \<and> c \<le> capacity t' \<and>
      keys t' = {old ! i | i. i < n \<and> old ! i \<noteq> EMPTY_KEY \<and> old ! i \<noteq> INVAL_KEY})"
  using old
proof (induction n)
  case 0
  then show ?case using t by simp
next
  case (Suc n)
  let ?step = "\<lambda>i t. if old ! i \<noteq> EMPTY_KEY \<and> old ! i \<noteq> INVAL_KEY
      then hopscotchInsert_loop rec (old ! i) cnt t else Inr t"
  let ?K = "\<lambda>n. {old ! i | i. i < n \<and> old ! i \<noteq> EMPTY_KEY \<and> old ! i \<noteq> INVAL_KEY}"
  have "outcome (bind_result (fold_result ?step [0..<n] t) (?step n))
      (\<lambda>t'. ht_inv bld t' \<and> M_hash t \<le> M_hash t' \<and> c \<le> capacity t' \<and> keys t' = ?K (Suc n))"
  proof (rule outcome_bind)
    show "outcome (fold_result ?step [0..<n] t)
      (\<lambda>t'. ht_inv bld t' \<and> M_hash t \<le> M_hash t' \<and> c \<le> capacity t' \<and> keys t' = ?K n)"
      using Suc.prems by (intro Suc.IH) auto
  next
    fix u assume u: "ht_inv bld u \<and> M_hash t \<le> M_hash u \<and> c \<le> capacity u \<and> keys u = ?K n"
    show "outcome (?step n u)
      (\<lambda>t'. ht_inv bld t' \<and> M_hash t \<le> M_hash t' \<and> c \<le> capacity t' \<and> keys t' = ?K (Suc n))"
    proof (cases "old ! n \<noteq> EMPTY_KEY \<and> old ! n \<noteq> INVAL_KEY")
      case True
      have Ku: "keys u = ?K n" using u by blast
      have "insert (old ! n) (keys u) \<subseteq> K"
        unfolding Ku using Suc.prems True by (auto simp: less_Suc_eq)
      from card_mono [OF K(1) this] have "card (insert (old ! n) (keys u)) \<le> card K" .
      then have load: "2 * card (insert (old ! n) (keys u)) \<le> capacity u" using K(2) u by linarith
      have v: "valid_key (old ! n)" using True by (simp add: valid_key_def)
      have "outcome (hopscotchInsert_loop rec (old ! n) cnt u)
        (\<lambda>t'. ht_inv bld t' \<and> keys t' = insert (old ! n) (keys u) \<and> M_hash u \<le> M_hash t')"
        using u load t(4) by (intro hopscotchInsert_loop_correct [OF rec hop v]) auto
      moreover have "?K (Suc n) = insert (old ! n) (?K n)" using True by (auto simp: less_Suc_eq)
      ultimately show ?thesis
        using True u capacity_mono by (cases "hopscotchInsert_loop rec (old ! n) cnt u") fastforce+
    next
      case False
      then have "?K (Suc n) = ?K n" by (auto simp: less_Suc_eq)
      with False u show ?thesis by auto
    qed
  qed
  moreover have "fold_result ?step [0..<Suc n] t = bind_result (fold_result ?step [0..<n] t) (?step n)"
    by (simp add: fold_result_snoc del: fold_result_append)
  ultimately show ?case by simp
qed

lemma hopscotchReconstruct_rebuilds:
  assumes hop: "USE_HOPSCOTCH bld"
  shows "rebuilds bld (31 - n) (hopscotchReconstruct bld e n)"
proof (induction n)
  case 0
  show ?case by (auto simp: rebuilds_def ht_frame_def)
next
  case (Suc n)
  show ?case
    unfolding rebuilds_def
  proof (intro allI impI)
    fix t assume fr: "ht_frame bld t" and load: "2 * card (keys t) \<le> capacity t"
      and m: "31 - Suc n \<le> M_hash t"
    have M: "M_hash t \<le> 30" and cap: "capacity t = 2 ^ M_hash t" using fr by (simp_all add: ht_frame_def)
    have ib: "index_bits (capacity t) = Suc (M_hash t)" using M unfolding cap by (intro index_bits_power) simp
    let ?P = "\<lambda>t'. ht_inv bld t' \<and> keys t' = keys t \<and> M_hash t \<le> M_hash t'"
    note res = reserve_correct [of "capacity t" bld e t]
    show "outcome (hopscotchReconstruct bld e (Suc n) t) ?P"
    proof (cases "index_bits (capacity t) \<le> 30")
      case True
      then obtain t1 where t1: "reserve bld e (capacity t) t = Inr t1" "ht_inv bld t1" "keys t1 = {}"
        "M_hash t1 = Suc (M_hash t)" "2 * capacity t \<le> capacity t1"
        using res frame_bounds(2,5) [OF fr] ib by auto
      have "outcome (fold_result (\<lambda>i t'. if array t ! i \<noteq> EMPTY_KEY \<and> array t ! i \<noteq> INVAL_KEY
          then hopscotchInsert_loop (hopscotchReconstruct bld e n) (array t ! i) 10 t' else Inr t')
          [0..<phys_capacity t] t1)
        (\<lambda>t'. ht_inv bld t' \<and> M_hash t1 \<le> M_hash t' \<and> capacity t \<le> capacity t' \<and>
          keys t' = {array t ! i | i. i < phys_capacity t \<and> array t ! i \<noteq> EMPTY_KEY \<and> array t ! i \<noteq> INVAL_KEY})"
        using t1 m
        by (intro reinsert_all [OF Suc.IH hop finite_keys load keys_valid [OF fr]])
          (auto simp: keys_scan [OF fr])
      then have "outcome (fold_result (\<lambda>i t'. if array t ! i \<noteq> EMPTY_KEY \<and> array t ! i \<noteq> INVAL_KEY
          then hopscotchInsert_loop (hopscotchReconstruct bld e n) (array t ! i) 10 t' else Inr t')
          [0..<phys_capacity t] t1) ?P"
        unfolding keys_scan [OF fr, symmetric] using t1(4)
        by (auto simp: outcome_def split: sum.splits)
      then show ?thesis using t1(1) by (simp add: Let_def)
    next
      case False
      then show ?thesis using res frame_bounds(2,5) [OF fr] by (simp add: give_up_def)
    qed
  qed
qed

lemma hopscotchInsert_correct:
  assumes "USE_HOPSCOTCH bld" and "valid_key el" and "ht_inv bld t"
    and "2 * card (insert el (keys t)) \<le> capacity t"
  shows "outcome (hopscotchInsert bld e el t)
    (\<lambda>t'. ht_inv bld t' \<and> keys t' = insert el (keys t) \<and> M_hash t \<le> M_hash t')"
  using hopscotchInsert_loop_correct
    [OF hopscotchReconstruct_rebuilds [OF assms(1), of 32 e] assms(1,2,3,4)]
  by (simp add: hopscotchInsert_def)

text \<open>Up to sixteen keys there is always a free slot near enough: no displacement, no failure.\<close>

lemma hopscotchInsert_small:
  assumes hop: "USE_HOPSCOTCH bld" and el: "valid_key el" and inv: "ht_inv bld t"
    and load: "2 * card (insert el (keys t)) \<le> capacity t" and small: "el \<in> keys t \<or> num_of_keys t < HS_BUCKET_SIZE"
  shows "\<exists>t'. hopscotchInsert bld e el t = Inr t' \<and> ht_inv bld t' \<and>
    keys t' = insert el (keys t) \<and> capacity t' = capacity t \<and> M_hash t' = M_hash t"
proof -
  note room = load_room [OF inv load]
  note probe = probe_correct [OF inv el room(1) order_refl]
  have one: "hopscotchInsert bld e el t = Inr t'"
    if "hopscotchTryInsert (hopscotchReconstruct bld e 32) el t = Inr (True, t')" for t'
    using that by (simp add: hopscotchInsert_def eval_nat_numeral)
  show ?thesis
  proof (cases "el \<in> keys t")
    case True
    with probe have "hopscotchTryInsert (hopscotchReconstruct bld e 32) el t = Inr (True, t)"
      by (simp add: hopscotchTryInsert_def)
    from one [OF this] True inv show ?thesis by (simp add: insert_absorb)
  next
    case False
    with probe obtain pos where p: "hopscotch_probe t el (capacity t) (home t el) = Some pos"
      and hl: "hole bld el pos t" and d: "distance pos (home t el) (capacity t) \<le> num_of_keys t"
      by auto
    have near: "distance pos (home t el) (capacity t) < HS_BUCKET_SIZE" using d small False by simp
    have "hopscotchTryInsert (hopscotchReconstruct bld e 32) el t =
        Inr (True, t\<lparr>array := (array t)[pos := el], num_of_keys := Suc (num_of_keys t)\<rparr>)"
      using p near by (simp add: hopscotchTryInsert_def Let_def)
    moreover have "distance pos (home t el) (capacity t) < number_of_attempts t"
      using near inv hop by (simp add: ht_inv_def ht_frame_def)
    ultimately show ?thesis using one hole_fill [OF hl el] by simp
  qed
qed

section \<open>Insertion without hopscotch\<close>

lemma insert_probe_eq:
  assumes "ht_frame bld t" and "pos < capacity t"
  shows "insert_probe t el n pos = Inr (hopscotch_probe t el n pos)"
  using assms
  by (induction n arbitrary: pos) (simp_all add: read_cell_def frame_bounds)

text \<open>
  With linear probing the scalar loop tries every slot, so a table with a free slot accepts any
  new key, and keeps a key it already has.
\<close>

lemma ht_insert_correct:
  assumes inv: "ht_inv bld t" and el: "valid_key el" and room: "num_of_keys t < capacity t"
    and build: "\<not> USE_AVX512 bld" "\<not> USE_HOPSCOTCH bld"
  shows "\<exists>t'. ht_insert bld el t = Inr t' \<and> ht_inv bld t' \<and> keys t' = insert el (keys t) \<and>
    capacity t' = capacity t \<and> M_hash t' = M_hash t"
proof -
  have fr: "ht_frame bld t" using inv by (simp add: ht_inv_def)
  have att: "number_of_attempts t = phys_capacity t" using fr build(2) by (simp add: ht_frame_def)
  have cap: "capacity t \<le> number_of_attempts t" using frame_bounds(3) [OF fr] att by simp
  note probe = probe_correct [OF inv el room cap]
  show ?thesis
  proof (cases "el \<in> keys t")
    case True
    with probe build(1) fr inv show ?thesis
      by (simp add: ht_insert_def insert_probe_eq [OF fr] insert_absorb)
  next
    case False
    with probe obtain pos where p: "hopscotch_probe t el (number_of_attempts t) (home t el) = Some pos"
      and hl: "hole bld el pos t" by auto
    have pos: "pos < capacity t" "pos < length (array t)"
      using hl frame_bounds(6) [OF fr] by (simp_all add: hole_def)
    have "distance pos (home t el) (capacity t) < number_of_attempts t"
      using distance_less [OF pos(1) home_less [OF fr, of el]] cap by linarith
    from hole_fill [OF hl el this] p pos(2) build(1) fr show ?thesis
      by (simp add: ht_insert_def insert_probe_eq [OF fr])
  qed
qed

end
