(* ===== verification/SimpleHashSet.thy ===== *)
theory SimpleHashSet
  imports UnrolledList Hopscotch
begin

text \<open>
  The set of \<^verbatim>\<open>include/SimpleHashSet.h\<close>: an unrolled list that \<open>hashSet\<close> can
  turn, once, into a hash table.  In list mode the set is iterated and shrunk, in table mode it
  answers lookups.  The set operations exist in a scalar and a vector version; the vector
  version compares a whole bucket of the list with the table at a time.

  A \<^verbatim>\<open>SimpleHashSet*\<close> argument that may be null is an option.  \<open>mem_type\<close>
  and the accounting of the memory logger are in \<open>MemAccount\<close>, \<open>my_chunk\<close> in \<open>SetPool\<close>.
\<close>

section \<open>State and simple operations\<close>

record simple_hash_set =
  isHashed :: bool
  elems :: ulist
  hashed_elems :: hash_table

definition create_set :: simple_hash_set where
  "create_set = \<lparr>isHashed = False, elems = UnrolledList, hashed_elems = SimpleHashTable\<rparr>"

text \<open>
  The copy constructor, and so \<open>clone\<close>, initialises neither \<open>isHashed\<close>, which has the
  value the memory happens to hold, nor the table from the original's.
\<close>

definition clone :: "bool \<Rightarrow> simple_hash_set \<Rightarrow> simple_hash_set" where
  "clone garbage s =
     \<lparr>isHashed = garbage, elems = UnrolledList_copy (elems s), hashed_elems = SimpleHashTable\<rparr>"

definition hs_size :: "simple_hash_set \<Rightarrow> nat" where
  "hs_size s = (if isHashed s then num_of_keys (hashed_elems s) else ul_size (elems s))"

definition hs_empty :: "simple_hash_set \<Rightarrow> bool" where
  "hs_empty s \<longleftrightarrow> hs_size s = 0"

definition add_elem :: "build \<Rightarrow> key \<Rightarrow> simple_hash_set \<Rightarrow> simple_hash_set result" where
  "add_elem bld el s =
     (if isHashed s
      then bind_result (ht_insert bld el (hashed_elems s)) (\<lambda>t. Inr (s\<lparr>hashed_elems := t\<rparr>))
      else Inr (s\<lparr>elems := push_back el (elems s)\<rparr>))"

definition del_elem :: "build \<Rightarrow> key \<Rightarrow> simple_hash_set \<Rightarrow> simple_hash_set" where
  "del_elem bld el s = (if isHashed s then s else s\<lparr>elems := remove bld el (elems s)\<rparr>)"

definition hs_contains :: "build \<Rightarrow> simple_hash_set \<Rightarrow> key \<Rightarrow> bool result" where
  "hs_contains bld s el =
     (if isHashed s then contains bld (hashed_elems s) el None else Inr False)"

definition get_first :: "simple_hash_set \<Rightarrow> key" where
  "get_first s = (if hs_empty s \<or> isHashed s then -1 else ul_front (elems s))"

definition get_last :: "simple_hash_set \<Rightarrow> key" where
  "get_last s = (if ul_empty (elems s) \<or> isHashed s then -1 else ul_back (elems s))"

definition hs_for_each :: "(key \<Rightarrow> 's \<Rightarrow> 's) \<Rightarrow> simple_hash_set \<Rightarrow> 's \<Rightarrow> 's" where
  "hs_for_each f s =
     (if isHashed s then ht_for_each f (hashed_elems s) else ul_for_each f (elems s))"

definition hs_get_next :: "simple_hash_set \<Rightarrow> key \<times> simple_hash_set" where
  "hs_get_next s =
     (if \<not> isHashed s then (let (x, l) = get_next (elems s) in (x, s\<lparr>elems := l\<rparr>)) else (-1, s))"

definition hs_reset_iterator :: "simple_hash_set \<Rightarrow> simple_hash_set" where
  "hs_reset_iterator s = (if \<not> isHashed s then s\<lparr>elems := reset_iterator (elems s)\<rparr> else s)"

definition hs_end_iter :: "simple_hash_set \<Rightarrow> bool" where
  "hs_end_iter s = (if \<not> isHashed s then end_iter (elems s) else False)"

section \<open>Hashing the list\<close>

definition hash_step :: "build \<Rightarrow> env \<Rightarrow> ulist \<times> hash_table \<Rightarrow> (ulist \<times> hash_table) result" where
  "hash_step bld e = (\<lambda>(l, t).
     bind_result (if USE_HOPSCOTCH bld then hopscotchInsert bld e (ul_back l) t
                  else ht_insert bld (ul_back l) t)
       (\<lambda>t. Inr (pop_back l, t)))"

definition hashSet :: "build \<Rightarrow> env \<Rightarrow> simple_hash_set \<Rightarrow> simple_hash_set result" where
  "hashSet bld e s =
     (if isHashed s then Inr s
      else let size = ul_size (elems s) in
        bind_result (reserve bld e size (hashed_elems s)) (\<lambda>t.
        bind_result (fold_result (\<lambda>i. hash_step bld e) [0..<size] (elems s, t)) (\<lambda>(l, t).
        Inr (s\<lparr>isHashed := True, elems := l, hashed_elems := t\<rparr>))))"

section \<open>Set operations\<close>

text \<open>
  The three binary operations answer a null pointer when the other set is null.  \<open>include\<close>
  appends the second set to the first without looking for common elements.
\<close>

definition set_include ::
  "simple_hash_set \<Rightarrow> simple_hash_set option \<Rightarrow> simple_hash_set option" where
  "set_include this other =
     (case other of None \<Rightarrow> None
      | Some other \<Rightarrow>
          let newSet = create_set;
              newSet = hs_for_each (\<lambda>node s. s\<lparr>elems := push_back node (elems s)\<rparr>) this newSet;
              newSet = hs_for_each (\<lambda>node s. s\<lparr>elems := push_back node (elems s)\<rparr>) other newSet
          in Some newSet)"

definition exclude ::
  "build \<Rightarrow> simple_hash_set \<Rightarrow> simple_hash_set option \<Rightarrow> simple_hash_set option result" where
  "exclude bld this other =
     (case other of None \<Rightarrow> Inr None
      | Some other \<Rightarrow>
          bind_result
            (hs_for_each (\<lambda>node novi. bind_result novi (\<lambda>novi.
               bind_result (hs_contains bld other node) (\<lambda>found.
                 Inr (if \<not> found then push_back node novi else novi)))) this (Inr (elems create_set)))
            (\<lambda>novi. Inr (Some (create_set\<lparr>elems := novi\<rparr>))))"

definition intersect_scalar ::
  "build \<Rightarrow> simple_hash_set \<Rightarrow> simple_hash_set \<Rightarrow> ulist result" where
  "intersect_scalar bld this other =
     hs_for_each (\<lambda>node novi. bind_result novi (\<lambda>novi.
       bind_result (hs_contains bld other node) (\<lambda>found.
         Inr (if found then push_back node novi else novi)))) this (Inr (elems create_set))"

definition intersection_size_scalar ::
  "build \<Rightarrow> simple_hash_set \<Rightarrow> simple_hash_set \<Rightarrow> nat result" where
  "intersection_size_scalar bld this other =
     hs_for_each (\<lambda>node size. bind_result size (\<lambda>size.
       bind_result (hs_contains bld other node) (\<lambda>found.
         Inr (if found then Suc size else size)))) this (Inr 0)"

text \<open>
  The vector loop over the buckets of a list.  \<open>list_end_mask\<close> selects the live lanes of the
  tail bucket; for the other buckets all lanes count.  The loop body is given the loaded vector
  and the mask of the lanes found in the table.
\<close>

definition list_end_mask :: "ulist \<Rightarrow> mmask16" where
  "list_end_mask l = push_bit (offset l + 1) 1 - 1"

definition lookup_window ::
  "build \<Rightarrow> hash_table \<Rightarrow> mmask16 \<Rightarrow> key list \<Rightarrow> nat \<Rightarrow> (m512 \<times> mmask16) result" where
  "lookup_window bld t tmp_end_mask bucket pom_offs =
     bind_result (loadu_epi32 bucket pom_offs) (\<lambda>load_vec.
       let full_mask = 0xFFFF;
           this_end_mask = (if pom_offs + 16 \<ge> ELEMS_IN_BUCKET then tmp_end_mask else full_mask)
       in bind_result (vector_lookup bld t load_vec this_end_mask) (\<lambda>found_mask.
            Inr (load_vec, found_mask)))"

definition for_each_window ::
  "build \<Rightarrow> ulist \<Rightarrow> hash_table \<Rightarrow> (m512 \<Rightarrow> mmask16 \<Rightarrow> 's \<Rightarrow> 's) \<Rightarrow> 's \<Rightarrow> 's result" where
  "for_each_window bld l t f s =
     fold_result (\<lambda>pom s.
       let tmp_end_mask = (if pom = tail_ix l then list_end_mask l else END_MASK) in
       fold_result (\<lambda>pom_offs s.
         bind_result (lookup_window bld t tmp_end_mask (buckets l ! pom) pom_offs)
           (\<lambda>(load_vec, found_mask). Inr (f load_vec found_mask s))) windows s)
       [0..<length (buckets l)] s"

definition push_found :: "m512 \<Rightarrow> mmask16 \<Rightarrow> ulist \<Rightarrow> ulist" where
  "push_found load_vec found_mask =
     fold (\<lambda>i novi. if found_mask AND push_bit i 1 \<noteq> 0 then push_back (load_vec ! i) novi else novi)
       [0..<16]"

definition intersect ::
  "build \<Rightarrow> simple_hash_set \<Rightarrow> simple_hash_set option \<Rightarrow> simple_hash_set option result" where
  "intersect bld this other =
     (case other of None \<Rightarrow> Inr None
      | Some other \<Rightarrow>
          bind_result
            (if USE_VECTOR_LOOKUP bld \<and> USE_AVX512 bld
             then for_each_window bld (elems this) (hashed_elems other) push_found (elems create_set)
             else intersect_scalar bld this other)
            (\<lambda>novi. Inr (Some (create_set\<lparr>elems := novi\<rparr>))))"

definition intersection_size ::
  "build \<Rightarrow> simple_hash_set \<Rightarrow> simple_hash_set option \<Rightarrow> nat result" where
  "intersection_size bld this other =
     (case other of None \<Rightarrow> Inr 0
      | Some other \<Rightarrow>
          if USE_VECTOR_LOOKUP bld \<and> USE_AVX512 bld
          then for_each_window bld (elems this) (hashed_elems other)
                 (\<lambda>load_vec found_mask size. size + popcnt_u32 found_mask) 0
          else intersection_size_scalar bld this other)"

section \<open>Invariant and abstraction\<close>

text \<open>
  A table that answers lookups: one sized by \<open>reserve\<close>, or one that is empty, such as the
  table of a set never hashed.  The vector lookup is used in the hopscotch build only.
\<close>

definition table_ok :: "build \<Rightarrow> hash_table \<Rightarrow> bool" where
  "table_ok bld t \<longleftrightarrow> (USE_AVX512 bld \<longrightarrow> USE_HOPSCOTCH bld) \<and>
     (ht_inv bld t \<or>
      num_of_keys t = 0 \<and> keys t = {} \<and> length (array t) = phys_capacity t \<and>
      capacity t \<le> phys_capacity t \<and>
      (\<forall>i < phys_capacity t. array t ! i = EMPTY_KEY \<or> array t ! i = INVAL_KEY))"

definition lookup_safe :: "build \<Rightarrow> hash_table \<Rightarrow> key \<Rightarrow> bool" where
  "lookup_safe bld t el \<longleftrightarrow>
     \<not> (USE_AVX512 bld \<and> num_of_keys t \<noteq> 0 \<and> load_past_end t el (home t el))"

definition hs_inv :: "build \<Rightarrow> simple_hash_set \<Rightarrow> bool" where
  "hs_inv bld s \<longleftrightarrow> ul_inv (elems s) \<and> list_all valid_key (to_list (elems s)) \<and>
     table_ok bld (hashed_elems s) \<and>
     (if isHashed s then to_list (elems s) = [] else keys (hashed_elems s) = {})"

text \<open>The keys in the order \<open>for_each\<close> visits them, and those a lookup finds.\<close>

definition table_keys :: "hash_table \<Rightarrow> key list" where
  "table_keys t = filter valid_key (map ((!) (array t)) [0..<phys_capacity t])"

definition iteration :: "simple_hash_set \<Rightarrow> key list" where
  "iteration s = (if isHashed s then table_keys (hashed_elems s) else to_list (elems s))"

definition members :: "simple_hash_set \<Rightarrow> key set" where
  "members s = keys (hashed_elems s)"

definition set_safe :: "build \<Rightarrow> simple_hash_set \<Rightarrow> key \<Rightarrow> bool" where
  "set_safe bld s el \<longleftrightarrow> lookup_safe bld (hashed_elems s) el"

lemma ht_for_each_fold: "ht_for_each f t s = fold f (table_keys t) s"
proof -
  have "fold (\<lambda>i s. if array t ! i \<noteq> EMPTY_KEY \<and> array t ! i \<noteq> INVAL_KEY then f (array t ! i) s else s) is s =
    fold f (filter valid_key (map ((!) (array t)) is)) s" for "is"
    by (induction "is" arbitrary: s) (simp_all add: valid_key_def)
  then show ?thesis by (simp add: ht_for_each_def table_keys_def)
qed

lemma hs_for_each_fold [hs_simps]:
  "ul_inv (elems s) \<Longrightarrow> hs_for_each f s st = fold f (iteration s) st"
  by (simp add: hs_for_each_def iteration_def ht_for_each_fold ul_simps)

lemma table_keys_set: "table_ok bld t \<Longrightarrow> set (table_keys t) = keys t"
  unfolding table_ok_def
proof (elim conjE disjE)
  assume "ht_inv bld t"
  then have fr: "ht_frame bld t" by (simp add: ht_inv_def)
  show ?thesis unfolding keys_scan [OF fr] by (auto simp: table_keys_def valid_key_def)
next
  assume "keys t = {}" "\<forall>i < phys_capacity t. array t ! i = EMPTY_KEY \<or> array t ! i = INVAL_KEY"
  then show ?thesis by (auto simp: table_keys_def valid_key_def)
qed

lemma table_keys_distinct:
  assumes "ht_inv bld t"
  shows "distinct (table_keys t)"
proof -
  have fr: "ht_frame bld t" and inj: "inj_on ((!) (array t)) (used_slots t)"
    using assms by (simp_all add: ht_inv_def)
  have "set (filter (\<lambda>i. valid_key (array t ! i)) [0..<phys_capacity t]) \<subseteq> used_slots t"
    using fr by (auto simp: used_slots_def ht_frame_def valid_key_def not_less)
  then have "inj_on ((!) (array t)) (set (filter (\<lambda>i. valid_key (array t ! i)) [0..<phys_capacity t]))"
    by (rule inj_on_subset [OF inj])
  then show ?thesis by (simp add: table_keys_def filter_map comp_def distinct_map)
qed

lemma iteration_valid: "hs_inv bld s \<Longrightarrow> x \<in> set (iteration s) \<Longrightarrow> valid_key x"
  by (auto simp: iteration_def hs_inv_def table_keys_def list_all_iff split: if_splits)

lemma create_set_inv [simp]:
  "(USE_AVX512 bld \<Longrightarrow> USE_HOPSCOTCH bld) \<Longrightarrow> hs_inv bld create_set"
  by (simp add: hs_inv_def create_set_def table_ok_def SimpleHashTable_def keys_def used_slots_def)

lemma create_set_iteration [simp]: "iteration create_set = []"
  by (simp add: iteration_def create_set_def)

text \<open>A list-mode set is one built by appending to a new set.\<close>

lemma list_set_inv:
  assumes "USE_AVX512 bld \<Longrightarrow> USE_HOPSCOTCH bld"
    and "ul_inv l" and "list_all valid_key (to_list l)"
  shows "hs_inv bld (create_set\<lparr>elems := l\<rparr>)" and "iteration (create_set\<lparr>elems := l\<rparr>) = to_list l"
  using assms create_set_inv [of bld]
  by (simp_all add: hs_inv_def iteration_def) (simp_all add: create_set_def)

section \<open>Lookup as an interface\<close>

text \<open>
  What the set operations ask of the second set: a query that answers membership, except that
  an unsafe query reads out of bounds.  The loop that queries every element of the first set is
  treated once, inside the locale.
\<close>

locale key_lookup =
  fixes ok :: "'t \<Rightarrow> bool"
    and has :: "'t \<Rightarrow> key set"
    and safe :: "'t \<Rightarrow> key \<Rightarrow> bool"
    and query :: "'t \<Rightarrow> key \<Rightarrow> bool result"
  assumes query: "ok t \<Longrightarrow> valid_key x \<Longrightarrow>
      query t x = (if safe t x then Inr (x \<in> has t) else Inl OutOfBounds)"
begin

lemma stopped_loop: "fold (\<lambda>x r. bind_result r (g x)) xs (Inl er) = Inl er"
  by (induction xs) simp_all

lemma query_loop:
  assumes "ok t" and "\<And>x. x \<in> set xs \<Longrightarrow> valid_key x"
  shows "fold (\<lambda>x r. bind_result r (\<lambda>s. bind_result (query t x) (\<lambda>found. Inr (act found x s)))) xs (Inr s) =
    (if \<forall>x \<in> set xs. safe t x then Inr (fold (\<lambda>x. act (x \<in> has t) x) xs s) else Inl OutOfBounds)"
  using assms(2) by (induction xs arbitrary: s) (simp_all add: query [OF assms(1)] stopped_loop)

lemma count_loop:
  assumes "ok t" and "\<And>x. x \<in> set xs \<Longrightarrow> valid_key x"
  shows "fold (\<lambda>x r. bind_result r (\<lambda>n. bind_result (query t x) (\<lambda>found. Inr (if found then Suc n else n)))) xs (Inr n) =
    (if \<forall>x \<in> set xs. safe t x then Inr (n + length (filter (\<lambda>x. x \<in> has t) xs)) else Inl OutOfBounds)"
  using assms(2) by (induction xs arbitrary: n) (simp_all add: query [OF assms(1)] stopped_loop)

end

locale selection = elem_list inv elems new push pop last_of size_of + key_lookup ok has safe query
  for inv :: "'l \<Rightarrow> bool" and elems :: "'l \<Rightarrow> key list" and new push pop last_of size_of
    and ok :: "'t \<Rightarrow> bool" and has safe query
begin

lemma select_loop:
  assumes "ok t" and "\<And>x. x \<in> set xs \<Longrightarrow> valid_key x"
  shows "\<exists>l'. fold (\<lambda>x r. bind_result r (\<lambda>l. bind_result (query t x) (\<lambda>found.
        Inr (if found then push x l else l)))) xs (Inr new) =
        (if \<forall>x \<in> set xs. safe t x then Inr l' else Inl OutOfBounds) \<and>
      inv l' \<and> elems l' = filter (\<lambda>x. x \<in> has t) xs"
  using query_loop [OF assms, where act = "\<lambda>found x l. if found then push x l else l" and s = new]
    push_filter [OF inv_new, of "\<lambda>x. x \<in> has t" xs]
  by (intro exI [of _ "fold (\<lambda>x l. if x \<in> has t then push x l else l) xs new"]) (simp add: elems_new)

lemma drop_loop:
  assumes "ok t" and "\<And>x. x \<in> set xs \<Longrightarrow> valid_key x"
  shows "\<exists>l'. fold (\<lambda>x r. bind_result r (\<lambda>l. bind_result (query t x) (\<lambda>found.
        Inr (if \<not> found then push x l else l)))) xs (Inr new) =
        (if \<forall>x \<in> set xs. safe t x then Inr l' else Inl OutOfBounds) \<and>
      inv l' \<and> elems l' = filter (\<lambda>x. x \<notin> has t) xs"
  using query_loop [OF assms, where act = "\<lambda>found x l. if \<not> found then push x l else l" and s = new]
    push_filter [OF inv_new, of "\<lambda>x. x \<notin> has t" xs]
  by (intro exI [of _ "fold (\<lambda>x l. if x \<notin> has t then push x l else l) xs new"]) (simp add: elems_new)

end

lemma table_query:
  assumes "table_ok bld t" and "valid_key x"
  shows "contains bld t x None = (if lookup_safe bld t x then Inr (x \<in> keys t) else Inl OutOfBounds)"
proof (cases "num_of_keys t = 0")
  case True
  then have "keys t = {}" using assms(1) num_of_keys_card [of bld t] by (auto simp: table_ok_def)
  with True show ?thesis by (simp add: contains_def lookup_safe_def)
next
  case False
  with assms(1) have "ht_inv bld t" "USE_AVX512 bld \<Longrightarrow> USE_HOPSCOTCH bld" by (auto simp: table_ok_def)
  from contains_correct [OF this(1) assms(2) this(2), of None] False show ?thesis
    by (simp add: lookup_safe_def)
qed

interpretation table: key_lookup "table_ok bld" keys "lookup_safe bld" "\<lambda>t x. contains bld t x None" for bld
  by unfold_locales (rule table_query)

lemma set_query:
  assumes "hs_inv bld s" and "valid_key x"
  shows "hs_contains bld s x = (if set_safe bld s x then Inr (x \<in> members s) else Inl OutOfBounds)"
proof (cases "isHashed s")
  case True
  with assms table_query [of bld "hashed_elems s" x] show ?thesis
    by (simp add: hs_inv_def hs_contains_def members_def set_safe_def)
next
  case False
  have t: "table_ok bld (hashed_elems s)" "keys (hashed_elems s) = {}"
    using assms(1) False by (simp_all add: hs_inv_def)
  then have "num_of_keys (hashed_elems s) = 0" using num_of_keys_card [of bld] by (auto simp: table_ok_def)
  with False t show ?thesis by (simp add: hs_contains_def members_def set_safe_def lookup_safe_def)
qed

interpretation hs: selection ul_inv to_list UnrolledList push_back pop_back ul_back ul_size
    "hs_inv bld" members "set_safe bld" "hs_contains bld" for bld
  by unfold_locales (rule set_query)

section \<open>The scalar operations\<close>

lemma elems_create_set [simp]: "elems create_set = UnrolledList"
  by (simp add: create_set_def)

lemma hs_inv_elems: "hs_inv bld s \<Longrightarrow> ul_inv (elems s)"
  by (simp add: hs_inv_def)

text \<open>Querying \<open>other\<close> with every key of \<open>this\<close> stays within its table.\<close>

definition all_safe :: "build \<Rightarrow> simple_hash_set \<Rightarrow> simple_hash_set \<Rightarrow> bool" where
  "all_safe bld this other \<longleftrightarrow> (\<forall>x \<in> set (iteration this). set_safe bld other x)"

lemma all_safe_scalar: "\<not> USE_AVX512 bld \<Longrightarrow> all_safe bld this other"
  by (simp add: all_safe_def set_safe_def lookup_safe_def)

lemma selected_set:
  assumes "hs_inv bld s" and "ul_inv l" and "to_list l = filter P (iteration s)"
  shows "hs_inv bld (create_set\<lparr>elems := l\<rparr>)" and "\<not> isHashed (create_set\<lparr>elems := l\<rparr>)"
    and "iteration (create_set\<lparr>elems := l\<rparr>) = filter P (iteration s)"
proof -
  have build: "USE_AVX512 bld \<Longrightarrow> USE_HOPSCOTCH bld" using assms(1) by (simp add: hs_inv_def table_ok_def)
  have "list_all valid_key (to_list l)"
    using iteration_valid [OF assms(1)] by (auto simp: list_all_iff assms(3))
  from list_set_inv [OF build assms(2) this] assms(3)
  show "hs_inv bld (create_set\<lparr>elems := l\<rparr>)"
    "iteration (create_set\<lparr>elems := l\<rparr>) = filter P (iteration s)" by simp_all
  show "\<not> isHashed (create_set\<lparr>elems := l\<rparr>)" by (simp add: create_set_def)
qed

lemma exclude_correct:
  assumes self: "hs_inv bld this" and other: "hs_inv bld other"
  shows "\<exists>novi. exclude bld this (Some other) =
      (if all_safe bld this other then Inr (Some novi) else Inl OutOfBounds) \<and>
    hs_inv bld novi \<and> \<not> isHashed novi \<and> iteration novi = filter (\<lambda>x. x \<notin> members other) (iteration this)"
proof -
  obtain l where l: "fold (\<lambda>x r. bind_result r (\<lambda>l. bind_result (hs_contains bld other x) (\<lambda>found.
        Inr (if \<not> found then push_back x l else l)))) (iteration this) (Inr UnrolledList) =
        (if \<forall>x \<in> set (iteration this). set_safe bld other x then Inr l else Inl OutOfBounds)"
    and "ul_inv l" "to_list l = filter (\<lambda>x. x \<notin> members other) (iteration this)"
    using hs.drop_loop [OF other iteration_valid [OF self]] by auto
  with selected_set [OF self] show ?thesis
    by (intro exI [of _ "create_set\<lparr>elems := l\<rparr>"])
      (simp add: exclude_def hs_for_each_fold [OF hs_inv_elems [OF self]] all_safe_def)
qed

lemma intersect_scalar_correct:
  assumes self: "hs_inv bld this" and other: "hs_inv bld other"
  shows "\<exists>l. intersect_scalar bld this other = (if all_safe bld this other then Inr l else Inl OutOfBounds) \<and>
    ul_inv l \<and> to_list l = filter (\<lambda>x. x \<in> members other) (iteration this)"
  using hs.select_loop [OF other iteration_valid [OF self]]
  by (auto simp: intersect_scalar_def hs_for_each_fold [OF hs_inv_elems [OF self]] all_safe_def)

lemma intersection_size_scalar_correct:
  assumes self: "hs_inv bld this" and other: "hs_inv bld other"
  shows "intersection_size_scalar bld this other = (if all_safe bld this other
    then Inr (length (filter (\<lambda>x. x \<in> members other) (iteration this))) else Inl OutOfBounds)"
  using hs.count_loop [OF other iteration_valid [OF self], where n = 0]
  by (simp add: intersection_size_scalar_def hs_for_each_fold [OF hs_inv_elems [OF self]] all_safe_def)

lemma set_include_correct:
  assumes self: "hs_inv bld this" and other: "hs_inv bld other"
  shows "\<exists>novi. set_include this (Some other) = Some novi \<and> hs_inv bld novi \<and> \<not> isHashed novi \<and>
    iteration novi = iteration this @ iteration other"
proof -
  have lift: "fold (\<lambda>node s. s\<lparr>elems := push_back node (elems s)\<rparr>) xs (s :: simple_hash_set) =
    s\<lparr>elems := fold push_back xs (elems s)\<rparr>" for xs s
    by (induction xs arbitrary: s) simp_all
  let ?l = "fold push_back (iteration other) (fold push_back (iteration this) UnrolledList)"
  have l: "ul_inv ?l" "to_list ?l = iteration this @ iteration other"
    using ul.push_all [OF ul_inv_new, of "iteration this"] ul.push_all by auto
  have build: "USE_AVX512 bld \<Longrightarrow> USE_HOPSCOTCH bld" using self by (simp add: hs_inv_def table_ok_def)
  have "list_all valid_key (to_list ?l)"
    using iteration_valid [OF self] iteration_valid [OF other] by (auto simp: list_all_iff l(2))
  from list_set_inv [OF build l(1) this] l(2) show ?thesis
    using hs_inv_elems [OF self] hs_inv_elems [OF other]
    by (intro exI [of _ "create_set\<lparr>elems := ?l\<rparr>"])
      (simp add: set_include_def hs_for_each_fold lift Let_def, simp add: create_set_def)
qed

section \<open>The vector operations\<close>

text \<open>The lanes of a vector that a mask selects, in order.\<close>

definition lanes :: "m512 \<Rightarrow> mmask16 \<Rightarrow> key list" where
  "lanes vec m = map ((!) vec) (filter (bit m) [0..<16])"

lemma push_found_lanes: "push_found vec m l = fold push_back (lanes vec m) l"
proof -
  have bit: "(m AND push_bit i 1 \<noteq> 0) = bit m i" for i
    by (auto simp: bit_iff_and_push_bit_not_eq_0)
  have "fold (\<lambda>i l. if bit m i then push_back (vec ! i) l else l) is l =
    fold push_back (map ((!) vec) (filter (bit m) is)) l" for "is"
    by (induction "is" arbitrary: l) simp_all
  then show ?thesis unfolding push_found_def lanes_def bit by simp
qed

lemma popcnt_lanes: "popcnt_u32 m = length (lanes vec m)"
  by (simp add: popcnt_u32_def lanes_def)

lemma lanes_filter:
  assumes "length vec = 16" and "n \<le> 16"
    and "\<And>i. i < 16 \<Longrightarrow> bit r i \<longleftrightarrow> i < n \<and> P (vec ! i)"
  shows "lanes vec r = filter P (take n vec)"
proof -
  have vec: "take n vec = map ((!) vec) [0..<n]"
    using assms(1,2) by (simp add: list_eq_iff_nth_eq)
  have "filter (bit r) [0..<16] = filter (\<lambda>i. i < n \<and> P (vec ! i)) [0..<16]"
    using assms(3) by (intro filter_cong) auto
  also have "\<dots> = filter (\<lambda>i. P (vec ! i)) [0..<n]"
  proof -
    have "[0..<16] = [0..<n] @ [n..<16]" using assms(2) by (metis le_add_diff_inverse upt_add_eq_append zero_le)
    then show ?thesis by simp (intro filter_cong refl, auto)
  qed
  finally show ?thesis by (simp add: lanes_def vec filter_map comp_def)
qed

text \<open>The live part of a bucket, and the list as the concatenation of the live parts.\<close>

definition live :: "ulist \<Rightarrow> nat \<Rightarrow> nat" where
  "live l pom = (if pom = tail_ix l then offset l + 1 else 16)"

lemma to_list_live:
  assumes "ul_inv l"
  shows "to_list l = concat (map (\<lambda>pom. take (live l pom) (buckets l ! pom)) [0..<length (buckets l)])"
proof (cases "buckets l" rule: rev_cases)
  case Nil
  then show ?thesis by (simp add: to_list_def)
next
  case (snoc bs t)
  have len: "length b = 16" if "b \<in> set bs" for b
    using assms that snoc by (simp add: ul_inv_def ELEMS_IN_BUCKET_16)
  then have flat: "length (concat bs) = 16 * length bs" by (intro length_concat_uniform) simp
  have "map (\<lambda>pom. take (live l pom) (buckets l ! pom)) [0..<length bs] = map ((!) bs) [0..<length bs]"
    using len snoc by (intro map_cong refl) (auto simp: live_def tail_ix_def nth_append)
  also have "\<dots> = bs" by (rule map_nth)
  finally show ?thesis
    using assms snoc flat by (simp add: to_list_def ul_inv_def live_def tail_ix_def ELEMS_IN_BUCKET_16)
qed

lemma end_mask_lanes:
  assumes "ul_inv l" and "pom < length (buckets l)" and "i < 16"
  shows "bit (if pom = tail_ix l then list_end_mask l else END_MASK) i \<longleftrightarrow> i < live l pom"
proof -
  have "buckets l \<noteq> []" using assms(2) by auto
  then have "offset l < 16" using ul_inv_nonempty(1) [OF assms(1)] by (simp add: ELEMS_IN_BUCKET_16)
  then show ?thesis
    using assms(3) bit_list_end_mask [of "offset l" i]
    by (simp add: live_def list_end_mask_def END_MASK_minus_1 less_Suc_eq_le)
qed

lemma vector_lookup_ok:
  assumes ok: "table_ok bld t" and avx: "USE_AVX512 bld" and len: "length els = 16"
    and valid: "\<And>i. i < 16 \<Longrightarrow> bit m i \<Longrightarrow> valid_key (els ! i)"
  shows "\<exists>r. vector_lookup bld t els m = (if \<forall>i < 16. bit m i \<longrightarrow> lookup_safe bld t (els ! i)
      then Inr r else Inl OutOfBounds) \<and>
    ((\<forall>i < 16. bit m i \<longrightarrow> lookup_safe bld t (els ! i)) \<longrightarrow>
      (\<forall>i < 16. bit r i \<longleftrightarrow> bit m i \<and> els ! i \<in> keys t))"
proof (cases "num_of_keys t = 0")
  case True
  then have "keys t = {}" using ok num_of_keys_card [of bld t] by (auto simp: table_ok_def)
  with True show ?thesis by (simp add: vector_lookup_def lookup_safe_def)
next
  case False
  have hop: "USE_HOPSCOTCH bld" and inv: "ht_inv bld t"
    using ok avx False by (auto simp: table_ok_def)
  have "(\<exists>i < 16. bit m i \<and> load_past_end t (els ! i) (home t (els ! i))) \<longleftrightarrow>
    \<not> (\<forall>i < 16. bit m i \<longrightarrow> lookup_safe bld t (els ! i))"
    using avx False by (auto simp: lookup_safe_def)
  with vector_lookup_correct [OF inv avx hop len valid] show ?thesis
    by (cases "\<forall>i < 16. bit m i \<longrightarrow> lookup_safe bld t (els ! i)") auto
qed

lemma for_each_window_correct:
  assumes inv: "ul_inv l" and ok: "table_ok bld t" and avx: "USE_AVX512 bld"
    and valid: "\<And>x. x \<in> set (to_list l) \<Longrightarrow> valid_key x"
    and f: "\<And>vec m s. f vec m s = g (lanes vec m) s"
    and g: "\<And>s. g [] s = s" "\<And>xs ys s. g (xs @ ys) s = g ys (g xs s)"
  shows "for_each_window bld l t f s = (if \<forall>x \<in> set (to_list l). lookup_safe bld t x
    then Inr (g (filter (\<lambda>x. x \<in> keys t) (to_list l)) s) else Inl OutOfBounds)"
proof -
  let ?K = "\<lambda>x. x \<in> keys t" and ?safe = "\<lambda>xs. \<forall>x \<in> set xs. lookup_safe bld t x"
  let ?part = "\<lambda>pom. take (live l pom) (buckets l ! pom)"
  let ?step = "\<lambda>pom s. let tmp_end_mask = (if pom = tail_ix l then list_end_mask l else END_MASK) in
       fold_result (\<lambda>pom_offs s.
         bind_result (lookup_window bld t tmp_end_mask (buckets l ! pom) pom_offs)
           (\<lambda>(load_vec, found_mask). Inr (f load_vec found_mask s))) windows s"
  have step: "?step pom s = (if ?safe (?part pom) then Inr (g (filter ?K (?part pom)) s) else Inl OutOfBounds)"
    if pom: "pom < length (buckets l)" for pom s
  proof -
    let ?b = "buckets l ! pom"
    let ?m = "if pom = tail_ix l then list_end_mask l else END_MASK"
    have len: "length ?b = 16" using inv pom by (simp add: ul_inv_def ELEMS_IN_BUCKET_16)
    have lv: "live l pom \<le> 16"
      using ul_inv_nonempty(1) [OF inv] pom
      by (cases "buckets l = []") (auto simp: live_def ELEMS_IN_BUCKET_16)
    have sub: "set (?part pom) \<subseteq> set (to_list l)" using pom by (auto simp: to_list_live [OF inv])
    have lane: "?b ! i \<in> set (?part pom)" if "i < 16" "bit ?m i" for i
      using end_mask_lanes [OF inv pom that(1)] that len by (auto simp: in_set_conv_nth)
    have all: "?safe (?part pom) \<longleftrightarrow> (\<forall>i < 16. bit ?m i \<longrightarrow> lookup_safe bld t (?b ! i))"
      using end_mask_lanes [OF inv pom] len lv by (auto simp: all_set_conv_all_nth)
    have "valid_key (?b ! i)" if "i < 16" "bit ?m i" for i using lane [OF that] sub valid by blast
    from vector_lookup_ok [where m = ?m, OF ok avx len this] obtain r where r: "vector_lookup bld t ?b ?m =
        (if ?safe (?part pom) then Inr r else Inl OutOfBounds)"
      and bits: "\<And>i. ?safe (?part pom) \<Longrightarrow> i < 16 \<Longrightarrow> bit r i \<longleftrightarrow> bit ?m i \<and> ?b ! i \<in> keys t"
      unfolding all [symmetric] by auto
    have "lanes ?b r = filter ?K (?part pom)" if "?safe (?part pom)"
      using bits [OF that] end_mask_lanes [OF inv pom] by (intro lanes_filter [OF len lv]) simp
    then show ?thesis
      using len r by (simp add: windows_single lookup_window_def loadu_epi32_def ELEMS_IN_BUCKET_16 f Let_def)
  qed
  let ?poms = "[0..<length (buckets l)]"
  have loop: "fold_result ?step ?poms s = (if \<forall>pom \<in> set ?poms. ?safe (?part pom)
      then Inr (fold (\<lambda>pom. g (filter ?K (?part pom))) ?poms s) else Inl OutOfBounds)"
    by (rule fold_result_guarded) (rule step, simp)
  have "fold (\<lambda>pom. g (filter ?K (?part pom))) poms s = g (filter ?K (concat (map ?part poms))) s" for poms
    by (induction poms arbitrary: s) (simp_all add: g)
  with loop show ?thesis unfolding for_each_window_def to_list_live [OF inv] by simp
qed

text \<open>In every build the intersection is the filter, or one out-of-bounds load.\<close>

lemma intersect_correct:
  assumes self: "hs_inv bld this" "\<not> isHashed this" and other: "hs_inv bld other"
  shows "\<exists>novi. intersect bld this (Some other) =
      (if all_safe bld this other then Inr (Some novi) else Inl OutOfBounds) \<and>
    hs_inv bld novi \<and> \<not> isHashed novi \<and> iteration novi = filter (\<lambda>x. x \<in> members other) (iteration this)"
proof -
  let ?xs = "filter (\<lambda>x. x \<in> members other) (iteration this)"
  have it: "iteration this = to_list (elems this)" using self(2) by (simp add: iteration_def)
  have "\<exists>l. (if USE_VECTOR_LOOKUP bld \<and> USE_AVX512 bld
      then for_each_window bld (elems this) (hashed_elems other) push_found (elems create_set)
      else intersect_scalar bld this other) = (if all_safe bld this other then Inr l else Inl OutOfBounds) \<and>
    ul_inv l \<and> to_list l = ?xs"
  proof (cases "USE_VECTOR_LOOKUP bld \<and> USE_AVX512 bld")
    case True
    have "for_each_window bld (elems this) (hashed_elems other) push_found (elems create_set) =
      (if all_safe bld this other then Inr (fold push_back ?xs (elems create_set)) else Inl OutOfBounds)"
      unfolding members_def all_safe_def set_safe_def it
      using other True iteration_valid [OF self(1)] it
      by (intro for_each_window_correct [OF hs_inv_elems [OF self(1)]])
        (auto simp: hs_inv_def push_found_lanes)
    with True ul.push_all [OF ul_inv_new, of ?xs] show ?thesis by auto
  next
    case False
    with intersect_scalar_correct [OF self(1) other] show ?thesis by auto
  qed
  then obtain l where l: "(if USE_VECTOR_LOOKUP bld \<and> USE_AVX512 bld
      then for_each_window bld (elems this) (hashed_elems other) push_found (elems create_set)
      else intersect_scalar bld this other) = (if all_safe bld this other then Inr l else Inl OutOfBounds)"
    and "ul_inv l" "to_list l = ?xs" by blast
  note sel = selected_set [OF self(1) this(2,3)]
  have "intersect bld this (Some other) =
    (if all_safe bld this other then Inr (Some (create_set\<lparr>elems := l\<rparr>)) else Inl OutOfBounds)"
    unfolding intersect_def option.case l by simp
  with sel show ?thesis by blast
qed

lemma intersection_size_correct:
  assumes self: "hs_inv bld this" "\<not> isHashed this" and other: "hs_inv bld other"
  shows "intersection_size bld this (Some other) = (if all_safe bld this other
    then Inr (length (filter (\<lambda>x. x \<in> members other) (iteration this))) else Inl OutOfBounds)"
proof (cases "USE_VECTOR_LOOKUP bld \<and> USE_AVX512 bld")
  case True
  have it: "iteration this = to_list (elems this)" using self(2) by (simp add: iteration_def)
  have "for_each_window bld (elems this) (hashed_elems other) (\<lambda>load_vec found_mask size.
      size + popcnt_u32 found_mask) 0 = (if all_safe bld this other
    then Inr (0 + length (filter (\<lambda>x. x \<in> members other) (to_list (elems this)))) else Inl OutOfBounds)"
    unfolding members_def all_safe_def set_safe_def it
    using other True iteration_valid [OF self(1)] it popcnt_lanes
    by (intro for_each_window_correct [OF hs_inv_elems [OF self(1)], where g = "\<lambda>xs n. n + length xs"])
      (auto simp: hs_inv_def)
  with True it show ?thesis by (simp add: intersection_size_def)
next
  case False
  with intersection_size_scalar_correct [OF self(1) other] show ?thesis
    by (auto simp: intersection_size_def)
qed

section \<open>Hashing\<close>

text \<open>
  One insertion into a table at most half full.  It can fail in the hopscotch build only, and
  only when more than sixteen keys are stored.
\<close>

lemma insert_one:
  assumes build: "USE_AVX512 bld \<Longrightarrow> USE_HOPSCOTCH bld" and el: "valid_key el" and inv: "ht_inv bld t"
    and load: "2 * card (insert el (keys t)) \<le> capacity t"
  shows "case if USE_HOPSCOTCH bld then hopscotchInsert bld e el t else ht_insert bld el t of
      Inl er \<Rightarrow> give_up er \<and> USE_HOPSCOTCH bld \<and> 16 < card (insert el (keys t))
    | Inr t' \<Rightarrow> ht_inv bld t' \<and> keys t' = insert el (keys t) \<and> M_hash t \<le> M_hash t'"
proof (cases "USE_HOPSCOTCH bld")
  case hop: True
  show ?thesis
  proof (cases "el \<in> keys t \<or> num_of_keys t < HS_BUCKET_SIZE")
    case True
    from hopscotchInsert_small [OF hop el inv load this, of e] hop show ?thesis by auto
  next
    case False
    then have "16 < card (insert el (keys t))"
      using num_of_keys_card [OF inv] by (simp add: HS_BUCKET_SIZE_16)
    with hopscotchInsert_correct [OF hop el inv load, of e] hop show ?thesis
      by (simp add: outcome_def split: sum.splits)
  qed
next
  case False
  have "num_of_keys t < capacity t" by (rule load_room(1) [OF inv load])
  moreover have "\<not> USE_AVX512 bld" using build False by blast
  ultimately show ?thesis using ht_insert_correct [OF inv el _ _ False] False by auto
qed

lemma hash_loop:
  assumes build: "USE_AVX512 bld \<Longrightarrow> USE_HOPSCOTCH bld"
    and "ul_inv l" and "list_all valid_key (to_list l)" and "ht_inv bld t"
    and "2 * card (set (to_list l) \<union> keys t) \<le> capacity t" and "length is = length (to_list l)"
  shows "case fold_result (\<lambda>i. hash_step bld e) is (l, t) of
      Inl er \<Rightarrow> give_up er \<and> USE_HOPSCOTCH bld \<and> 16 < card (set (to_list l) \<union> keys t)
    | Inr (l', t') \<Rightarrow> ul_inv l' \<and> to_list l' = [] \<and> ht_inv bld t' \<and> keys t' = set (to_list l) \<union> keys t"
  using assms(2-)
proof (induction "is" arbitrary: l t)
  case Nil
  then have "to_list l = []" by (simp del: length_to_list)
  with Nil show ?case by simp
next
  case (Cons i "is")
  then have ne: "to_list l \<noteq> []" by (auto simp del: length_to_list)
  from ul.split_last [OF Cons.prems(1) ne] obtain ys y where y: "to_list l = ys @ [y]"
    "ul_back l = y" "ul_inv (pop_back l)" "to_list (pop_back l) = ys" .
  have U: "set (to_list l) \<union> keys t = set ys \<union> insert y (keys t)" using y(1) by auto
  have el: "valid_key y" and vs: "list_all valid_key ys" using Cons.prems(2) y(1) by simp_all
  have sub: "card (insert y (keys t)) \<le> card (set (to_list l) \<union> keys t)"
    unfolding U by (intro card_mono) auto
  then have "2 * card (insert y (keys t)) \<le> capacity t" using Cons.prems(4) by linarith
  note one = insert_one [OF build el Cons.prems(3) this, of e]
  show ?case
  proof (cases "if USE_HOPSCOTCH bld then hopscotchInsert bld e y t else ht_insert bld y t")
    case (Inl er)
    with one sub y show ?thesis by (simp add: hash_step_def)
  next
    case (Inr t1)
    with one have t1: "ht_inv bld t1" "keys t1 = insert y (keys t)" "M_hash t \<le> M_hash t1" by simp_all
    have cap: "capacity t \<le> capacity t1" using capacity_mono Cons.prems(3) t1 by blast
    have "2 * card (set ys \<union> keys t1) \<le> capacity t1"
      using Cons.prems(4) cap unfolding U t1(2) by linarith
    then have "case fold_result (\<lambda>i. hash_step bld e) is (pop_back l, t1) of
        Inl er \<Rightarrow> give_up er \<and> USE_HOPSCOTCH bld \<and> 16 < card (set ys \<union> keys t1)
      | Inr (l', t') \<Rightarrow> ul_inv l' \<and> to_list l' = [] \<and> ht_inv bld t' \<and> keys t' = set ys \<union> keys t1"
      using Cons.IH [OF y(3) _ t1(1), unfolded y(4)] vs Cons.prems(5) y(1) by simp
    moreover have "hash_step bld e (l, t) = Inr (pop_back l, t1)"
      using Inr y(2) by (cases "USE_HOPSCOTCH bld") (simp_all add: hash_step_def)
    ultimately show ?thesis unfolding U t1(2) by simp
  qed
qed

lemma reserve_empty:
  assumes "shl_overflow e = Inr c"
  shows "\<exists>t'. reserve bld e 0 t = Inr t' \<and> num_of_keys t' = 0 \<and>
     keys t' = {} \<and> length (array t') = phys_capacity t' \<and> capacity t' \<le> phys_capacity t' \<and>
     (\<forall>i < phys_capacity t'. array t' ! i = EMPTY_KEY \<or> array t' ! i = INVAL_KEY)"
proof -
  have "c \<le> c + VECTOR_SIZE bld - 1" by (simp add: VECTOR_SIZE_def)
  with assms show ?thesis
    by (auto simp: reserve_def index_bits_0 shift_one_left_def Let_def keys_def used_slots_def nth_append
        split: prod.split)
qed

lemma hashSet_empty:
  assumes inv: "hs_inv bld s" and list: "\<not> isHashed s" and nil: "to_list (elems s) = []"
  shows "case hashSet bld e s of Inl er \<Rightarrow> shl_overflow e = Inl er
    | Inr s' \<Rightarrow> hs_inv bld s' \<and> isHashed s' \<and> members s' = {} \<and> hs_size s' = 0"
proof -
  have build: "USE_AVX512 bld \<Longrightarrow> USE_HOPSCOTCH bld" and ul: "ul_inv (elems s)"
    using inv by (auto simp: hs_inv_def table_ok_def)
  have run: "hashSet bld e s = bind_result (reserve bld e 0 (hashed_elems s))
      (\<lambda>t. Inr (s\<lparr>isHashed := True, elems := elems s, hashed_elems := t\<rparr>))"
    using list ul nil by (simp add: hashSet_def ul_simps)
  show ?thesis
  proof (cases "shl_overflow e")
    case (Inl er)
    then have "reserve bld e 0 (hashed_elems s) = Inl er"
      by (simp add: reserve_def index_bits_0 shift_one_left_def)
    with run Inl show ?thesis by simp
  next
    case (Inr c)
    from reserve_empty [OF this, of bld "hashed_elems s"] obtain t
      where t: "reserve bld e 0 (hashed_elems s) = Inr t" "num_of_keys t = 0" "table_ok bld t" "keys t = {}"
      using build by (auto simp: table_ok_def)
    with run nil ul show ?thesis by (simp add: hs_inv_def members_def hs_size_def)
  qed
qed

text \<open>
  Hashing a list-mode set: the table holds exactly the listed keys, the list is empty.  An empty
  set depends on what the target makes of \<open>1 << 32\<close>; a set of up to sixteen keys and, without
  hopscotch, any set, always hashes; a larger one may end in one of the two explicit failures.
\<close>

lemma hashSet_correct:
  assumes inv: "hs_inv bld s" and list: "\<not> isHashed s" and size: "length (to_list (elems s)) \<le> 2 ^ 28"
  shows "case hashSet bld e s of
      Inl er \<Rightarrow> (if to_list (elems s) = [] then shl_overflow e = Inl er
                 else give_up er \<and> USE_HOPSCOTCH bld \<and> 16 < card (set (to_list (elems s))))
    | Inr s' \<Rightarrow> hs_inv bld s' \<and> isHashed s' \<and> members s' = set (to_list (elems s)) \<and>
        hs_size s' = card (set (to_list (elems s)))"
proof -
  let ?xs = "to_list (elems s)"
  have build: "USE_AVX512 bld \<Longrightarrow> USE_HOPSCOTCH bld" and ul: "ul_inv (elems s)"
    and valid: "list_all valid_key ?xs" using inv by (auto simp: hs_inv_def table_ok_def)
  have sz: "ul_size (elems s) = length ?xs" using ul by (simp add: ul_simps)
  show ?thesis
  proof (cases "?xs = []")
    case True
    with hashSet_empty [OF inv list, of e] show ?thesis by (simp split: sum.splits)
  next
    case False
    then have pos: "0 < length ?xs" by simp
    have "length ?xs \<le> 2 ^ 30" using size by simp
    note res = reserve_correct [OF pos this, of bld e "hashed_elems s"]
    have "length ?xs < 2 ^ 31" using size by simp
    note ib = index_bits_bounds [OF pos this]
    have "(2 :: nat) ^ index_bits (length ?xs) < 2 ^ 30" using ib(4) size by simp
    then have "index_bits (length ?xs) < 30" by (rule power_less_imp_less_exp [rotated]) simp
    with res obtain t where t: "reserve bld e (length ?xs) (hashed_elems s) = Inr t"
      "ht_inv bld t" "keys t = {}" "2 * length ?xs \<le> capacity t" by auto
    have load: "2 * card (set ?xs \<union> keys t) \<le> capacity t"
      using t(3,4) card_length [of ?xs] by simp
    have run: "hashSet bld e s = bind_result (fold_result (\<lambda>i. hash_step bld e) [0..<length ?xs] (elems s, t))
        (\<lambda>(l, t). Inr (s\<lparr>isHashed := True, elems := l, hashed_elems := t\<rparr>))"
      using list sz t(1) by (simp add: hashSet_def)
    have len: "length [0..<length ?xs] = length ?xs" by simp
    note loop = hash_loop [OF build ul valid t(2) load len, of e]
    show ?thesis
    proof (cases "fold_result (\<lambda>i. hash_step bld e) [0..<length ?xs] (elems s, t)")
      case (Inl er)
      with loop run False t(3) show ?thesis by simp
    next
      case (Inr r)
      obtain l' t' where r: "r = (l', t')" by (cases r)
      with loop Inr t(3) have "ul_inv l'" "to_list l' = []" and t': "ht_inv bld t'" "keys t' = set ?xs"
        by simp_all
      with run Inr r build num_of_keys_card [OF t'(1)] show ?thesis
        by (simp add: hs_inv_def table_ok_def members_def hs_size_def)
    qed
  qed
qed

text \<open>Deleting from a list-mode set without repeated keys.\<close>

lemma del_elem_correct:
  assumes inv: "hs_inv bld s" and list: "\<not> isHashed s" and el: "el \<in> set (iteration s)"
    and dist: "distinct (iteration s)"
  shows "hs_inv bld (del_elem bld el s)" and "\<not> isHashed (del_elem bld el s)"
    and "distinct (iteration (del_elem bld el s))"
    and "set (iteration (del_elem bld el s)) = set (iteration s) - {el}"
proof -
  have ul: "ul_inv (elems s)" and it: "iteration s = to_list (elems s)"
    using inv list by (simp_all add: hs_inv_def iteration_def)
  have e: "el \<in> set (to_list (elems s))" "distinct (to_list (elems s))" using el dist it by simp_all
  note rm = remove_inv [OF ul e(1), of bld] remove_distinct [OF ul e, of bld]
  show "hs_inv bld (del_elem bld el s)"
    using inv list rm by (auto simp: hs_inv_def del_elem_def list_all_iff)
  show "\<not> isHashed (del_elem bld el s)" "distinct (iteration (del_elem bld el s))"
    "set (iteration (del_elem bld el s)) = set (iteration s) - {el}"
    using list rm it by (simp_all add: del_elem_def iteration_def)
qed

lemma get_first_correct:
  assumes "hs_inv bld s" and "\<not> isHashed s" and "iteration s \<noteq> []"
  shows "get_first s = hd (iteration s)"
proof -
  have ul: "ul_inv (elems s)" and it: "iteration s = to_list (elems s)"
    using assms by (simp_all add: hs_inv_def iteration_def)
  have "to_list (elems s) \<noteq> []" using assms(3) it by simp
  with ul_front_correct [OF ul this] ul_size_correct [OF ul] it assms(2) show ?thesis
    by (simp add: get_first_def hs_empty_def hs_size_def del: length_to_list)
qed

lemma hs_size_list: "hs_inv bld s \<Longrightarrow> \<not> isHashed s \<Longrightarrow> hs_size s = length (iteration s)"
  using ul_size_correct [of "elems s"] by (simp add: hs_size_def iteration_def hs_inv_def)

section \<open>Loops that can fail, and the errors that are accepted\<close>

text \<open>\<open>for_each\<close> with a callback that can fail.\<close>

definition hs_for_each_result ::
  "(key \<Rightarrow> 's \<Rightarrow> 's result) \<Rightarrow> simple_hash_set \<Rightarrow> 's \<Rightarrow> 's result" where
  "hs_for_each_result f s st = hs_for_each (\<lambda>x r. bind_result r (f x)) s (Inr st)"

lemma hs_for_each_result_fold [hs_simps]:
  assumes "hs_inv bld s"
  shows "hs_for_each_result f s st = fold_result f (iteration s) st"
proof -
  have stop: "fold (\<lambda>x r. bind_result r (f x)) xs (Inl er) = Inl er" for xs er
    by (induction xs) simp_all
  have "fold (\<lambda>x r. bind_result r (f x)) xs (Inr st) = fold_result f xs st" for xs
  proof (induction xs arbitrary: st)
    case (Cons x xs)
    then show ?case by (cases "f x st") (simp_all add: stop)
  qed simp
  then show ?thesis by (simp add: hs_for_each_result_def hs_for_each_fold [OF hs_inv_elems [OF assms]])
qed

text \<open>
  The errors a run may end with although its input is in order: the out-of-bounds load of the
  vector lookup, the two failures of hopscotch insertion, and the undefined shift when an empty
  set is hashed.  In a build without AVX-512 and hopscotch, on a target where the shift yields a
  value, no error is excused.
\<close>

definition excused :: "build \<Rightarrow> env \<Rightarrow> error \<Rightarrow> bool" where
  "excused bld e er \<longleftrightarrow> USE_AVX512 bld \<and> er = OutOfBounds \<or> USE_HOPSCOTCH bld \<and> give_up er \<or>
     shl_overflow e = Inl er"

definition ends :: "build \<Rightarrow> env \<Rightarrow> 'a result \<Rightarrow> ('a \<Rightarrow> bool) \<Rightarrow> bool" where
  "ends bld e r Q = (case r of Inl er \<Rightarrow> excused bld e er | Inr x \<Rightarrow> Q x)"

lemma ends_simps [simp]:
  "ends bld e (Inl er) Q = excused bld e er"
  "ends bld e (Inr x) Q = Q x"
  by (simp_all add: ends_def)

lemma ends_bind:
  assumes "ends bld e r Q" and "\<And>x. Q x \<Longrightarrow> ends bld e (f x) Q'"
  shows "ends bld e (bind_result r f) Q'"
  using assms by (cases r) simp_all

lemma ends_mono: "ends bld e r Q \<Longrightarrow> (\<And>x. Q x \<Longrightarrow> Q' x) \<Longrightarrow> ends bld e r Q'"
  by (cases r) simp_all

lemma ends_fold:
  assumes "Q [] s" and "\<And>xs x s. \<lbrakk>Q xs s; \<exists>zs. xs @ x # zs = ys\<rbrakk> \<Longrightarrow> ends bld e (f x s) (Q (xs @ [x]))"
  shows "ends bld e (fold_result f ys s) (Q ys)"
proof -
  have "ends bld e (fold_result f xs s) (Q xs)" if "\<exists>zs. xs @ zs = ys" for xs
    using that
  proof (induction xs rule: rev_induct)
    case Nil
    then show ?case using assms(1) by simp
  next
    case (snoc x xs)
    then have "ends bld e (fold_result f xs s) (Q xs)" by auto
    then show ?case
      unfolding fold_result_snoc by (rule ends_bind) (use snoc.prems in \<open>auto intro: assms(2)\<close>)
  qed
  then show ?thesis by blast
qed

lemma ends_total:
  assumes "ends bld e r Q" and "\<not> USE_AVX512 bld" and "\<not> USE_HOPSCOTCH bld" and "shl_overflow e = Inr c"
  shows "\<exists>x. r = Inr x \<and> Q x"
  using assms by (cases r) (simp_all add: excused_def)

text \<open>The set operations in this form.\<close>

lemma out_of_bounds_excused: "\<not> all_safe bld this other \<Longrightarrow> excused bld e OutOfBounds"
  using all_safe_scalar by (auto simp: excused_def)

text \<open>The list that \<open>exclude\<close> fills has never been iterated over.\<close>

lemma exclude_fresh:
  assumes "hs_inv bld this" and "exclude bld this (Some other) = Inr (Some novi)"
  shows "iter (elems novi) = None"
proof -
  have push: "iter (push_back x l) = iter l" for x l by (simp add: push_back_def set_elem_def Let_def)
  have stop: "fold (\<lambda>x r. bind_result r (g x)) xs (Inl er) = Inl er" for g :: "key \<Rightarrow> ulist \<Rightarrow> ulist result" and xs er
    by (induction xs) simp_all
  have "iter l' = None" if "fold (\<lambda>x r. bind_result r (\<lambda>l. bind_result (hs_contains bld other x) (\<lambda>found.
        Inr (if \<not> found then push_back x l else l)))) xs (Inr l) = Inr l'" "iter l = None" for xs l l'
    using that
  proof (induction xs arbitrary: l)
    case (Cons x xs)
    then show ?case by (cases "hs_contains bld other x") (auto simp: stop push split: if_splits)
  qed simp
  with assms show ?thesis
    by (fastforce simp: exclude_def hs_for_each_fold [OF hs_inv_elems [OF assms(1)]] create_set_def UnrolledList_def)
qed

lemma exclude_ends:
  assumes "hs_inv bld this" and "hs_inv bld other"
  shows "ends bld e (exclude bld this (Some other)) (\<lambda>r. \<exists>novi. r = Some novi \<and> hs_inv bld novi \<and>
    \<not> isHashed novi \<and> iter (elems novi) = None \<and> iteration novi = filter (\<lambda>x. x \<notin> members other) (iteration this))"
  using exclude_correct [OF assms] exclude_fresh [OF assms(1), of other] out_of_bounds_excused [of bld this other e] by auto

lemma intersect_ends:
  assumes "hs_inv bld this" and "\<not> isHashed this" and "hs_inv bld other"
  shows "ends bld e (intersect bld this (Some other)) (\<lambda>r. \<exists>novi. r = Some novi \<and> hs_inv bld novi \<and>
    \<not> isHashed novi \<and> iteration novi = filter (\<lambda>x. x \<in> members other) (iteration this))"
  using intersect_correct [OF assms] out_of_bounds_excused [of bld this other e] by auto

lemma intersection_size_ends:
  assumes "hs_inv bld this" and "\<not> isHashed this" and "hs_inv bld other"
  shows "ends bld e (intersection_size bld this (Some other))
    (\<lambda>n. n = length (filter (\<lambda>x. x \<in> members other) (iteration this)))"
  using intersection_size_correct [OF assms] out_of_bounds_excused [of bld this other e] by auto

lemma hashSet_ends:
  assumes "hs_inv bld s" and "\<not> isHashed s" and "length (iteration s) \<le> 2 ^ 28"
  shows "ends bld e (hashSet bld e s) (\<lambda>s'. hs_inv bld s' \<and> isHashed s' \<and> members s' = set (iteration s))"
proof -
  have "iteration s = to_list (elems s)" using assms(2) by (simp add: iteration_def)
  with hashSet_correct [of bld s e] assms show ?thesis
    by (auto simp: ends_def excused_def split: sum.splits if_splits)
qed

end
