(* ===== verification/CliqueSpec.thy ===== *)
theory CliqueSpec
  imports Main "HOL-Library.Multiset"
begin

text \<open>
  The abstract specification of the enumeration: cliques and maximal cliques of an undirected
  graph, and the recursion over a set \<open>P\<close> of candidates and a set \<open>X\<close> of vertices already
  dealt with, as an equation on sets of cliques.  Nothing here refers to the program's data.
\<close>

section \<open>Graphs and cliques\<close>

locale ugraph =
  fixes adj :: "'v \<Rightarrow> 'v set"
  assumes adj_irrefl: "v \<notin> adj v"
    and adj_sym: "w \<in> adj v \<Longrightarrow> v \<in> adj w"
begin

definition clique :: "'v set \<Rightarrow> bool" where
  "clique C \<longleftrightarrow> (\<forall>v \<in> C. \<forall>w \<in> C. v \<noteq> w \<longrightarrow> w \<in> adj v)"

text \<open>
  The cliques within \<open>P\<close> that no vertex of \<open>P \<union> X\<close> outside them extends.
\<close>

definition extensions :: "'v set \<Rightarrow> 'v set \<Rightarrow> 'v set set" where
  "extensions P X = {C. C \<subseteq> P \<and> clique C \<and> \<not> (\<exists>w \<in> (P \<union> X) - C. C \<subseteq> adj w)}"

lemma extensions_finite: "finite P \<Longrightarrow> finite (extensions P X)"
  by (rule finite_subset [of _ "Pow P"]) (auto simp: extensions_def)

lemma extensions_empty: "extensions {} X = (if X = {} then {{}} else {})"
  by (auto simp: extensions_def clique_def)

lemma extensions_nonempty_member: "C \<in> extensions P X \<Longrightarrow> P \<noteq> {} \<Longrightarrow> C \<noteq> {}"
  by (auto simp: extensions_def)

lemma clique_insert:
  "v \<notin> C \<Longrightarrow> clique (insert v C) \<longleftrightarrow> clique C \<and> C \<subseteq> adj v"
proof -
  assume "v \<notin> C"
  then have "clique (insert v C) \<longleftrightarrow> clique C \<and> (\<forall>w \<in> C. w \<in> adj v \<and> v \<in> adj w)"
    by (auto simp: clique_def)
  then show ?thesis using adj_sym by auto
qed

text \<open>One round of the loop: the cliques with \<open>v\<close>, and those that remain once \<open>v\<close> has moved to \<open>X\<close>.\<close>

lemma extensions_split:
  assumes "v \<in> P"
  shows "extensions P X =
    insert v ` extensions (P \<inter> adj v) (X \<inter> adj v) \<union> extensions (P - {v}) (insert v X)"
    and "insert v ` extensions (P \<inter> adj v) (X \<inter> adj v) \<inter> extensions (P - {v}) (insert v X) = {}"
proof -
  have with_v: "C \<in> insert v ` extensions (P \<inter> adj v) (X \<inter> adj v)" if "C \<in> extensions P X" "v \<in> C" for C
  proof
    let ?D = "C - {v}"
    show C: "C = insert v ?D" using that(2) by auto
    have "clique (insert v ?D)" using that C by (simp add: extensions_def)
    then have D: "clique ?D" "?D \<subseteq> adj v" using clique_insert [of v ?D] by simp_all
    have "\<not> ?D \<subseteq> adj w" if w: "w \<in> (P \<inter> adj v) \<union> (X \<inter> adj v)" "w \<notin> ?D" for w
    proof
      assume "?D \<subseteq> adj w"
      moreover have "v \<in> adj w" using w(1) adj_sym by auto
      ultimately have "C \<subseteq> adj w" using C by auto
      moreover have "w \<noteq> v" using w(1) adj_irrefl by auto
      ultimately show False
        using w \<open>C \<in> extensions P X\<close> by (auto simp: extensions_def)
    qed
    with D that show "?D \<in> extensions (P \<inter> adj v) (X \<inter> adj v)"
      by (auto simp: extensions_def)
  qed
  have into: "insert v D \<in> extensions P X" if "D \<in> extensions (P \<inter> adj v) (X \<inter> adj v)" for D
  proof -
    have D: "D \<subseteq> P" "D \<subseteq> adj v" "clique D" using that by (auto simp: extensions_def)
    then have "v \<notin> D" using adj_irrefl by auto
    have "\<not> insert v D \<subseteq> adj w" if w: "w \<in> (P \<union> X) - insert v D" for w
      using that \<open>D \<in> _\<close> adj_sym [of v w] by (auto simp: extensions_def)
    with D assms \<open>v \<notin> D\<close> show ?thesis by (auto simp: extensions_def clique_insert)
  qed
  have without: "C \<in> extensions (P - {v}) (insert v X) \<longleftrightarrow> C \<in> extensions P X \<and> v \<notin> C" for C
    using assms by (auto simp: extensions_def)
  show "extensions P X =
    insert v ` extensions (P \<inter> adj v) (X \<inter> adj v) \<union> extensions (P - {v}) (insert v X)"
    using with_v into without by blast
  show "insert v ` extensions (P \<inter> adj v) (X \<inter> adj v) \<inter> extensions (P - {v}) (insert v X) = {}"
    using without by auto
qed

text \<open>
  Once every vertex outside the neighbourhood of a pivot has been dealt with, nothing is left:
  the pivot itself extends whatever remains.
\<close>

lemma extensions_pivot:
  assumes "u \<in> P \<union> X" and "P \<subseteq> adj u"
  shows "extensions P X = {}"
  using assms adj_irrefl [of u] by (fastforce simp: extensions_def)

text \<open>Inserting the vertex that was branched on is injective on what the branch returns.\<close>

lemma inj_on_insert_branch: "inj_on (insert v) (extensions (P \<inter> adj v) (X \<inter> adj v))"
proof (rule inj_onI)
  fix C D assume "C \<in> extensions (P \<inter> adj v) (X \<inter> adj v)" "D \<in> extensions (P \<inter> adj v) (X \<inter> adj v)"
    and eq: "insert v C = insert v D"
  then have "v \<notin> C" "v \<notin> D" using adj_irrefl by (auto simp: extensions_def)
  with eq show "C = D" by (simp add: insert_ident)
qed

section \<open>Counting by size\<close>

text \<open>
  How many cliques of each size the recursion at \<open>(R, P, X)\<close> reports, \<open>r\<close> being the size of
  \<open>R\<close>.
\<close>

definition report :: "nat \<Rightarrow> 'v set \<Rightarrow> 'v set \<Rightarrow> nat \<Rightarrow> nat" where
  "report r P X k = card {C \<in> extensions P X. r + card C = k}"

lemma report_leaf: "report r {} X k = (if X = {} \<and> r = k then 1 else 0)"
proof -
  have "{C \<in> extensions {} X. r + card C = k} = (if X = {} \<and> r = k then {{}} else {})"
    by (auto simp: extensions_empty)
  then show ?thesis by (simp add: report_def)
qed

lemma report_split:
  assumes fin: "finite P" and v: "v \<in> P"
  shows "report r P X k =
    report (Suc r) (P \<inter> adj v) (X \<inter> adj v) k + report r (P - {v}) (insert v X) k"
proof -
  let ?E = "extensions (P \<inter> adj v) (X \<inter> adj v)" and ?F = "extensions (P - {v}) (insert v X)"
  have card: "card (insert v C) = Suc (card C)" if "C \<in> ?E" for C
  proof -
    have "C \<subseteq> P \<inter> adj v" using that by (simp add: extensions_def)
    then have "finite C" "v \<notin> C" using fin adj_irrefl finite_subset by blast+
    then show ?thesis by simp
  qed
  have "{C \<in> extensions P X. r + card C = k} =
    insert v ` {C \<in> ?E. Suc r + card C = k} \<union> {C \<in> ?F. r + card C = k}"
    unfolding extensions_split(1) [OF v, of X] using card by auto
  moreover have "card \<dots> = card (insert v ` {C \<in> ?E. Suc r + card C = k}) + card {C \<in> ?F. r + card C = k}"
    using extensions_split(2) [OF v, of X] fin
    by (intro card_Un_disjoint) (auto intro: finite_subset [OF _ extensions_finite])
  moreover have "card (insert v ` {C \<in> ?E. Suc r + card C = k}) = card {C \<in> ?E. Suc r + card C = k}"
    by (rule card_image) (rule inj_on_subset [OF inj_on_insert_branch], auto)
  ultimately show ?thesis by (simp add: report_def)
qed

lemma report_pivot: "u \<in> P \<union> X \<Longrightarrow> P \<subseteq> adj u \<Longrightarrow> report r P X k = 0"
  by (simp add: report_def extensions_pivot)

text \<open>The whole loop over the candidates \<open>vs\<close>: what the branches report adds up.\<close>

fun branches :: "nat \<Rightarrow> 'v set \<Rightarrow> 'v set \<Rightarrow> 'v list \<Rightarrow> nat \<Rightarrow> nat" where
  "branches r P X [] k = 0"
| "branches r P X (v # vs) k =
     report (Suc r) (P \<inter> adj v) (X \<inter> adj v) k + branches r (P - {v}) (insert v X) vs k"

lemma report_branches:
  assumes "finite P" and "distinct vs" and "set vs \<subseteq> P"
  shows "report r P X k = branches r P X vs k + report r (P - set vs) (X \<union> set vs) k"
  using assms
proof (induction vs arbitrary: P X)
  case (Cons v vs)
  have v: "v \<in> P" using Cons.prems by simp
  have rest: "report r (P - {v}) (insert v X) k =
    branches r (P - {v}) (insert v X) vs k + report r (P - {v} - set vs) (insert v X \<union> set vs) k"
    using Cons.prems by (intro Cons.IH) auto
  have eq: "P - {v} - set vs = P - set (v # vs)" "insert v X \<union> set vs = X \<union> set (v # vs)" by auto
  show ?case unfolding report_split [OF Cons.prems(1) v, of r X k] rest eq branches.simps by simp
qed simp

theorem report_by_pivot:
  assumes "finite P" and "u \<in> P \<union> X" and "distinct vs" and "set vs = P - adj u"
  shows "report r P X k = branches r P X vs k"
proof -
  have "report r (P - set vs) (X \<union> set vs) k = 0"
    using assms(2,4) by (intro report_pivot [of u]) auto
  with report_branches [of P vs r X k] assms show ?thesis by auto
qed

section \<open>The cut at a maximal size\<close>

text \<open>With a bound on the size, a node whose \<open>P\<close> is not empty and whose \<open>R\<close> has reached it reports nothing.\<close>

lemma report_large:
  assumes "finite P" and "P \<noteq> {}" and "k \<le> r"
  shows "report r P X k = 0"
proof -
  have "r + card C \<noteq> k" if "C \<in> extensions P X" for C
  proof -
    have "C \<noteq> {}" "C \<subseteq> P" using extensions_nonempty_member [OF that assms(2)] that
      by (auto simp: extensions_def)
    then have "0 < card C" using assms(1) by (auto simp: card_gt_0_iff intro: finite_subset)
    then show ?thesis using assms(3) by simp
  qed
  then have "{C \<in> extensions P X. r + card C = k} = {}" by blast
  then show ?thesis unfolding report_def by (simp only: card.empty)
qed

end

section \<open>Maximal cliques of the whole graph\<close>

text \<open>
  The top level branches once on every vertex, with the later neighbours in \<open>P\<close> and the
  earlier ones in \<open>X\<close>, for a linear order of the vertices given by a list.
\<close>

locale finite_ugraph = ugraph adj for adj :: "'v \<Rightarrow> 'v set" +
  fixes V :: "'v set"
  assumes finite_V: "finite V" and adj_V: "adj v \<subseteq> V"
begin

definition maximal_clique :: "'v set \<Rightarrow> bool" where
  "maximal_clique C \<longleftrightarrow> C \<subseteq> V \<and> clique C \<and> (\<forall>w \<in> V - C. \<not> clique (insert w C))"

lemma maximal_cliques: "maximal_clique C \<longleftrightarrow> C \<in> extensions V {}"
  using clique_insert by (auto simp: maximal_clique_def extensions_def)

text \<open>
  The branch of a vertex depends only on its earlier and its later neighbours, in the order of
  a key function.
\<close>

lemma branches_roots:
  fixes f :: "'v \<Rightarrow> 'o :: linorder"
  assumes "sorted (map f vs)" and "inj_on f A" and "distinct vs" and "set us \<inter> set vs = {}"
    and "\<And>u v. u \<in> set us \<Longrightarrow> v \<in> set vs \<Longrightarrow> f u < f v" and "set us \<union> set vs = A"
  shows "branches r (set vs) (set us) vs k =
    (\<Sum>v \<leftarrow> vs. report (Suc r) {w \<in> A \<inter> adj v. f v < f w} {w \<in> A \<inter> adj v. f w < f v} k)"
  using assms
proof (induction vs arbitrary: us)
  case (Cons v vs)
  have lt: "f v < f w" if "w \<in> set vs" for w
  proof -
    have "v \<in> A" "w \<in> A" "v \<noteq> w" "f v \<le> f w" using that Cons.prems by auto
    then show ?thesis using Cons.prems(2) by (metis inj_onD order_le_less)
  qed
  have P: "{w \<in> A \<inter> adj v. f v < f w} = set (v # vs) \<inter> adj v"
    using lt Cons.prems(5) [of _ v] Cons.prems(6) adj_irrefl [of v] by fastforce
  have X: "{w \<in> A \<inter> adj v. f w < f v} = set us \<inter> adj v"
    using lt Cons.prems(5) [of _ v] Cons.prems(6) adj_irrefl [of v] by fastforce
  have "branches r (set vs) (set (v # us)) vs k =
    (\<Sum>v \<leftarrow> vs. report (Suc r) {w \<in> A \<inter> adj v. f v < f w} {w \<in> A \<inter> adj v. f w < f v} k)"
    using Cons.prems lt by (intro Cons.IH) auto
  moreover have "set (v # vs) - {v} = set vs" using Cons.prems(3) by auto
  ultimately show ?case unfolding branches.simps list.map sum_list.Cons P X by simp
qed simp

theorem report_roots:
  fixes f :: "'v \<Rightarrow> 'o :: linorder"
  assumes f: "inj_on f V" and "V \<noteq> {}"
  shows "card {C. maximal_clique C \<and> card C = k} =
    (\<Sum>v \<in> V. report 1 {w \<in> adj v. f v < f w} {w \<in> adj v. f w < f v} k)"
proof -
  obtain us where us: "set us = V" "distinct us" using finite_distinct_list [OF finite_V] by blast
  define vs where "vs = sort_key f us"
  have vs: "set vs = V" "distinct vs" "sorted (map f vs)" using us by (simp_all add: vs_def)
  have "card {C. maximal_clique C \<and> card C = k} = report 0 (set vs) {} k"
    by (simp add: report_def maximal_cliques vs)
  also have "\<dots> = branches 0 (set vs) {} vs k + report 0 (set vs - set vs) ({} \<union> set vs) k"
    using vs by (intro report_branches) auto
  also have "report 0 (set vs - set vs) ({} \<union> set vs) k = 0"
    using assms vs by (simp add: report_leaf)
  also have "branches 0 (set vs) {} vs k =
    (\<Sum>v \<leftarrow> vs. report 1 {w \<in> V \<inter> adj v. f v < f w} {w \<in> V \<inter> adj v. f w < f v} k)"
    using branches_roots [of f vs V "[]"] vs f by simp
  also have "\<dots> = (\<Sum>v \<in> V. report 1 {w \<in> V \<inter> adj v. f v < f w} {w \<in> V \<inter> adj v. f w < f v} k)"
    using vs by (simp add: sum_list_distinct_conv_sum_set)
  also have "\<dots> = (\<Sum>v \<in> V. report 1 {w \<in> adj v. f v < f w} {w \<in> adj v. f w < f v} k)"
    using adj_V by (intro sum.cong refl arg_cong [where f = "\<lambda>S. report 1 S _ k"] arg_cong2 [where f = "\<lambda>S T. report 1 S T k"]) auto
  finally show ?thesis by simp
qed

end

end
