(* ===== verification/Graph.thy ===== *)
theory Graph
  imports SimpleHashSet CliqueSpec "HOL-Library.AList"
begin

text \<open>
  The graph of \<^verbatim>\<open>include/Graph.h\<close> and \<^verbatim>\<open>src/Graph.cpp\<close>: an adjacency map
  from vertices to sets, the vertex ordering with its inverse, and the operations on them:
  adding edges, sub-graphs, the choice of a pivot and the degeneracy ordering.

  The \<^verbatim>\<open>unordered_map\<close> of adjacency sets is an association list without repeated keys.
  In what order the library iterates over it is unspecified and a parameter, as is the element
  \<open>begin()\<close> points to in an \<^verbatim>\<open>unordered_set\<close>.
\<close>

section \<open>State\<close>

record library =
  map_order :: "key list \<Rightarrow> key list"
  set_begin :: "key list \<Rightarrow> key"

record graph =
  adjList :: "(key \<times> simple_hash_set) list"
  vertexOrdering :: "key list"
  backwardsMapping :: "key \<Rightarrow> nat option"
  nodeNo :: int
  edgeNo :: int
  maxdeg :: int
  degeneracy :: int
  pivot_node :: key

definition Graph :: "int \<Rightarrow> graph" where
  "Graph V = \<lparr>adjList = [], vertexOrdering = [], backwardsMapping = (\<lambda>_. None), nodeNo = V,
     edgeNo = 0, maxdeg = -1, degeneracy = -1, pivot_node = -1\<rparr>"

text \<open>
  \<open>operator[]\<close> answers a null pointer for a missing vertex, and adds it with that null pointer to
  the map; the entry it adds is not kept here, since no caller goes on after meeting one.
\<close>

definition getAdjacentNodes :: "graph \<Rightarrow> key \<Rightarrow> simple_hash_set option" where
  "getAdjacentNodes g node = map_of (adjList g) node"

definition getMappedNode :: "graph \<Rightarrow> nat \<Rightarrow> key result" where
  "getMappedNode g i = read_cell (vertexOrdering g) i"

definition getNodePosition :: "graph \<Rightarrow> key \<Rightarrow> nat" where
  "getNodePosition g v = (case backwardsMapping g v of None \<Rightarrow> 0 | Some i \<Rightarrow> i)"

definition setAdjacentNodes :: "key \<Rightarrow> simple_hash_set \<Rightarrow> graph \<Rightarrow> graph" where
  "setAdjacentNodes node alist g =
     (let g = g\<lparr>adjList := AList.update node alist (adjList g),
                edgeNo := edgeNo g + int (hs_size alist)\<rparr>
      in if int (hs_size alist) > maxdeg g then g\<lparr>maxdeg := int (hs_size alist)\<rparr> else g)"

text \<open>\<open>adjList[v]->add_elem(w)\<close> for a vertex that may be missing.\<close>

definition adj_add_elem :: "build \<Rightarrow> key \<Rightarrow> key \<Rightarrow> graph \<Rightarrow> graph result" where
  "adj_add_elem bld v w g =
     (case getAdjacentNodes g v of None \<Rightarrow> Inl NullDereference
      | Some s \<Rightarrow> bind_result (add_elem bld w s) (\<lambda>s. Inr (g\<lparr>adjList := AList.update v s (adjList g)\<rparr>)))"

definition adj_size :: "graph \<Rightarrow> key \<Rightarrow> int" where
  "adj_size g v = (case getAdjacentNodes g v of None \<Rightarrow> 0 | Some s \<Rightarrow> int (hs_size s))"

definition addEdge :: "build \<Rightarrow> key \<Rightarrow> key \<Rightarrow> graph \<Rightarrow> graph result" where
  "addEdge bld v w g =
     (let g = (if getAdjacentNodes g v = None
               then g\<lparr>adjList := AList.update v create_set (adjList g)\<rparr> else g);
          g = (if getAdjacentNodes g w = None
               then g\<lparr>adjList := AList.update w create_set (adjList g)\<rparr> else g)
      in if v = w then Inr g
         else bind_result (adj_add_elem bld v w g) (\<lambda>g.
              bind_result (adj_add_elem bld w v g) (\<lambda>g.
                let g = g\<lparr>edgeNo := edgeNo g + 2\<rparr>;
                    g = (if adj_size g v > maxdeg g then g\<lparr>maxdeg := adj_size g v\<rparr> else g);
                    g = (if adj_size g w > maxdeg g then g\<lparr>maxdeg := adj_size g w\<rparr> else g)
                in Inr g)))"

section \<open>Hashing the adjacency sets\<close>

definition hash_lists :: "library \<Rightarrow> build \<Rightarrow> env \<Rightarrow> graph \<Rightarrow> graph result" where
  "hash_lists lib bld e g =
     fold_result (\<lambda>v g. case getAdjacentNodes g v of None \<Rightarrow> Inr g
       | Some s \<Rightarrow> bind_result (hashSet bld e s) (\<lambda>s. Inr (g\<lparr>adjList := AList.update v s (adjList g)\<rparr>)))
       (map_order lib (map fst (adjList g))) g"

section \<open>Pivot\<close>

definition pivot_selection ::
  "build \<Rightarrow> graph \<Rightarrow> simple_hash_set \<Rightarrow> key \<Rightarrow> key \<times> nat \<Rightarrow> (key \<times> nat) result" where
  "pivot_selection bld g P node = (\<lambda>(pivot, maxint).
     bind_result (intersection_size bld P (getAdjacentNodes g node)) (\<lambda>sz.
       Inr (if sz > maxint then (node, sz) else (pivot, maxint))))"

definition getPivot :: "build \<Rightarrow> graph \<Rightarrow> simple_hash_set \<Rightarrow> simple_hash_set \<Rightarrow> key result" where
  "getPivot bld g P X =
     bind_result (hs_for_each_result (pivot_selection bld g P) X (get_first P, 0)) (\<lambda>st.
     bind_result (hs_for_each_result (pivot_selection bld g P) P st) (\<lambda>(pivot, maxint).
     Inr pivot))"

section \<open>Sub-graphs\<close>

text \<open>
  The common part of the two loops: the adjacency of \<open>node\<close> cut down to \<open>P\<close>, entered into the
  sub-graph, and the best pivot so far with the size of its adjacency.
\<close>

definition sub_adjacent ::
  "build \<Rightarrow> graph \<Rightarrow> simple_hash_set \<Rightarrow> key \<Rightarrow> graph \<times> int \<Rightarrow> (simple_hash_set \<times> graph \<times> int) result" where
  "sub_adjacent bld g P node = (\<lambda>(Subgraph, max_neighbors).
     bind_result (intersect bld P (getAdjacentNodes g node)) (\<lambda>overlapping_nodes.
       case overlapping_nodes of None \<Rightarrow> Inl NullDereference
       | Some overlapping_nodes \<Rightarrow>
           let Subgraph = setAdjacentNodes node overlapping_nodes Subgraph
           in Inr (if int (hs_size overlapping_nodes) > max_neighbors
                   then (overlapping_nodes, Subgraph\<lparr>pivot_node := node\<rparr>, int (hs_size overlapping_nodes))
                   else (overlapping_nodes, Subgraph, max_neighbors))))"

definition sub_P_node ::
  "build \<Rightarrow> graph \<Rightarrow> simple_hash_set \<Rightarrow> key \<Rightarrow> graph \<times> int \<Rightarrow> (graph \<times> int) result" where
  "sub_P_node bld g P node st = bind_result (sub_adjacent bld g P node st) (\<lambda>(_, st). Inr st)"

definition sub_back_edge :: "build \<Rightarrow> key \<Rightarrow> key \<Rightarrow> graph \<Rightarrow> graph result" where
  "sub_back_edge bld node xnode Subgraph =
     bind_result (adj_add_elem bld xnode node Subgraph) (\<lambda>Subgraph.
       let Subgraph = Subgraph\<lparr>edgeNo := edgeNo Subgraph + 1\<rparr>
       in Inr (if adj_size Subgraph xnode > maxdeg Subgraph
               then Subgraph\<lparr>maxdeg := adj_size Subgraph xnode\<rparr> else Subgraph))"

definition sub_X_node ::
  "build \<Rightarrow> graph \<Rightarrow> simple_hash_set \<Rightarrow> key \<Rightarrow> graph \<times> int \<Rightarrow> (graph \<times> int) result" where
  "sub_X_node bld g P node st =
     bind_result (sub_adjacent bld g P node st) (\<lambda>(overlapping_nodes, Subgraph, max_neighbors).
       bind_result (hs_for_each_result (sub_back_edge bld node) overlapping_nodes Subgraph) (\<lambda>Subgraph.
         Inr (Subgraph, max_neighbors)))"

definition createHpxSubgraph ::
  "library \<Rightarrow> build \<Rightarrow> env \<Rightarrow> graph \<Rightarrow> simple_hash_set \<Rightarrow> simple_hash_set \<Rightarrow> graph result" where
  "createHpxSubgraph lib bld e g P X =
     (let numberOfElems = int (hs_size P) + int (hs_size X) in
      bind_result (hs_for_each_result (sub_P_node bld g P) P (Graph numberOfElems, -1)) (\<lambda>st.
      bind_result (hs_for_each_result (sub_X_node bld g P) X st) (\<lambda>(Subgraph, max_neighbors).
      hash_lists lib bld e Subgraph)))"

section \<open>Degeneracy ordering\<close>

record degeneracy_state =
  degArray :: "key list list"
  nodeDegrees :: "key \<Rightarrow> int"
  ordering :: "key list"
  mapping :: "key \<Rightarrow> nat option"
  degen :: nat

definition bucket_insert :: "nat \<Rightarrow> key \<Rightarrow> key list list \<Rightarrow> key list list" where
  "bucket_insert i n arr = arr[i := List.insert n (arr ! i)]"

definition bucket_erase :: "nat \<Rightarrow> key \<Rightarrow> key list list \<Rightarrow> key list list" where
  "bucket_erase i n arr = arr[i := removeAll n (arr ! i)]"

text \<open>Filing the vertices by degree.  A vertex whose degree is not below \<open>maxdeg + 1\<close> fails the assertion.\<close>

definition file_vertex :: "graph \<Rightarrow> key \<Rightarrow> degeneracy_state \<Rightarrow> degeneracy_state result" where
  "file_vertex g i st =
     (case getAdjacentNodes g i of None \<Rightarrow> Inl NullDereference
      | Some list \<Rightarrow>
          if int (hs_size list) < maxdeg g + 1
          then Inr (st\<lparr>degArray := bucket_insert (hs_size list) i (degArray st),
                       nodeDegrees := (nodeDegrees st)(i := int (hs_size list))\<rparr>)
          else Inl AssertionFailed)"

text \<open>A neighbour of the vertex just removed moves one bucket down, if it is still filed.\<close>

definition lower_neighbour :: "key \<Rightarrow> degeneracy_state \<Rightarrow> degeneracy_state result" where
  "lower_neighbour n st =
     (let degIndex = nodeDegrees st n in
      if 0 \<le> degIndex \<and> degIndex < int (length (degArray st)) then
        (if n \<in> set (degArray st ! nat degIndex)
         then let arr = bucket_erase (nat degIndex) n (degArray st);
                  arr = (if degIndex \<noteq> 0 then bucket_insert (nat (degIndex - 1)) n arr else arr)
              in Inr (st\<lparr>degArray := arr, nodeDegrees := (nodeDegrees st)(n := degIndex - 1)\<rparr>)
         else Inr st)
      else Inl OutOfBounds)"

definition first_bucket :: "key list list \<Rightarrow> nat option" where
  "first_bucket arr = List.find (\<lambda>i. arr ! i \<noteq> []) [0..<length arr]"

definition order_next :: "library \<Rightarrow> graph \<Rightarrow> nat \<Rightarrow> degeneracy_state \<Rightarrow> degeneracy_state result" where
  "order_next lib g curnode st =
     (case first_bucket (degArray st) of None \<Rightarrow> Inr st
      | Some i \<Rightarrow>
          let nextNode = set_begin lib (degArray st ! i) in
          if curnode < length (ordering st) then
            (let st = st\<lparr>degArray := bucket_erase i nextNode (degArray st),
                         ordering := (ordering st)[curnode := nextNode],
                         mapping := (mapping st)(nextNode := Some curnode),
                         degen := max (degen st) i\<rparr>
             in case getAdjacentNodes g nextNode of None \<Rightarrow> Inl NullDereference
                | Some list \<Rightarrow> hs_for_each_result lower_neighbour list st)
          else Inl OutOfBounds)"

definition degeneracyOrdering :: "library \<Rightarrow> graph \<Rightarrow> (nat \<times> graph) result" where
  "degeneracyOrdering lib g =
     bind_result (fold_result (file_vertex g) (map_order lib (map fst (adjList g)))
       \<lparr>degArray = replicate (nat (maxdeg g + 1)) [], nodeDegrees = (\<lambda>_. 0),
        ordering = vertexOrdering g, mapping = backwardsMapping g, degen = 0\<rparr>) (\<lambda>st.
     bind_result (fold_result (order_next lib g) [0..<nat (nodeNo g)] st) (\<lambda>st.
     Inr (degen st, g\<lparr>vertexOrdering := ordering st, backwardsMapping := mapping st,
                      degeneracy := int (degen st)\<rparr>)))"

section \<open>Reading a graph\<close>

text \<open>
  The part of \<open>initFromFile\<close> after the last line: the header's count is overwritten, because the
  condition \<open>nodeNo = -1\<close> is an assignment; the vertices are numbered in the map's order.
\<close>

definition number_vertices :: "library \<Rightarrow> graph \<Rightarrow> graph" where
  "number_vertices lib g =
     (let g = g\<lparr>nodeNo := -1\<rparr>;
          g = g\<lparr>nodeNo := int (length (adjList g))\<rparr>;
          vs = map_order lib (map fst (adjList g))
      in g\<lparr>vertexOrdering := vs,
           backwardsMapping := fold (\<lambda>it m. m(vs ! it := Some it)) [0..<length vs] (backwardsMapping g)\<rparr>)"

end
