(* ===== verification/Subgraph.thy ===== *)
theory Subgraph
  imports Graph
begin

text \<open>
  What the graph operations promise: hashing the adjacency sets, the adjacency a graph shows on
  a pair of sets, the pivot, and the sub-graph of \<open>P\<close> and \<open>X\<close>.
\<close>

section \<open>The adjacency map\<close>

definition verts :: "graph \<Rightarrow> key set" where
  "verts g = set (map fst (adjList g))"

definition simple_adj :: "graph \<Rightarrow> bool" where
  "simple_adj g \<longleftrightarrow> distinct (map fst (adjList g))"

lemma finite_verts [simp]: "finite (verts g)"
  by (simp add: verts_def)

lemma get_None_iff: "getAdjacentNodes g v = None \<longleftrightarrow> v \<notin> verts g"
  by (simp add: getAdjacentNodes_def verts_def map_of_eq_None_iff)

lemma get_Some_verts: "getAdjacentNodes g v = Some s \<Longrightarrow> v \<in> verts g"
  using get_None_iff [of g v] by auto

lemma vertsE:
  assumes "v \<in> verts g"
  obtains s where "getAdjacentNodes g v = Some s"
  using assms get_None_iff [of g v] by auto

lemma get_update [simp]:
  "getAdjacentNodes (g\<lparr>adjList := AList.update v s (adjList g)\<rparr>) = (getAdjacentNodes g)(v \<mapsto> s)"
  by (simp add: getAdjacentNodes_def update_conv' fun_eq_iff)

lemma verts_update [simp]:
  "verts (g\<lparr>adjList := AList.update v s (adjList g)\<rparr>) = insert v (verts g)"
  by (simp add: verts_def update_keys insert_absorb)

lemma simple_update [simp]:
  "simple_adj g \<Longrightarrow> simple_adj (g\<lparr>adjList := AList.update v s (adjList g)\<rparr>)"
  by (simp add: simple_adj_def distinct_update)

lemma keys_update_present:
  "v \<in> verts g \<Longrightarrow> map fst (AList.update v s (adjList g)) = map fst (adjList g)"
  by (simp add: verts_def update_keys)

text \<open>Changing a field other than the adjacency map.\<close>

lemma get_cong: "adjList g = adjList g' \<Longrightarrow> getAdjacentNodes g = getAdjacentNodes g'"
  by (simp add: getAdjacentNodes_def fun_eq_iff)

lemma get_fields [simp]:
  "getAdjacentNodes (g\<lparr>edgeNo := i\<rparr>) = getAdjacentNodes g"
  "getAdjacentNodes (g\<lparr>maxdeg := i\<rparr>) = getAdjacentNodes g"
  "getAdjacentNodes (g\<lparr>pivot_node := v\<rparr>) = getAdjacentNodes g"
  "getAdjacentNodes (g\<lparr>nodeNo := i\<rparr>) = getAdjacentNodes g"
  by (simp_all add: getAdjacentNodes_def fun_eq_iff)

text \<open>The library iterates over every vertex once, and \<open>begin()\<close> is an element.\<close>

definition library_ok :: "library \<Rightarrow> bool" where
  "library_ok lib \<longleftrightarrow> (\<forall>xs. distinct xs \<longrightarrow> mset (map_order lib xs) = mset xs) \<and>
     (\<forall>xs. xs \<noteq> [] \<longrightarrow> set_begin lib xs \<in> set xs)"

lemma map_order_verts:
  assumes "library_ok lib" and "simple_adj g"
  shows "distinct (map_order lib (map fst (adjList g)))"
    and "set (map_order lib (map fst (adjList g))) = verts g"
    and "length (map_order lib (map fst (adjList g))) = length (adjList g)"
proof -
  have m: "mset (map_order lib (map fst (adjList g))) = mset (map fst (adjList g))"
    using assms by (simp add: library_ok_def simple_adj_def)
  show "distinct (map_order lib (map fst (adjList g)))"
    using mset_eq_imp_distinct_iff [OF m] assms(2) by (simp add: simple_adj_def)
  show "set (map_order lib (map fst (adjList g))) = verts g"
    using mset_eq_setD [OF m] by (simp add: verts_def)
  show "length (map_order lib (map fst (adjList g))) = length (adjList g)"
    using mset_eq_length [OF m] by simp
qed

section \<open>Hashing all adjacency sets\<close>

lemma hash_lists_ends:
  assumes lib: "library_ok lib" and sim: "simple_adj g"
    and lists: "\<And>v s. getAdjacentNodes g v = Some s \<Longrightarrow>
      hs_inv bld s \<and> \<not> isHashed s \<and> length (iteration s) \<le> 2 ^ 28"
  shows "ends bld e (hash_lists lib bld e g) (\<lambda>g'. g' = g\<lparr>adjList := adjList g'\<rparr> \<and>
    map fst (adjList g') = map fst (adjList g) \<and>
    (\<forall>v s. getAdjacentNodes g v = Some s \<longrightarrow> (\<exists>s'. getAdjacentNodes g' v = Some s' \<and>
      hs_inv bld s' \<and> isHashed s' \<and> members s' = set (iteration s))))"
proof -
  let ?hashed = "\<lambda>v g'. \<forall>s. getAdjacentNodes g v = Some s \<longrightarrow> (\<exists>s'. getAdjacentNodes g' v = Some s' \<and>
      hs_inv bld s' \<and> isHashed s' \<and> members s' = set (iteration s))"
  let ?Q = "\<lambda>vs g'. g' = g\<lparr>adjList := adjList g'\<rparr> \<and> map fst (adjList g') = map fst (adjList g) \<and>
    (\<forall>v \<in> set vs. ?hashed v g') \<and> (\<forall>v. v \<notin> set vs \<longrightarrow> getAdjacentNodes g' v = getAdjacentNodes g v)"
  let ?order = "map_order lib (map fst (adjList g))"
  have "ends bld e (hash_lists lib bld e g) (?Q ?order)"
    unfolding hash_lists_def
  proof (rule ends_fold)
    show "?Q [] g" by simp
  next
    fix vs v g1 assume Q: "?Q vs g1" and "\<exists>zs. vs @ v # zs = ?order"
    then have "v \<notin> set vs" and vg: "v \<in> verts g"
      using map_order_verts [OF lib sim] by (metis distinct_append disjoint_iff list.set_intros(1),
        metis in_set_conv_decomp)
    then obtain s where s: "getAdjacentNodes g v = Some s" by (auto elim: vertsE)
    with Q \<open>v \<notin> set vs\<close> have s1: "getAdjacentNodes g1 v = Some s" by simp
    have "ends bld e (hashSet bld e s) (\<lambda>s'. hs_inv bld s' \<and> isHashed s' \<and> members s' = set (iteration s))"
      using hashSet_ends lists [OF s] by blast
    then have "ends bld e (bind_result (hashSet bld e s)
        (\<lambda>s. Inr (g1\<lparr>adjList := AList.update v s (adjList g1)\<rparr>))) (?Q (vs @ [v]))"
    proof (rule ends_bind)
      fix s' assume s': "hs_inv bld s' \<and> isHashed s' \<and> members s' = set (iteration s)"
      define g2 where "g2 = g1\<lparr>adjList := AList.update v s' (adjList g1)\<rparr>"
      have get2: "getAdjacentNodes g2 = (getAdjacentNodes g1)(v \<mapsto> s')" by (simp add: g2_def)
      have keys2: "map fst (adjList g2) = map fst (adjList g1)"
        using keys_update_present [OF get_Some_verts [OF s1]] by (simp add: g2_def)
      have g2: "g2 = g1\<lparr>adjList := adjList g2\<rparr>" by (simp add: g2_def)
      have "g2 = g\<lparr>adjList := adjList g2\<rparr>"
        using Q by (subst g2) (metis graph.update_convs(1) graph.surjective graph.select_convs(1))
      then have "?Q (vs @ [v]) g2"
        using Q s s' \<open>v \<notin> set vs\<close> unfolding get2 keys2 by auto
      then show "ends bld e (Inr (g1\<lparr>adjList := AList.update v s' (adjList g1)\<rparr>)) (?Q (vs @ [v]))"
        unfolding ends_simps g2_def [symmetric] .
    qed
    then show "ends bld e (case getAdjacentNodes g1 v of None \<Rightarrow> Inr g1
       | Some s \<Rightarrow> bind_result (hashSet bld e s) (\<lambda>s. Inr (g1\<lparr>adjList := AList.update v s (adjList g1)\<rparr>)))
      (?Q (vs @ [v]))" by (simp add: s1)
  qed
  then show ?thesis
    by (rule ends_mono) (use map_order_verts(2) [OF lib sim] get_Some_verts in blast)
qed

section \<open>A hashed graph\<close>

text \<open>
  The graph the enumeration works on: every vertex has a hashed adjacency set, the adjacency is
  symmetric and without loops, and stays within the vertices.
\<close>

definition neighbours :: "graph \<Rightarrow> key \<Rightarrow> key set" where
  "neighbours g v = (case getAdjacentNodes g v of None \<Rightarrow> {} | Some s \<Rightarrow> members s)"

definition graph_ok :: "build \<Rightarrow> graph \<Rightarrow> bool" where
  "graph_ok bld g \<longleftrightarrow> simple_adj g \<and>
     (\<forall>v s. getAdjacentNodes g v = Some s \<longrightarrow> hs_inv bld s \<and> isHashed s) \<and>
     (\<forall>v. v \<notin> neighbours g v) \<and> (\<forall>v w. w \<in> neighbours g v \<longrightarrow> v \<in> neighbours g w)"

lemma neighbours_verts: "w \<in> neighbours g v \<Longrightarrow> v \<in> verts g"
  using get_Some_verts by (fastforce simp: neighbours_def split: option.splits)

text \<open>
  The abstract adjacency that a graph's sets stand for; for a graph in order it is its
  neighbourhood.
\<close>

definition abs_adj :: "graph \<Rightarrow> key \<Rightarrow> key set" where
  "abs_adj g v = {w. w \<noteq> v \<and> w \<in> neighbours g v \<and> v \<in> neighbours g w}"

lemma abs_adj_neighbours: "graph_ok bld g \<Longrightarrow> abs_adj g = neighbours g"
  by (auto simp: abs_adj_def graph_ok_def fun_eq_iff)

interpretation G: finite_ugraph "abs_adj g" "verts g" for g
  by unfold_locales (auto simp: abs_adj_def dest: neighbours_verts)

text \<open>
  A graph that shows the adjacency \<open>adj\<close> as far as the sets \<open>P\<close> and \<open>X\<close> need it: every vertex
  of theirs has a hashed adjacency set, right on \<open>P\<close>, and right on \<open>X\<close> for those in \<open>P\<close>.
\<close>

definition shows_adj :: "build \<Rightarrow> (key \<Rightarrow> key set) \<Rightarrow> graph \<Rightarrow> key set \<Rightarrow> key set \<Rightarrow> bool" where
  "shows_adj bld adj g P X \<longleftrightarrow>
     (\<forall>v \<in> P \<union> X. \<exists>s. getAdjacentNodes g v = Some s \<and> hs_inv bld s \<and> isHashed s \<and>
        members s \<inter> P = adj v \<inter> P \<and> (v \<in> P \<longrightarrow> members s \<inter> X = adj v \<inter> X))"

lemma shows_adjE:
  assumes "shows_adj bld adj g P X" and "v \<in> P \<union> X"
  obtains s where "getAdjacentNodes g v = Some s" "hs_inv bld s" "isHashed s"
    "members s \<inter> P = adj v \<inter> P" "v \<in> P \<Longrightarrow> members s \<inter> X = adj v \<inter> X"
  using assms unfolding shows_adj_def by blast

lemma shows_adj_mono:
  assumes "shows_adj bld adj g P X" and "P' \<subseteq> P" and "X' \<subseteq> P \<union> X"
  shows "shows_adj bld adj g P' X'"
proof -
  have "\<exists>s. getAdjacentNodes g v = Some s \<and> hs_inv bld s \<and> isHashed s \<and>
        members s \<inter> P' = adj v \<inter> P' \<and> (v \<in> P' \<longrightarrow> members s \<inter> X' = adj v \<inter> X')" if "v \<in> P' \<union> X'" for v
  proof -
    have "v \<in> P \<union> X" using that assms by auto
    from shows_adjE [OF assms(1) this] obtain s where
      s: "getAdjacentNodes g v = Some s" "hs_inv bld s" "isHashed s"
      "members s \<inter> P = adj v \<inter> P" "v \<in> P \<Longrightarrow> members s \<inter> X = adj v \<inter> X" by blast
    have "members s \<inter> P' = adj v \<inter> P'" using s(4) assms(2) by blast
    moreover have "members s \<inter> X' = adj v \<inter> X'" if "v \<in> P'" using s(4,5) assms(2,3) that by blast
    ultimately show ?thesis using s(1-3) by blast
  qed
  then show ?thesis by (simp add: shows_adj_def)
qed

lemma shows_adj_graph:
  assumes ok: "graph_ok bld g" and "P \<subseteq> verts g" "X \<subseteq> verts g"
  shows "shows_adj bld (abs_adj g) g P X"
  unfolding shows_adj_def abs_adj_neighbours [OF ok]
proof
  fix v assume "v \<in> P \<union> X"
  then have "v \<in> verts g" using assms by auto
  then obtain s where "getAdjacentNodes g v = Some s" by (elim vertsE)
  with ok show "\<exists>s. getAdjacentNodes g v = Some s \<and> hs_inv bld s \<and> isHashed s \<and>
    members s \<inter> P = neighbours g v \<inter> P \<and> (v \<in> P \<longrightarrow> members s \<inter> X = neighbours g v \<inter> X)"
    by (auto simp: graph_ok_def neighbours_def)
qed

section \<open>Choosing a pivot\<close>

text \<open>A set in list mode without repeated keys, which is what \<open>P\<close>, \<open>X\<close> and the candidates are.\<close>

definition list_set :: "build \<Rightarrow> simple_hash_set \<Rightarrow> bool" where
  "list_set bld s \<longleftrightarrow> hs_inv bld s \<and> \<not> isHashed s \<and> distinct (iteration s)"

abbreviation contents :: "simple_hash_set \<Rightarrow> key set" where
  "contents s \<equiv> set (iteration s)"

lemma list_set_size: "list_set bld s \<Longrightarrow> hs_size s = card (contents s)"
  using hs_size_list [of bld s] by (simp add: list_set_def distinct_card)

lemma list_set_empty: "list_set bld s \<Longrightarrow> hs_empty s \<longleftrightarrow> contents s = {}"
  using hs_size_list [of bld s] by (simp add: list_set_def hs_empty_def)

text \<open>The best vertex of \<open>vs\<close> so far, and a bound for the others.\<close>

definition pivot_so_far :: "(key \<Rightarrow> key set) \<Rightarrow> key set \<Rightarrow> key set \<Rightarrow> key set \<Rightarrow> key \<times> nat \<Rightarrow> bool" where
  "pivot_so_far adj P V vs = (\<lambda>(u, m). u \<in> V \<and> (\<forall>w \<in> vs. card (P \<inter> adj w) \<le> m) \<and> m \<le> card (P \<inter> adj u))"

lemma pivot_selection_ends:
  assumes P: "list_set bld P" and adj: "shows_adj bld adj g (contents P) X" and w: "w \<in> contents P \<union> X"
    and Q: "pivot_so_far adj (contents P) (contents P \<union> X) vs (u, m)"
  shows "ends bld e (pivot_selection bld g P w (u, m)) (pivot_so_far adj (contents P) (contents P \<union> X) (insert w vs))"
proof -
  obtain s where s: "getAdjacentNodes g w = Some s" "hs_inv bld s" "isHashed s"
    and mem: "members s \<inter> contents P = adj w \<inter> contents P"
    by (rule shows_adjE [OF adj w]) (rule that)
  have "contents P \<inter> members s = contents P \<inter> adj w" using mem by blast
  moreover have "length (filter (\<lambda>x. x \<in> members s) (iteration P)) = card (contents P \<inter> members s)"
    using P by (simp add: list_set_def distinct_card [symmetric] Int_def)
  moreover have "hs_inv bld P" "\<not> isHashed P" using P by (simp_all add: list_set_def)
  ultimately have "ends bld e (intersection_size bld P (getAdjacentNodes g w)) (\<lambda>n. n = card (contents P \<inter> adj w))"
    using intersection_size_ends [OF _ _ s(2), of P e] s(1) by simp
  then show ?thesis
    unfolding pivot_selection_def prod.case
  proof (rule ends_bind)
    fix n assume n: "n = card (contents P \<inter> adj w)"
    from Q have "u \<in> contents P \<union> X" "m \<le> card (contents P \<inter> adj u)" and vs: "\<And>x. x \<in> vs \<Longrightarrow> card (contents P \<inter> adj x) \<le> m"
      by (simp_all add: pivot_so_far_def)
    moreover have "card (contents P \<inter> adj x) \<le> n" if "n > m" "x \<in> vs" for x using vs [OF that(2)] that(1) by simp
    ultimately show "ends bld e (Inr (if n > m then (w, n) else (u, m)))
        (pivot_so_far adj (contents P) (contents P \<union> X) (insert w vs))"
      using w n by (cases "n > m") (simp_all add: pivot_so_far_def)
  qed
qed

lemma pivot_loop_ends:
  assumes P: "list_set bld P" and adj: "shows_adj bld adj g (contents P) X"
    and S: "hs_inv bld S" "contents S \<subseteq> contents P \<union> X" and Q: "pivot_so_far adj (contents P) (contents P \<union> X) vs st"
  shows "ends bld e (hs_for_each_result (pivot_selection bld g P) S st)
    (pivot_so_far adj (contents P) (contents P \<union> X) (vs \<union> contents S))"
  unfolding hs_for_each_result_fold [OF S(1)]
proof (rule ends_fold [where Q = "\<lambda>xs. pivot_so_far adj (contents P) (contents P \<union> X) (vs \<union> set xs)"])
  show "pivot_so_far adj (contents P) (contents P \<union> X) (vs \<union> set []) st" using Q by simp
next
  fix xs x st
  assume Q: "pivot_so_far adj (contents P) (contents P \<union> X) (vs \<union> set xs) st" and "\<exists>zs. xs @ x # zs = iteration S"
  then have x: "x \<in> contents P \<union> X" using S(2) by (metis in_set_conv_decomp subsetD)
  obtain u m where "st = (u, m)" by (cases st)
  then show "ends bld e (pivot_selection bld g P x st) (pivot_so_far adj (contents P) (contents P \<union> X) (vs \<union> set (xs @ [x])))"
    using pivot_selection_ends [OF P adj x, of "vs \<union> set xs" u m] Q by simp
qed

text \<open>\<open>getPivot\<close> answers a vertex of \<open>P \<union> X\<close> with the most neighbours in \<open>P\<close>.\<close>

lemma getPivot_ends:
  assumes P: "list_set bld P" and X: "list_set bld X" and ne: "contents P \<noteq> {}"
    and adj: "shows_adj bld adj g (contents P) (contents X)"
  shows "ends bld e (getPivot bld g P X) (\<lambda>u. u \<in> contents P \<union> contents X \<and>
    (\<forall>w \<in> contents P \<union> contents X. card (contents P \<inter> adj w) \<le> card (contents P \<inter> adj u)))"
  unfolding getPivot_def
proof (rule ends_bind [OF pivot_loop_ends [OF P adj, of X "{}" "(get_first P, 0)"]])
  let ?V = "contents P \<union> contents X"
  show "hs_inv bld X" "contents X \<subseteq> ?V" using X by (simp_all add: list_set_def)
  show "pivot_so_far adj (contents P) ?V {} (get_first P, 0)"
    using get_first_correct [of bld P] P ne by (simp add: list_set_def pivot_so_far_def)
  fix st assume Q: "pivot_so_far adj (contents P) ?V ({} \<union> contents X) st"
  show "ends bld e (bind_result (hs_for_each_result (pivot_selection bld g P) P st)
      (\<lambda>(pivot, maxint). Inr pivot)) (\<lambda>u. u \<in> ?V \<and> (\<forall>w \<in> ?V. card (contents P \<inter> adj w) \<le> card (contents P \<inter> adj u)))"
  proof (rule ends_bind [OF pivot_loop_ends [OF P adj, of P "contents X" st]])
    show "hs_inv bld P" "contents P \<subseteq> ?V" "pivot_so_far adj (contents P) ?V (contents X) st"
      using P Q by (simp_all add: list_set_def)
    fix st' assume Q': "pivot_so_far adj (contents P) ?V (contents X \<union> contents P) st'"
    obtain u m where st': "st' = (u, m)" by (cases st')
    with Q' have u: "u \<in> ?V" "m \<le> card (contents P \<inter> adj u)" and m: "\<And>w. w \<in> ?V \<Longrightarrow> card (contents P \<inter> adj w) \<le> m"
      by (auto simp: pivot_so_far_def)
    show "ends bld e (case st' of (pivot, maxint) \<Rightarrow> Inr pivot)
        (\<lambda>u. u \<in> ?V \<and> (\<forall>w \<in> ?V. card (contents P \<inter> adj w) \<le> card (contents P \<inter> adj u)))"
      unfolding st' prod.case ends_simps using u(1) order_trans [OF m u(2)] by blast
  qed
qed

section \<open>Creating a sub-graph\<close>

text \<open>
  The sub-graph while the vertices \<open>PP\<close> of \<open>P\<close> and \<open>XX\<close> of \<open>X\<close> have been entered: the sets are
  still lists; a vertex of \<open>P\<close> is joined to its neighbours in \<open>P\<close> and those in \<open>XX\<close>, one of
  \<open>X\<close> to its neighbours in \<open>P\<close> only.
\<close>

definition sub_lists ::
  "build \<Rightarrow> (key \<Rightarrow> key set) \<Rightarrow> key set \<Rightarrow> key set \<Rightarrow> key set \<Rightarrow> graph \<Rightarrow> bool" where
  "sub_lists bld adj P PP XX S \<longleftrightarrow> simple_adj S \<and> verts S = PP \<union> XX \<and>
     (\<forall>v s. getAdjacentNodes S v = Some s \<longrightarrow> hs_inv bld s \<and> \<not> isHashed s \<and>
        contents s = (adj v \<inter> P) \<union> (if v \<in> PP then adj v \<inter> XX else {}) \<and>
        length (iteration s) \<le> card P + (if v \<in> PP then card XX else 0))"

lemma sub_lists_P:
  "sub_lists bld adj P PP {} S \<longleftrightarrow> simple_adj S \<and> verts S = PP \<and>
     (\<forall>v s. getAdjacentNodes S v = Some s \<longrightarrow> hs_inv bld s \<and> \<not> isHashed s \<and>
        contents s = adj v \<inter> P \<and> length (iteration s) \<le> card P)"
  by (simp add: sub_lists_def cong: if_cong)

text \<open>The pivot candidate: a vertex of \<open>W\<close> with the most neighbours in \<open>P\<close>, \<open>m\<close> of them.\<close>

definition sub_pivot :: "(key \<Rightarrow> key set) \<Rightarrow> key set \<Rightarrow> key set \<Rightarrow> key \<Rightarrow> int \<Rightarrow> bool" where
  "sub_pivot adj P W u m \<longleftrightarrow> (if W = {} then m = -1
     else u \<in> W \<and> m = int (card (P \<inter> adj u)) \<and> (\<forall>w \<in> W. int (card (P \<inter> adj w)) \<le> m))"

lemma sub_pivot_insert:
  assumes "sub_pivot adj P W u m" and "n = int (card (P \<inter> adj w))"
  shows "if n > m then sub_pivot adj P (insert w W) w n else sub_pivot adj P (insert w W) u m"
proof (cases "W = {}")
  case True
  with assms show ?thesis by (simp add: sub_pivot_def)
next
  case False
  then have "u \<in> W \<and> m = int (card (P \<inter> adj u)) \<and> (\<forall>w \<in> W. int (card (P \<inter> adj w)) \<le> m)"
    using assms(1) unfolding sub_pivot_def by (metis (no_types, lifting))
  then have *: "u \<in> W" "m = int (card (P \<inter> adj u))" "\<forall>w \<in> W. int (card (P \<inter> adj w)) \<le> m" by blast+
  then have "\<forall>w \<in> W. int (card (P \<inter> adj w)) \<le> n" if "n > m" using that by fastforce
  with * assms(2) show ?thesis unfolding sub_pivot_def by (auto simp del: of_nat_le_iff of_nat_less_iff)
qed

lemma filter_length_set:
  assumes "distinct xs"
  shows "length (filter (\<lambda>x. x \<in> A) xs) = card (set xs \<inter> A)"
  using distinct_card [of "filter (\<lambda>x. x \<in> A) xs"] assms by (simp add: Int_def)

lemma setAdjacentNodes_fields:
  "getAdjacentNodes (setAdjacentNodes v s g) = (getAdjacentNodes g)(v \<mapsto> s)"
  "verts (setAdjacentNodes v s g) = insert v (verts g)"
  "simple_adj g \<Longrightarrow> simple_adj (setAdjacentNodes v s g)"
  "pivot_node (setAdjacentNodes v s g) = pivot_node g"
  by (simp_all add: setAdjacentNodes_def Let_def getAdjacentNodes_def update_conv' fun_eq_iff
      verts_def dom_update simple_adj_def distinct_update)

lemma pivot_fields [simp]:
  "verts (g\<lparr>pivot_node := v\<rparr>) = verts g" "simple_adj (g\<lparr>pivot_node := v\<rparr>) = simple_adj g"
  "verts (g\<lparr>edgeNo := i\<rparr>) = verts g" "simple_adj (g\<lparr>edgeNo := i\<rparr>) = simple_adj g"
  "verts (g\<lparr>maxdeg := i\<rparr>) = verts g" "simple_adj (g\<lparr>maxdeg := i\<rparr>) = simple_adj g"
  by (simp_all add: verts_def simple_adj_def)

lemma sub_adjacent_ends:
  assumes P: "list_set bld P" and adj: "shows_adj bld adj g (contents P) X" and v: "v \<in> contents P \<union> X"
    and pv: "sub_pivot adj (contents P) W (pivot_node S) m" and S: "simple_adj S"
  shows "ends bld e (sub_adjacent bld g P v (S, m)) (\<lambda>(ov, S', m').
    hs_inv bld ov \<and> \<not> isHashed ov \<and> distinct (iteration ov) \<and> contents ov = adj v \<inter> contents P \<and>
    length (iteration ov) \<le> card (contents P) \<and>
    simple_adj S' \<and> getAdjacentNodes S' = (getAdjacentNodes S)(v \<mapsto> ov) \<and> verts S' = insert v (verts S) \<and>
    sub_pivot adj (contents P) (insert v W) (pivot_node S') m')"
proof -
  obtain s where s: "getAdjacentNodes g v = Some s" "hs_inv bld s" "isHashed s"
    and mem: "members s \<inter> contents P = adj v \<inter> contents P"
    by (rule shows_adjE [OF adj v]) (rule that)
  have Pl: "hs_inv bld P" "\<not> isHashed P" "distinct (iteration P)" using P by (simp_all add: list_set_def)
  show ?thesis
    unfolding sub_adjacent_def prod.case s(1)
  proof (rule ends_bind [OF intersect_ends [OF Pl(1,2) s(2)]])
    fix r assume "\<exists>novi. r = Some novi \<and> hs_inv bld novi \<and> \<not> isHashed novi \<and>
      iteration novi = filter (\<lambda>x. x \<in> members s) (iteration P)"
    then obtain ov where r: "r = Some ov" and ov: "hs_inv bld ov" "\<not> isHashed ov"
      and it: "iteration ov = filter (\<lambda>x. x \<in> members s) (iteration P)" by blast
    have c: "contents ov = adj v \<inter> contents P" unfolding it using mem by auto
    have d: "distinct (iteration ov)" unfolding it using Pl(3) by simp
    have len: "length (iteration ov) = card (contents P \<inter> adj v)"
      using distinct_card [OF d] unfolding c by (simp add: Int_commute)
    have le: "length (iteration ov) \<le> card (contents P)" unfolding len by (intro card_mono) auto
    have sz: "hs_size ov = length (iteration ov)" by (rule hs_size_list [OF ov])
    note sub_pivot_insert [OF pv refl, of v]
    then show "ends bld e (case r of None \<Rightarrow> Inl NullDereference
       | Some overlapping_nodes \<Rightarrow>
           let Subgraph = setAdjacentNodes v overlapping_nodes S
           in Inr (if int (hs_size overlapping_nodes) > m
                   then (overlapping_nodes, Subgraph\<lparr>pivot_node := v\<rparr>, int (hs_size overlapping_nodes))
                   else (overlapping_nodes, Subgraph, m)))
      (\<lambda>(ov, S', m'). hs_inv bld ov \<and> \<not> isHashed ov \<and> distinct (iteration ov) \<and>
        contents ov = adj v \<inter> contents P \<and> length (iteration ov) \<le> card (contents P) \<and>
        simple_adj S' \<and> getAdjacentNodes S' = (getAdjacentNodes S)(v \<mapsto> ov) \<and> verts S' = insert v (verts S) \<and>
        sub_pivot adj (contents P) (insert v W) (pivot_node S') m')"
      using ov d c le S by (simp add: r Let_def setAdjacentNodes_fields sz len)
  qed
qed

lemma sub_P_loop:
  assumes P: "list_set bld P" and adj: "shows_adj bld adj g (contents P) X"
  shows "ends bld e (hs_for_each_result (sub_P_node bld g P) P (Graph n, -1))
    (\<lambda>(S, m). sub_lists bld adj (contents P) (contents P) {} S \<and>
       sub_pivot adj (contents P) (contents P) (pivot_node S) m)"
proof -
  let ?Q = "\<lambda>vs (S, m). sub_lists bld adj (contents P) (set vs) {} S \<and>
    sub_pivot adj (contents P) (set vs) (pivot_node S) m"
  have inv: "hs_inv bld P" using P by (simp add: list_set_def)
  have "ends bld e (hs_for_each_result (sub_P_node bld g P) P (Graph n, -1)) (?Q (iteration P))"
    unfolding hs_for_each_result_fold [OF inv]
  proof (rule ends_fold [where Q = ?Q])
    show "?Q [] (Graph n, -1)"
      by (simp add: sub_lists_P sub_pivot_def Graph_def simple_adj_def verts_def getAdjacentNodes_def)
  next
    fix vs v st assume Q: "?Q vs st" and "\<exists>zs. vs @ v # zs = iteration P"
    then have v: "v \<in> contents P" by (metis in_set_conv_decomp)
    obtain S m where st: "st = (S, m)" by (cases st)
    have S: "simple_adj S" and pv: "sub_pivot adj (contents P) (set vs) (pivot_node S) m"
      using Q st by (simp_all add: sub_lists_P)
    show "ends bld e (sub_P_node bld g P v st) (?Q (vs @ [v]))"
      unfolding sub_P_node_def st
      by (rule ends_bind [OF sub_adjacent_ends [OF P adj _ pv S]])
        (use v Q st in \<open>auto simp: sub_lists_P\<close>)
  qed
  then show ?thesis by simp
qed

text \<open>Adding the vertex \<open>x\<close> of \<open>X\<close> to the adjacency of its neighbours in \<open>P\<close>.\<close>

lemma sub_back_edge_fields:
  assumes "getAdjacentNodes S v = Some s" and "hs_inv bld s" and "\<not> isHashed s" and "valid_key x"
  shows "\<exists>S' s'. sub_back_edge bld x v S = Inr S' \<and> getAdjacentNodes S' = (getAdjacentNodes S)(v \<mapsto> s') \<and>
    verts S' = insert v (verts S) \<and> (simple_adj S \<longrightarrow> simple_adj S') \<and> pivot_node S' = pivot_node S \<and>
    hs_inv bld s' \<and> \<not> isHashed s' \<and> iteration s' = iteration s @ [x]"
proof -
  let ?s = "s\<lparr>elems := push_back x (elems s)\<rparr>"
  have ul: "ul_inv (elems s)" using assms(2) by (simp add: hs_inv_def)
  have s': "hs_inv bld ?s" "\<not> isHashed ?s" "iteration ?s = iteration s @ [x]"
    using assms push_back_inv [OF ul] push_back_to_list [OF ul]
    by (simp_all add: hs_inv_def iteration_def)
  have run: "adj_add_elem bld v x S = Inr (S\<lparr>adjList := AList.update v ?s (adjList S)\<rparr>)"
    using assms by (simp add: adj_add_elem_def add_elem_def)
  have "\<exists>S'. sub_back_edge bld x v S = Inr S' \<and> getAdjacentNodes S' = (getAdjacentNodes S)(v \<mapsto> ?s) \<and>
    verts S' = insert v (verts S) \<and> (simple_adj S \<longrightarrow> simple_adj S') \<and> pivot_node S' = pivot_node S"
    by (simp add: sub_back_edge_def run Let_def getAdjacentNodes_def update_conv' verts_def dom_update
        simple_adj_def distinct_update fun_eq_iff)
  with s' show ?thesis by blast
qed

lemma sub_back_loop:
  assumes "set ys \<subseteq> verts S" and "distinct ys" and "valid_key x"
    and "\<And>v s. getAdjacentNodes S v = Some s \<Longrightarrow> hs_inv bld s \<and> \<not> isHashed s"
  shows "\<exists>S'. fold_result (sub_back_edge bld x) ys S = Inr S' \<and> verts S' = verts S \<and>
    (simple_adj S \<longrightarrow> simple_adj S') \<and> pivot_node S' = pivot_node S \<and>
    (\<forall>v s'. getAdjacentNodes S' v = Some s' \<longrightarrow> (\<exists>s. getAdjacentNodes S v = Some s \<and> hs_inv bld s' \<and>
      \<not> isHashed s' \<and> iteration s' = iteration s @ (if v \<in> set ys then [x] else [])))"
  using assms
proof (induction ys arbitrary: S)
  case (Cons y ys)
  then obtain s where s: "getAdjacentNodes S y = Some s" by (auto elim: vertsE)
  with Cons.prems(4) have "hs_inv bld s" "\<not> isHashed s" by simp_all
  from sub_back_edge_fields [OF s this Cons.prems(3)] obtain S1 s1 where
    S1: "sub_back_edge bld x y S = Inr S1" "getAdjacentNodes S1 = (getAdjacentNodes S)(y \<mapsto> s1)"
      "verts S1 = insert y (verts S)" "simple_adj S \<longrightarrow> simple_adj S1" "pivot_node S1 = pivot_node S"
    and s1: "hs_inv bld s1" "\<not> isHashed s1" "iteration s1 = iteration s @ [x]" by blast
  have v1: "verts S1 = verts S" using S1(3) Cons.prems(1) by auto
  have "\<exists>S'. fold_result (sub_back_edge bld x) ys S1 = Inr S' \<and> verts S' = verts S1 \<and>
    (simple_adj S1 \<longrightarrow> simple_adj S') \<and> pivot_node S' = pivot_node S1 \<and>
    (\<forall>v s'. getAdjacentNodes S' v = Some s' \<longrightarrow> (\<exists>s. getAdjacentNodes S1 v = Some s \<and> hs_inv bld s' \<and>
      \<not> isHashed s' \<and> iteration s' = iteration s @ (if v \<in> set ys then [x] else [])))"
    using Cons.prems s1 v1 S1(2) by (intro Cons.IH) (auto split: if_splits)
  then obtain S' where S': "fold_result (sub_back_edge bld x) ys S1 = Inr S'" "verts S' = verts S1"
    "simple_adj S1 \<longrightarrow> simple_adj S'" "pivot_node S' = pivot_node S1"
    and get: "\<And>v s'. getAdjacentNodes S' v = Some s' \<Longrightarrow> \<exists>s. getAdjacentNodes S1 v = Some s \<and> hs_inv bld s' \<and>
      \<not> isHashed s' \<and> iteration s' = iteration s @ (if v \<in> set ys then [x] else [])" by blast
  have "\<exists>s. getAdjacentNodes S v = Some s \<and> hs_inv bld s' \<and>
      \<not> isHashed s' \<and> iteration s' = iteration s @ (if v \<in> set (y # ys) then [x] else [])"
    if "getAdjacentNodes S' v = Some s'" for v s'
    using get [OF that] s s1 S1(2) Cons.prems(2) by (cases "v = y") auto
  with S1 S' v1 show ?case by auto
qed auto

text \<open>The lists after the loop that gives \<open>x\<close> to its neighbours \<open>ov\<close>, read off the lists before.\<close>

lemma sub_X_lists:
  assumes Q: "sub_lists bld adj P P (set xs) S" and xs: "x \<notin> set xs" "x \<notin> P" and sym: "\<And>v w. w \<in> adj v \<Longrightarrow> v \<in> adj w"
    and ov: "hs_inv bld ov" "\<not> isHashed ov" "contents ov = adj x \<inter> P" "length (iteration ov) \<le> card P"
    and S2: "simple_adj S2" "verts S2 = insert x (verts S)"
    and get: "\<And>v s'. getAdjacentNodes S2 v = Some s' \<Longrightarrow> \<exists>s. ((getAdjacentNodes S)(x \<mapsto> ov)) v = Some s \<and> hs_inv bld s' \<and>
      \<not> isHashed s' \<and> iteration s' = iteration s @ (if v \<in> contents ov then [x] else [])"
  shows "sub_lists bld adj P P (set (xs @ [x])) S2"
proof -
  have S: "verts S = P \<union> set xs"
    and lists: "\<And>v s. getAdjacentNodes S v = Some s \<Longrightarrow> hs_inv bld s \<and> \<not> isHashed s \<and>
      contents s = (adj v \<inter> P) \<union> (if v \<in> P then adj v \<inter> set xs else {}) \<and>
      length (iteration s) \<le> card P + (if v \<in> P then card (set xs) else 0)"
    using Q by (simp_all add: sub_lists_def)
  have "hs_inv bld s' \<and> \<not> isHashed s' \<and>
    contents s' = (adj v \<inter> P) \<union> (if v \<in> P then adj v \<inter> set (xs @ [x]) else {}) \<and>
    length (iteration s') \<le> card P + (if v \<in> P then card (set (xs @ [x])) else 0)"
    if v: "getAdjacentNodes S2 v = Some s'" for v s'
  proof (cases "v = x")
    case True
    with get [OF v] xs(2) ov show ?thesis by auto
  next
    case False
    with get [OF v] obtain s where s: "getAdjacentNodes S v = Some s" "hs_inv bld s'" "\<not> isHashed s'"
      and it: "iteration s' = iteration s @ (if v \<in> contents ov then [x] else [])" by auto
    have on: "v \<in> contents ov \<longleftrightarrow> v \<in> P \<and> x \<in> adj v" using ov(3) sym by blast
    have l: "contents s = (adj v \<inter> P) \<union> (if v \<in> P then adj v \<inter> set xs else {})"
      "length (iteration s) \<le> card P + (if v \<in> P then card (set xs) else 0)"
      using lists [OF s(1)] by blast+
    show ?thesis
    proof (cases "v \<in> P")
      case False
      with on l s(2,3) it show ?thesis by simp
    next
      case True
      with on l s(2,3) it xs(1) show ?thesis by (cases "x \<in> adj v") auto
    qed
  qed
  moreover have "verts S2 = P \<union> set (xs @ [x])" using S2(2) S by auto
  ultimately show ?thesis using S2(1) unfolding sub_lists_def by blast
qed

text \<open>One vertex of \<open>X\<close> is entered: it has its neighbours in \<open>P\<close>, and they have it.\<close>

lemma sub_X_step:
  assumes P: "list_set bld P" and xs: "x \<notin> set xs" "x \<notin> contents P" "valid_key x" "x \<in> X"
    and adj: "shows_adj bld adj g (contents P) X" and sym: "\<And>v w. w \<in> adj v \<Longrightarrow> v \<in> adj w"
    and Q: "sub_lists bld adj (contents P) (contents P) (set xs) S" "sub_pivot adj (contents P) (contents P \<union> set xs) (pivot_node S) m"
  shows "ends bld e (sub_X_node bld g P x (S, m)) (\<lambda>(S, m). sub_lists bld adj (contents P) (contents P) (set (xs @ [x])) S \<and>
    sub_pivot adj (contents P) (contents P \<union> set (xs @ [x])) (pivot_node S) m)"
proof -
  have S: "simple_adj S" "verts S = contents P \<union> set xs"
    and lists: "\<And>v s. getAdjacentNodes S v = Some s \<Longrightarrow> hs_inv bld s \<and> \<not> isHashed s \<and>
      contents s = (adj v \<inter> contents P) \<union> (if v \<in> contents P then adj v \<inter> set xs else {}) \<and>
      length (iteration s) \<le> card (contents P) + (if v \<in> contents P then card (set xs) else 0)"
    using Q(1) by (simp_all add: sub_lists_def)
  have xV: "x \<in> contents P \<union> X" using xs(4) by simp
  show ?thesis
    unfolding sub_X_node_def
  proof (rule ends_bind [OF sub_adjacent_ends [OF P adj xV Q(2) S(1)]], elim case_prodE conjE, hypsubst, unfold prod.case)
    fix ov S1 m1
    assume ov: "hs_inv bld ov" "\<not> isHashed ov" "distinct (iteration ov)" "contents ov = adj x \<inter> contents P"
        "length (iteration ov) \<le> card (contents P)"
      and S1: "simple_adj S1" "getAdjacentNodes S1 = (getAdjacentNodes S)(x \<mapsto> ov)" "verts S1 = insert x (verts S)"
        "sub_pivot adj (contents P) (insert x (contents P \<union> set xs)) (pivot_node S1) m1"
    have "\<exists>S'. fold_result (sub_back_edge bld x) (iteration ov) S1 = Inr S' \<and> verts S' = verts S1 \<and>
      (simple_adj S1 \<longrightarrow> simple_adj S') \<and> pivot_node S' = pivot_node S1 \<and>
      (\<forall>v s'. getAdjacentNodes S' v = Some s' \<longrightarrow> (\<exists>s. getAdjacentNodes S1 v = Some s \<and> hs_inv bld s' \<and>
        \<not> isHashed s' \<and> iteration s' = iteration s @ (if v \<in> contents ov then [x] else [])))"
      using ov(3) xs(3) S1(2,3) S(2) ov(1,2,4) lists by (intro sub_back_loop) (auto split: if_splits)
    then obtain S2 where S2: "fold_result (sub_back_edge bld x) (iteration ov) S1 = Inr S2" "verts S2 = verts S1"
      "simple_adj S2" "pivot_node S2 = pivot_node S1"
      and get: "\<And>v s'. getAdjacentNodes S2 v = Some s' \<Longrightarrow> \<exists>s. getAdjacentNodes S1 v = Some s \<and> hs_inv bld s' \<and>
        \<not> isHashed s' \<and> iteration s' = iteration s @ (if v \<in> contents ov then [x] else [])"
      using S1(1) by blast
    have "sub_lists bld adj (contents P) (contents P) (set (xs @ [x])) S2"
      by (rule sub_X_lists [OF Q(1) xs(1,2) sym ov(1,2,4,5) S2(3)]) (use S1(2,3) S2(2) get in auto)
    then show "ends bld e (bind_result (hs_for_each_result (sub_back_edge bld x) ov S1)
        (\<lambda>Subgraph. Inr (Subgraph, m1))) (\<lambda>(S, m). sub_lists bld adj (contents P) (contents P) (set (xs @ [x])) S \<and>
      sub_pivot adj (contents P) (contents P \<union> set (xs @ [x])) (pivot_node S) m)"
      using S1(4) S2(1,4) by (simp add: hs_for_each_result_fold [OF ov(1)])
  qed
qed

lemma sub_X_loop:
  assumes P: "list_set bld P" and X: "list_set bld X" and disj: "contents P \<inter> contents X = {}"
    and adj: "shows_adj bld adj g (contents P) (contents X)"
    and sym: "\<And>v w. w \<in> adj v \<Longrightarrow> v \<in> adj w"
    and S0: "sub_lists bld adj (contents P) (contents P) {} S0"
      "sub_pivot adj (contents P) (contents P) (pivot_node S0) m0"
  shows "ends bld e (hs_for_each_result (sub_X_node bld g P) X (S0, m0))
    (\<lambda>(S, m). sub_lists bld adj (contents P) (contents P) (contents X) S \<and>
       sub_pivot adj (contents P) (contents P \<union> contents X) (pivot_node S) m)"
proof -
  let ?Q = "\<lambda>xs (S, m). sub_lists bld adj (contents P) (contents P) (set xs) S \<and>
    sub_pivot adj (contents P) (contents P \<union> set xs) (pivot_node S) m"
  have inv: "hs_inv bld X" and dist: "distinct (iteration X)" using X by (simp_all add: list_set_def)
  have "ends bld e (hs_for_each_result (sub_X_node bld g P) X (S0, m0)) (?Q (iteration X))"
    unfolding hs_for_each_result_fold [OF inv]
  proof (rule ends_fold [where Q = ?Q])
    show "?Q [] (S0, m0)" using S0 by simp
  next
    fix xs x st assume Q: "?Q xs st" and split: "\<exists>zs. xs @ x # zs = iteration X"
    then have x: "x \<in> contents X" "x \<notin> set xs" using dist by (metis in_set_conv_decomp, metis distinct_append
      disjoint_iff list.set_intros(1))
    then have xP: "x \<notin> contents P" and val: "valid_key x" using disj iteration_valid [OF inv] by auto
    obtain S m where st: "st = (S, m)" by (cases st)
    with Q sub_X_step [OF P x(2) xP val x(1) adj sym, of S m e] show "ends bld e (sub_X_node bld g P x st) (?Q (xs @ [x]))"
      by simp
  qed
  then show ?thesis by simp
qed

text \<open>
  The sub-graph shows the same adjacency on \<open>P\<close> and \<open>X\<close>, and its pivot has the most neighbours
  in \<open>P\<close>.
\<close>

lemma hashed_shows_adj:
  assumes disj: "P \<inter> X = {}" and S1: "sub_lists bld adj P P X S1"
    and keys: "map fst (adjList S) = map fst (adjList S1)"
    and get: "\<And>v s. getAdjacentNodes S1 v = Some s \<Longrightarrow> \<exists>s'. getAdjacentNodes S v = Some s' \<and>
      hs_inv bld s' \<and> isHashed s' \<and> members s' = contents s"
  shows "shows_adj bld adj S P X" and "verts S = P \<union> X"
proof -
  have V: "verts S1 = P \<union> X"
    and lists: "\<And>v s. getAdjacentNodes S1 v = Some s \<Longrightarrow> contents s = (adj v \<inter> P) \<union> (if v \<in> P then adj v \<inter> X else {})"
    using S1 by (simp_all add: sub_lists_def)
  show "verts S = P \<union> X" using keys V unfolding verts_def by simp
  show "shows_adj bld adj S P X"
    unfolding shows_adj_def
  proof
    fix v assume "v \<in> P \<union> X"
    then obtain s where s: "getAdjacentNodes S1 v = Some s" using V by (auto elim: vertsE)
    with get obtain s' where s': "getAdjacentNodes S v = Some s'" "hs_inv bld s'" "isHashed s'"
      "members s' = contents s" by blast
    have "members s' \<inter> P = adj v \<inter> P" "v \<in> P \<longrightarrow> members s' \<inter> X = adj v \<inter> X"
      using lists [OF s] disj unfolding s'(4) by auto
    with s' show "\<exists>s. getAdjacentNodes S v = Some s \<and> hs_inv bld s \<and> isHashed s \<and>
      members s \<inter> P = adj v \<inter> P \<and> (v \<in> P \<longrightarrow> members s \<inter> X = adj v \<inter> X)" by blast
  qed
qed

text \<open>The lists are hashed last.\<close>

lemma sub_hashed_ends:
  assumes lib: "library_ok lib" and ne: "P \<noteq> {}" and disj: "P \<inter> X = {}" and size: "card P + card X \<le> 2 ^ 28"
    and S1: "sub_lists bld adj P P X S1" "sub_pivot adj P (P \<union> X) (pivot_node S1) m1"
  shows "ends bld e (hash_lists lib bld e S1) (\<lambda>S. shows_adj bld adj S P X \<and> verts S = P \<union> X \<and> pivot_node S \<in> P \<union> X \<and>
    (\<forall>w \<in> P \<union> X. card (P \<inter> adj w) \<le> card (P \<inter> adj (pivot_node S))))"
proof -
  have small: "hs_inv bld s \<and> \<not> isHashed s \<and> length (iteration s) \<le> 2 ^ 28" if "getAdjacentNodes S1 v = Some s" for v s
  proof -
    from that S1(1) have "hs_inv bld s \<and> \<not> isHashed s \<and> length (iteration s) \<le> card P + (if v \<in> P then card X else 0)"
      by (simp add: sub_lists_def)
    with size show ?thesis by (auto split: if_splits)
  qed
  have sim: "simple_adj S1" using S1(1) by (simp add: sub_lists_def)
  have best: "pivot_node S1 \<in> P \<union> X" "\<forall>w \<in> P \<union> X. card (P \<inter> adj w) \<le> card (P \<inter> adj (pivot_node S1))"
    using S1(2) ne by (auto simp: sub_pivot_def)
  show ?thesis
  proof (rule ends_mono [OF hash_lists_ends [OF lib sim small]], assumption, elim conjE)
    fix S assume S: "S = S1\<lparr>adjList := adjList S\<rparr>" "map fst (adjList S) = map fst (adjList S1)"
      and get: "\<forall>v s. getAdjacentNodes S1 v = Some s \<longrightarrow> (\<exists>s'. getAdjacentNodes S v = Some s' \<and>
        hs_inv bld s' \<and> isHashed s' \<and> members s' = contents s)"
    have "pivot_node S = pivot_node S1" by (subst S(1)) simp
    with hashed_shows_adj [OF disj S1(1) S(2)] get best
    show "shows_adj bld adj S P X \<and> verts S = P \<union> X \<and> pivot_node S \<in> P \<union> X \<and>
      (\<forall>w \<in> P \<union> X. card (P \<inter> adj w) \<le> card (P \<inter> adj (pivot_node S)))" by simp
  qed
qed

lemma createHpxSubgraph_ends:
  assumes lib: "library_ok lib" and P: "list_set bld P" and X: "list_set bld X"
    and ne: "contents P \<noteq> {}" and disj: "contents P \<inter> contents X = {}"
    and adj: "shows_adj bld adj g (contents P) (contents X)"
    and sym: "\<And>v w. w \<in> adj v \<Longrightarrow> v \<in> adj w"
    and size: "card (contents P) + card (contents X) \<le> 2 ^ 28"
  shows "ends bld e (createHpxSubgraph lib bld e g P X) (\<lambda>S.
    shows_adj bld adj S (contents P) (contents X) \<and> verts S = contents P \<union> contents X \<and>
    pivot_node S \<in> contents P \<union> contents X \<and>
    (\<forall>w \<in> contents P \<union> contents X. card (contents P \<inter> adj w) \<le> card (contents P \<inter> adj (pivot_node S))))"
  unfolding createHpxSubgraph_def Let_def
  by (rule ends_bind [OF sub_P_loop [OF P adj]], elim case_prodE conjE, hypsubst,
      rule ends_bind [OF sub_X_loop [OF P X disj adj sym]], assumption+, elim case_prodE conjE, hypsubst, unfold prod.case)
    (rule sub_hashed_ends [OF lib ne disj size])

end
