(* ===== verification/BKTask.thy ===== *)
theory BKTask
  imports Subgraph
begin

text \<open>
  The tasks of \<^verbatim>\<open>include/BKTask.h\<close>, \<^verbatim>\<open>src/BKTask.cpp\<close> and
  \<^verbatim>\<open>src/BronKerboschTBB.cpp\<close>: the guards that count references to graphs, the root
  sets, one round of the enumeration as \<open>StartTask\<close> and \<open>LoopIteration\<close>, the sequential
  recursion, and \<open>execute\<close> of a task.

  Where the sets are placed (the pool \<open>sets_chunk\<close>) and the deletion of sets have no influence on
  what is computed; \<open>SetMemory\<close> and \<open>TaskMemory\<close> have the operations with them.  What is told to the
  memory logger is in \<open>MemAccount\<close>.
\<close>

section \<open>Options of a run\<close>

record config =
  subgraphBased :: int
  degeneracyOrd :: bool
  degreeOrd :: bool
  PX_threshold :: int
  max_clq_size :: int
  target :: build
  host :: env
  stdlib :: library

section \<open>State\<close>

text \<open>
  A \<open>GraphGuard\<close> owns a graph and counts references to it.  The guards ever created form a list;
  a guard that has been deleted is \<open>None\<close>, a guard pointer is a position in the list or null.
\<close>

record graph_guard =
  guarded :: graph
  ref_count :: int

type_synonym guard_ptr = "nat option"

text \<open>A natural number stands for the \<open>int\<close> \<open>taskSpawnCnt\<close>, as long as a task makes fewer than \<open>2 ^ 31\<close> sequential calls.\<close>

record main_task =
  taskSpawnCnt :: nat
  taskLevel :: nat
  new_vertex :: key
  R_task :: "ulist option"
  P_task :: "simple_hash_set option"
  X_task :: "simple_hash_set option"
  cand_task :: "simple_hash_set option"
  returnClique :: bool
  isContinuation :: bool
  newTask :: bool
  NewGraph :: bool
  parent :: "nat option"
  graphg :: guard_ptr

text \<open>
  What a call of \<open>execute\<close> works on: its task, with its identity, the guards, the histograms of
  the worker threads, and the children spawned so far.
\<close>

record state =
  this :: main_task
  self :: nat
  guards :: "graph_guard option list"
  pt_hist :: "nat \<Rightarrow> nat \<Rightarrow> nat option"
  spawned :: "main_task list"

definition MainBKTask_root :: "key \<Rightarrow> guard_ptr \<Rightarrow> bool \<Rightarrow> main_task" where
  "MainBKTask_root vertex g ir =
     \<lparr>taskSpawnCnt = 0, taskLevel = 0, new_vertex = vertex, R_task = None, P_task = None,
      X_task = None, cand_task = None, returnClique = False, isContinuation = False,
      newTask = True, NewGraph = ir, parent = None, graphg = g\<rparr>"

definition MainBKTask_child ::
  "ulist \<Rightarrow> simple_hash_set \<Rightarrow> simple_hash_set \<Rightarrow> guard_ptr \<Rightarrow> bool \<Rightarrow> nat \<Rightarrow> main_task" where
  "MainBKTask_child r p x gg ir par =
     \<lparr>taskSpawnCnt = 0, taskLevel = 0, new_vertex = ul_back r, R_task = Some r, P_task = Some p,
      X_task = Some x, cand_task = None, returnClique = False, isContinuation = False,
      newTask = True, NewGraph = ir, parent = Some par, graphg = gg\<rparr>"

section \<open>Graph guards\<close>

definition deref_guard :: "guard_ptr \<Rightarrow> state \<Rightarrow> graph_guard result" where
  "deref_guard gg st =
     (case gg of None \<Rightarrow> Inl NullDereference
      | Some i \<Rightarrow>
          if i < length (guards st) then
            (case guards st ! i of None \<Rightarrow> Inl DanglingPointer | Some gd \<Rightarrow> Inr gd)
          else Inl DanglingPointer)"

definition new_guard :: "graph \<Rightarrow> state \<Rightarrow> guard_ptr \<times> state" where
  "new_guard g st =
     (Some (length (guards st)), st\<lparr>guards := guards st @ [Some \<lparr>guarded = g, ref_count = 1\<rparr>]\<rparr>)"

definition put_guard :: "guard_ptr \<Rightarrow> graph_guard option \<Rightarrow> state \<Rightarrow> state" where
  "put_guard gg gd st = (case gg of None \<Rightarrow> st | Some i \<Rightarrow> st\<lparr>guards := (guards st)[i := gd]\<rparr>)"

definition inc_graph_ref_count :: "guard_ptr \<Rightarrow> state \<Rightarrow> state result" where
  "inc_graph_ref_count gg st =
     bind_result (deref_guard gg st) (\<lambda>gd.
       Inr (put_guard gg (Some (gd\<lparr>ref_count := ref_count gd + 1\<rparr>)) st))"

text \<open>The last reference deletes the graph and the guard and clears the pointer it came through.\<close>

definition dec_graph_ref_count :: "guard_ptr \<Rightarrow> state \<Rightarrow> (guard_ptr \<times> state) result" where
  "dec_graph_ref_count gg st =
     bind_result (deref_guard gg st) (\<lambda>gd.
       let gd = gd\<lparr>ref_count := ref_count gd - 1\<rparr> in
       if ref_count gd \<le> 0 then Inr (None, put_guard gg None st)
       else Inr (gg, put_guard gg (Some gd) st))"

section \<open>Root sets\<close>

definition goes_to_P :: "config \<Rightarrow> graph \<Rightarrow> key \<Rightarrow> key \<Rightarrow> bool result" where
  "goes_to_P c g new_v vertex_name =
     (if degeneracyOrd c then Inr (getNodePosition g vertex_name > getNodePosition g new_v)
      else case (getAdjacentNodes g vertex_name, getAdjacentNodes g new_v) of
        (Some a, Some b) \<Rightarrow>
          let this_vertex_size = hs_size a; other_vertex_size = hs_size b in
          Inr ((degreeOrd c \<and> this_vertex_size > other_vertex_size
                \<or> \<not> degreeOrd c \<and> this_vertex_size < other_vertex_size)
               \<or> (this_vertex_size = other_vertex_size \<and> sint vertex_name > sint new_v))
      | _ \<Rightarrow> Inl NullDereference)"

definition create_root_sets ::
  "config \<Rightarrow> graph \<Rightarrow> key \<Rightarrow> (simple_hash_set \<times> simple_hash_set) result" where
  "create_root_sets c g new_v =
     (case getAdjacentNodes g new_v of None \<Rightarrow> Inl NullDereference
      | Some Q \<Rightarrow>
          hs_for_each_result (\<lambda>vertex_name (P, X).
            bind_result (goes_to_P c g new_v vertex_name) (\<lambda>toP.
              if toP
              then bind_result (add_elem (target c) vertex_name P) (\<lambda>P. Inr (P, X))
              else bind_result (add_elem (target c) vertex_name X) (\<lambda>X. Inr (P, X))))
            Q (create_set, create_set))"

section \<open>One round of the enumeration\<close>

text \<open>\<open>my_hist[r_size]++\<close> in the histogram of the worker thread \<open>thr\<close>.\<close>

definition count_clique :: "nat \<Rightarrow> nat \<Rightarrow> state \<Rightarrow> state" where
  "count_clique thr r_size st =
     (let my_hist = pt_hist st thr;
          my_hist = (if my_hist r_size = None then my_hist(r_size \<mapsto> 0) else my_hist);
          my_hist = my_hist(r_size \<mapsto> the (my_hist r_size) + 1)
      in st\<lparr>pt_hist := (pt_hist st)(thr := my_hist)\<rparr>)"

text \<open>
  \<open>R.size() >= max_clq_size\<close> compares a \<open>size_t\<close> with an \<open>int\<close>, which is converted.
\<close>

definition size_limit_reached :: "config \<Rightarrow> ulist \<Rightarrow> bool" where
  "size_limit_reached c R \<longleftrightarrow>
     max_clq_size c \<noteq> -1 \<and> int (ul_size R) \<ge> max_clq_size c mod 2 ^ 64"

definition is_root_sg :: "state \<Rightarrow> bool" where
  "is_root_sg st \<longleftrightarrow> parent (this st) = None \<and> taskSpawnCnt (this st) = 0"

definition create_graph ::
  "config \<Rightarrow> simple_hash_set \<Rightarrow> simple_hash_set \<Rightarrow> guard_ptr \<Rightarrow> state \<Rightarrow> (guard_ptr \<times> state) result" where
  "create_graph c P X gg st =
     (if subgraphBased c = 1 \<and> is_root_sg st
         \<or> subgraphBased c = 2 \<and> taskSpawnCnt (this st) = 0 \<and> NewGraph (this st)
         \<or> subgraphBased c = 3
      then bind_result (deref_guard gg st) (\<lambda>gd.
           bind_result (createHpxSubgraph (stdlib c) (target c) (host c) (guarded gd) P X) (\<lambda>Subgraph.
             let (thisgg, st) = new_guard Subgraph st in
             bind_result (if \<not> is_root_sg st \<and> subgraphBased c \<noteq> 1 then dec_graph_ref_count gg st
                          else Inr (gg, st)) (\<lambda>(_, st).
               Inr (thisgg, if subgraphBased c \<noteq> 3
                            then st\<lparr>this := (this st)\<lparr>graphg := thisgg\<rparr>\<rparr> else st))))
      else Inr (gg, st))"

definition choose_pivot ::
  "config \<Rightarrow> graph \<Rightarrow> simple_hash_set \<Rightarrow> simple_hash_set \<Rightarrow> state \<Rightarrow> key result" where
  "choose_pivot c g P X st =
     bind_result (if NewGraph (this st) \<and> taskLevel (this st) = 0 \<or> subgraphBased c = 3
                  then Inr (pivot_node g) else getPivot (target c) g P X) (\<lambda>pivot.
       if pivot \<noteq> -1 then Inr pivot else Inl AssertionFailed)"

text \<open>
  \<open>StartTask\<close> answers \<open>None\<close> when the recursion ends here, else the candidates; and the
  guard pointer, which the caller passed by reference.
\<close>

definition StartTask ::
  "config \<Rightarrow> nat \<Rightarrow> ulist \<Rightarrow> simple_hash_set \<Rightarrow> simple_hash_set \<Rightarrow> guard_ptr \<Rightarrow> state \<Rightarrow>
    (simple_hash_set option option \<times> guard_ptr \<times> state) result" where
  "StartTask c thr R P X gg st =
     (if hs_empty P then
        let st = (if hs_empty X then count_clique thr (ul_size R) st else st) in
        bind_result
          (if (subgraphBased c = 3 \<or> subgraphBased c = 2 \<and> taskSpawnCnt (this st) = 0) \<and> \<not> is_root_sg st
           then dec_graph_ref_count gg st else Inr (gg, st)) (\<lambda>(gg, st).
          Inr (None, gg, if taskSpawnCnt (this st) = 0
                         then st\<lparr>this := (this st)\<lparr>NewGraph := False\<rparr>\<rparr> else st))
      else if size_limit_reached c R then Inr (None, gg, st)
      else
        bind_result (create_graph c P X gg st) (\<lambda>(gg, st).
        bind_result (deref_guard gg st) (\<lambda>gd.
        bind_result (choose_pivot c (guarded gd) P X st) (\<lambda>pivot.
        bind_result (exclude (target c) P (getAdjacentNodes (guarded gd) pivot)) (\<lambda>cand.
        Inr (Some cand, gg, st))))))"

text \<open>
  \<open>LoopIteration\<close> is given the sequential recursion as \<open>run\<close>.  It answers the child task, if it
  made one, and \<open>R\<close>, \<open>P\<close> and \<open>X\<close> as it leaves them.
\<close>

definition LoopIteration ::
  "config \<Rightarrow> (ulist \<Rightarrow> simple_hash_set \<Rightarrow> simple_hash_set \<Rightarrow> guard_ptr \<Rightarrow> state \<Rightarrow> (ulist \<times> state) result) \<Rightarrow>
    key \<Rightarrow> guard_ptr \<Rightarrow> ulist \<times> simple_hash_set \<times> simple_hash_set \<times> state \<Rightarrow>
    (main_task option \<times> ulist \<times> simple_hash_set \<times> simple_hash_set \<times> state) result" where
  "LoopIteration c run vertex gg = (\<lambda>(R, P, X, st).
     bind_result (deref_guard gg st) (\<lambda>gd.
     bind_result (intersect (target c) P (getAdjacentNodes (guarded gd) vertex)) (\<lambda>intersP.
     bind_result (intersect (target c) X (getAdjacentNodes (guarded gd) vertex)) (\<lambda>intersX.
     bind_result (add_elem (target c) vertex X) (\<lambda>X.
       let P = del_elem (target c) vertex P in
       case (intersP, intersX) of (Some intersP, Some intersX) \<Rightarrow>
         if int (hs_size intersP) + int (hs_size intersX) < PX_threshold c then
           (let st = st\<lparr>this := (this st)\<lparr>taskSpawnCnt := taskSpawnCnt (this st) + 1,
                                          taskLevel := taskLevel (this st) + 1\<rparr>\<rparr>;
                R = push_back vertex R
            in bind_result (if subgraphBased c = 3 then inc_graph_ref_count gg st else Inr st) (\<lambda>st.
               bind_result (run R intersP intersX gg st) (\<lambda>(R, st).
               Inr (None, pop_back R, P, X,
                    st\<lparr>this := (this st)\<lparr>taskLevel := taskLevel (this st) - 1\<rparr>\<rparr>))))
         else
           (let Rcpy = push_back vertex (UnrolledList_copy R);
                a = MainBKTask_child Rcpy intersP intersX gg (subgraphBased c > 1) (self st)
            in bind_result (if subgraphBased c > 1 then inc_graph_ref_count gg st else Inr st) (\<lambda>st.
               Inr (Some a, R, P, X, st)))
       | _ \<Rightarrow> Inl NullDereference)))))"

section \<open>The sequential recursion\<close>

text \<open>
  The recursion is as deep as \<open>P\<close> is large; the fuel is \<open>card P + 1\<close> at every call from a task,
  see \<open>sequential_fuel\<close>.
\<close>

definition candidate_step ::
  "config \<Rightarrow> (ulist \<Rightarrow> simple_hash_set \<Rightarrow> simple_hash_set \<Rightarrow> guard_ptr \<Rightarrow> state \<Rightarrow> (ulist \<times> state) result) \<Rightarrow>
    guard_ptr \<Rightarrow> key \<Rightarrow> ulist \<times> simple_hash_set \<times> simple_hash_set \<times> state \<Rightarrow>
    (ulist \<times> simple_hash_set \<times> simple_hash_set \<times> state) result" where
  "candidate_step c run gg current_node loop =
     bind_result (LoopIteration c run current_node gg loop) (\<lambda>(a, R, P, X, st).
       Inr (R, P, X, case a of None \<Rightarrow> st | Some a \<Rightarrow> st\<lparr>spawned := spawned st @ [a]\<rparr>))"

primrec SequentialRun ::
  "config \<Rightarrow> nat \<Rightarrow> nat \<Rightarrow> ulist \<Rightarrow> simple_hash_set \<Rightarrow> simple_hash_set \<Rightarrow> guard_ptr \<Rightarrow> state \<Rightarrow>
    (ulist \<times> state) result" where
  "SequentialRun c thr 0 R P X gg st = Inl OutOfFuel"
| "SequentialRun c thr (Suc n) R P X gg st =
     bind_result (StartTask c thr R P X gg st) (\<lambda>(cand, gg, st).
       case cand of None \<Rightarrow> Inr (R, st)
       | Some None \<Rightarrow> Inl NullDereference
       | Some (Some cand) \<Rightarrow>
           bind_result (hs_for_each_result (candidate_step c (SequentialRun c thr n) gg) cand (R, P, X, st))
             (\<lambda>(R, P, X, st).
             bind_result (if subgraphBased c = 3 then dec_graph_ref_count gg st else Inr (gg, st)) (\<lambda>(gg, st).
             Inr (R, st))))"

definition sequential_fuel :: "simple_hash_set \<Rightarrow> nat" where
  "sequential_fuel P = Suc (hs_size P)"

section \<open>Executing a task\<close>

text \<open>
  What \<open>execute\<close> asks of the scheduler: to run the task again at once, to run it again when its
  children are done, or nothing.
\<close>

datatype recycle = Reexecute | SafeContinuation | Finished

definition set_this :: "(main_task \<Rightarrow> main_task) \<Rightarrow> state \<Rightarrow> state" where
  "set_this f st = st\<lparr>this := f (this st)\<rparr>"

text \<open>The end of a task's loop: its sets are deleted, its reference to its graph is dropped.\<close>

definition finish_loop :: "config \<Rightarrow> state \<Rightarrow> (recycle \<times> state) result" where
  "finish_loop c st =
     (let st = set_this (\<lambda>t. t\<lparr>P_task := None, X_task := None, cand_task := None\<rparr>) st in
      bind_result
        (if subgraphBased c = 3 \<or> subgraphBased c = 2 \<and> NewGraph (this st)
         then bind_result (dec_graph_ref_count (graphg (this st)) st) (\<lambda>(gg, st).
                Inr (set_this (\<lambda>t. t\<lparr>graphg := gg\<rparr>) st))
         else Inr st) (\<lambda>st.
        Inr (SafeContinuation, set_this (\<lambda>t. t\<lparr>isContinuation := True\<rparr>) st)))"

text \<open>The part of \<open>SpawnTask\<close> for a new task; the answer says whether the task is over.\<close>

definition begin_task :: "config \<Rightarrow> nat \<Rightarrow> state \<Rightarrow> (bool \<times> state) result" where
  "begin_task c thr st =
     bind_result
       (if parent (this st) = None then
          bind_result (deref_guard (graphg (this st)) st) (\<lambda>gd.
          bind_result (create_root_sets c (guarded gd) (new_vertex (this st))) (\<lambda>(P, X).
          Inr (set_this (\<lambda>t. t\<lparr>R_task := Some (push_back (new_vertex t) UnrolledList),
                              P_task := Some P, X_task := Some X\<rparr>) st)))
        else Inr st) (\<lambda>st.
       case (R_task (this st), P_task (this st), X_task (this st)) of
         (Some R, Some P, Some X) \<Rightarrow>
           bind_result (StartTask c thr R P X (graphg (this st)) st) (\<lambda>(cand, gg, st).
             let st = set_this (\<lambda>t. t\<lparr>graphg := gg\<rparr>) st in
             case cand of None \<Rightarrow> Inr (True, set_this (\<lambda>t. t\<lparr>isContinuation := True\<rparr>) st)
             | Some cand \<Rightarrow> Inr (False, set_this (\<lambda>t. t\<lparr>cand_task := cand, newTask := False\<rparr>) st))
       | _ \<Rightarrow> Inl NullDereference)"

definition loop_once :: "config \<Rightarrow> nat \<Rightarrow> state \<Rightarrow> (recycle \<times> main_task option \<times> state) result" where
  "loop_once c thr st =
     (case (R_task (this st), P_task (this st), X_task (this st), cand_task (this st)) of
        (Some R, Some P, Some X, Some cand) \<Rightarrow>
          let (current_node, cand) = hs_get_next cand;
              st = set_this (\<lambda>t. t\<lparr>cand_task := Some cand\<rparr>) st
          in if current_node \<noteq> -1 then
               bind_result (LoopIteration c (SequentialRun c thr (sequential_fuel P)) current_node
                   (graphg (this st)) (R, P, X, st)) (\<lambda>(a, R, P, X, st).
                 let st = set_this (\<lambda>t. t\<lparr>R_task := Some R, P_task := Some P, X_task := Some X\<rparr>) st
                 in if \<not> hs_end_iter cand then Inr (Reexecute, a, st)
                    else bind_result (finish_loop c st) (\<lambda>(r, st). Inr (r, a, st)))
             else bind_result (finish_loop c st) (\<lambda>(r, st). Inr (r, None, st))
      | _ \<Rightarrow> Inl NullDereference)"

definition SpawnTask :: "config \<Rightarrow> nat \<Rightarrow> state \<Rightarrow> (recycle \<times> main_task option \<times> state) result" where
  "SpawnTask c thr st =
     bind_result (if newTask (this st) then begin_task c thr st else Inr (False, st)) (\<lambda>(end, st).
       if end then Inr (SafeContinuation, None, st) else loop_once c thr st)"

text \<open>
  \<open>returnClique\<close> is false for every task the program creates, so the branch that hands the clique
  back to the parent is left out.
\<close>

definition Continuation :: "config \<Rightarrow> state \<Rightarrow> state result" where
  "Continuation c st =
     (if subgraphBased c = 1 \<and> NewGraph (this st)
      then bind_result (dec_graph_ref_count (graphg (this st)) st) (\<lambda>(gg, st).
             Inr (set_this (\<lambda>t. t\<lparr>graphg := gg\<rparr>) st))
      else Inr st)"

definition execute :: "config \<Rightarrow> nat \<Rightarrow> state \<Rightarrow> (recycle \<times> main_task option \<times> state) result" where
  "execute c thr st =
     (if \<not> isContinuation (this st) then SpawnTask c thr st
      else bind_result (Continuation c st) (\<lambda>st. Inr (Finished, None, st)))"

end
