(* ===== verification/MemChunk.thy ===== *)
theory MemChunk
  imports Prelude
begin

text \<open>
  The allocator of \<^verbatim>\<open>include/MemChunk.h\<close>: blocks of memory that are handed out from the
  front, in multiples of a cache line, and given back all at once with the last allocation.
\<close>

unbundle bit_operations_syntax

section \<open>State and operations\<close>

text \<open>
  A block is its number among the blocks ever allocated, with its size; an address is a block with
  an offset.  Where \<open>posix_memalign\<close> places a block is its own affair; what is used of it is that
  blocks do not overlap and start on a cache line.  The code does not look at its answer, so the
  model has it succeed.
\<close>

record mem_chunk =
  allocations :: int
  dynamic_block_list :: "(nat \<times> int) list"
  dynamic_block_size :: u32
  number_of_blocks :: u32
  free_index :: u32
  next_block :: nat
  freed :: "nat list"

definition MemChunk :: "u32 \<Rightarrow> mem_chunk" where
  "MemChunk dbsize = \<lparr>allocations = 0, dynamic_block_list = [], dynamic_block_size = dbsize,
     number_of_blocks = 0, free_index = 0, next_block = 0, freed = []\<rparr>"

text \<open>
  The size in whole cache lines.  \<open>~mask\<close> is a 32-bit number, so bits above the 32nd of the size
  are lost.
\<close>

definition line_mask :: u32 where
  "line_mask = of_nat L2_CACHE_LINE - 1"

definition index_increment :: "64 word \<Rightarrow> u32" where
  "index_increment bytes =
     ucast ((bytes AND ucast (NOT line_mask)) + push_bit 6 (of_bool (bytes AND ucast line_mask \<noteq> 0)))"

definition get_address :: "64 word \<Rightarrow> mem_chunk \<Rightarrow> (nat \<times> u32) result \<times> mem_chunk" where
  "get_address bytes ch =
     (let inc = index_increment bytes;
          ch = (if number_of_blocks ch = 0 \<or> free_index ch + inc \<ge> dynamic_block_size ch
                then let alloc_size = sint (if inc > dynamic_block_size ch then inc else dynamic_block_size ch)
                     in ch\<lparr>dynamic_block_list := dynamic_block_list ch @ [(next_block ch, alloc_size)],
                           next_block := next_block ch + 1,
                           number_of_blocks := number_of_blocks ch + 1, free_index := 0\<rparr>
                else ch)
      in (if dynamic_block_list ch = [] then Inl DanglingPointer
          else Inr (fst (last (dynamic_block_list ch)), free_index ch),
          ch\<lparr>free_index := free_index ch + inc\<rparr>))"

definition delete_dynamic_blocks :: "mem_chunk \<Rightarrow> mem_chunk" where
  "delete_dynamic_blocks ch =
     ch\<lparr>freed := freed ch @ map fst (dynamic_block_list ch), dynamic_block_list := [],
        number_of_blocks := 0, free_index := 0\<rparr>"

definition increment_allocations :: "mem_chunk \<Rightarrow> mem_chunk" where
  "increment_allocations ch = ch\<lparr>allocations := allocations ch + 1\<rparr>"

definition decrement_allocations :: "mem_chunk \<Rightarrow> mem_chunk" where
  "decrement_allocations ch =
     (let ch = ch\<lparr>allocations := allocations ch - 1\<rparr>
      in if allocations ch = 0 then delete_dynamic_blocks ch else ch)"

section \<open>Whole cache lines\<close>

lemma line_mask_63: "line_mask = 63"
  by (simp add: line_mask_def L2_CACHE_LINE_def)

lemma not_line_mask: "(ucast (NOT line_mask) :: 64 word) = mask 32 AND NOT (mask 6)"
  by (simp add: line_mask_63 mask_eq_exp_minus_1)

lemma low_mask: "(ucast line_mask :: 64 word) = mask 6"
  by (simp add: line_mask_63 mask_eq_exp_minus_1)

lemma unat_and_mask: "unat (w AND mask n :: 64 word) = unat w mod 2 ^ n"
  by (simp add: unsigned_and_eq flip: take_bit_eq_mask take_bit_eq_mod) (simp add: unsigned_take_bit_eq)

lemma round_up:
  fixes n :: nat
  shows "n - n mod 64 + (if n mod 64 = 0 then 0 else 64) = 64 * ((n + 63) div 64)"
    and "n \<le> 64 * ((n + 63) div 64)"
proof -
  have d: "64 * (n div 64) + n mod 64 = n" by (rule mult_div_mod_eq)
  have "n + 63 = (n mod 64 + 63) + n div 64 * 64" using d by linarith
  then have "(n + 63) div 64 = ((n mod 64 + 63) + n div 64 * 64) div 64" by (rule arg_cong)
  also have "\<dots> = n div 64 + (n mod 64 + 63) div 64" by (rule div_mult_self1) simp
  finally have "(n + 63) div 64 = n div 64 + (n mod 64 + 63) div 64" .
  moreover have "(n mod 64 + 63) div 64 = (if n mod 64 = 0 then 0 else 1)"
    by (auto intro!: div_nat_eqI simp: less_eq_Suc_le [symmetric])
  ultimately have q: "(n + 63) div 64 = n div 64 + (if n mod 64 = 0 then 0 else 1)" by simp
  have "n - n mod 64 = 64 * (n div 64)" using d by linarith
  then show "n - n mod 64 + (if n mod 64 = 0 then 0 else 64) = 64 * ((n + 63) div 64)" unfolding q by simp
  show "n \<le> 64 * ((n + 63) div 64)"
  proof (cases "n mod 64 = 0")
    case True
    with d have "n \<le> 64 * (n div 64)" by linarith
    then show ?thesis unfolding q using True by simp
  next
    case False
    have "n mod 64 < 64" by simp
    with d have "n \<le> 64 * (n div 64) + 64" by linarith
    then show ?thesis unfolding q using False by simp
  qed
qed

lemma unat_index_increment:
  assumes "unat bytes < 2 ^ 31"
  shows "unat (index_increment bytes) = 64 * ((unat bytes + 63) div 64)"
proof -
  let ?n = "unat bytes"
  have "bytes AND mask 32 = bytes"
    using assms by (simp add: word_unat_eq_iff unat_and_mask)
  then have hi: "bytes AND ucast (NOT line_mask) = bytes AND NOT (mask 6)"
    by (simp add: not_line_mask flip: and.assoc)
  have "push_bit 6 (drop_bit 6 bytes) = bytes AND NOT (mask 6)"
    by (rule bit_eqI) (auto simp: bit_simps)
  then have sum: "bytes - take_bit 6 bytes = bytes AND NOT (mask 6)"
    using bits_ident [of 6 bytes] by (metis add_diff_cancel_right')
  have t: "unat (take_bit 6 bytes) = ?n mod 64" by (simp add: take_bit_eq_mod unat_mod_distrib)
  have "take_bit 6 bytes \<le> bytes" by (simp add: word_le_nat_alt t)
  then have u: "unat (bytes AND NOT (mask 6)) = ?n - ?n mod 64"
    unfolding sum [symmetric] by (simp add: unat_sub t)
  have lo: "(bytes AND ucast line_mask \<noteq> 0) \<longleftrightarrow> ?n mod 64 \<noteq> 0"
    by (simp add: low_mask word_unat_eq_iff unat_and_mask)
  let ?r = "push_bit 6 (of_bool (?n mod 64 \<noteq> 0)) :: 64 word"
  have r: "unat ?r = (if ?n mod 64 = 0 then 0 else 64)" by simp
  have "unat ((bytes AND NOT (mask 6)) + ?r) = ?n - ?n mod 64 + (if ?n mod 64 = 0 then 0 else 64)"
  proof -
    have "unat (bytes AND NOT (mask 6)) + unat ?r < 2 ^ LENGTH(64)" unfolding u r using assms by (simp, intro impI, linarith)
    then have "unat ((bytes AND NOT (mask 6)) + ?r) = unat (bytes AND NOT (mask 6)) + unat ?r"
      by (simp only: unat_add_lem)
    then show ?thesis unfolding u r .
  qed
  then have e: "unat ((bytes AND NOT (mask 6)) + ?r) = 64 * ((?n + 63) div 64)" unfolding round_up .
  have "64 * ((?n + 63) div 64) < 2 ^ 32" using assms by simp
  with e show ?thesis
    by (simp add: index_increment_def hi lo unsigned_ucast_eq take_bit_nat_eq_self)
qed


section \<open>Sequences of requests\<close>

text \<open>The regions handed out: block, offset and size, in the order of the requests.\<close>

type_synonym region = "nat \<times> nat \<times> nat"

fun serve :: "64 word list \<Rightarrow> mem_chunk \<Rightarrow> region list result \<times> mem_chunk" where
  "serve [] ch = (Inr [], ch)"
| "serve (n # ns) ch =
     (case get_address n ch of
        (Inl er, ch) \<Rightarrow> (Inl er, ch)
      | (Inr (b, off), ch) \<Rightarrow>
          (case serve ns ch of (rs, ch) \<Rightarrow>
             (bind_result rs (\<lambda>rs. Inr ((b, unat off, unat n) # rs)), ch)))"

definition disjoint :: "region \<Rightarrow> region \<Rightarrow> bool" where
  "disjoint = (\<lambda>(b, off, n) (b', off', n'). b \<noteq> b' \<or> off + n \<le> off' \<or> off' + n' \<le> off)"

text \<open>A region on a cache line and inside a block of the list.\<close>

definition placed_in :: "(nat \<times> int) list \<Rightarrow> region \<Rightarrow> bool" where
  "placed_in bs = (\<lambda>(b, off, n). off mod L2_CACHE_LINE = 0 \<and> (\<exists>sz. (b, sz) \<in> set bs \<and> int (off + n) \<le> sz))"

definition chunk_ok :: "mem_chunk \<Rightarrow> bool" where
  "chunk_ok ch \<longleftrightarrow> unat (dynamic_block_size ch) < 2 ^ 31 \<and> unat (free_index ch) < 2 ^ 31 \<and>
     unat (free_index ch) mod 64 = 0 \<and> (dynamic_block_list ch = [] \<longrightarrow> number_of_blocks ch = 0) \<and>
     (\<forall>(b, sz) \<in> set (dynamic_block_list ch). b < next_block ch) \<and>
     (dynamic_block_list ch \<noteq> [] \<longrightarrow> int (unat (dynamic_block_size ch)) \<le> snd (last (dynamic_block_list ch)))"

text \<open>A region that later requests keep clear of: in an older block or below the first free byte.\<close>

definition behind :: "mem_chunk \<Rightarrow> region \<Rightarrow> bool" where
  "behind ch = (\<lambda>(b, off, n). b < next_block ch \<and>
     (dynamic_block_list ch \<noteq> [] \<and> b = fst (last (dynamic_block_list ch)) \<longrightarrow> off + n \<le> unat (free_index ch)))"

abbreviation fits :: "64 word \<Rightarrow> bool" where
  "fits n \<equiv> unat n \<le> 2 ^ 30"

lemma increment_facts:
  assumes "fits n"
  shows "unat n \<le> unat (index_increment n)" "unat (index_increment n) mod 64 = 0" "unat (index_increment n) \<le> 2 ^ 30"
proof -
  have "unat n < 2 ^ 31" using assms by simp
  note i = unat_index_increment [OF this]
  show "unat n \<le> unat (index_increment n)" unfolding i by (rule round_up)
  show "unat (index_increment n) mod 64 = 0" unfolding i by simp
  have "(unat n + 63) div 64 \<le> (2 ^ 30 + 63) div 64" using assms by (intro div_le_mono) simp
  then show "unat (index_increment n) \<le> 2 ^ 30" unfolding i by simp
qed

text \<open>What a chunk keeps and promises when it hands out \<open>r\<close>.\<close>

abbreviation hands_out :: "mem_chunk \<Rightarrow> region \<Rightarrow> mem_chunk \<Rightarrow> bool" where
  "hands_out ch r ch' \<equiv> chunk_ok ch' \<and> (\<exists>new. dynamic_block_list ch' = dynamic_block_list ch @ new) \<and>
     placed_in (dynamic_block_list ch') r \<and> behind ch' r \<and> (\<forall>r'. behind ch r' \<longrightarrow> behind ch' r' \<and> disjoint r' r)"

lemma new_block_ok:
  fixes n :: "64 word"
  defines "inc \<equiv> index_increment n"
  assumes ok: "chunk_ok ch" and n: "fits n"
    and sz: "sz = sint (if inc > dynamic_block_size ch then inc else dynamic_block_size ch)"
  shows "hands_out ch (next_block ch, 0, unat n)
    (ch\<lparr>dynamic_block_list := dynamic_block_list ch @ [(next_block ch, sz)], next_block := next_block ch + 1,
      number_of_blocks := number_of_blocks ch + 1, free_index := inc\<rparr>)" (is "hands_out ch ?r ?ch")
proof (intro conjI allI impI)
  note inc = increment_facts [OF n, folded inc_def]
  have "unat (dynamic_block_size ch) < 2 ^ 31" using ok by (simp add: chunk_ok_def)
  then have "sz = int (unat (if inc > dynamic_block_size ch then inc else dynamic_block_size ch))"
    unfolding sz by (intro sint_unat) (use inc(3) in simp)
  then have le: "int (unat inc) \<le> sz" "int (unat (dynamic_block_size ch)) \<le> sz"
    by (simp_all only: of_nat_le_iff) (simp_all add: word_less_nat_alt)
  show "chunk_ok ?ch" using ok inc le by (auto simp: chunk_ok_def)
  show "\<exists>new. dynamic_block_list ?ch = dynamic_block_list ch @ new" by simp
  have "int (unat n) \<le> int (unat inc)" using inc(1) by (simp only: of_nat_le_iff)
  with le(1) have "int (0 + unat n) \<le> sz" by simp
  then show "placed_in (dynamic_block_list ?ch) ?r" by (auto simp: placed_in_def)
  show "behind ?ch ?r" using inc by (simp add: behind_def)
  show "behind ?ch r" "disjoint r ?r" if "behind ch r" for r
    using that by (auto simp: behind_def disjoint_def)
qed

lemma same_block_ok:
  fixes n :: "64 word"
  defines "inc \<equiv> index_increment n"
  assumes ok: "chunk_ok ch" and n: "fits n" and room: "number_of_blocks ch \<noteq> 0" "free_index ch + inc < dynamic_block_size ch"
  shows "dynamic_block_list ch \<noteq> []"
    and "hands_out ch (fst (last (dynamic_block_list ch)), unat (free_index ch), unat n) (ch\<lparr>free_index := free_index ch + inc\<rparr>)"
      (is "hands_out ch ?r ?ch")
proof -
  note inc = increment_facts [OF n, folded inc_def]
  let ?l = "last (dynamic_block_list ch)"
  from ok have o: "unat (free_index ch) < 2 ^ 31" "unat (free_index ch) mod 64 = 0"
    "\<forall>(b, sz) \<in> set (dynamic_block_list ch). b < next_block ch"
    "dynamic_block_list ch \<noteq> [] \<longrightarrow> int (unat (dynamic_block_size ch)) \<le> snd ?l"
    by (simp_all add: chunk_ok_def)
  show ne: "dynamic_block_list ch \<noteq> []" using ok room(1) by (auto simp: chunk_ok_def)
  then have l: "?l \<in> set (dynamic_block_list ch)" by simp
  have "unat (free_index ch) + unat inc < 2 ^ LENGTH(32)" using o(1) inc(3) by simp
  then have sum: "unat (free_index ch + inc) = unat (free_index ch) + unat inc" by (simp only: unat_add_lem)
  with room(2) have lt: "unat (free_index ch) + unat inc < unat (dynamic_block_size ch)" by (simp add: word_less_nat_alt)
  then have "int (unat (free_index ch) + unat n) \<le> int (unat (dynamic_block_size ch))"
    using inc(1) unfolding of_nat_le_iff by linarith
  with o(4) ne have fit: "int (unat (free_index ch) + unat n) \<le> snd ?l" by (meson order_trans)
  show "hands_out ch ?r ?ch"
  proof (intro conjI allI impI)
    show "chunk_ok ?ch" using ok inc lt sum by (simp add: chunk_ok_def mod_add_eq [symmetric])
    show "\<exists>new. dynamic_block_list ?ch = dynamic_block_list ch @ new" by simp
    have "(fst ?l, snd ?l) \<in> set (dynamic_block_list ?ch)" using l by simp
    with fit o(2) show "placed_in (dynamic_block_list ?ch) ?r"
      unfolding placed_in_def L2_CACHE_LINE_def prod.case by blast
    show "behind ?ch ?r" using l o(3) inc(1) by (auto simp: behind_def sum)
    show "behind ?ch r" "disjoint r ?r" if "behind ch r" for r
      using that ne by (auto simp: behind_def disjoint_def sum)
  qed
qed

lemma get_address_ok:
  assumes ok: "chunk_ok ch" and n: "fits n"
  shows "\<exists>b off ch'. get_address n ch = (Inr (b, off), ch') \<and> hands_out ch (b, unat off, unat n) ch'"
proof (cases "number_of_blocks ch = 0 \<or> free_index ch + index_increment n \<ge> dynamic_block_size ch")
  case True
  show ?thesis
    unfolding get_address_def Let_def if_P [OF True]
    using new_block_ok [OF assms refl] by simp
next
  case False
  then have "number_of_blocks ch \<noteq> 0" "free_index ch + index_increment n < dynamic_block_size ch" by (auto simp: not_le)
  note same = same_block_ok [OF assms this]
  show ?thesis
    unfolding get_address_def Let_def if_not_P [OF False]
    using same by simp
qed

lemma placed_in_append: "placed_in bs r \<Longrightarrow> placed_in (bs @ bs') r"
  by (auto simp: placed_in_def)

lemma serve_ok:
  assumes "chunk_ok ch" and "\<forall>n \<in> set ns. fits n"
  shows "\<exists>rs ch'. serve ns ch = (Inr rs, ch') \<and> map (\<lambda>(b, off, n). n) rs = map unat ns \<and>
    (\<exists>new. dynamic_block_list ch' = dynamic_block_list ch @ new) \<and>
    list_all (placed_in (dynamic_block_list ch')) rs \<and> sorted_wrt disjoint rs \<and>
    (\<forall>r. behind ch r \<longrightarrow> list_all (disjoint r) rs)"
  using assms
proof (induction ns arbitrary: ch)
  case (Cons n ns)
  obtain b off ch1 where g: "get_address n ch = (Inr (b, off), ch1)" "chunk_ok ch1"
    "\<exists>new. dynamic_block_list ch1 = dynamic_block_list ch @ new"
    "placed_in (dynamic_block_list ch1) (b, unat off, unat n)" "behind ch1 (b, unat off, unat n)"
    "\<forall>r. behind ch r \<longrightarrow> behind ch1 r \<and> disjoint r (b, unat off, unat n)"
    using get_address_ok [OF Cons.prems(1), of n] Cons.prems(2) by auto
  obtain rs ch2 where s: "serve ns ch1 = (Inr rs, ch2)" "map (\<lambda>(b, off, n). n) rs = map unat ns"
    "\<exists>new. dynamic_block_list ch2 = dynamic_block_list ch1 @ new" "list_all (placed_in (dynamic_block_list ch2)) rs"
    "sorted_wrt disjoint rs" "\<forall>r. behind ch1 r \<longrightarrow> list_all (disjoint r) rs"
    using Cons.IH [OF g(2)] Cons.prems(2) by auto
  have "placed_in (dynamic_block_list ch2) (b, unat off, unat n)" using s(3) g(4) placed_in_append by auto
  moreover have "\<exists>new. dynamic_block_list ch2 = dynamic_block_list ch @ new" using s(3) g(3) by auto
  moreover have "list_all (disjoint (b, unat off, unat n)) rs" using s(6) g(5) by blast
  ultimately show ?case
    using g s by (intro exI [of _ "(b, unat off, unat n) # rs"] exI [of _ ch2]) (auto simp: list_all_iff)
qed simp


section \<open>Giving the blocks back\<close>

text \<open>The blocks stay as long as an allocation is left, and go with the last one.\<close>

lemma decrement_steps:
  assumes "int k < allocations ch"
  shows "(decrement_allocations ^^ k) ch = ch\<lparr>allocations := allocations ch - int k\<rparr>"
  using assms by (induction k) (simp_all add: decrement_allocations_def Let_def)

lemma decrement_all:
  assumes "allocations ch = int (Suc k)"
  shows "(decrement_allocations ^^ Suc k) ch = ch\<lparr>allocations := 0, dynamic_block_list := [], number_of_blocks := 0,
    free_index := 0, freed := freed ch @ map fst (dynamic_block_list ch)\<rparr>"
  using assms decrement_steps [of k ch] by (simp add: decrement_allocations_def delete_dynamic_blocks_def Let_def)

lemma increment_steps: "(increment_allocations ^^ k) ch = ch\<lparr>allocations := allocations ch + int k\<rparr>"
  by (induction k) (simp_all add: increment_allocations_def)

end
