(* ===== verification/SetPool.thy ===== *)
theory SetPool
  imports BKTask MemChunk
begin

text \<open>
  Where the sets of a task are placed and when they are freed: a set has memory of its own, or lies in
  the pool \<open>sets_chunk\<close> of a task, which frees all its blocks with the last of its sets
  (\<^verbatim>\<open>src/BronKerboschTBB.cpp\<close>, \<^verbatim>\<open>include/MemChunk.h\<close> and
  \<open>create_set\<close> of \<^verbatim>\<open>include/SimpleHashSet.h\<close>).
\<close>

section \<open>State and operations\<close>

text \<open>
  The options of the program that choose the place, with the sizes of the objects, which the compiler
  fixes: \<open>setsMempool\<close>, \<open>mem_threshold\<close>, \<open>memBlockSize\<close>, \<open>sizeof(SimpleHashSet)\<close> and
  \<open>sizeof(Bucket)\<close>.
\<close>

record pool_config =
  use_pool :: bool
  pool_limit :: int
  pool_block :: u32
  set_bytes :: "64 word"
  bucket_bytes :: "64 word"

text \<open>
  The sets and the pools ever created, by number; \<open>None\<close> is one that has been deleted.  Of a set in a
  pool the blocks are kept that it has memory in.  \<open>deleted_chunks\<close> records pools as they were when deleted.
\<close>

record placed =
  my_chunk :: "nat option"
  blocks :: "nat list"

record heap =
  sets :: "placed option list"
  chunks :: "mem_chunk option list"
  deleted_chunks :: "mem_chunk list"

definition cell_at :: "'a option list \<Rightarrow> nat \<Rightarrow> 'a result" where
  "cell_at xs i = (if i < length xs then case xs ! i of None \<Rightarrow> Inl DanglingPointer | Some x \<Rightarrow> Inr x
     else Inl DanglingPointer)"

text \<open>Using a set: it must not have been deleted, nor the memory it lies in have been freed.\<close>

definition deref_set :: "nat \<Rightarrow> heap \<Rightarrow> placed result" where
  "deref_set h hp =
     bind_result (cell_at (sets hp) h) (\<lambda>s.
       case my_chunk s of None \<Rightarrow> Inr s
       | Some c \<Rightarrow> bind_result (cell_at (chunks hp) c) (\<lambda>ch.
           if set (blocks s) \<subseteq> fst ` set (dynamic_block_list ch) then Inr s else Inl DanglingPointer))"

definition in_chunk :: "(mem_chunk \<Rightarrow> mem_chunk) \<Rightarrow> nat \<Rightarrow> heap \<Rightarrow> heap result" where
  "in_chunk f c hp =
     bind_result (cell_at (chunks hp) c) (\<lambda>ch. Inr (hp\<lparr>chunks := (chunks hp)[c := Some (f ch)]\<rparr>))"

definition pool_address :: "64 word \<Rightarrow> nat \<Rightarrow> heap \<Rightarrow> (nat \<times> heap) result" where
  "pool_address n c hp =
     bind_result (cell_at (chunks hp) c) (\<lambda>ch.
       case get_address n ch of (r, ch) \<Rightarrow>
         bind_result r (\<lambda>(b, _). Inr (b, hp\<lparr>chunks := (chunks hp)[c := Some ch]\<rparr>)))"

text \<open>\<open>SimpleHashSet::create_set\<close>: an empty set, in memory of its own or in a pool.\<close>

definition create_set_in :: "pool_config \<Rightarrow> nat option \<Rightarrow> heap \<Rightarrow> (nat \<times> heap) result" where
  "create_set_in m chunk hp =
     (case chunk of
        None \<Rightarrow> Inr (length (sets hp), hp\<lparr>sets := sets hp @ [Some \<lparr>my_chunk = None, blocks = []\<rparr>]\<rparr>)
      | Some c \<Rightarrow> bind_result (pool_address (set_bytes m) c hp) (\<lambda>(b, hp).
          Inr (length (sets hp), hp\<lparr>sets := sets hp @ [Some \<lparr>my_chunk = Some c, blocks = [b]\<rparr>]\<rparr>)))"

text \<open>A set whose list gets another bucket (\<open>UnrolledList::create_bucket\<close>), and one that gets \<open>k\<close> of them.\<close>

definition create_bucket_in :: "pool_config \<Rightarrow> nat \<Rightarrow> heap \<Rightarrow> heap result" where
  "create_bucket_in m h hp =
     bind_result (deref_set h hp) (\<lambda>s.
       case my_chunk s of None \<Rightarrow> Inr hp
       | Some c \<Rightarrow> bind_result (pool_address (bucket_bytes m) c hp) (\<lambda>(b, hp).
           Inr (hp\<lparr>sets := (sets hp)[h := Some (s\<lparr>blocks := b # blocks s\<rparr>)]\<rparr>)))"

definition grow_set :: "pool_config \<Rightarrow> nat \<Rightarrow> nat \<Rightarrow> heap \<Rightarrow> heap result" where
  "grow_set m k h = fold_result (\<lambda>_. create_bucket_in m h) [0..<k]"

text \<open>The result of \<open>intersect\<close> or \<open>exclude\<close>: the pool counts it, then it is created and filled.\<close>

definition place_set :: "pool_config \<Rightarrow> nat option \<Rightarrow> simple_hash_set \<Rightarrow> heap \<Rightarrow> (nat \<times> heap) result" where
  "place_set m chunk s hp =
     bind_result (case chunk of None \<Rightarrow> Inr hp | Some c \<Rightarrow> in_chunk increment_allocations c hp) (\<lambda>hp.
     bind_result (create_set_in m chunk hp) (\<lambda>(h, hp).
     bind_result (grow_set m (num_of_buckets (elems s)) h hp) (\<lambda>hp. Inr (h, hp))))"

definition delete_set :: "nat \<Rightarrow> heap \<Rightarrow> heap result" where
  "delete_set h hp =
     bind_result (deref_set h hp) (\<lambda>s.
       let hp' = hp\<lparr>sets := (sets hp)[h := None]\<rparr> in
       case my_chunk s of None \<Rightarrow> Inr hp'
       | Some c \<Rightarrow> in_chunk decrement_allocations c hp')"

definition new_chunk :: "pool_config \<Rightarrow> heap \<Rightarrow> nat \<times> heap" where
  "new_chunk m hp = (length (chunks hp), hp\<lparr>chunks := chunks hp @ [Some (MemChunk (pool_block m))]\<rparr>)"

text \<open>\<open>~MemChunk\<close> frees no blocks.\<close>

definition delete_chunk :: "nat \<Rightarrow> heap \<Rightarrow> heap result" where
  "delete_chunk c hp =
     bind_result (cell_at (chunks hp) c) (\<lambda>ch.
       Inr (hp\<lparr>chunks := (chunks hp)[c := None], deleted_chunks := deleted_chunks hp @ [ch]\<rparr>))"

section \<open>Results\<close>

lemma cell_at_Inr: "cell_at xs i = Inr x \<longleftrightarrow> i < length xs \<and> xs ! i = Some x"
  by (auto simp: cell_at_def split: option.splits)

lemma cell_at_update [simp]:
  "i < length xs \<Longrightarrow> cell_at (xs[i := x]) j = (if i = j then case x of None \<Rightarrow> Inl DanglingPointer | Some y \<Rightarrow> Inr y else cell_at xs j)"
  by (auto simp: cell_at_def)

lemma cell_at_append [simp]:
  "cell_at (xs @ [x]) j = (if j = length xs then case x of None \<Rightarrow> Inl DanglingPointer | Some y \<Rightarrow> Inr y else cell_at xs j)"
  by (auto simp: cell_at_def nth_append)

lemma get_address_pool:
  assumes "dynamic_block_list ch = [] \<longrightarrow> number_of_blocks ch = 0"
  shows "\<exists>b off ch'. get_address n ch = (Inr (b, off), ch') \<and> b \<in> fst ` set (dynamic_block_list ch') \<and>
    fst ` set (dynamic_block_list ch) \<subseteq> fst ` set (dynamic_block_list ch') \<and> allocations ch' = allocations ch"
proof (cases "number_of_blocks ch = 0 \<or> free_index ch + index_increment n \<ge> dynamic_block_size ch")
  case True
  then show ?thesis by (simp add: get_address_def Let_def subset_insertI)
next
  case False
  then have "dynamic_block_list ch \<noteq> []" using assms by auto
  with False show ?thesis by (auto simp: get_address_def Let_def)
qed

section \<open>Memory in order\<close>

text \<open>
  \<open>H\<close> are the sets that are in use.  Each of them can be used, and every pool counts the sets of \<open>H\<close> in
  it, with one more if \<open>e\<close> names it.  Where nothing has been lost (\<open>tight\<close>) it counts no others, and no other
  sets are left.  A pool that counts no set has no blocks.
\<close>

definition owner :: "heap \<Rightarrow> nat \<Rightarrow> nat option" where
  "owner hp h = (case sets hp ! h of None \<Rightarrow> None | Some s \<Rightarrow> my_chunk s)"

definition used :: "nat option \<Rightarrow> nat set \<Rightarrow> heap \<Rightarrow> nat \<Rightarrow> int" where
  "used e H hp c = int (card {h \<in> H. owner hp h = Some c}) + (if e = Some c then 1 else 0)"

definition pool_ok :: "bool \<Rightarrow> int \<Rightarrow> mem_chunk \<Rightarrow> bool" where
  "pool_ok tight n ch \<longleftrightarrow> (dynamic_block_list ch = [] \<longrightarrow> number_of_blocks ch = 0) \<and>
     (allocations ch = 0 \<longrightarrow> dynamic_block_list ch = []) \<and> n \<le> allocations ch \<and> (tight \<longrightarrow> allocations ch = n)"

definition heap_ok :: "bool \<Rightarrow> nat option \<Rightarrow> nat set \<Rightarrow> heap \<Rightarrow> bool" where
  "heap_ok tight e H hp \<longleftrightarrow> (\<forall>h \<in> H. \<exists>s. deref_set h hp = Inr s) \<and>
     (\<forall>c ch. cell_at (chunks hp) c = Inr ch \<longrightarrow> pool_ok tight (used e H hp c) ch) \<and>
     (tight \<longrightarrow> (\<forall>h s. cell_at (sets hp) h = Inr s \<longrightarrow> h \<in> H) \<and>
        (\<forall>ch \<in> set (deleted_chunks hp). dynamic_block_list ch = []))"

lemma deref_set_Inr:
  "deref_set h hp = Inr s \<longleftrightarrow> cell_at (sets hp) h = Inr s \<and>
     (\<forall>c. my_chunk s = Some c \<longrightarrow> (\<exists>ch. cell_at (chunks hp) c = Inr ch \<and> set (blocks s) \<subseteq> fst ` set (dynamic_block_list ch)))"
proof (cases "cell_at (sets hp) h")
  case (Inr t)
  then show ?thesis by (cases "my_chunk t") (auto simp: deref_set_def split: if_splits)
qed (simp add: deref_set_def)

lemma owner_deref: "deref_set h hp = Inr s \<Longrightarrow> owner hp h = my_chunk s"
  by (auto simp: deref_set_Inr cell_at_Inr owner_def)

lemma heap_ok_bound:
  assumes "heap_ok tight e H hp"
  shows "H \<subseteq> {..<length (sets hp)}" and "finite H"
proof -
  show "H \<subseteq> {..<length (sets hp)}" using assms by (fastforce simp: heap_ok_def deref_set_Inr cell_at_Inr)
  then show "finite H" by (rule finite_subset) simp
qed

lemma heap_ok_owner:
  assumes "heap_ok tight e H hp" and "h \<in> H" and "owner hp h = Some c"
  obtains ch where "cell_at (chunks hp) c = Inr ch"
proof -
  obtain s where "deref_set h hp = Inr s" using assms(1,2) by (auto simp: heap_ok_def)
  with assms(3) that show ?thesis using owner_deref by (auto simp: deref_set_Inr)
qed

lemma used_none: "(\<And>h. h \<in> H \<Longrightarrow> owner hp h \<noteq> Some c) \<Longrightarrow> used None H hp c = 0"
proof -
  assume "\<And>h. h \<in> H \<Longrightarrow> owner hp h \<noteq> Some c"
  then have e: "{h \<in> H. owner hp h = Some c} = {}" by blast
  show ?thesis unfolding used_def e by simp
qed

lemma used_pos:
  assumes "heap_ok tight e H hp" and "h \<in> H" and "owner hp h = Some c"
  shows "0 < used e H hp c"
proof -
  have "{h \<in> H. owner hp h = Some c} \<noteq> {}" using assms by blast
  moreover have "finite {h \<in> H. owner hp h = Some c}" using heap_ok_bound(2) [OF assms(1)] by simp
  ultimately have "0 < card {h \<in> H. owner hp h = Some c}" by (simp add: card_gt_0_iff)
  then show ?thesis by (simp add: used_def)
qed

text \<open>What stays when memory is allocated and freed: the sets in \<open>K\<close> keep their places, and
  the pools are the same.\<close>

definition grows :: "nat set \<Rightarrow> heap \<Rightarrow> heap \<Rightarrow> bool" where
  "grows K hp hp' \<longleftrightarrow> length (sets hp) \<le> length (sets hp') \<and> length (chunks hp') = length (chunks hp) \<and>
     (\<forall>c < length (chunks hp). (chunks hp' ! c = None) = (chunks hp ! c = None)) \<and>
     (\<forall>h \<in> K. owner hp' h = owner hp h)"

lemma grows_refl [simp]: "grows K hp hp"
  by (simp add: grows_def)

lemma grows_trans: "grows K hp hp1 \<Longrightarrow> grows K hp1 hp2 \<Longrightarrow> grows K hp hp2"
  unfolding grows_def by (metis dual_order.trans order_less_le_trans)

lemma grows_mono: "grows K hp hp' \<Longrightarrow> L \<subseteq> K \<Longrightarrow> grows L hp hp'"
  by (auto simp: grows_def)

lemma grows_chunk: "grows K hp hp' \<Longrightarrow> cell_at (chunks hp) c = Inr ch \<Longrightarrow> \<exists>ch'. cell_at (chunks hp') c = Inr ch'"
  by (fastforce simp: grows_def cell_at_Inr)

section \<open>Pools that change\<close>

lemma heap_ok_pool:
  assumes ok: "heap_ok tight e H hp" and c: "cell_at (chunks hp) c = Inr ch"
    and blocks: "fst ` set (dynamic_block_list ch) \<subseteq> fst ` set (dynamic_block_list ch')"
    and ch': "pool_ok tight (used e' H hp c) ch'" and e': "\<And>d. d \<noteq> c \<Longrightarrow> used e' H hp d = used e H hp d"
  shows "heap_ok tight e' H (hp\<lparr>chunks := (chunks hp)[c := Some ch']\<rparr>)"
    and "grows K hp (hp\<lparr>chunks := (chunks hp)[c := Some ch']\<rparr>)"
proof -
  let ?hp = "hp\<lparr>chunks := (chunks hp)[c := Some ch']\<rparr>"
  have b: "c < length (chunks hp)" using c by (simp add: cell_at_Inr)
  have own: "owner ?hp = owner hp" by (simp add: owner_def fun_eq_iff)
  then have u: "used x H ?hp = used x H hp" for x by (simp add: used_def fun_eq_iff)
  have "deref_set h ?hp = Inr s" if "deref_set h hp = Inr s" for h s
    using that b c by (fastforce simp: deref_set_Inr dest: subset_trans [OF _ blocks])
  then have "\<forall>h \<in> H. \<exists>s. deref_set h ?hp = Inr s" using ok by (fastforce simp: heap_ok_def)
  moreover have "pool_ok tight (used e' H ?hp d) x" if "cell_at (chunks ?hp) d = Inr x" for d x
    unfolding u using that ok ch' b by (cases "d = c") (auto simp: heap_ok_def e')
  ultimately show "heap_ok tight e' H ?hp" using ok by (simp add: heap_ok_def)
  show "grows K hp ?hp" using c own by (auto simp: grows_def nth_list_update cell_at_Inr)
qed

lemma increment_ok:
  assumes ok: "heap_ok tight None H hp" and c: "cell_at (chunks hp) c = Inr ch"
  shows "\<exists>hp'. in_chunk increment_allocations c hp = Inr hp' \<and> heap_ok tight (Some c) H hp' \<and> grows K hp hp' \<and>
    sets hp' = sets hp"
proof -
  have p: "pool_ok tight (used None H hp c) ch" using ok c by (simp add: heap_ok_def)
  have n: "0 \<le> used None H hp c" by (simp add: used_def)
  have "pool_ok tight (used (Some c) H hp c) (increment_allocations ch)"
    using p n by (auto simp: pool_ok_def used_def increment_allocations_def)
  from heap_ok_pool [OF ok c _ this] c show ?thesis
    by (simp add: in_chunk_def used_def increment_allocations_def)
qed

lemma pool_address_ok:
  assumes ok: "heap_ok tight e H hp" and c: "cell_at (chunks hp) c = Inr ch" and pos: "0 < used e H hp c"
  shows "\<exists>b hp' ch'. pool_address n c hp = Inr (b, hp') \<and> heap_ok tight e H hp' \<and> grows K hp hp' \<and>
    sets hp' = sets hp \<and> cell_at (chunks hp') c = Inr ch' \<and> b \<in> fst ` set (dynamic_block_list ch') \<and>
    fst ` set (dynamic_block_list ch) \<subseteq> fst ` set (dynamic_block_list ch')"
proof -
  have p: "pool_ok tight (used e H hp c) ch" using ok c by (simp add: heap_ok_def)
  then obtain b off ch' where g: "get_address n ch = (Inr (b, off), ch')" "b \<in> fst ` set (dynamic_block_list ch')"
    "fst ` set (dynamic_block_list ch) \<subseteq> fst ` set (dynamic_block_list ch')" "allocations ch' = allocations ch"
    using get_address_pool [of ch n] by (auto simp: pool_ok_def)
  have "pool_ok tight (used e H hp c) ch'" using p pos g(2,4) by (auto simp: pool_ok_def)
  from heap_ok_pool [OF ok c g(3) this] show ?thesis
    using c g by (simp add: pool_address_def cell_at_Inr) 
qed

section \<open>Sets that come and go\<close>

text \<open>A set that has just been made is in use.\<close>

lemma added_set_ok:
  assumes ok: "heap_ok tight chunk H hp" and s: "my_chunk s = chunk"
      "\<And>c. chunk = Some c \<Longrightarrow> \<exists>ch. cell_at (chunks hp) c = Inr ch \<and> set (blocks s) \<subseteq> fst ` set (dynamic_block_list ch)"
  shows "heap_ok tight None (insert (length (sets hp)) H) (hp\<lparr>sets := sets hp @ [Some s]\<rparr>)"
    and "owner (hp\<lparr>sets := sets hp @ [Some s]\<rparr>) (length (sets hp)) = chunk"
    and "grows H hp (hp\<lparr>sets := sets hp @ [Some s]\<rparr>)"
proof -
  let ?h = "length (sets hp)" and ?hp = "hp\<lparr>sets := sets hp @ [Some s]\<rparr>"
  note H = heap_ok_bound [OF ok]
  have own: "owner ?hp ?h = chunk" "h \<in> H \<Longrightarrow> owner ?hp h = owner hp h" for h
    using H(1) s(1) by (auto simp: owner_def nth_append)
  have d: "\<exists>s. deref_set h ?hp = Inr s" if h: "h \<in> insert ?h H" for h
  proof (cases "h = ?h")
    case True
    with s show ?thesis by (intro exI [of _ s]) (auto simp: deref_set_Inr)
  next
    case False
    with h ok obtain t where "deref_set h hp = Inr t" by (auto simp: heap_ok_def)
    with False show ?thesis by (intro exI [of _ t]) (auto simp: deref_set_Inr)
  qed
  have "{h \<in> insert ?h H. owner ?hp h = Some c} = (if chunk = Some c then insert ?h {h \<in> H. owner hp h = Some c}
      else {h \<in> H. owner hp h = Some c})" for c
    using own by auto
  then have u: "used None (insert ?h H) ?hp c = used chunk H hp c" for c
    using H by (auto simp: used_def card_insert_if)
  show "heap_ok tight None (insert ?h H) ?hp" using ok d by (auto simp: heap_ok_def u)
  show "owner ?hp ?h = chunk" by (rule own(1))
  show "grows H hp ?hp" using own H by (auto simp: grows_def)
qed

lemma create_set_ok:
  assumes ok: "heap_ok tight chunk H hp" and c: "\<And>c. chunk = Some c \<Longrightarrow> \<exists>ch. cell_at (chunks hp) c = Inr ch"
  shows "\<exists>h hp'. create_set_in m chunk hp = Inr (h, hp') \<and> heap_ok tight None (insert h H) hp' \<and> h \<notin> H \<and>
    owner hp' h = chunk \<and> grows H hp hp' \<and> length (sets hp) \<le> h"
proof (cases chunk)
  case None
  with added_set_ok [OF ok, of "\<lparr>my_chunk = None, blocks = []\<rparr>"] heap_ok_bound(1) [OF ok] show ?thesis
    by (auto simp: create_set_in_def)
next
  case (Some c)
  with assms(2) obtain ch where ch: "cell_at (chunks hp) c = Inr ch" by blast
  have "0 < used chunk H hp c" using Some by (simp add: used_def)
  from pool_address_ok [OF ok ch this, of "set_bytes m" H] obtain b hp1 ch1 where
    a: "pool_address (set_bytes m) c hp = Inr (b, hp1)" and ok1: "heap_ok tight chunk H hp1" and g: "grows H hp hp1"
    and s: "sets hp1 = sets hp" and b: "cell_at (chunks hp1) c = Inr ch1" "b \<in> fst ` set (dynamic_block_list ch1)" by blast
  have "my_chunk \<lparr>my_chunk = Some c, blocks = [b]\<rparr> = chunk" using Some by simp
  note new = added_set_ok [OF ok1 this]
  have "heap_ok tight None (insert (length (sets hp1)) H) (hp1\<lparr>sets := sets hp1 @ [Some \<lparr>my_chunk = Some c, blocks = [b]\<rparr>]\<rparr>)"
    "owner (hp1\<lparr>sets := sets hp1 @ [Some \<lparr>my_chunk = Some c, blocks = [b]\<rparr>]\<rparr>) (length (sets hp1)) = chunk"
    "grows H hp1 (hp1\<lparr>sets := sets hp1 @ [Some \<lparr>my_chunk = Some c, blocks = [b]\<rparr>]\<rparr>)"
    by (rule new; use Some b in auto)+
  then show ?thesis
    using a Some s grows_trans [OF g] heap_ok_bound(1) [OF ok] by (auto simp: create_set_in_def)
qed

lemma create_bucket_ok:
  assumes ok: "heap_ok tight None H hp" and h: "h \<in> H"
  shows "\<exists>hp'. create_bucket_in m h hp = Inr hp' \<and> heap_ok tight None H hp' \<and> grows H hp hp'"
proof -
  obtain s where s: "deref_set h hp = Inr s" using ok h by (auto simp: heap_ok_def)
  show ?thesis
  proof (cases "my_chunk s")
    case None
    with s ok show ?thesis by (simp add: create_bucket_in_def)
  next
    case (Some c)
    then have own: "owner hp h = Some c" using owner_deref [OF s] by simp
    obtain ch where ch: "cell_at (chunks hp) c = Inr ch" by (rule heap_ok_owner [OF ok h own])
    from pool_address_ok [OF ok ch used_pos [OF ok h own], of "bucket_bytes m" H] obtain b hp1 ch1 where
      a: "pool_address (bucket_bytes m) c hp = Inr (b, hp1)" and ok1: "heap_ok tight None H hp1" and g: "grows H hp hp1"
      and e: "sets hp1 = sets hp" and b: "cell_at (chunks hp1) c = Inr ch1" "b \<in> fst ` set (dynamic_block_list ch1)"
      and sub: "fst ` set (dynamic_block_list ch) \<subseteq> fst ` set (dynamic_block_list ch1)" by blast
    let ?s = "s\<lparr>blocks := b # blocks s\<rparr>"
    let ?hp = "hp1\<lparr>sets := (sets hp)[h := Some ?s]\<rparr>"
    have len: "h < length (sets hp)" and sh: "sets hp ! h = Some s" using s by (auto simp: deref_set_Inr cell_at_Inr)
    have ownq: "owner ?hp = owner hp1" using len sh by (auto simp: owner_def fun_eq_iff nth_list_update e)
    then have u: "used x H ?hp = used x H hp1" for x by (simp add: used_def fun_eq_iff)
    have "\<exists>t. deref_set j ?hp = Inr t" if j: "j \<in> H" for j
    proof (cases "j = h")
      case True
      with s Some ch sub b len show ?thesis by (intro exI [of _ ?s]) (auto simp: deref_set_Inr)
    next
      case False
      obtain t where "deref_set j hp1 = Inr t" using ok1 j by (auto simp: heap_ok_def)
      with False len show ?thesis by (intro exI [of _ t]) (auto simp: deref_set_Inr e)
    qed
    then have "heap_ok tight None H ?hp" using ok1 h len by (auto simp: heap_ok_def u e)
    moreover have "grows H hp ?hp" using g ownq len by (simp add: grows_def)
    ultimately show ?thesis using s a Some e by (simp add: create_bucket_in_def)
  qed
qed

lemma grow_set_ok:
  assumes "heap_ok tight None H hp" and "h \<in> H"
  shows "\<exists>hp'. grow_set m k h hp = Inr hp' \<and> heap_ok tight None H hp' \<and> grows H hp hp'"
proof (induction k)
  case (Suc k)
  then obtain hp1 where "grow_set m k h hp = Inr hp1" "heap_ok tight None H hp1" "grows H hp hp1" by blast
  moreover from create_bucket_ok [OF this(2) assms(2), of m] obtain hp2 where
    "create_bucket_in m h hp1 = Inr hp2" "heap_ok tight None H hp2" "grows H hp1 hp2" by blast
  ultimately show ?case using grows_trans [of H hp hp1 hp2] by (simp add: grow_set_def)
qed (simp add: grow_set_def assms)

lemma place_set_ok:
  assumes ok: "heap_ok tight None H hp" and c: "\<And>c. chunk = Some c \<Longrightarrow> \<exists>ch. cell_at (chunks hp) c = Inr ch"
  shows "\<exists>h hp'. place_set m chunk s hp = Inr (h, hp') \<and> heap_ok tight None (insert h H) hp' \<and> h \<notin> H \<and>
    owner hp' h = chunk \<and> grows H hp hp' \<and> length (sets hp) \<le> h"
proof -
  have "\<exists>hp1. (case chunk of None \<Rightarrow> Inr hp | Some c \<Rightarrow> in_chunk increment_allocations c hp) = Inr hp1 \<and>
      heap_ok tight chunk H hp1 \<and> grows H hp hp1"
  proof (cases chunk)
    case None
    with ok show ?thesis by simp
  next
    case (Some d)
    with c obtain ch where "cell_at (chunks hp) d = Inr ch" by blast
    from increment_ok [OF ok this, of H] Some show ?thesis by auto
  qed
  then obtain hp1 where 1: "(case chunk of None \<Rightarrow> Inr hp | Some c \<Rightarrow> in_chunk increment_allocations c hp) = Inr hp1"
    "heap_ok tight chunk H hp1" "grows H hp hp1" by blast
  from create_set_ok [OF 1(2), of m] c grows_chunk [OF 1(3)] obtain h hp2 where
    2: "create_set_in m chunk hp1 = Inr (h, hp2)" "heap_ok tight None (insert h H) hp2" "h \<notin> H"
      "owner hp2 h = chunk" "grows H hp1 hp2" "length (sets hp1) \<le> h" by blast
  from grow_set_ok [OF 2(2), of h m "num_of_buckets (elems s)"] obtain hp3 where
    3: "grow_set m (num_of_buckets (elems s)) h hp2 = Inr hp3" "heap_ok tight None (insert h H) hp3"
      "grows (insert h H) hp2 hp3" by blast
  have "grows H hp hp3" using 1(3) 2(5) grows_mono [OF 3(3), of H] grows_trans by blast
  moreover have "owner hp3 h = chunk" using 2(4) 3(3) by (simp add: grows_def)
  moreover have "length (sets hp) \<le> h" using 1(3) 2(6) by (simp add: grows_def)
  ultimately show ?thesis using 1(1) 2(1,3) 3(1,2) by (simp add: place_set_def)
qed

text \<open>A pool that counts its last set out gives its blocks back; no set in use lies in it any more.\<close>

lemma heap_ok_drop:
  assumes "heap_ok False None H hp" and "H' \<subseteq> H"
  shows "heap_ok False None H' hp"
proof -
  have "card {h \<in> H'. owner hp h = Some c} \<le> card {h \<in> H. owner hp h = Some c}" for c
    using heap_ok_bound(2) [OF assms(1)] assms(2) by (intro card_mono) auto
  then have "used None H' hp c \<le> used None H hp c" for c by (simp add: used_def)
  with assms show ?thesis unfolding heap_ok_def pool_ok_def by (meson order_trans subsetD)
qed

text \<open>A set is taken out: its pool counts one set more than are in use.\<close>

lemma taken_out_ok:
  assumes ok: "heap_ok tight None H hp" and h: "h \<in> H" and s: "deref_set h hp = Inr s"
  shows "heap_ok tight (my_chunk s) (H - {h}) (hp\<lparr>sets := (sets hp)[h := None]\<rparr>)"
    and "grows (H - {h}) hp (hp\<lparr>sets := (sets hp)[h := None]\<rparr>)"
proof -
  let ?hp = "hp\<lparr>sets := (sets hp)[h := None]\<rparr>" and ?e = "my_chunk s"
  have len: "h < length (sets hp)" using s by (auto simp: deref_set_Inr cell_at_Inr)
  have own: "owner ?hp j = owner hp j" if "j \<in> H - {h}" for j using that by (simp add: owner_def)
  have set: "{j \<in> H - {h}. owner ?hp j = Some c} = {j \<in> H. owner hp j = Some c} - {h}" for c using own by auto
  have u: "used ?e (H - {h}) ?hp c = used None H hp c" for c
  proof (cases "?e = Some c")
    case True
    then have "h \<in> {j \<in> H. owner hp j = Some c}" using h owner_deref [OF s] by simp
    then have "0 < card {j \<in> H. owner hp j = Some c}"
      using heap_ok_bound(2) [OF ok] by (intro card_gt_0_iff [THEN iffD2]) auto
    then show ?thesis using \<open>h \<in> {j \<in> H. owner hp j = Some c}\<close> True unfolding used_def set by simp
  next
    case False
    then have "h \<notin> {j \<in> H. owner hp j = Some c}" using owner_deref [OF s] by simp
    then show ?thesis using False unfolding used_def set by simp
  qed
  have d: "deref_set j ?hp = Inr t" if "deref_set j hp = Inr t" "j \<noteq> h" for j t
    using that len by (simp add: deref_set_Inr)
  have "\<exists>t. deref_set j ?hp = Inr t" if "j \<in> H - {h}" for j
    using that ok d unfolding heap_ok_def by blast
  moreover have "j \<in> H - {h}" if "tight" "cell_at (sets ?hp) j = Inr t" for j t
    using that ok len by (auto simp: heap_ok_def split: if_splits)
  ultimately show "heap_ok tight ?e (H - {h}) ?hp" using ok unfolding heap_ok_def u by auto
  show "grows (H - {h}) hp ?hp" using own by (simp add: grows_def)
qed

text \<open>The pool counts the set out, and frees its blocks with the last one.\<close>

lemma decrement_ok:
  assumes ok: "heap_ok tight (Some c) H hp" and ch: "cell_at (chunks hp) c = Inr ch"
  shows "\<exists>hp'. in_chunk decrement_allocations c hp = Inr hp' \<and> heap_ok tight None H hp' \<and> grows H hp hp'"
proof -
  let ?hp = "hp\<lparr>chunks := (chunks hp)[c := Some (decrement_allocations ch)]\<rparr>"
  have p: "pool_ok tight (used (Some c) H hp c) ch" using ok ch unfolding heap_ok_def by blast
  have less: "used None H hp d = used (Some c) H hp d - (if d = c then 1 else 0)" for d by (simp add: used_def)
  have fine: "pool_ok tight (used None H hp c) (decrement_allocations ch)"
    using p unfolding less by (auto simp: pool_ok_def decrement_allocations_def delete_dynamic_blocks_def Let_def)
  have keep: "fst ` set (dynamic_block_list (decrement_allocations ch)) = fst ` set (dynamic_block_list ch)"
    if "0 < used None H hp c"
    using that p unfolding less by (simp add: pool_ok_def decrement_allocations_def Let_def)
  have own: "owner ?hp = owner hp" by (simp add: owner_def fun_eq_iff)
  then have u: "used None H ?hp d = used None H hp d" for d by (simp add: used_def)
  have "deref_set j ?hp = Inr t" if j: "j \<in> H" and t: "deref_set j hp = Inr t" for j t
  proof (cases "my_chunk t = Some c")
    case True
    then have "j \<in> {j \<in> H. owner hp j = Some c}" using j owner_deref [OF t] by simp
    then have "0 < card {j \<in> H. owner hp j = Some c}"
      using heap_ok_bound(2) [OF ok] by (intro card_gt_0_iff [THEN iffD2]) auto
    then have "0 < used None H hp c" by (simp add: used_def)
    from keep [OF this] t ch show ?thesis by (auto simp: deref_set_Inr cell_at_Inr)
  next
    case False
    with t ch show ?thesis by (auto simp: deref_set_Inr cell_at_Inr)
  qed
  moreover have "pool_ok tight (used None H hp d) x" if "cell_at (chunks ?hp) d = Inr x" for d x
  proof (cases "d = c")
    case True
    have "c < length (chunks hp)" using ch by (simp add: cell_at_Inr)
    with that True have "x = decrement_allocations ch" by simp
    with fine True show ?thesis by simp
  next
    case False
    with that ch have "cell_at (chunks hp) d = Inr x" by (simp add: cell_at_Inr)
    with ok False show ?thesis unfolding heap_ok_def less by auto
  qed
  ultimately have "heap_ok tight None H ?hp" using ok unfolding heap_ok_def u by fastforce
  moreover have "grows H hp ?hp" using ch own by (auto simp: grows_def nth_list_update cell_at_Inr)
  ultimately show ?thesis using ch by (simp add: in_chunk_def)
qed

lemma delete_set_ok:
  assumes ok: "heap_ok tight None H hp" and h: "h \<in> H"
  shows "\<exists>hp'. delete_set h hp = Inr hp' \<and> heap_ok tight None (H - {h}) hp' \<and> grows (H - {h}) hp hp'"
proof -
  obtain s where s: "deref_set h hp = Inr s" using ok h by (auto simp: heap_ok_def)
  note out = taken_out_ok [OF ok h s]
  show ?thesis
  proof (cases "my_chunk s")
    case None
    with s out show ?thesis by (simp add: delete_set_def Let_def)
  next
    case (Some c)
    obtain ch where "cell_at (chunks hp) c = Inr ch"
      by (rule heap_ok_owner [OF ok h]) (use owner_deref [OF s] Some in simp)
    then have "cell_at (chunks (hp\<lparr>sets := (sets hp)[h := None]\<rparr>)) c = Inr ch" by simp
    from decrement_ok [OF out(1) [unfolded Some] this] out(2) s Some show ?thesis
      by (auto simp: delete_set_def Let_def intro: grows_trans)
  qed
qed

lemma new_chunk_ok:
  assumes ok: "heap_ok tight None H hp" and r: "new_chunk m hp = (c, hp')"
  shows "heap_ok tight None H hp'" and "owner hp' = owner hp" and "sets hp' = sets hp" and "c = length (chunks hp)"
    and "\<exists>ch. chunks hp' = chunks hp @ [Some ch]"
proof -
  from r have hp': "hp' = hp\<lparr>chunks := chunks hp @ [Some (MemChunk (pool_block m))]\<rparr>" and c: "c = length (chunks hp)"
    by (auto simp: new_chunk_def)
  have own: "owner hp' = owner hp" by (simp add: hp' owner_def fun_eq_iff)
  have d: "deref_set h hp' = Inr s" if "deref_set h hp = Inr s" for h s
    using that by (fastforce simp: deref_set_Inr hp' cell_at_Inr nth_append)
  have "used None H hp c = 0" using heap_ok_owner [OF ok, of _ c] c by (intro used_none) (auto simp: cell_at_Inr)
  then have "pool_ok tight (used None H hp d) x" if "cell_at (chunks hp') d = Inr x" for d x
    using that ok by (auto simp: hp' heap_ok_def pool_ok_def MemChunk_def c split: if_splits)
  moreover have "used None H hp' = used None H hp" by (simp add: used_def own fun_eq_iff)
  ultimately show "heap_ok tight None H hp'" using ok d unfolding heap_ok_def by (auto simp: hp')
  show "owner hp' = owner hp" "sets hp' = sets hp" "c = length (chunks hp)" "\<exists>ch. chunks hp' = chunks hp @ [Some ch]"
    using c own by (auto simp: hp')
qed

lemma delete_chunk_ok:
  assumes ok: "heap_ok tight None H hp" and c: "cell_at (chunks hp) c = Inr ch" and none: "\<And>h. h \<in> H \<Longrightarrow> owner hp h \<noteq> Some c"
  shows "\<exists>hp'. delete_chunk c hp = Inr hp' \<and> heap_ok tight None H hp' \<and> owner hp' = owner hp \<and>
    length (sets hp') = length (sets hp) \<and> chunks hp' = (chunks hp)[c := None]"
proof -
  let ?hp = "hp\<lparr>chunks := (chunks hp)[c := None], deleted_chunks := deleted_chunks hp @ [ch]\<rparr>"
  have b: "c < length (chunks hp)" using c by (simp add: cell_at_Inr)
  have own: "owner ?hp = owner hp" by (simp add: owner_def fun_eq_iff)
  have "used None H hp c = 0" using none by (rule used_none)
  then have z: "tight \<longrightarrow> dynamic_block_list ch = []" using ok c by (auto simp: heap_ok_def pool_ok_def)
  have "deref_set h ?hp = Inr s" if "h \<in> H" "deref_set h hp = Inr s" for h s
    using that none [OF that(1)] owner_deref [OF that(2)] b by (auto simp: deref_set_Inr)
  moreover have "used None H ?hp = used None H hp" by (simp add: used_def own fun_eq_iff)
  moreover have "cell_at (chunks hp) d = Inr x" if "cell_at (chunks ?hp) d = Inr x" for d x
    using that b by (auto split: if_splits)
  ultimately have "heap_ok tight None H ?hp" using ok z unfolding heap_ok_def by fastforce
  then show ?thesis using c own by (simp add: delete_chunk_def)
qed

end
