(* ===== verification/Matches.thy ===== *)
theory Matches
  imports SimpleHashSet
begin

text \<open>
  Two programs that run side by side: their results match if both end with the same error, or with values
  that are related.
\<close>

section \<open>Results that match\<close>

definition matches :: "('a \<Rightarrow> 'b \<Rightarrow> bool) \<Rightarrow> 'a result \<Rightarrow> 'b result \<Rightarrow> bool" where
  "matches Q = rel_sum (=) Q"

lemma matches_simps [simp]:
  "matches Q (Inr a) (Inr b) \<longleftrightarrow> Q a b"
  "matches Q (Inl e) r \<longleftrightarrow> r = Inl e"
  "\<not> matches Q (Inr a) (Inl e)"
  by (cases r; auto simp: matches_def)+

lemma matches_bind:
  assumes "matches Q r r'" and "\<And>a b. Q a b \<Longrightarrow> matches Q' (f a) (g b)"
  shows "matches Q' (bind_result r f) (bind_result r' g)"
  using assms by (cases r; cases r') simp_all

lemma matches_same: "(\<And>a. r = Inr a \<Longrightarrow> Q a a) \<Longrightarrow> matches Q r r"
  by (cases r) simp_all

lemma matches_if:
  "(b \<Longrightarrow> matches Q r s) \<Longrightarrow> (\<not> b \<Longrightarrow> matches Q r' s') \<Longrightarrow> matches Q (if b then r else r') (if b then s else s')"
  by simp

lemma matches_loop:
  assumes "\<And>v s s'. Q s s' \<Longrightarrow> matches Q (f v s) (g v s')"
  shows "matches Q r r' \<Longrightarrow> matches Q (for_each_loop (\<lambda>x r. bind_result r (f x)) l i j r)
    (for_each_loop (\<lambda>x r. bind_result r (g x)) l i j r')"
proof (induction "\<lambda>x r. bind_result r (f x)" l i j r arbitrary: r' rule: for_each_loop.induct)
  case (1 l i j r)
  let ?go = "i < length (buckets l) \<and> j < ELEMS_IN_BUCKET \<and> \<not> (i = tail_ix l \<and> j = offset l + 1)"
  have one: "matches Q (bind_result r (f v)) (bind_result r' (g v))" for v
    by (rule matches_bind [OF "1.prems" assms])
  show ?case
  proof (cases ?go)
    case True
    then show ?thesis
      using "1.hyps"(1) [OF True refl _ one] "1.hyps"(2) [OF True refl _ one]
      by (subst (1 2) for_each_loop.simps) (simp add: Let_def)
  next
    case False
    with "1.prems" show ?thesis by (subst (1 2) for_each_loop.simps) (simp only: False if_False)
  qed
qed

lemma matches_fold:
  assumes "\<And>v s s'. Q s s' \<Longrightarrow> matches Q (f v s) (g v s')"
  shows "matches Q r r' \<Longrightarrow> matches Q (fold (\<lambda>x r. if b x then bind_result r (f (y x)) else r) xs r)
    (fold (\<lambda>x r. if b x then bind_result r (g (y x)) else r) xs r')"
  by (induction xs arbitrary: r r') (simp_all add: matches_bind assms)

lemma matches_for_each:
  assumes step: "\<And>v s s'. Q s s' \<Longrightarrow> matches Q (f v s) (g v s')" and "Q s s'"
  shows "matches Q (hs_for_each_result f S s) (hs_for_each_result g S s')"
proof -
  have "matches Q (Inr s) (Inr s')" using assms(2) by simp
  note start = this
  have L: "matches Q (for_each_loop (\<lambda>x r. bind_result r (f x)) l i j (Inr s))
      (for_each_loop (\<lambda>x r. bind_result r (g x)) l i j (Inr s'))" for l i j
    by (rule matches_loop [OF step start])
  have F: "matches Q (fold (\<lambda>x r. if b x then bind_result r (f (y x)) else r) xs (Inr s))
      (fold (\<lambda>x r. if b x then bind_result r (g (y x)) else r) xs (Inr s'))" for b y and xs :: "nat list"
    by (rule matches_fold [OF step start])
  show ?thesis
    using L F start by (simp add: hs_for_each_result_def hs_for_each_def ul_for_each_def ht_for_each_def)
qed

end
