(* ===== verification/SetMemory.thy ===== *)
theory SetMemory
  imports SetPool Matches
begin

text \<open>
  The operations of a task with the places of its sets: \<open>StartTask\<close>, \<open>LoopIteration\<close> and
  \<open>SequentialRun\<close> of \<^verbatim>\<open>src/BronKerboschTBB.cpp\<close> as in \<open>BKTask\<close>, with the statements that
  choose a pool, count, create, fill and delete sets.  A set is given by its number in the heap and its
  value.
\<close>

section \<open>Memory of a task\<close>

text \<open>
  The heap, the pool of the task, if it has made one, and the sets of the children spawned so far, in the
  order of \<open>spawned\<close>.
\<close>

record mem =
  memory :: heap
  sets_chunk :: "nat option"
  kids_at :: "(nat \<times> nat) list"

type_synonym placed_set = "nat \<times> simple_hash_set"

definition use_set :: "nat \<Rightarrow> mem \<Rightarrow> placed result" where
  "use_set h me = deref_set h (memory me)"

definition on_heap :: "(heap \<Rightarrow> heap result) \<Rightarrow> mem \<Rightarrow> mem result" where
  "on_heap f me = bind_result (f (memory me)) (\<lambda>hp. Inr (me\<lparr>memory := hp\<rparr>))"

definition new_set :: "pool_config \<Rightarrow> nat option \<Rightarrow> simple_hash_set \<Rightarrow> mem \<Rightarrow> (nat \<times> mem) result" where
  "new_set m chunk s me =
     bind_result (place_set m chunk s (memory me)) (\<lambda>(h, hp). Inr (h, me\<lparr>memory := hp\<rparr>))"

text \<open>
  A set goes to the pool if the option is on and \<open>P\<close> and \<open>X\<close> have fewer than \<open>mem_threshold\<close> elements
  together; the pool is made when it is first needed.
\<close>

definition choose_chunk :: "pool_config \<Rightarrow> nat \<Rightarrow> mem \<Rightarrow> nat option \<times> mem" where
  "choose_chunk m n me =
     (if use_pool m \<and> int n < pool_limit m
      then case sets_chunk me of
             Some c \<Rightarrow> (Some c, me)
           | None \<Rightarrow> (case new_chunk m (memory me) of (c, hp) \<Rightarrow> (Some c, me\<lparr>memory := hp, sets_chunk := Some c\<rparr>))
      else (None, me))"

section \<open>The sequential recursion\<close>

text \<open>
  A null pointer in place of the candidates is dereferenced by every caller before anything else
  happens to the memory.
\<close>

definition StartTask_mem ::
  "config \<Rightarrow> pool_config \<Rightarrow> nat \<Rightarrow> ulist \<Rightarrow> placed_set \<Rightarrow> placed_set \<Rightarrow> guard_ptr \<Rightarrow> state \<times> mem \<Rightarrow>
    (placed_set option option \<times> guard_ptr \<times> state \<times> mem) result" where
  "StartTask_mem c m thr R = (\<lambda>(p, P) (x, X) gg (st, me).
     bind_result (use_set p me) (\<lambda>_.
     bind_result (use_set x me) (\<lambda>_.
     bind_result (StartTask c thr R P X gg st) (\<lambda>(cand, gg, st).
       if hs_empty P then
         bind_result (on_heap (delete_set p) me) (\<lambda>me.
         bind_result (on_heap (delete_set x) me) (\<lambda>me. Inr (None, gg, st, me)))
       else if size_limit_reached c R then Inr (None, gg, st, me)
       else case choose_chunk m (hs_size P + hs_size X) me of (sets_chunk_ptr, me) \<Rightarrow>
         (case cand of
            Some (Some cand) \<Rightarrow>
              bind_result (new_set m sets_chunk_ptr cand me) (\<lambda>(h, me). Inr (Some (Some (h, cand)), gg, st, me))
          | _ \<Rightarrow> Inr (Some None, gg, st, me))))))"

definition LoopIteration_mem ::
  "config \<Rightarrow> pool_config \<Rightarrow>
    (ulist \<Rightarrow> placed_set \<Rightarrow> placed_set \<Rightarrow> guard_ptr \<Rightarrow> state \<times> mem \<Rightarrow> (ulist \<times> state \<times> mem) result) \<Rightarrow>
    key \<Rightarrow> guard_ptr \<Rightarrow> ulist \<times> placed_set \<times> placed_set \<times> state \<times> mem \<Rightarrow>
    ((main_task \<times> nat \<times> nat) option \<times> ulist \<times> placed_set \<times> placed_set \<times> state \<times> mem) result" where
  "LoopIteration_mem c m run vertex gg = (\<lambda>(R, (p, P), (x, X), st, me).
     bind_result (deref_guard gg st) (\<lambda>gd.
     bind_result (intersect (target c) P (getAdjacentNodes (guarded gd) vertex)) (\<lambda>intersP.
     bind_result (intersect (target c) X (getAdjacentNodes (guarded gd) vertex)) (\<lambda>intersX.
     bind_result (add_elem (target c) vertex X) (\<lambda>X'.
       let P' = del_elem (target c) vertex P in
       case (intersP, intersX) of (Some intersP, Some intersX) \<Rightarrow>
         bind_result (use_set p me) (\<lambda>_.
         bind_result (use_set x me) (\<lambda>_.
         case choose_chunk m (hs_size P + hs_size X) me of (sets_chunk_ptr, me) \<Rightarrow>
         bind_result (new_set m sets_chunk_ptr intersP me) (\<lambda>(ip, me).
         bind_result (new_set m sets_chunk_ptr intersX me) (\<lambda>(ix, me).
         bind_result (on_heap (grow_set m (num_of_buckets (elems X') - num_of_buckets (elems X)) x) me) (\<lambda>me.
         if int (hs_size intersP) + int (hs_size intersX) < PX_threshold c then
           (let st = st\<lparr>this := (this st)\<lparr>taskSpawnCnt := taskSpawnCnt (this st) + 1,
                                          taskLevel := taskLevel (this st) + 1\<rparr>\<rparr>;
                R = push_back vertex R
            in bind_result (if subgraphBased c = 3 then inc_graph_ref_count gg st else Inr st) (\<lambda>st.
               bind_result (run R (ip, intersP) (ix, intersX) gg (st, me)) (\<lambda>(R, st, me).
               Inr (None, pop_back R, (p, P'), (x, X'),
                    st\<lparr>this := (this st)\<lparr>taskLevel := taskLevel (this st) - 1\<rparr>\<rparr>, me))))
         else
           (let Rcpy = push_back vertex (UnrolledList_copy R);
                a = MainBKTask_child Rcpy intersP intersX gg (subgraphBased c > 1) (self st)
            in bind_result (if subgraphBased c > 1 then inc_graph_ref_count gg st else Inr st) (\<lambda>st.
               Inr (Some (a, ip, ix), R, (p, P'), (x, X'), st, me))))))))
       | _ \<Rightarrow> Inl NullDereference)))))"

definition candidate_step_mem ::
  "config \<Rightarrow> pool_config \<Rightarrow>
    (ulist \<Rightarrow> placed_set \<Rightarrow> placed_set \<Rightarrow> guard_ptr \<Rightarrow> state \<times> mem \<Rightarrow> (ulist \<times> state \<times> mem) result) \<Rightarrow>
    guard_ptr \<Rightarrow> nat \<Rightarrow> key \<Rightarrow> ulist \<times> placed_set \<times> placed_set \<times> state \<times> mem \<Rightarrow>
    (ulist \<times> placed_set \<times> placed_set \<times> state \<times> mem) result" where
  "candidate_step_mem c m run gg cand current_node = (\<lambda>(R, P, X, st, me).
     bind_result (use_set cand me) (\<lambda>_.
     bind_result (LoopIteration_mem c m run current_node gg (R, P, X, st, me)) (\<lambda>(a, R, P, X, st, me).
       Inr (case a of None \<Rightarrow> (R, P, X, st, me)
            | Some (a, at) \<Rightarrow> (R, P, X, st\<lparr>spawned := spawned st @ [a]\<rparr>, me\<lparr>kids_at := kids_at me @ [at]\<rparr>)))))"

primrec SequentialRun_mem ::
  "config \<Rightarrow> pool_config \<Rightarrow> nat \<Rightarrow> nat \<Rightarrow> ulist \<Rightarrow> placed_set \<Rightarrow> placed_set \<Rightarrow> guard_ptr \<Rightarrow> state \<times> mem \<Rightarrow>
    (ulist \<times> state \<times> mem) result" where
  "SequentialRun_mem c m thr 0 R P X gg s = Inl OutOfFuel"
| "SequentialRun_mem c m thr (Suc n) R P X gg s =
     bind_result (StartTask_mem c m thr R P X gg s) (\<lambda>(cand, gg, st, me).
       case cand of None \<Rightarrow> Inr (R, st, me)
       | Some None \<Rightarrow> Inl NullDereference
       | Some (Some (h, cand)) \<Rightarrow>
           bind_result (hs_for_each_result (candidate_step_mem c m (SequentialRun_mem c m thr n) gg h) cand
               (R, P, X, st, me)) (\<lambda>(R, P, X, st, me).
             bind_result (on_heap (delete_set h) me) (\<lambda>me.
             bind_result (on_heap (delete_set (fst P)) me) (\<lambda>me.
             bind_result (on_heap (delete_set (fst X)) me) (\<lambda>me.
             bind_result (if subgraphBased c = 3 then dec_graph_ref_count gg st else Inr (gg, st)) (\<lambda>(gg, st).
             Inr (R, st, me)))))))"

section \<open>The sets a task works on\<close>

definition kid_sets :: "(nat \<times> nat) list \<Rightarrow> nat list" where
  "kid_sets ks = concat (map (\<lambda>(p, x). [p, x]) ks)"

lemma kid_sets_simps [simp]:
  "kid_sets [] = []" "kid_sets (ks @ ks') = kid_sets ks @ kid_sets ks'" "kid_sets ((p, x) # ks) = p # x # kid_sets ks"
  by (simp_all add: kid_sets_def)

definition mem_ok :: "bool \<Rightarrow> nat set \<Rightarrow> mem \<Rightarrow> bool" where
  "mem_ok tight H me \<longleftrightarrow> heap_ok tight None H (memory me) \<and>
     (\<forall>c. sets_chunk me = Some c \<longrightarrow> (\<exists>ch. cell_at (chunks (memory me)) c = Inr ch)) \<and>
     distinct (kid_sets (kids_at me)) \<and> set (kid_sets (kids_at me)) \<subseteq> H \<and>
     (\<forall>h \<in> set (kid_sets (kids_at me)). owner (memory me) h \<in> {None, sets_chunk me})"

text \<open>
  From \<open>me\<close> to \<open>me'\<close>: the sets in \<open>K\<close> keep their places, no pool goes, and at most the one of the task
  comes.
\<close>

definition new_pool :: "mem \<Rightarrow> mem \<Rightarrow> bool" where
  "new_pool me me' \<longleftrightarrow>
     length (chunks (memory me')) = length (chunks (memory me)) \<and> sets_chunk me' = sets_chunk me \<or>
     length (chunks (memory me')) = Suc (length (chunks (memory me))) \<and> sets_chunk me = None \<and>
       sets_chunk me' = Some (length (chunks (memory me)))"

definition moves :: "nat set \<Rightarrow> mem \<Rightarrow> mem \<Rightarrow> bool" where
  "moves K me me' \<longleftrightarrow> length (sets (memory me)) \<le> length (sets (memory me')) \<and>
     (\<forall>h \<in> K. owner (memory me') h = owner (memory me) h) \<and> new_pool me me' \<and>
     (\<forall>c < length (chunks (memory me)). (chunks (memory me') ! c = None) = (chunks (memory me) ! c = None))"

lemma moves_refl [simp]: "moves K me me"
  by (simp add: moves_def new_pool_def)

lemma new_pool_length: "new_pool me me' \<Longrightarrow> length (chunks (memory me)) \<le> length (chunks (memory me'))"
  by (auto simp: new_pool_def)

lemma moves_trans:
  assumes "moves K me me1" and "moves K me1 me2"
  shows "moves K me me2"
proof -
  have "new_pool me me2" using assms by (auto simp: moves_def new_pool_def)
  moreover have "(chunks (memory me2) ! c = None) = (chunks (memory me) ! c = None)" if "c < length (chunks (memory me))" for c
    using that assms new_pool_length [of me me1] by (auto simp: moves_def)
  ultimately show ?thesis using assms by (auto simp: moves_def)
qed

lemma moves_mono: "moves K me me' \<Longrightarrow> L \<subseteq> K \<Longrightarrow> moves L me me'"
  by (auto simp: moves_def)

lemma grows_moves: "grows K (memory me) hp \<Longrightarrow> L \<subseteq> K \<Longrightarrow> moves L me (me\<lparr>memory := hp\<rparr>)"
  by (auto simp: grows_def moves_def new_pool_def)

text \<open>
  \<open>at_work tight K me0 A me\<close>: since \<open>me0\<close> the task has taken the sets \<open>A\<close> into use, made children with the
  sets given to them, and left the sets \<open>K\<close> of all others alone.
\<close>

abbreviation given_sets :: "mem \<Rightarrow> nat set" where
  "given_sets me \<equiv> set (kid_sets (kids_at me))"

definition at_work :: "bool \<Rightarrow> nat set \<Rightarrow> mem \<Rightarrow> nat set \<Rightarrow> mem \<Rightarrow> bool" where
  "at_work tight K me0 A me \<longleftrightarrow> mem_ok tight (K \<union> A \<union> given_sets me) me \<and> moves K me0 me \<and>
     K \<subseteq> {..<length (sets (memory me0))} \<and> K \<inter> A = {} \<and> A \<inter> given_sets me = {} \<and> given_sets me0 \<subseteq> K \<and>
     (\<exists>new. kids_at me = kids_at me0 @ new \<and> (\<forall>h \<in> set (kid_sets new). length (sets (memory me0)) \<le> h))"

definition same_places :: "nat set \<Rightarrow> mem \<Rightarrow> mem \<Rightarrow> bool" where
  "same_places A me me' \<longleftrightarrow> (\<forall>j \<in> A. owner (memory me') j = owner (memory me) j) \<and>
     (sets_chunk me \<noteq> None \<longrightarrow> sets_chunk me' = sets_chunk me)"

lemma same_places_trans: "same_places A me me1 \<Longrightarrow> same_places A me1 me2 \<Longrightarrow> same_places A me me2"
  by (auto simp: same_places_def)

lemma same_places_mono: "same_places A me me' \<Longrightarrow> B \<subseteq> A \<Longrightarrow> same_places B me me'"
  by (auto simp: same_places_def)

lemma at_workD:
  assumes "at_work tight K me0 A me"
  shows "mem_ok tight (K \<union> A \<union> given_sets me) me" and "heap_ok tight None (K \<union> A \<union> given_sets me) (memory me)"
    and "A \<inter> given_sets me = {}" and "K \<inter> A = {}"
  using assms by (auto simp: at_work_def mem_ok_def)

lemma mem_ok_pool:
  assumes "mem_ok tight H me" and "ptr \<in> {None, sets_chunk me}" and "ptr = Some c"
  shows "\<exists>ch. cell_at (chunks (memory me)) c = Inr ch"
  using assms by (auto simp: mem_ok_def)

lemma at_work_start:
  assumes "mem_ok tight (K \<union> A) me" and "given_sets me \<subseteq> K" and "K \<inter> A = {}"
  shows "at_work tight K me A me"
proof -
  have "K \<union> A \<union> given_sets me = K \<union> A" using assms(2) by auto
  moreover have "K \<subseteq> {..<length (sets (memory me))}" using heap_ok_bound(1) [of tight None "K \<union> A" "memory me"] assms(1) by (auto simp: mem_ok_def)
  ultimately show ?thesis using assms by (auto simp: at_work_def)
qed

text \<open>A change of the heap keeps what is known of the pool and the children.\<close>

lemma at_work_heap:
  assumes w: "at_work tight K me0 A me" and g: "grows (K \<union> given_sets me) (memory me) hp"
    and ok: "heap_ok tight None (K \<union> A' \<union> given_sets me) hp" and A': "K \<inter> A' = {}" "A' \<inter> given_sets me = {}"
  shows "at_work tight K me0 A' (me\<lparr>memory := hp\<rparr>)"
proof -
  let ?me = "me\<lparr>memory := hp\<rparr>"
  have m: "mem_ok tight (K \<union> A \<union> given_sets me) me" and k: "moves K me0 me" using w by (simp_all add: at_work_def)
  have "\<exists>ch. cell_at (chunks hp) c = Inr ch" if "sets_chunk me = Some c" for c
    using that m grows_chunk [OF g] by (fastforce simp: mem_ok_def)
  moreover have "owner hp h = owner (memory me) h" if "h \<in> given_sets me" for h
    using that g by (auto simp: grows_def)
  ultimately have "mem_ok tight (K \<union> A' \<union> given_sets ?me) ?me" using m ok by (auto simp: mem_ok_def)
  moreover have "moves K me0 ?me"
    by (rule moves_trans [OF k grows_moves [OF g]]) simp
  ultimately show ?thesis using w A' by (auto simp: at_work_def)
qed

lemma at_work_use:
  assumes "at_work tight K me0 A me" and "h \<in> A"
  shows "\<exists>s. use_set h me = Inr s"
  using at_workD(2) [OF assms(1)] assms(2) by (auto simp: heap_ok_def use_set_def)

lemma at_work_choose:
  assumes w: "at_work tight K me0 A me" and c: "choose_chunk m n me = (ptr, me')"
  shows "at_work tight K me0 A me'" and "ptr \<in> {None, sets_chunk me'}" and "kids_at me' = kids_at me"
    and "length (sets (memory me')) = length (sets (memory me))" and "owner (memory me') = owner (memory me)"
    and "sets_chunk me \<noteq> None \<Longrightarrow> sets_chunk me' = sets_chunk me"
proof -
  have "at_work tight K me0 A me' \<and> ptr \<in> {None, sets_chunk me'} \<and> kids_at me' = kids_at me \<and>
    length (sets (memory me')) = length (sets (memory me)) \<and> owner (memory me') = owner (memory me) \<and>
    (sets_chunk me \<noteq> None \<longrightarrow> sets_chunk me' = sets_chunk me)"
  proof (cases "sets_chunk me = None \<and> ptr \<noteq> None")
    case True
    obtain d hp where n: "new_chunk m (memory me) = (d, hp)" by fastforce
    have b: "use_pool m \<and> int n < pool_limit m" using c True by (auto simp: choose_chunk_def split: if_splits)
    have me': "me' = me\<lparr>memory := hp, sets_chunk := Some d\<rparr>" and p: "ptr = Some d"
      using c True by (auto simp: choose_chunk_def b n)
    note nc = new_chunk_ok [OF at_workD(2) [OF w] n]
    note s = nc(3) and same = nc(2)
    obtain ch where chs: "chunks hp = chunks (memory me) @ [Some ch]" using nc(5) by blast
    have m: "mem_ok tight (K \<union> A \<union> given_sets me) me" by (rule at_workD(1) [OF w])
    then have "mem_ok tight (K \<union> A \<union> given_sets me') me'" using nc(1,4) chs True
      by (auto simp: mem_ok_def me' same)
    moreover have "moves K me0 me'"
    proof (rule moves_trans)
      show "moves K me0 me" using w by (simp add: at_work_def)
      show "moves K me me'" using nc(4) True by (auto simp: moves_def new_pool_def me' s same chs nth_append)
    qed
    ultimately show ?thesis using w p s same True by (auto simp: at_work_def me')
  next
    case False
    with c have "me' = me" "ptr \<in> {None, sets_chunk me}"
      by (auto simp: choose_chunk_def split: if_splits option.splits prod.splits)
    with w show ?thesis by simp
  qed
  then show "at_work tight K me0 A me'" "ptr \<in> {None, sets_chunk me'}" "kids_at me' = kids_at me"
    "length (sets (memory me')) = length (sets (memory me))" "owner (memory me') = owner (memory me)"
    "sets_chunk me \<noteq> None \<Longrightarrow> sets_chunk me' = sets_chunk me" by blast+
qed

lemma at_work_new:
  assumes w: "at_work tight K me0 A me" and ptr: "ptr \<in> {None, sets_chunk me}"
  shows "\<exists>h me'. new_set m ptr s me = Inr (h, me') \<and> at_work tight K me0 (insert h A) me' \<and> h \<notin> A \<and>
    owner (memory me') h = ptr \<and> (\<forall>j \<in> A. owner (memory me') j = owner (memory me) j) \<and>
    length (sets (memory me)) \<le> h \<and> length (sets (memory me)) \<le> length (sets (memory me')) \<and>
    sets_chunk me' = sets_chunk me \<and> kids_at me' = kids_at me"
proof -
  obtain h hp where p: "place_set m ptr s (memory me) = Inr (h, hp)"
    "heap_ok tight None (insert h (K \<union> A \<union> given_sets me)) hp" "h \<notin> K \<union> A \<union> given_sets me" "owner hp h = ptr"
    "grows (K \<union> A \<union> given_sets me) (memory me) hp" "length (sets (memory me)) \<le> h"
    using place_set_ok [OF at_workD(2) [OF w], of ptr m s] mem_ok_pool [OF at_workD(1) [OF w] ptr] by blast
  have "at_work tight K me0 (insert h A) (me\<lparr>memory := hp\<rparr>)"
    using p(2,3) at_workD(3,4) [OF w]
    by (intro at_work_heap [OF w]) (auto intro: grows_mono [OF p(5)])
  with p show ?thesis by (auto simp: new_set_def grows_def)
qed

lemma at_work_grow:
  assumes w: "at_work tight K me0 A me" and h: "h \<in> A"
  shows "\<exists>me'. on_heap (grow_set m k h) me = Inr me' \<and> at_work tight K me0 A me' \<and>
    (\<forall>j \<in> A. owner (memory me') j = owner (memory me) j) \<and> sets_chunk me' = sets_chunk me \<and> kids_at me' = kids_at me"
proof -
  have "h \<in> K \<union> A \<union> given_sets me" using h by simp
  from grow_set_ok [OF at_workD(2) [OF w] this, of m k] obtain hp where
    g: "grow_set m k h (memory me) = Inr hp" "heap_ok tight None (K \<union> A \<union> given_sets me) hp"
      "grows (K \<union> A \<union> given_sets me) (memory me) hp" by blast
  have "at_work tight K me0 A (me\<lparr>memory := hp\<rparr>)"
    using g(2) at_workD(3,4) [OF w] by (intro at_work_heap [OF w]) (auto intro: grows_mono [OF g(3)])
  with g show ?thesis by (auto simp: on_heap_def grows_def)
qed

lemma at_work_delete:
  assumes w: "at_work tight K me0 A me" and h: "h \<in> A"
  shows "\<exists>me'. on_heap (delete_set h) me = Inr me' \<and> at_work tight K me0 (A - {h}) me' \<and>
    sets_chunk me' = sets_chunk me \<and> kids_at me' = kids_at me \<and> same_places (A - {h}) me me'"
proof -
  have "h \<in> K \<union> A \<union> given_sets me" using h by simp
  from delete_set_ok [OF at_workD(2) [OF w] this] obtain hp where
    d: "delete_set h (memory me) = Inr hp" "heap_ok tight None (K \<union> A \<union> given_sets me - {h}) hp"
      "grows (K \<union> A \<union> given_sets me - {h}) (memory me) hp" by blast
  have e: "K \<union> A \<union> given_sets me - {h} = K \<union> (A - {h}) \<union> given_sets me" using at_workD(3,4) [OF w] h by auto
  have "at_work tight K me0 (A - {h}) (me\<lparr>memory := hp\<rparr>)"
    using d(2,3) at_workD(3,4) [OF w] unfolding e by (intro at_work_heap [OF w]) (auto elim: grows_mono)
  with d(1,3) show ?thesis by (auto simp: on_heap_def same_places_def grows_def)
qed

text \<open>Sets that are lost.\<close>

lemma at_work_drop:
  assumes w: "at_work False K me0 A me" and "A' \<subseteq> A"
  shows "at_work False K me0 A' me"
proof -
  have "heap_ok False None (K \<union> A' \<union> given_sets me) (memory me)"
    by (rule heap_ok_drop [OF at_workD(2) [OF w]]) (use assms(2) in auto)
  from at_work_heap [OF w _ this] at_workD(3,4) [OF w] assms(2) show ?thesis by auto
qed

text \<open>Sets that are given to a child.\<close>

lemma at_work_give:
  assumes w: "at_work tight K me0 A me" and px: "p \<in> A" "x \<in> A" "p \<noteq> x"
    and new: "length (sets (memory me0)) \<le> p" "length (sets (memory me0)) \<le> x"
    and own: "owner (memory me) p \<in> {None, sets_chunk me}" "owner (memory me) x \<in> {None, sets_chunk me}"
  shows "at_work tight K me0 (A - {p, x}) (me\<lparr>kids_at := kids_at me @ [(p, x)]\<rparr>)"
proof -
  let ?me = "me\<lparr>kids_at := kids_at me @ [(p, x)]\<rparr>"
  have "K \<union> (A - {p, x}) \<union> given_sets ?me = K \<union> A \<union> given_sets me" using px(1,2) by auto
  moreover have "mem_ok tight (K \<union> A \<union> given_sets me) ?me"
    using at_workD(1,3) [OF w] px own by (auto simp: mem_ok_def)
  moreover have "moves K me0 ?me" using w by (simp add: at_work_def moves_def new_pool_def)
  ultimately show ?thesis using w new by (auto simp: at_work_def)
qed

text \<open>A call that is given the sets \<open>B\<close>.\<close>

lemma at_work_call:
  assumes w: "at_work tight K me0 A me" and "B \<subseteq> A"
  obtains K' where "mem_ok tight (K' \<union> B) me" and "given_sets me \<subseteq> K'" and "K' \<inter> B = {}"
    and "\<And>me'. at_work tight K' me {} me' \<Longrightarrow> at_work tight K me0 (A - B) me' \<and>
      same_places (A - B) me me'"
proof (rule that [of "K \<union> (A - B) \<union> given_sets me"])
  have "K \<union> (A - B) \<union> given_sets me \<union> B = K \<union> A \<union> given_sets me" using assms(2) by auto
  then show "mem_ok tight (K \<union> (A - B) \<union> given_sets me \<union> B) me" using at_workD(1) [OF w] by simp
  show "(K \<union> (A - B) \<union> given_sets me) \<inter> B = {}" using at_workD(3,4) [OF w] assms(2) by blast
next
  fix me' assume w': "at_work tight (K \<union> (A - B) \<union> given_sets me) me {} me'"
  obtain new where n: "kids_at me' = kids_at me @ new" "\<forall>h \<in> set (kid_sets new). length (sets (memory me)) \<le> h"
    using w' by (auto simp: at_work_def)
  obtain old where o: "kids_at me = kids_at me0 @ old" "\<forall>h \<in> set (kid_sets old). length (sets (memory me0)) \<le> h"
    using w by (auto simp: at_work_def)
  have len: "length (sets (memory me0)) \<le> length (sets (memory me))" using w by (auto simp: at_work_def moves_def)
  have b: "K \<union> (A - B) \<union> given_sets me \<subseteq> {..<length (sets (memory me))}" using w' by (simp add: at_work_def)
  have "K \<union> (A - B) \<union> given_sets me \<union> {} \<union> given_sets me' = K \<union> (A - B) \<union> given_sets me'" using n(1) by auto
  then have "mem_ok tight (K \<union> (A - B) \<union> given_sets me') me'" using at_workD(1) [OF w'] by simp
  moreover have "moves K me0 me'"
    using w w' by (auto simp: at_work_def intro: moves_trans moves_mono)
  moreover have "(A - B) \<inter> given_sets me' = {}" using n at_workD(3) [OF w] b by fastforce
  moreover have "\<exists>new. kids_at me' = kids_at me0 @ new \<and> (\<forall>h \<in> set (kid_sets new). length (sets (memory me0)) \<le> h)"
    using n o len by (intro exI [of _ "old @ new"]) auto
  ultimately have "at_work tight K me0 (A - B) me'" using w by (auto simp: at_work_def)
  moreover have "same_places (A - B) me me'"
    using w' by (auto simp: at_work_def moves_def same_places_def new_pool_def)
  ultimately show "at_work tight K me0 (A - B) me' \<and> same_places (A - B) me me'" by blast
qed auto

end
