(* ===== verification/SeqMemory.thy ===== *)
theory SeqMemory
  imports SetMemory
begin

text \<open>
  With the places of the sets the sequential recursion computes what it computes without them: no set
  is used after it has been deleted, none is deleted twice, and the sets that are left are those of the callers and of
  the children.
\<close>

section \<open>The beginning of a node\<close>

definition aligned :: "state \<Rightarrow> mem \<Rightarrow> bool" where
  "aligned st me \<longleftrightarrow> length (kids_at me) = length (spawned st)"

lemma guard_ops_spawned:
  "new_guard g st = (gg, st') \<Longrightarrow> spawned st' = spawned st"
  "dec_graph_ref_count gg st = Inr (gg', st') \<Longrightarrow> spawned st' = spawned st"
  "inc_graph_ref_count gg st = Inr st' \<Longrightarrow> spawned st' = spawned st"
  by (auto simp: new_guard_def dec_graph_ref_count_def inc_graph_ref_count_def put_guard_def Let_def
      split: option.splits if_splits)

lemma create_graph_spawned: "create_graph c P X gg st = Inr (gg', st') \<Longrightarrow> spawned st' = spawned st"
  by (auto simp: create_graph_def new_guard_def split: if_splits dest!: guard_ops_spawned(2))

lemma StartTask_shape:
  assumes "StartTask c thr R P X gg st = Inr (cand, gg', st')"
  shows "spawned st' = spawned st" and "cand = None \<longleftrightarrow> hs_empty P \<or> size_limit_reached c R"
proof -
  have s: "spawned (count_clique thr r st) = spawned st" for r by (simp add: count_clique_def Let_def)
  show "cand = None \<longleftrightarrow> hs_empty P \<or> size_limit_reached c R"
    using assms by (auto simp: StartTask_def Let_def split: if_splits prod.splits)
  show "spawned st' = spawned st"
    using assms s by (auto simp: StartTask_def Let_def split: if_splits prod.splits
        dest!: guard_ops_spawned create_graph_spawned)
qed

definition started_at :: "config \<Rightarrow> ulist \<Rightarrow> simple_hash_set \<Rightarrow> bool \<Rightarrow> nat set \<Rightarrow> mem \<Rightarrow> nat \<Rightarrow> nat \<Rightarrow> mem \<Rightarrow>
    simple_hash_set option option \<times> guard_ptr \<times> state \<Rightarrow>
    placed_set option option \<times> guard_ptr \<times> state \<times> mem \<Rightarrow> bool" where
  "started_at c R P tight K me0 p x me = (\<lambda>(cand, gg, st) (cand', gg', st', me').
     gg' = gg \<and> st' = st \<and> aligned st me' \<and> 
     (case cand' of
        None \<Rightarrow> cand = None \<and> at_work tight K me0 (if hs_empty P then {} else {p, x}) me' \<and>
          (\<not> hs_empty P \<longrightarrow> size_limit_reached c R \<and> same_places {p, x} me me')
      | Some None \<Rightarrow> cand = Some None \<and> at_work tight K me0 {p, x} me' \<and> same_places {p, x} me me'
      | Some (Some (h, cs)) \<Rightarrow> cand = Some (Some cs) \<and> at_work tight K me0 {p, x, h} me' \<and> h \<notin> {p, x} \<and>
          owner (memory me') h \<in> {None, sets_chunk me'} \<and> same_places {p, x} me me'))"

lemma StartTask_matches:
  assumes w: "at_work tight K me0 {p, x} me" and px: "p \<noteq> x" and al: "aligned st me"
  shows "matches (started_at c R P tight K me0 p x me) (StartTask c thr R P X gg st)
    (StartTask_mem c m thr R (p, P) (x, X) gg (st, me))"
proof -
  obtain sp sx where u: "use_set p me = Inr sp" "use_set x me = Inr sx" using at_work_use [OF w] by blast
  show ?thesis
  proof (cases "StartTask c thr R P X gg st")
    case (Inl e)
    with u show ?thesis by (simp add: StartTask_mem_def)
  next
    case (Inr s)
    obtain cand gg1 st1 where s: "s = (cand, gg1, st1)" by (cases s)
    note run = Inr [unfolded s]
    note sh = StartTask_shape [OF run]
    have al1: "aligned st1 me' \<longleftrightarrow> aligned st me" if "kids_at me' = kids_at me" for me'
      using that sh(1) by (simp add: aligned_def)
    show ?thesis
    proof (cases "hs_empty P")
      case True
      obtain me1 where 1: "on_heap (delete_set p) me = Inr me1" "at_work tight K me0 ({p, x} - {p}) me1"
        "kids_at me1 = kids_at me" using at_work_delete [OF w, of p] by auto
      obtain me2 where 2: "on_heap (delete_set x) me1 = Inr me2" "at_work tight K me0 ({p, x} - {p} - {x}) me2"
        "kids_at me2 = kids_at me1" using at_work_delete [OF 1(2), of x] px by auto
      have e: "{p, x} - {p} - {x} = {}" by auto
      with 1 2(1) 2(2) [unfolded e] 2(3) u True run sh(2) al al1 [of me2] show ?thesis by (simp add: StartTask_mem_def started_at_def)
    next
      case ne: False
      show ?thesis
      proof (cases "size_limit_reached c R")
        case True
        with u run ne sh(2) w al al1 [of me] show ?thesis by (simp add: StartTask_mem_def started_at_def same_places_def)
      next
        case False
        obtain ptr me1 where ch: "choose_chunk m (hs_size P + hs_size X) me = (ptr, me1)" by fastforce
        note w1 = at_work_choose [OF w ch]
        obtain oc where oc: "cand = Some oc" using sh(2) ne False by auto
        show ?thesis
        proof (cases oc)
          case None
          with u run ne False ch oc w1 al al1 [of me1] show ?thesis
            by (simp add: StartTask_mem_def started_at_def same_places_def)
        next
          case (Some cs)
          obtain h me2 where n: "new_set m ptr cs me1 = Inr (h, me2)" "at_work tight K me0 (insert h {p, x}) me2"
            "h \<notin> {p, x}" "owner (memory me2) h = ptr" "\<forall>j \<in> {p, x}. owner (memory me2) j = owner (memory me1) j" "sets_chunk me2 = sets_chunk me1" "kids_at me2 = kids_at me1"
            using at_work_new [OF w1(1,2), of m cs] by blast
          have "insert h {p, x} = {p, x, h}" by auto
          with u run ne False ch oc Some n w1(2,3,5,6) al al1 [of me2] show ?thesis
            by (simp add: StartTask_mem_def started_at_def same_places_def)
        qed
      qed
    qed
  qed
qed


section \<open>One candidate\<close>

lemma matches_bind_same:
  "(\<And>a. r = Inr a \<Longrightarrow> matches Q (f a) (g a)) \<Longrightarrow> matches Q (bind_result r f) (bind_result r g)"
  by (cases r) simp_all

definition ran_at :: "bool \<Rightarrow> nat set \<Rightarrow> mem \<Rightarrow> ulist \<times> state \<Rightarrow> ulist \<times> state \<times> mem \<Rightarrow> bool" where
  "ran_at tight K me = (\<lambda>(R, st) (R', st', me'). R' = R \<and> st' = st \<and> aligned st me' \<and> at_work tight K me {} me')"

text \<open>A run of a node that is given two sets.\<close>

definition runs_at ::
  "bool \<Rightarrow> (ulist \<Rightarrow> simple_hash_set \<Rightarrow> simple_hash_set \<Rightarrow> guard_ptr \<Rightarrow> state \<Rightarrow> (ulist \<times> state) result) \<Rightarrow>
    (ulist \<Rightarrow> placed_set \<Rightarrow> placed_set \<Rightarrow> guard_ptr \<Rightarrow> state \<times> mem \<Rightarrow> (ulist \<times> state \<times> mem) result) \<Rightarrow> bool" where
  "runs_at tight run run' \<longleftrightarrow> (\<forall>R P X gg st p x me K. mem_ok tight (K \<union> {p, x}) me \<longrightarrow> given_sets me \<subseteq> K \<longrightarrow>
     K \<inter> {p, x} = {} \<longrightarrow> p \<noteq> x \<longrightarrow> aligned st me \<longrightarrow>
     matches (ran_at tight K me) (run R P X gg st) (run' R (p, P) (x, X) gg (st, me)))"

definition iterated_at ::
  "bool \<Rightarrow> nat set \<Rightarrow> mem \<Rightarrow> nat set \<Rightarrow> mem \<Rightarrow> nat \<Rightarrow> nat \<Rightarrow>
    main_task option \<times> ulist \<times> simple_hash_set \<times> simple_hash_set \<times> state \<Rightarrow>
    (main_task \<times> nat \<times> nat) option \<times> ulist \<times> placed_set \<times> placed_set \<times> state \<times> mem \<Rightarrow> bool" where
  "iterated_at tight K me0 A me p x = (\<lambda>(a, R, P, X, st) (a', R', P', X', st', me').
     R' = R \<and> P' = (p, P) \<and> X' = (x, X) \<and> st' = st \<and> aligned st me' \<and> same_places A me me' \<and>
     (case a' of
        None \<Rightarrow> a = None \<and> at_work tight K me0 A me'
      | Some (t, ip, ix) \<Rightarrow> a = Some t \<and> at_work tight K me0 (A \<union> {ip, ix}) me' \<and> ip \<noteq> ix \<and> {ip, ix} \<inter> A = {} \<and>
          (\<forall>h \<in> {ip, ix}. length (sets (memory me0)) \<le> h \<and> owner (memory me') h \<in> {None, sets_chunk me'})))"

lemma place_branches:
  assumes w: "at_work tight K me0 A me" and px: "{p, x} \<subseteq> A"
  shows "\<exists>sp sx ptr me1 ip me2 ix me3 me'. use_set p me = Inr sp \<and> use_set x me = Inr sx \<and>
    choose_chunk m n me = (ptr, me1) \<and> new_set m ptr S me1 = Inr (ip, me2) \<and> new_set m ptr T me2 = Inr (ix, me3) \<and>
    on_heap (grow_set m k x) me3 = Inr me' \<and> at_work tight K me0 (A \<union> {ip, ix}) me' \<and> ip \<noteq> ix \<and> {ip, ix} \<inter> A = {} \<and>
    (\<forall>h \<in> {ip, ix}. length (sets (memory me0)) \<le> h \<and> owner (memory me') h \<in> {None, sets_chunk me'}) \<and>
    same_places A me me' \<and> kids_at me' = kids_at me"
proof -
  obtain sp sx where u: "use_set p me = Inr sp" "use_set x me = Inr sx"
    using at_work_use [OF w, of p] at_work_use [OF w, of x] px by auto
  obtain ptr me1 where ch: "choose_chunk m n me = (ptr, me1)" by fastforce
  note w1 = at_work_choose [OF w ch]
  obtain ip me2 where 2: "new_set m ptr S me1 = Inr (ip, me2)" "at_work tight K me0 (insert ip A) me2" "ip \<notin> A"
    "owner (memory me2) ip = ptr" "\<forall>j \<in> A. owner (memory me2) j = owner (memory me1) j"
    "length (sets (memory me1)) \<le> ip" "length (sets (memory me1)) \<le> length (sets (memory me2))"
    "sets_chunk me2 = sets_chunk me1" "kids_at me2 = kids_at me1"
    using at_work_new [OF w1(1,2), of m S] by blast
  have "ptr \<in> {None, sets_chunk me2}" using w1(2) 2(8) by simp
  from at_work_new [OF 2(2) this, of m T] obtain ix me3 where
    3: "new_set m ptr T me2 = Inr (ix, me3)" "at_work tight K me0 (insert ix (insert ip A)) me3" "ix \<notin> insert ip A"
    "owner (memory me3) ix = ptr" "\<forall>j \<in> insert ip A. owner (memory me3) j = owner (memory me2) j"
    "length (sets (memory me2)) \<le> ix" "sets_chunk me3 = sets_chunk me2" "kids_at me3 = kids_at me2" by blast
  have "x \<in> insert ix (insert ip A)" using px by simp
  from at_work_grow [OF 3(2) this, of m k] obtain me' where
    4: "on_heap (grow_set m k x) me3 = Inr me'" "at_work tight K me0 (insert ix (insert ip A)) me'"
    "\<forall>j \<in> insert ix (insert ip A). owner (memory me') j = owner (memory me3) j" "sets_chunk me' = sets_chunk me3"
    "kids_at me' = kids_at me3" by blast
  have e: "insert ix (insert ip A) = A \<union> {ip, ix}" by auto
  have "length (sets (memory me0)) \<le> length (sets (memory me))" using w by (simp add: at_work_def moves_def)
  then have "length (sets (memory me0)) \<le> ip" "length (sets (memory me0)) \<le> ix" using w1(4) 2(6,7) 3(6) by linarith+
  moreover have "owner (memory me') ip = ptr" "owner (memory me') ix = ptr" using 2(4) 3(4,5) 4(3) by simp_all
  moreover have "same_places A me me'" using w1(5,6) 2(5,8) 3(5,7) 4(3,4) by (simp add: same_places_def)
  ultimately have new: "\<forall>h \<in> {ip, ix}. length (sets (memory me0)) \<le> h \<and> owner (memory me') h \<in> {None, sets_chunk me'}"
    "same_places A me me'" using w1(2) 2(8) 3(7) 4(4) by simp_all
  have d: "ip \<noteq> ix" "{ip, ix} \<inter> A = {}" "kids_at me' = kids_at me" using 2(3,9) 3(3,8) 4(5) w1(3) by auto
  show ?thesis
    by (intro exI conjI) (rule u(1) u(2) ch 2(1) 3(1) 4(1) 4(2) [unfolded e] d new)+
qed

lemma aligned_this [simp]: "aligned (st\<lparr>this := t\<rparr>) me = aligned st me"
  by (simp add: aligned_def)

lemma aligned_inc:
  "(if b then inc_graph_ref_count gg st else Inr st) = Inr st' \<Longrightarrow> aligned st' me = aligned st me"
  by (auto simp: aligned_def guard_ops_spawned split: if_splits)

lemma LoopIteration_matches:
  assumes w: "at_work tight K me0 A me" and px: "{p, x} \<subseteq> A" and al: "aligned st me" and run: "runs_at tight run run'"
  shows "matches (iterated_at tight K me0 A me p x) (LoopIteration c run v gg (R, P, X, st))
    (LoopIteration_mem c m run' v gg (R, (p, P), (x, X), st, me))"
  unfolding LoopIteration_def LoopIteration_mem_def prod.case
  apply (rule matches_bind_same)+
  subgoal for gd oP oX X'
  proof (cases "oP = None \<or> oX = None")
    case True
    then show ?thesis by (cases oP; cases oX) simp_all
  next
    case False
    let ?st = "st\<lparr>this := (this st)\<lparr>taskSpawnCnt := taskSpawnCnt (this st) + 1, taskLevel := taskLevel (this st) + 1\<rparr>\<rparr>"
    from False obtain S T where ST: "oP = Some S" "oX = Some T" by auto
    obtain sp sx ptr me1 ip me2 ix me3 me' where pl: "use_set p me = Inr sp" "use_set x me = Inr sx"
      "choose_chunk m (hs_size P + hs_size X) me = (ptr, me1)" "new_set m ptr S me1 = Inr (ip, me2)"
      "new_set m ptr T me2 = Inr (ix, me3)"
      "on_heap (grow_set m (num_of_buckets (elems X') - num_of_buckets (elems X)) x) me3 = Inr me'"
      and w': "at_work tight K me0 (A \<union> {ip, ix}) me'" "ip \<noteq> ix" "{ip, ix} \<inter> A = {}"
      and new: "\<forall>h \<in> {ip, ix}. length (sets (memory me0)) \<le> h \<and> owner (memory me') h \<in> {None, sets_chunk me'}"
      and same: "same_places A me me'" "kids_at me' = kids_at me"
      using place_branches [OF w px, of m "hs_size P + hs_size X" S T] by metis
    have al': "aligned s me' \<longleftrightarrow> aligned s me" for s using same(2) by (simp add: aligned_def)
    show ?thesis
    proof (cases "int (hs_size S) + int (hs_size T) < PX_threshold c")
      case small: True
      obtain K' where K': "mem_ok tight (K' \<union> {ip, ix}) me'" "given_sets me' \<subseteq> K'" "K' \<inter> {ip, ix} = {}"
        and after: "\<And>me''. at_work tight K' me' {} me'' \<Longrightarrow> at_work tight K me0 (A \<union> {ip, ix} - {ip, ix}) me'' \<and>
          same_places (A \<union> {ip, ix} - {ip, ix}) me' me''"
        using at_work_call [OF w'(1), of "{ip, ix}"] by blast
      have e: "A \<union> {ip, ix} - {ip, ix} = A" using w'(3) by auto
      have after': "at_work tight K me0 A me'' \<and> same_places A me me''" if "at_work tight K' me' {} me''" for me''
        using after [OF that] same_places_trans [OF same(1)] unfolding e by blast
      have "matches (ran_at tight K' me') (run (push_back v R) S T gg st1) (run' (push_back v R) (ip, S) (ix, T) gg (st1, me'))"
        if "aligned st1 me'" for st1
        using run K' w'(2) that unfolding runs_at_def by blast
      then have tail: "matches (iterated_at tight K me0 A me p x)
          (bind_result (run (push_back v R) S T gg st1) (\<lambda>(R, st).
             Inr (None, pop_back R, P', X', st\<lparr>this := (this st)\<lparr>taskLevel := taskLevel (this st) - 1\<rparr>\<rparr>)))
          (bind_result (run' (push_back v R) (ip, S) (ix, T) gg (st1, me')) (\<lambda>(R, st, me).
             Inr (None, pop_back R, (p, P'), (x, X'), st\<lparr>this := (this st)\<lparr>taskLevel := taskLevel (this st) - 1\<rparr>\<rparr>, me)))"
        if "aligned st1 me'" for st1 P'
        using after' that
        by (intro matches_bind [where Q = "ran_at tight K' me'"]) (auto simp: ran_at_def iterated_at_def)
      have "aligned st1 me'" if "(if subgraphBased c = 3 then inc_graph_ref_count gg ?st else Inr ?st) = Inr st1" for st1
        using aligned_inc [OF that] al al' by simp
      then show ?thesis
        using pl ST small by (auto simp: Let_def simp del: One_nat_def intro!: matches_bind_same tail split del: if_split)
    next
      case False
      have "aligned st1 me'" if "(if 1 < subgraphBased c then inc_graph_ref_count gg st else Inr st) = Inr st1" for st1
        using aligned_inc [OF that] al al' by simp
      with False pl ST w' new same show ?thesis
        by (auto simp: Let_def iterated_at_def intro!: matches_bind_same split del: if_split)
    qed
  qed
done

section \<open>The loop and the recursion\<close>

definition looped_at ::
  "bool \<Rightarrow> nat set \<Rightarrow> mem \<Rightarrow> nat set \<Rightarrow> nat \<Rightarrow> nat \<Rightarrow> ulist \<times> simple_hash_set \<times> simple_hash_set \<times> state \<Rightarrow>
    ulist \<times> placed_set \<times> placed_set \<times> state \<times> mem \<Rightarrow> bool" where
  "looped_at tight K me0 A p x = (\<lambda>(R, P, X, st) (R', P', X', st', me').
     R' = R \<and> P' = (p, P) \<and> X' = (x, X) \<and> st' = st \<and> aligned st me' \<and> at_work tight K me0 A me')"

lemma candidate_step_matches:
  assumes l: "looped_at tight K me0 A p x s s'" and A: "{p, x, h} \<subseteq> A" and run: "runs_at tight run run'"
  shows "matches (looped_at tight K me0 A p x) (candidate_step c run gg v s) (candidate_step_mem c m run' gg h v s')"
proof -
  obtain R P X st where s: "s = (R, P, X, st)" by (cases s)
  with l obtain me where s': "s' = (R, (p, P), (x, X), st, me)" and al: "aligned st me" and w: "at_work tight K me0 A me"
    by (auto simp: looped_at_def)
  obtain sh where u: "use_set h me = Inr sh" using at_work_use [OF w] A by blast
  have px: "{p, x} \<subseteq> A" using A by simp
  have "matches (looped_at tight K me0 A p x)
    (bind_result (LoopIteration c run v gg (R, P, X, st)) (\<lambda>(a, R, P, X, st).
       Inr (R, P, X, case a of None \<Rightarrow> st | Some a \<Rightarrow> st\<lparr>spawned := spawned st @ [a]\<rparr>)))
    (bind_result (LoopIteration_mem c m run' v gg (R, (p, P), (x, X), st, me)) (\<lambda>(a, R, P, X, st, me).
       Inr (case a of None \<Rightarrow> (R, P, X, st, me)
            | Some (a, at) \<Rightarrow> (R, P, X, st\<lparr>spawned := spawned st @ [a]\<rparr>, me\<lparr>kids_at := kids_at me @ [at]\<rparr>))))"
  proof (rule matches_bind [OF LoopIteration_matches [OF w px al run]])
    fix a b assume i: "iterated_at tight K me0 A me p x a b"
    obtain o1 R1 P1 X1 st1 where a: "a = (o1, R1, P1, X1, st1)" by (cases a)
    with i obtain o2 me' where b: "b = (o2, R1, (p, P1), (x, X1), st1, me')" by (auto simp: iterated_at_def)
    show "matches (looped_at tight K me0 A p x)
      (case a of (a, R, P, X, st) \<Rightarrow> Inr (R, P, X, case a of None \<Rightarrow> st | Some a \<Rightarrow> st\<lparr>spawned := spawned st @ [a]\<rparr>))
      (case b of (a, R, P, X, st, me) \<Rightarrow> Inr (case a of None \<Rightarrow> (R, P, X, st, me)
          | Some (a, at) \<Rightarrow> (R, P, X, st\<lparr>spawned := spawned st @ [a]\<rparr>, me\<lparr>kids_at := kids_at me @ [at]\<rparr>)))"
    proof (cases o2)
      case None
      with i show ?thesis by (simp add: a b iterated_at_def looped_at_def)
    next
      case (Some k)
      obtain t ip ix where k: "k = (t, ip, ix)" by (cases k)
      have w': "at_work tight K me0 (A \<union> {ip, ix}) me'" and d: "ip \<noteq> ix" "{ip, ix} \<inter> A = {}" and o1: "o1 = Some t"
        and new: "\<forall>h \<in> {ip, ix}. length (sets (memory me0)) \<le> h \<and> owner (memory me') h \<in> {None, sets_chunk me'}"
        and al': "aligned st1 me'"
        using i by (simp_all add: a b Some k iterated_at_def)
      have "at_work tight K me0 (A \<union> {ip, ix} - {ip, ix}) (me'\<lparr>kids_at := kids_at me' @ [(ip, ix)]\<rparr>)"
        by (rule at_work_give [OF w']) (use d new in auto)
      moreover have "A \<union> {ip, ix} - {ip, ix} = A" using d(2) by auto
      ultimately show ?thesis using al' by (simp add: a b Some k o1 looped_at_def aligned_def)
    qed
  qed
  then show ?thesis using u by (simp add: s s' candidate_step_def candidate_step_mem_def)
qed

text \<open>The end of a node: its three sets are deleted, and the reference to its graph is given up.\<close>

lemma node_end_matches:
  assumes L: "looped_at tight K me {p, x, h} p x l l'" and d: "h \<notin> {p, x}" "p \<noteq> x"
  shows "matches (ran_at tight K me)
    (case l of (R, P, X, st) \<Rightarrow>
      bind_result (if subgraphBased c = 3 then dec_graph_ref_count gg st else Inr (gg, st)) (\<lambda>(gg, st). Inr (R, st)))
    (case l' of (R, P, X, st, me) \<Rightarrow>
      bind_result (on_heap (delete_set h) me) (\<lambda>me.
      bind_result (on_heap (delete_set (fst P)) me) (\<lambda>me.
      bind_result (on_heap (delete_set (fst X)) me) (\<lambda>me.
      bind_result (if subgraphBased c = 3 then dec_graph_ref_count gg st else Inr (gg, st)) (\<lambda>(gg, st).
      Inr (R, st, me))))))"
proof -
  obtain R2 P2 X2 st2 where l: "l = (R2, P2, X2, st2)" by (cases l)
  with L obtain me2 where l': "l' = (R2, (p, P2), (x, X2), st2, me2)" and al2: "aligned st2 me2"
    and w2: "at_work tight K me {p, x, h} me2" by (auto simp: looped_at_def)
  obtain me3 where 3: "on_heap (delete_set h) me2 = Inr me3" "at_work tight K me ({p, x, h} - {h}) me3"
    "kids_at me3 = kids_at me2" using at_work_delete [OF w2, of h] by auto
  obtain me4 where 4: "on_heap (delete_set p) me3 = Inr me4" "at_work tight K me ({p, x, h} - {h} - {p}) me4"
    "kids_at me4 = kids_at me3" using at_work_delete [OF 3(2), of p] d by auto
  obtain me5 where 5: "on_heap (delete_set x) me4 = Inr me5" "at_work tight K me ({p, x, h} - {h} - {p} - {x}) me5"
    "kids_at me5 = kids_at me4" using at_work_delete [OF 4(2), of x] d by auto
  have e: "{p, x, h} - {h} - {p} - {x} = {}" by auto
  have "aligned st3 me5" if "(if subgraphBased c = 3 then dec_graph_ref_count gg st2 else Inr (gg, st2)) = Inr (gg3, st3)"
    for gg3 st3
    using that al2 3(3) 4(3) 5(3) by (auto simp: aligned_def guard_ops_spawned split: if_splits)
  then show ?thesis
    using 3(1) 4(1) 5(1) 5(2) [unfolded e]
    by (auto simp: l l' ran_at_def intro!: matches_bind_same split del: if_split)
qed

text \<open>A node after its beginning: it is over, or goes through its candidates.\<close>

lemma node_rest_matches:
  assumes tight: "tight \<longrightarrow> max_clq_size c = -1" and px: "p \<noteq> x" and run: "runs_at tight run run'"
    and s: "started_at c R P tight K me p x me a b"
  shows "matches (ran_at tight K me)
    (case a of (cand, gg, st) \<Rightarrow> case cand of None \<Rightarrow> Inr (R, st) | Some None \<Rightarrow> Inl NullDereference
      | Some (Some cand) \<Rightarrow>
          bind_result (hs_for_each_result (candidate_step c run gg) cand (R, P, X, st))
            (\<lambda>(R, P, X, st).
            bind_result (if subgraphBased c = 3 then dec_graph_ref_count gg st else Inr (gg, st)) (\<lambda>(gg, st).
            Inr (R, st))))
    (case b of (cand, gg, st, me) \<Rightarrow> case cand of None \<Rightarrow> Inr (R, st, me) | Some None \<Rightarrow> Inl NullDereference
      | Some (Some (h, cand)) \<Rightarrow>
          bind_result (hs_for_each_result (candidate_step_mem c m run' gg h) cand
              (R, (p, P), (x, X), st, me)) (\<lambda>(R, P, X, st, me).
            bind_result (on_heap (delete_set h) me) (\<lambda>me.
            bind_result (on_heap (delete_set (fst P)) me) (\<lambda>me.
            bind_result (on_heap (delete_set (fst X)) me) (\<lambda>me.
            bind_result (if subgraphBased c = 3 then dec_graph_ref_count gg st else Inr (gg, st)) (\<lambda>(gg, st).
            Inr (R, st, me)))))))"
proof -
  obtain o1 gg1 st1 where a: "a = (o1, gg1, st1)" by (cases a)
  with s obtain o2 me1 where b: "b = (o2, gg1, st1, me1)" and al1: "aligned st1 me1" by (auto simp: started_at_def)
  consider (over) "o2 = None" | (null) "o2 = Some None" | (cands) h cs where "o2 = Some (Some (h, cs))"
    by (metis option.exhaust surj_pair)
  then show ?thesis
  proof cases
    case over
    then have w1: "at_work tight K me (if hs_empty P then {} else {p, x}) me1" and "\<not> hs_empty P \<longrightarrow> size_limit_reached c R"
      using s by (simp_all add: a b started_at_def)
    then have "tight \<longrightarrow> hs_empty P" using tight by (auto simp: size_limit_reached_def)
    then have "at_work tight K me {} me1" using w1 at_work_drop [of K me "{p, x}" me1 "{}"] by (cases "hs_empty P"; cases tight) auto
    with s over al1 show ?thesis by (simp add: a b started_at_def ran_at_def)
  next
    case null
    with s show ?thesis by (simp add: a b started_at_def)
  next
    case cands
    have o1: "o1 = Some (Some cs)" and w1: "at_work tight K me {p, x, h} me1" and h: "h \<notin> {p, x}"
      using s by (simp_all add: a b cands started_at_def)
    have start: "looped_at tight K me {p, x, h} p x (R, P, X, st1) (R, (p, P), (x, X), st1, me1)"
      using al1 w1 by (simp add: looped_at_def)
    have loop: "matches (looped_at tight K me {p, x, h} p x)
        (hs_for_each_result (candidate_step c run gg1) cs (R, P, X, st1))
        (hs_for_each_result (candidate_step_mem c m run' gg1 h) cs (R, (p, P), (x, X), st1, me1))"
      by (rule matches_for_each [OF candidate_step_matches [OF _ subset_refl run] start])
    show ?thesis
      unfolding a b cands o1 prod.case option.case
      by (rule matches_bind [OF loop]) (rule node_end_matches [OF _ h px])
  qed
qed

text \<open>Without a size limit every node deletes its sets; with one, those of a node at the limit are lost.\<close>

lemma SequentialRun_matches:
  assumes tight: "tight \<longrightarrow> max_clq_size c = -1"
  shows "runs_at tight (SequentialRun c thr n) (SequentialRun_mem c m thr n)"
proof (induction n)
  case (Suc n)
  show ?case
    unfolding runs_at_def
  proof (intro allI impI)
    fix R P X gg st p x me K
    assume ok: "mem_ok tight (K \<union> {p, x}) me" "given_sets me \<subseteq> K" "K \<inter> {p, x} = {}" and px: "p \<noteq> x" and al: "aligned st me"
    show "matches (ran_at tight K me) (SequentialRun c thr (Suc n) R P X gg st)
      (SequentialRun_mem c m thr (Suc n) R (p, P) (x, X) gg (st, me))"
      unfolding SequentialRun.simps SequentialRun_mem.simps
      by (rule matches_bind [OF StartTask_matches [OF at_work_start [OF ok] px al]])
        (rule node_rest_matches [OF tight px Suc.IH])
  qed
qed (simp add: runs_at_def)

end
