(* ===== verification/Enumeration.thy ===== *)
theory Enumeration
  imports BKTask
begin

text \<open>
  Correctness of the enumeration inside one task: what a call adds to the histogram is what the
  abstract recursion reports, whichever build, option or worker thread it runs with.
\<close>

declare length_to_list [simp del]

section \<open>Reports under a size limit\<close>

definition within :: "config \<Rightarrow> nat \<Rightarrow> bool" where
  "within c k \<longleftrightarrow> max_clq_size c = -1 \<or> int k \<le> max 1 (max_clq_size c mod 2 ^ 64)"

locale key_graph = ugraph adj for adj :: "key \<Rightarrow> key set"
begin

definition counted :: "config \<Rightarrow> nat \<Rightarrow> key set \<Rightarrow> key set \<Rightarrow> nat \<Rightarrow> nat" where
  "counted c r P X k = (if within c k then report r P X k else 0)"

fun counted_branches :: "config \<Rightarrow> nat \<Rightarrow> key set \<Rightarrow> key set \<Rightarrow> key list \<Rightarrow> nat \<Rightarrow> nat" where
  "counted_branches c r P X [] k = 0"
| "counted_branches c r P X (v # vs) k =
     counted c (Suc r) (P \<inter> adj v) (X \<inter> adj v) k + counted_branches c r (P - {v}) (insert v X) vs k"

lemma counted_branches_eq:
  "counted_branches c r P X vs k = (if within c k then branches r P X vs k else 0)"
  by (induction vs arbitrary: P X) (simp_all add: counted_def)

lemma counted_branches_snoc:
  "counted_branches c r P X (vs @ [v]) k = counted_branches c r P X vs k +
     counted c (Suc r) ((P - set vs) \<inter> adj v) ((X \<union> set vs) \<inter> adj v) k"
proof (induction vs arbitrary: P X)
  case (Cons w vs)
  have "P - {w} - set vs = P - set (w # vs)" "insert w X \<union> set vs = X \<union> set (w # vs)" by auto
  with Cons show ?case by simp
qed simp

lemma counted_by_pivot:
  assumes "finite P" and "u \<in> P \<union> X" and "distinct vs" and "set vs = P - adj u"
  shows "counted c r P X k = counted_branches c r P X vs k"
  using report_by_pivot [OF assms] by (simp add: counted_def counted_branches_eq)

lemma counted_leaf:
  assumes "within c r"
  shows "counted c r {} X k = (if X = {} \<and> r = k then 1 else 0)"
  using assms by (auto simp: counted_def report_leaf)

text \<open>Where the size limit stops the recursion, everything still below it is too large to count.\<close>

lemma counted_at_limit:
  assumes "finite P" and "P \<noteq> {}" and "1 \<le> r"
    and "max_clq_size c \<noteq> -1" and "max_clq_size c mod 2 ^ 64 \<le> int r"
  shows "counted c r P X k = 0"
proof (cases "within c k")
  case True
  then have "k \<le> r" using assms(3-5) by (simp add: within_def)
  then show ?thesis using report_large [OF assms(1,2)] by (simp add: counted_def)
qed (simp add: counted_def)

end

section \<open>Histograms and guards\<close>

definition hist_count :: "state \<Rightarrow> nat \<Rightarrow> nat \<Rightarrow> nat" where
  "hist_count st t k = (case pt_hist st t k of None \<Rightarrow> 0 | Some n \<Rightarrow> n)"

definition adds :: "nat \<Rightarrow> (nat \<Rightarrow> nat) \<Rightarrow> state \<Rightarrow> state \<Rightarrow> bool" where
  "adds thr f st st' \<longleftrightarrow> (\<forall>t k. hist_count st' t k = hist_count st t k + (if t = thr then f k else 0))"

lemma adds_nothing [simp]: "pt_hist st' = pt_hist st \<Longrightarrow> adds thr (\<lambda>_. 0) st st'"
  by (simp add: adds_def hist_count_def)

lemma adds_trans:
  "adds thr f st st1 \<Longrightarrow> adds thr g st1 st2 \<Longrightarrow> adds thr (\<lambda>k. f k + g k) st st2"
  by (simp add: adds_def)

lemma adds_cong:
  "adds thr f st st' \<Longrightarrow> pt_hist st1 = pt_hist st \<Longrightarrow> pt_hist st1' = pt_hist st' \<Longrightarrow> adds thr f st1 st1'"
  by (simp add: adds_def hist_count_def)

lemma count_clique_fields [simp]:
  "this (count_clique thr r st) = this st" "self (count_clique thr r st) = self st"
  "guards (count_clique thr r st) = guards st" "spawned (count_clique thr r st) = spawned st"
  by (simp_all add: count_clique_def Let_def)

lemma count_clique_adds: "adds thr (\<lambda>k. if r = k then 1 else 0) st (count_clique thr r st)"
  by (auto simp: adds_def hist_count_def count_clique_def Let_def split: option.splits)

text \<open>A guard pointer to the live guard of a graph, and guards that only changed at a pointer.\<close>

definition alive :: "guard_ptr \<Rightarrow> graph \<Rightarrow> int \<Rightarrow> graph_guard option list \<Rightarrow> bool" where
  "alive gg g n G \<longleftrightarrow> (\<exists>i gd. gg = Some i \<and> i < length G \<and> G ! i = Some gd \<and> guarded gd = g \<and> n \<le> ref_count gd)"

definition agrees :: "nat set \<Rightarrow> graph_guard option list \<Rightarrow> graph_guard option list \<Rightarrow> bool" where
  "agrees S G G' \<longleftrightarrow> length G \<le> length G' \<and> (\<forall>i < length G. i \<notin> S \<longrightarrow> G' ! i = G ! i)"

abbreviation at :: "guard_ptr \<Rightarrow> nat set" where
  "at gg \<equiv> {i. gg = Some i}"

lemma agrees_refl [simp]: "agrees S G G"
  by (simp add: agrees_def)

lemma agrees_trans: "agrees S G G1 \<Longrightarrow> agrees T G1 G2 \<Longrightarrow> T \<inter> {..<length G} \<subseteq> S \<Longrightarrow> agrees S G G2"
  unfolding agrees_def by (metis IntI lessThan_iff order_less_le_trans order_trans subsetD)

lemma agrees_mono: "agrees S G G' \<Longrightarrow> S \<subseteq> T \<Longrightarrow> agrees T G G'"
  by (auto simp: agrees_def)

lemma agrees_alive: "agrees S G G' \<Longrightarrow> alive gg g n G \<Longrightarrow> at gg \<inter> S = {} \<Longrightarrow> alive gg g n G'"
  by (fastforce simp: agrees_def alive_def)

lemma agrees_append [simp]: "agrees S G (G @ H)"
  by (simp add: agrees_def nth_append)

lemma agrees_update [simp]: "i \<in> S \<Longrightarrow> agrees S G (G[i := x])"
proof -
  assume "i \<in> S"
  then have "i \<noteq> j" if "j \<notin> S" for j using that by auto
  then show ?thesis by (simp add: agrees_def)
qed

lemma alive_le: "alive gg g n G \<Longrightarrow> m \<le> n \<Longrightarrow> alive gg g m G"
  by (auto simp: alive_def)

lemma deref_alive:
  assumes "alive gg g n (guards st)"
  obtains gd where "deref_guard gg st = Inr gd" and "guarded gd = g" and "n \<le> ref_count gd"
  using assms by (auto simp: alive_def deref_guard_def)

text \<open>At least all but \<open>d\<close> references remain.\<close>

definition keeps :: "int \<Rightarrow> guard_ptr \<Rightarrow> graph_guard option list \<Rightarrow> graph_guard option list \<Rightarrow> bool" where
  "keeps d gg G G' \<longleftrightarrow> (\<forall>g n. d < n \<longrightarrow> alive gg g n G \<longrightarrow> alive gg g (n - d) G')"

lemma keepsD: "keeps d gg G G' \<Longrightarrow> alive gg g n G \<Longrightarrow> d < n \<Longrightarrow> alive gg g (n - d) G'"
  by (simp add: keeps_def)

lemma keeps_refl [simp]: "0 \<le> d \<Longrightarrow> keeps d gg G G"
  by (auto simp: keeps_def elim: alive_le)

lemma keeps_trans:
  assumes "keeps d gg G G1" and "keeps d' gg G1 G2" and "0 \<le> d'"
  shows "keeps (d + d') gg G G2"
  unfolding keeps_def
proof (intro allI impI)
  fix g n assume n: "d + d' < n" and "alive gg g n G"
  with assms(1,3) have "alive gg g (n - d) G1" by (simp add: keeps_def)
  with assms(2) n have "alive gg g (n - d - d') G2" by (simp add: keeps_def)
  then show "alive gg g (n - (d + d')) G2" by (simp add: diff_diff_eq)
qed

lemma keeps_mono: "keeps d gg G G' \<Longrightarrow> d \<le> d' \<Longrightarrow> keeps d' gg G G'"
  unfolding keeps_def using alive_le by (metis diff_left_mono order_le_less_trans)

lemma keeps_agrees: "agrees S G G' \<Longrightarrow> 0 \<le> d \<Longrightarrow> S \<inter> {..<length G} \<inter> at gg = {} \<Longrightarrow> keeps d gg G G'"
  by (fastforce simp: keeps_def alive_def agrees_def)

lemma inc_alive:
  assumes "alive gg g n (guards st)"
  shows "\<exists>G. inc_graph_ref_count gg st = Inr (st\<lparr>guards := G\<rparr>) \<and> keeps (- 1) gg (guards st) G \<and>
    agrees (at gg) (guards st) G"
  using assms by (auto simp: alive_def keeps_def inc_graph_ref_count_def deref_guard_def put_guard_def)

lemma dec_alive:
  assumes "alive gg g n (guards st)"
  shows "\<exists>gg' G. dec_graph_ref_count gg st = Inr (gg', st\<lparr>guards := G\<rparr>) \<and> agrees (at gg) (guards st) G \<and>
    keeps 1 gg (guards st) G \<and> (2 \<le> n \<longrightarrow> gg' = gg) \<and> (gg' = gg \<or> gg' = None)"
proof -
  obtain i gd where gg: "gg = Some i" and i: "i < length (guards st)" "guards st ! i = Some gd"
    "guarded gd = g" "n \<le> ref_count gd" using assms by (auto simp: alive_def)
  let ?gd = "gd\<lparr>ref_count := ref_count gd - 1\<rparr>"
  have run: "dec_graph_ref_count gg st = (if ref_count ?gd \<le> 0
      then Inr (None, st\<lparr>guards := (guards st)[i := None]\<rparr>)
      else Inr (gg, st\<lparr>guards := (guards st)[i := Some ?gd]\<rparr>))"
    using gg i by (simp add: dec_graph_ref_count_def deref_guard_def put_guard_def Let_def)
  show ?thesis
  proof (cases "ref_count ?gd \<le> 0")
    case True
    have "\<not> 2 \<le> n" using True i(4) by simp
    moreover have "keeps 1 gg (guards st) ((guards st)[i := None])"
      using True gg i by (auto simp: keeps_def alive_def)
    ultimately show ?thesis using True run gg by (auto intro!: exI [of _ "(guards st)[i := None]"])
  next
    case False
    have "keeps 1 gg (guards st) ((guards st)[i := Some ?gd])" using gg i by (auto simp: keeps_def alive_def)
    with False run gg show ?thesis by (auto intro!: exI [of _ "(guards st)[i := Some ?gd]"])
  qed
qed

lemma new_guard_alive:
  assumes "new_guard g st = (gg, st')"
  shows "st' = st\<lparr>guards := guards st @ [Some \<lparr>guarded = g, ref_count = 1\<rparr>]\<rparr>"
    and "alive gg g 1 (guards st')" and "at gg \<inter> {..<length (guards st)} = {}"
  using assms by (auto simp: new_guard_def alive_def)

section \<open>Starting a node\<close>

text \<open>
  When a call makes a graph of its own, and when it gives up a reference of the guard it was
  called with.  Where the pivot is taken from the graph, the graph must be the call's own.
\<close>

definition creates :: "config \<Rightarrow> state \<Rightarrow> bool" where
  "creates c st \<longleftrightarrow> subgraphBased c = 1 \<and> is_root_sg st \<or>
     subgraphBased c = 2 \<and> taskSpawnCnt (this st) = 0 \<and> NewGraph (this st) \<or> subgraphBased c = 3"

definition drops :: "config \<Rightarrow> state \<Rightarrow> int" where
  "drops c st =
     (if (subgraphBased c = 3 \<or> subgraphBased c = 2 \<and> taskSpawnCnt (this st) = 0) \<and> \<not> is_root_sg st then 1 else 0)"

definition ready :: "config \<Rightarrow> state \<Rightarrow> bool" where
  "ready c st \<longleftrightarrow> (NewGraph (this st) \<and> taskLevel (this st) = 0 \<longrightarrow> creates c st)"

lemma drops_nonneg [simp]: "0 \<le> drops c st"
  by (simp add: drops_def)

context key_graph
begin

text \<open>A node of the search tree that the state is ready for.\<close>

definition node :: "config \<Rightarrow> guard_ptr \<Rightarrow> ulist \<Rightarrow> simple_hash_set \<Rightarrow> simple_hash_set \<Rightarrow> graph_guard option list \<Rightarrow> bool" where
  "node c gg R P X G \<longleftrightarrow> library_ok (stdlib c) \<and> ul_inv R \<and> 1 \<le> length (to_list R) \<and>
     within c (length (to_list R)) \<and> list_set (target c) P \<and> list_set (target c) X \<and>
     contents P \<inter> contents X = {} \<and> card (contents P) + card (contents X) \<le> 2 ^ 28 \<and>
     (\<exists>g. alive gg g 1 G \<and> shows_adj (target c) adj g (contents P) (contents X))"

lemma choose_pivot_ends:
  assumes "list_set (target c) P" and "list_set (target c) X" and "contents P \<noteq> {}"
    and "shows_adj (target c) adj g (contents P) (contents X)"
    and "NewGraph (this st) \<and> taskLevel (this st) = 0 \<or> subgraphBased c = 3 \<Longrightarrow>
      pivot_node g \<in> contents P \<union> contents X"
  shows "ends (target c) e (choose_pivot c g P X st) (\<lambda>u. u \<in> contents P \<union> contents X)"
proof -
  have valid: "u \<noteq> -1" if "u \<in> contents P \<union> contents X" for u
    using that assms(1,2) iteration_valid by (auto simp: list_set_def valid_key_def)
  have "ends (target c) e (if NewGraph (this st) \<and> taskLevel (this st) = 0 \<or> subgraphBased c = 3
      then Inr (pivot_node g) else getPivot (target c) g P X) (\<lambda>u. u \<in> contents P \<union> contents X)"
    using assms(5) ends_mono [OF getPivot_ends [OF assms(1-4)]] by auto
  then show ?thesis
    unfolding choose_pivot_def by (rule ends_bind) (use valid in auto)
qed

lemma exclude_pivot:
  assumes P: "list_set bld P" and adj: "shows_adj bld adj g (contents P) X" and u: "u \<in> contents P \<union> X"
  shows "ends bld e (exclude bld P (getAdjacentNodes g u)) (\<lambda>r. \<exists>cand. r = Some cand \<and>
    list_set bld cand \<and> iter (elems cand) = None \<and> contents cand = contents P - adj u)"
proof -
  obtain s where s: "getAdjacentNodes g u = Some s" "hs_inv bld s" "isHashed s"
    and mem: "members s \<inter> contents P = adj u \<inter> contents P"
    by (rule shows_adjE [OF adj u]) (rule that)
  have "hs_inv bld P" "distinct (iteration P)" using P by (simp_all add: list_set_def)
  then show ?thesis
    unfolding s(1) by (rule_tac ends_mono [OF exclude_ends [OF _ s(2)]]) (use mem in \<open>auto simp: list_set_def\<close>)
qed

lemma intersect_vertex:
  assumes P: "list_set bld S" and adj: "shows_adj bld adj g P X" and v: "v \<in> P" and S: "contents S \<subseteq> P \<union> X"
  shows "ends bld e (intersect bld S (getAdjacentNodes g v)) (\<lambda>r. \<exists>novi. r = Some novi \<and>
    list_set bld novi \<and> contents novi = contents S \<inter> adj v)"
proof -
  have "v \<in> P \<union> X" using v by simp
  then obtain s where s: "getAdjacentNodes g v = Some s" "hs_inv bld s" "isHashed s"
    and mem: "members s \<inter> P = adj v \<inter> P" "v \<in> P \<Longrightarrow> members s \<inter> X = adj v \<inter> X"
    by (rule shows_adjE [OF adj]) (rule that)
  have "contents S \<inter> members s = contents S \<inter> adj v" using mem(1) mem(2) [OF v] S by blast
  moreover have "hs_inv bld S" "\<not> isHashed S" "distinct (iteration S)" using P by (simp_all add: list_set_def)
  ultimately show ?thesis
    unfolding s(1) by (rule_tac ends_mono [OF intersect_ends [OF _ _ s(2)]]) (auto simp: list_set_def)
qed

definition created ::
  "config \<Rightarrow> guard_ptr \<Rightarrow> state \<Rightarrow> guard_ptr \<Rightarrow> state \<Rightarrow> bool" where
  "created c gg st gg' st' \<longleftrightarrow>
     st' = st\<lparr>this := (this st)\<lparr>graphg := if creates c st \<and> subgraphBased c \<noteq> 3 then gg' else graphg (this st)\<rparr>,
              guards := guards st'\<rparr> \<and>
     agrees (at gg) (guards st) (guards st') \<and> keeps (drops c st) gg (guards st) (guards st') \<and>
     (if creates c st then at gg' \<inter> {..<length (guards st)} = {} else gg' = gg \<and> guards st' = guards st)"

text \<open>A reference that may be given up.\<close>

lemma give_up_if:
  assumes "alive gg g 1 (guards st)"
  obtains gg' G where "(if b then dec_graph_ref_count gg st else Inr (gg, st)) = Inr (gg', st\<lparr>guards := G\<rparr>)"
    "agrees (at gg) (guards st) G" "keeps (of_bool b) gg (guards st) G"
    "\<not> b \<Longrightarrow> G = guards st \<and> gg' = gg" "gg' = gg \<or> gg' = None"
proof (cases b)
  case True
  with dec_alive [OF assms] that show thesis by auto
next
  case False
  with that [of gg "guards st"] show thesis by simp
qed

text \<open>The new guard, after the reference to the old one has been given up.\<close>

lemma new_graph_ends:
  assumes nd: "node c gg R P X (guards st)" and cr: "creates c st"
    and S: "shows_adj (target c) adj S (contents P) (contents X)" "pivot_node S \<in> contents P \<union> contents X"
    and al: "alive gg g 1 (guards st)"
  shows "ends (target c) (host c) (case new_guard S st of (thisgg, st) \<Rightarrow>
      bind_result (if \<not> is_root_sg st \<and> subgraphBased c \<noteq> 1 then dec_graph_ref_count gg st else Inr (gg, st))
        (\<lambda>(_, st). Inr (thisgg, if subgraphBased c \<noteq> 3 then st\<lparr>this := (this st)\<lparr>graphg := thisgg\<rparr>\<rparr> else st)))
    (\<lambda>(gg', st'). node c gg' R P X (guards st') \<and>
      (\<exists>g. alive gg' g 1 (guards st') \<and> shows_adj (target c) adj g (contents P) (contents X) \<and>
        (creates c st \<longrightarrow> pivot_node g \<in> contents P \<union> contents X)) \<and> created c gg st gg' st')"
    (is "ends _ _ ?rest _")
proof -
  obtain gg1 st1 where ng: "new_guard S st = (gg1, st1)" by (cases "new_guard S st")
  note n = new_guard_alive [OF ng]
  let ?D = "\<not> is_root_sg st1 \<and> subgraphBased c \<noteq> 1"
  have "alive gg g 1 (guards st1)" using al n(1) by (auto simp: alive_def nth_append)
  then obtain gg2 G where d: "(if ?D then dec_graph_ref_count gg st1 else Inr (gg, st1)) = Inr (gg2, st1\<lparr>guards := G\<rparr>)"
    and G: "agrees (at gg) (guards st1) G" and k: "keeps (of_bool ?D) gg (guards st1) G"
    by (rule give_up_if [where b = ?D]) blast
  have "of_bool ?D = drops c st" using cr n(1) by (auto simp: drops_def creates_def is_root_sg_def)
  moreover have "keeps 0 gg (guards st) (guards st1)" using n(1) by (intro keeps_agrees [of "{}"]) simp_all
  ultimately have k: "keeps (drops c st) gg (guards st) G" using keeps_trans [OF _ k, of 0] by simp
  have "at gg1 \<inter> at gg = {}" using n(3) al by (auto simp: alive_def)
  then have a1: "alive gg1 S 1 G" using agrees_alive [OF G n(2)] by simp
  have "agrees (at gg) (guards st) (guards st1)" using n(1) by simp
  then have ag: "agrees (at gg) (guards st) G" using G by (rule agrees_trans) auto
  let ?st = "st\<lparr>this := (this st)\<lparr>graphg := if subgraphBased c \<noteq> 3 then gg1 else graphg (this st)\<rparr>, guards := G\<rparr>"
  have "node c gg1 R P X (guards ?st)" using nd a1 S by (auto simp: node_def)
  moreover have "created c gg st gg1 ?st" using cr ag k n(3) by (simp add: created_def)
  moreover have "?rest = Inr (gg1, ?st)"
    unfolding ng prod.case d bind_result_simps by (simp add: n(1))
  ultimately show ?thesis using a1 S by auto
qed

lemma create_graph_ends:
  assumes nd: "node c gg R P X (guards st)" and ne: "contents P \<noteq> {}"
  shows "ends (target c) (host c) (create_graph c P X gg st) (\<lambda>(gg', st'). node c gg' R P X (guards st') \<and>
    (\<exists>g. alive gg' g 1 (guards st') \<and> shows_adj (target c) adj g (contents P) (contents X) \<and>
      (creates c st \<longrightarrow> pivot_node g \<in> contents P \<union> contents X)) \<and> created c gg st gg' st')"
proof (cases "creates c st")
  case False
  then have "create_graph c P X gg st = Inr (gg, st)" by (simp only: create_graph_def creates_def if_False)
  with nd False show ?thesis by (auto simp: node_def created_def)
next
  case True
  obtain g where g: "alive gg g 1 (guards st)" "shows_adj (target c) adj g (contents P) (contents X)"
    using nd by (auto simp: node_def)
  obtain gd where gd: "deref_guard gg st = Inr gd" "guarded gd = g" using g(1) by (rule deref_alive)
  have sub: "ends (target c) (host c) (createHpxSubgraph (stdlib c) (target c) (host c) g P X) (\<lambda>S.
    shows_adj (target c) adj S (contents P) (contents X) \<and> pivot_node S \<in> contents P \<union> contents X)"
    using nd ne g(2) adj_sym
    by (intro ends_mono [OF createHpxSubgraph_ends]) (auto simp: node_def)
  have run: "create_graph c P X gg st =
    bind_result (createHpxSubgraph (stdlib c) (target c) (host c) g P X) (\<lambda>S. case new_guard S st of (thisgg, st) \<Rightarrow>
      bind_result (if \<not> is_root_sg st \<and> subgraphBased c \<noteq> 1 then dec_graph_ref_count gg st else Inr (gg, st))
        (\<lambda>(_, st). Inr (thisgg, if subgraphBased c \<noteq> 3 then st\<lparr>this := (this st)\<lparr>graphg := thisgg\<rparr>\<rparr> else st)))"
    unfolding create_graph_def creates_def [symmetric] if_P [OF True] gd(1) bind_result_simps gd(2) Let_def
    by (simp add: case_prod_unfold)
  show ?thesis
    unfolding run by (rule ends_bind [OF sub]) (use new_graph_ends [OF nd True _ _ g(1)] in blast)
qed

text \<open>
  What \<open>StartTask\<close> does: at a leaf or at the size limit it counts what the node has to count;
  else it picks the candidates outside the neighbourhood of some vertex.
\<close>

definition begun ::
  "config \<Rightarrow> nat \<Rightarrow> ulist \<Rightarrow> simple_hash_set \<Rightarrow> simple_hash_set \<Rightarrow> guard_ptr \<Rightarrow> state \<Rightarrow>
    simple_hash_set option option \<times> guard_ptr \<times> state \<Rightarrow> bool" where
  "begun c thr R P X gg st = (\<lambda>(cand, gg', st').
     case cand of
       None \<Rightarrow>
         st' = st\<lparr>this := (this st)\<lparr>NewGraph := NewGraph (this st) \<and> \<not> (contents P = {} \<and> taskSpawnCnt (this st) = 0)\<rparr>,
                  guards := guards st', pt_hist := pt_hist st'\<rparr> \<and>
         agrees (at gg) (guards st) (guards st') \<and> keeps (drops c st) gg (guards st) (guards st') \<and>
         (drops c st = 0 \<longrightarrow> guards st' = guards st \<and> gg' = gg) \<and> (gg' = gg \<or> gg' = None) \<and>
         adds thr (counted c (length (to_list R)) (contents P) (contents X)) st st' \<and>
         (contents P = {} \<or> size_limit_reached c R)
     | Some None \<Rightarrow> False
     | Some (Some cand) \<Rightarrow>
         created c gg st gg' st' \<and> contents P \<noteq> {} \<and> within c (Suc (length (to_list R))) \<and>
         list_set (target c) cand \<and> iter (elems cand) = None \<and> (\<exists>u \<in> contents P \<union> contents X. contents cand = contents P - adj u) \<and>
         node c gg' R P X (guards st'))"

lemma size_limit_reached_eq:
  "ul_inv R \<Longrightarrow> size_limit_reached c R \<longleftrightarrow>
    max_clq_size c \<noteq> -1 \<and> max_clq_size c mod 2 ^ 64 \<le> int (length (to_list R))"
  using ul_size_correct [of R] by (simp add: size_limit_reached_def)

lemma node_sets:
  assumes "node c gg R P X G"
  shows "hs_empty P \<longleftrightarrow> contents P = {}" and "hs_empty X \<longleftrightarrow> contents X = {}" and "ul_size R = length (to_list R)"
proof -
  from assms have "list_set (target c) P" "list_set (target c) X" "ul_inv R" by (simp_all add: node_def)
  then show "hs_empty P \<longleftrightarrow> contents P = {}" "hs_empty X \<longleftrightarrow> contents X = {}" "ul_size R = length (to_list R)"
    using list_set_empty ul_size_correct by blast+
qed

text \<open>A leaf, where a clique may be counted.\<close>

lemma leaf_adds:
  assumes nd: "node c gg R P X G" and leaf: "contents P = {}"
  shows "adds thr (counted c (length (to_list R)) (contents P) (contents X)) st
    (if hs_empty X then count_clique thr (ul_size R) st else st)"
proof -
  have "within c (length (to_list R))" using nd by (simp add: node_def)
  from counted_leaf [OF this] have "counted c (length (to_list R)) (contents P) (contents X) =
    (\<lambda>k. if contents X = {} \<and> length (to_list R) = k then 1 else 0)"
    using leaf by auto
  then show ?thesis
    using count_clique_adds [of thr "length (to_list R)" st] adds_nothing [of st st thr]
    by (simp add: node_sets [OF nd])
qed

lemma leaf_ends:
  assumes nd: "node c gg R P X (guards st)" and leaf: "contents P = {}"
  shows "ends (target c) (host c) (StartTask c thr R P X gg st) (begun c thr R P X gg st)"
proof -
  define st1 where "st1 = (if hs_empty X then count_clique thr (ul_size R) st else st)"
  obtain H where st1: "st1 = st\<lparr>pt_hist := H\<rparr>"
    by (rule that [of "pt_hist st1"]) (simp add: st1_def count_clique_def Let_def)
  let ?D = "(subgraphBased c = 3 \<or> subgraphBased c = 2 \<and> taskSpawnCnt (this st1) = 0) \<and> \<not> is_root_sg st1"
  have D: "of_bool ?D = drops c st" by (simp add: drops_def st1 is_root_sg_def)
  obtain g where "alive gg g 1 (guards st1)" using nd by (auto simp: node_def st1)
  then obtain gg2 G where d: "(if ?D then dec_graph_ref_count gg st1 else Inr (gg, st1)) = Inr (gg2, st1\<lparr>guards := G\<rparr>)"
    and G: "agrees (at gg) (guards st1) G" "keeps (of_bool ?D) gg (guards st1) G"
      "\<not> ?D \<Longrightarrow> G = guards st1 \<and> gg2 = gg" "gg2 = gg \<or> gg2 = None"
    by (rule give_up_if [where b = ?D]) blast
  let ?st2 = "if taskSpawnCnt (this (st1\<lparr>guards := G\<rparr>)) = 0
    then st1\<lparr>guards := G, this := (this (st1\<lparr>guards := G\<rparr>))\<lparr>NewGraph := False\<rparr>\<rparr> else st1\<lparr>guards := G\<rparr>"
  have empty: "hs_empty P" using leaf node_sets(1) [OF nd] by simp
  have run: "StartTask c thr R P X gg st = Inr (None, gg2, ?st2)"
    unfolding StartTask_def if_P [OF empty] Let_def st1_def [symmetric] d bind_result_simps prod.case
    by simp
  have "?st2 = st\<lparr>this := (this st)\<lparr>NewGraph := NewGraph (this st) \<and> \<not> (contents P = {} \<and> taskSpawnCnt (this st) = 0)\<rparr>,
    guards := G, pt_hist := H\<rparr>" using leaf by (simp add: st1)
  moreover have "guards ?st2 = G" "pt_hist ?st2 = H" by (simp_all add: st1)
  moreover have "adds thr (counted c (length (to_list R)) (contents P) (contents X)) st ?st2"
    using leaf_adds [OF nd leaf, of thr st, folded st1_def] by (rule adds_cong) simp_all
  moreover have "agrees (at gg) (guards st) G" "keeps (drops c st) gg (guards st) G" "drops c st = 0 \<longrightarrow> G = guards st \<and> gg2 = gg"
    using G(1-3) D by (auto simp: st1)
  ultimately show ?thesis unfolding run using G(4) leaf by (simp only: ends_simps begun_def prod.case option.case) simp
qed

text \<open>An inner node, which picks its candidates.\<close>

lemma candidates_ends:
  assumes nd: "node c gg R P X (guards st)" and rd: "ready c st" and ne: "contents P \<noteq> {}"
    and w: "within c (Suc (length (to_list R)))" and nd': "node c gg' R P X (guards st')" and cr: "created c gg st gg' st'"
    and g: "alive gg' g 1 (guards st')" "shows_adj (target c) adj g (contents P) (contents X)"
      "creates c st \<longrightarrow> pivot_node g \<in> contents P \<union> contents X"
  shows "ends (target c) (host c) (bind_result (deref_guard gg' st') (\<lambda>gd.
      bind_result (choose_pivot c (guarded gd) P X st') (\<lambda>pivot.
      bind_result (exclude (target c) P (getAdjacentNodes (guarded gd) pivot)) (\<lambda>cand.
      Inr (Some cand, gg', st'))))) (begun c thr R P X gg st)"
proof -
  from nd have P: "list_set (target c) P" "list_set (target c) X" by (simp_all add: node_def)
  obtain gd where gd: "deref_guard gg' st' = Inr gd" "guarded gd = g" using g(1) by (rule deref_alive)
  obtain h G where "st' = st\<lparr>this := (this st)\<lparr>graphg := h\<rparr>, guards := G\<rparr>"
    using cr unfolding created_def by blast
  then have np: "NewGraph (this st') \<and> taskLevel (this st') = 0 \<or> subgraphBased c = 3 \<Longrightarrow> creates c st"
    using rd by (simp add: ready_def creates_def) blast
  have piv: "ends (target c) (host c) (choose_pivot c g P X st') (\<lambda>u. u \<in> contents P \<union> contents X)"
    using np g(3) by (intro choose_pivot_ends [OF P ne g(2)]) auto
  show ?thesis
    unfolding gd(1) bind_result_simps gd(2)
  proof (rule ends_bind [OF piv])
    fix u assume u: "u \<in> contents P \<union> contents X"
    show "ends (target c) (host c) (bind_result (exclude (target c) P (getAdjacentNodes g u))
        (\<lambda>cand. Inr (Some cand, gg', st'))) (begun c thr R P X gg st)"
      by (rule ends_bind [OF exclude_pivot [OF P(1) g(2) u]]) (use u w nd' cr ne in \<open>auto simp: begun_def\<close>)
  qed
qed

lemma StartTask_ends:
  assumes nd: "node c gg R P X (guards st)" and rd: "ready c st"
  shows "ends (target c) (host c) (StartTask c thr R P X gg st) (begun c thr R P X gg st)"
proof (cases "contents P = {}")
  case True
  with nd show ?thesis by (rule leaf_ends)
next
  case ne: False
  from nd have R: "ul_inv R" "1 \<le> length (to_list R)" "within c (length (to_list R))" by (simp_all add: node_def)
  have empty: "\<not> hs_empty P" using ne node_sets(1) [OF nd] by simp
  show ?thesis
  proof (cases "size_limit_reached c R")
    case True
    have "counted c (length (to_list R)) (contents P) (contents X) = (\<lambda>_. 0)"
      using counted_at_limit [of "contents P"] ne R True size_limit_reached_eq by auto
    with ne empty True show ?thesis by (simp add: StartTask_def begun_def)
  next
    case False
    have w: "within c (Suc (length (to_list R)))"
      using False R size_limit_reached_eq [of R c] by (auto simp: within_def)
    show ?thesis
      unfolding StartTask_def if_not_P [OF empty] if_not_P [OF False]
      by (rule ends_bind [OF create_graph_ends [OF nd ne]], elim case_prodE conjE exE, hypsubst, unfold prod.case)
        (rule candidates_ends [OF nd rd ne w])
  qed
qed

end

text \<open>The graphs of the program are instances.\<close>

interpretation KG: key_graph "abs_adj g" for g
  by unfold_locales

end
