(* ===== verification/Sequential.thy ===== *)
theory Sequential
  imports Enumeration
begin

text \<open>
  The sequential recursion: one round of the loop over the candidates, and by induction on the
  depth of the recursion, what a call of \<open>SequentialRun\<close> counts and what it does to the guards.
\<close>

section \<open>Starting a node of the recursion\<close>

text \<open>
  The calls that create no sub-graph for the task itself: those of the sequential recursion,
  and all calls when no sub-graphs are asked for.
\<close>

definition plain :: "config \<Rightarrow> state \<Rightarrow> bool" where
  "plain c st \<longleftrightarrow> subgraphBased c = 0 \<and> \<not> NewGraph (this st) \<or>
     0 < taskSpawnCnt (this st) \<and> 0 < taskLevel (this st)"

lemma plain_ready: "plain c st \<Longrightarrow> ready c st"
  by (auto simp: plain_def ready_def creates_def)

lemma plain_drops: "plain c st \<Longrightarrow> drops c st \<le> (if subgraphBased c = 3 then 1 else 0)"
  by (auto simp: plain_def drops_def)

lemma plain_creates: "plain c st \<Longrightarrow> creates c st \<longleftrightarrow> subgraphBased c = 3"
  by (auto simp: plain_def creates_def is_root_sg_def)

context key_graph
begin

text \<open>
  In these calls \<open>StartTask\<close> leaves the task's own fields alone: at a leaf or at the size limit it counts what the node
  has to count; else it picks the candidates outside the neighbourhood of some vertex.
\<close>

definition started ::
  "config \<Rightarrow> nat \<Rightarrow> ulist \<Rightarrow> simple_hash_set \<Rightarrow> simple_hash_set \<Rightarrow> guard_ptr \<Rightarrow> state \<Rightarrow>
    simple_hash_set option option \<times> guard_ptr \<times> state \<Rightarrow> bool" where
  "started c thr R P X gg st = (\<lambda>(cand, gg', st').
     st' = st\<lparr>guards := guards st', pt_hist := pt_hist st'\<rparr> \<and> agrees (at gg) (guards st) (guards st') \<and>
     keeps 1 gg (guards st) (guards st') \<and> (subgraphBased c \<noteq> 3 \<longrightarrow> guards st' = guards st) \<and>
     (case cand of
        None \<Rightarrow> adds thr (counted c (length (to_list R)) (contents P) (contents X)) st st'
      | Some None \<Rightarrow> False
      | Some (Some cand) \<Rightarrow>
          pt_hist st' = pt_hist st \<and> contents P \<noteq> {} \<and> within c (Suc (length (to_list R))) \<and>
          list_set (target c) cand \<and>
          (\<exists>u \<in> contents P \<union> contents X. contents cand = contents P - adj u) \<and> node c gg' R P X (guards st') \<and>
          (if subgraphBased c = 3 then at gg' \<inter> {..<length (guards st)} = {} else gg' = gg)))"

lemma StartTask_plain:
  assumes nd: "node c gg R P X (guards st)" and pl: "plain c st"
  shows "ends (target c) (host c) (StartTask c thr R P X gg st) (started c thr R P X gg st)"
proof (rule ends_mono [OF StartTask_ends [OF nd plain_ready [OF pl]]])
  fix s assume b: "begun c thr R P X gg st s"
  obtain cand gg' st' where s: "s = (cand, gg', st')" by (cases s)
  have kp: "keeps 1 gg (guards st) G" if "keeps (drops c st) gg (guards st) G" for G
    using keeps_mono [OF that, of 1] plain_drops [OF pl] by (auto split: if_splits)
  have ng: "taskSpawnCnt (this st) = 0 \<Longrightarrow> \<not> NewGraph (this st)" using pl by (auto simp: plain_def)
  show "started c thr R P X gg st s"
  proof (cases cand)
    case None
    obtain G H where st': "st' = st\<lparr>this := (this st)\<lparr>NewGraph := NewGraph (this st) \<and>
        \<not> (contents P = {} \<and> taskSpawnCnt (this st) = 0)\<rparr>, guards := G, pt_hist := H\<rparr>"
      using b unfolding s None begun_def prod.case option.case by blast
    have "(NewGraph (this st) \<and> \<not> (contents P = {} \<and> taskSpawnCnt (this st) = 0)) = NewGraph (this st)"
      using ng by blast
    then have "st' = st\<lparr>guards := guards st', pt_hist := pt_hist st'\<rparr>" by (simp only: st') simp
    moreover have "subgraphBased c \<noteq> 3 \<longrightarrow> drops c st = 0" 
      using plain_drops [OF pl] drops_nonneg [of c st] by (metis order_antisym)
    ultimately show ?thesis using b kp unfolding s None begun_def started_def prod.case option.case by blast
  next
    case (Some oc)
    with b s obtain cs where oc: "oc = Some cs" by (cases oc) (auto simp: begun_def)
    have cr: "created c gg st gg' st'" using b unfolding s Some oc begun_def prod.case option.case by blast
    obtain G where "st' = st\<lparr>this := (this st)\<lparr>graphg := if creates c st \<and> subgraphBased c \<noteq> 3 then gg' else graphg (this st)\<rparr>,
        guards := G\<rparr>" using cr unfolding created_def by blast
    then have "st' = st\<lparr>guards := guards st', pt_hist := pt_hist st'\<rparr>" "pt_hist st' = pt_hist st"
      using plain_creates [OF pl] by simp_all
    with b kp plain_creates [OF pl] show ?thesis
      unfolding s Some oc begun_def started_def created_def prod.case option.case by simp
  qed
qed

section \<open>The loop and the recursion\<close>

text \<open>What a part of the recursion does to the state: it may drop \<open>d\<close> references of the guard.\<close>

definition ran :: "config \<Rightarrow> nat \<Rightarrow> int \<Rightarrow> guard_ptr \<Rightarrow> (nat \<Rightarrow> nat) \<Rightarrow> state \<Rightarrow> state \<Rightarrow> bool" where
  "ran c thr d gg f st st' \<longleftrightarrow>
     (\<exists>n \<ge> taskSpawnCnt (this st). st' = st\<lparr>this := (this st)\<lparr>taskSpawnCnt := n\<rparr>, guards := guards st',
        pt_hist := pt_hist st'\<rparr>) \<and>
     agrees (at gg) (guards st) (guards st') \<and> keeps d gg (guards st) (guards st') \<and>
     (subgraphBased c \<noteq> 3 \<longrightarrow> guards st' = guards st) \<and> adds thr f st st'"

lemma ran_fields:
  assumes "ran c thr d gg f st st'"
  shows "taskSpawnCnt (this st) \<le> taskSpawnCnt (this st')" "taskLevel (this st') = taskLevel (this st)"
    "NewGraph (this st') = NewGraph (this st)" "graphg (this st') = graphg (this st)"
    "agrees (at gg) (guards st) (guards st')" "keeps d gg (guards st) (guards st')"
    "subgraphBased c \<noteq> 3 \<Longrightarrow> guards st' = guards st" "adds thr f st st'"
proof -
  from assms obtain n where n: "n \<ge> taskSpawnCnt (this st)"
    and st': "st' = st\<lparr>this := (this st)\<lparr>taskSpawnCnt := n\<rparr>, guards := guards st', pt_hist := pt_hist st'\<rparr>"
    by (auto simp: ran_def)
  show "taskSpawnCnt (this st) \<le> taskSpawnCnt (this st')" by (subst st') (simp add: n)
  show "taskLevel (this st') = taskLevel (this st)" "NewGraph (this st') = NewGraph (this st)"
    "graphg (this st') = graphg (this st)" by (subst st', simp)+
  show "agrees (at gg) (guards st) (guards st')" "keeps d gg (guards st) (guards st')"
    "subgraphBased c \<noteq> 3 \<Longrightarrow> guards st' = guards st" "adds thr f st st'" using assms by (auto simp: ran_def)
qed

lemma ran_nothing: "0 \<le> d \<Longrightarrow> ran c thr d gg (\<lambda>_. 0) st st"
  by (auto simp: ran_def intro!: exI [of _ "taskSpawnCnt (this st)"])

lemma ran_plain: "ran c thr d gg f st st' \<Longrightarrow> plain c st \<Longrightarrow> plain c st'"
  using ran_fields(1-3) [of c thr d gg f st st'] by (auto simp: plain_def)

lemma ran_state_trans:
  assumes "\<exists>n \<ge> taskSpawnCnt (this st). st1 = st\<lparr>this := (this st)\<lparr>taskSpawnCnt := n\<rparr>, guards := guards st1,
        pt_hist := pt_hist st1\<rparr>"
    and "\<exists>n \<ge> taskSpawnCnt (this st1). st2 = st1\<lparr>this := (this st1)\<lparr>taskSpawnCnt := n\<rparr>, guards := guards st2,
        pt_hist := pt_hist st2\<rparr>"
  shows "\<exists>n \<ge> taskSpawnCnt (this st). st2 = st\<lparr>this := (this st)\<lparr>taskSpawnCnt := n\<rparr>, guards := guards st2,
        pt_hist := pt_hist st2\<rparr>"
proof -
  obtain n where n: "n \<ge> taskSpawnCnt (this st)"
    and st1: "st1 = st\<lparr>this := (this st)\<lparr>taskSpawnCnt := n\<rparr>, guards := guards st1, pt_hist := pt_hist st1\<rparr>"
    using assms(1) by blast
  obtain m where m: "m \<ge> taskSpawnCnt (this st1)"
    and st2: "st2 = st1\<lparr>this := (this st1)\<lparr>taskSpawnCnt := m\<rparr>, guards := guards st2, pt_hist := pt_hist st2\<rparr>"
    using assms(2) by blast
  have t: "this st1 = (this st)\<lparr>taskSpawnCnt := n\<rparr>" by (subst st1) simp
  have "m \<ge> taskSpawnCnt (this st)" using m n t by simp
  moreover have "st2 = st\<lparr>this := (this st)\<lparr>taskSpawnCnt := m\<rparr>, guards := guards st2, pt_hist := pt_hist st2\<rparr>"
    by (subst st2, subst (2) st1) (simp add: t)
  ultimately show ?thesis by blast
qed

lemma ran_unchanged: "ran c thr d gg f st st' \<Longrightarrow> subgraphBased c \<noteq> 3 \<Longrightarrow> ran c thr 0 gg f st st'"
  by (auto simp: ran_def)

lemma ran_trans:
  assumes "ran c thr d gg f st st1" and "ran c thr d' gg f' st1 st2" and "0 \<le> d'"
  shows "ran c thr (d + d') gg (\<lambda>k. f k + f' k) st st2"
proof -
  have "agrees (at gg) (guards st) (guards st2)"
    using ran_fields(5) [OF assms(1)] ran_fields(5) [OF assms(2)] by (rule agrees_trans) auto
  then show ?thesis
    using assms ran_state_trans [of st st1 st2] keeps_trans [OF ran_fields(6) [OF assms(1)] ran_fields(6) [OF assms(2)]]
      adds_trans [of thr f st st1 f' st2] unfolding ran_def by simp
qed

text \<open>Sets change at the vertex that moves.\<close>

lemma move_vertex:
  assumes "list_set bld P" and "list_set bld X" and "v \<in> contents P" and "contents P \<inter> contents X = {}"
  shows "\<exists>X'. add_elem bld v X = Inr X' \<and> list_set bld X' \<and> contents X' = insert v (contents X)"
    and "list_set bld (del_elem bld v P)" and "contents (del_elem bld v P) = contents P - {v}"
    and "card (contents P - {v}) + card (insert v (contents X)) = card (contents P) + card (contents X)"
proof -
  have v: "valid_key v" "v \<notin> contents X"
    using iteration_valid [of bld P v] assms by (auto simp: list_set_def)
  have ul: "ul_inv (elems X)" and X: "hs_inv bld X" "\<not> isHashed X" "distinct (iteration X)"
    using assms(2) by (simp_all add: list_set_def hs_inv_def)
  let ?X = "X\<lparr>elems := push_back v (elems X)\<rparr>"
  have it: "iteration ?X = iteration X @ [v]" using X(2) ul by (simp add: iteration_def push_back_to_list)
  have "hs_inv bld ?X" using X v(1) ul by (simp add: hs_inv_def push_back_to_list)
  then have "list_set bld ?X" using X v(2) it by (simp add: list_set_def)
  moreover have "add_elem bld v X = Inr ?X" using X(2) by (simp add: add_elem_def)
  ultimately show "\<exists>X'. add_elem bld v X = Inr X' \<and> list_set bld X' \<and> contents X' = insert v (contents X)"
    using it by auto
  have P: "hs_inv bld P" "\<not> isHashed P" "distinct (iteration P)" using assms(1) by (simp_all add: list_set_def)
  note del = del_elem_correct [OF P(1,2) assms(3) P(3)]
  show "list_set bld (del_elem bld v P)" using del by (simp add: list_set_def)
  show "contents (del_elem bld v P) = contents P - {v}" by (rule del(4))
  show "card (contents P - {v}) + card (insert v (contents X)) = card (contents P) + card (contents X)"
    using card.remove [OF finite_set assms(3)] v(2) by simp
qed

text \<open>The nodes a node leads to: the branch of a candidate, and what is left of the node itself.\<close>

lemma node_branch:
  assumes nd: "node c gg R P X G" and v: "v \<in> contents P" and w: "within c (Suc (length (to_list R)))"
    and alv: "\<And>g. alive gg g 1 G \<Longrightarrow> alive gg g 1 G1"
    and P': "list_set (target c) P'" "contents P' = contents P \<inter> adj v"
    and X': "list_set (target c) X'" "contents X' = contents X \<inter> adj v"
    and R': "ul_inv R'" "to_list R' = to_list R @ [v]"
  shows "node c gg R' P' X' G1" and "card (contents P') < card (contents P)"
    and "card (contents P') + card (contents X') < card (contents P) + card (contents X)"
proof -
  from nd obtain g where g: "alive gg g 1 G" "shows_adj (target c) adj g (contents P) (contents X)"
    by (auto simp: node_def)
  have sub: "contents P' \<subseteq> contents P" "contents X' \<subseteq> contents P \<union> contents X" "contents X' \<subseteq> contents X"
    using P'(2) X'(2) by auto
  have "v \<notin> contents P'" using P'(2) adj_irrefl by simp
  then have "contents P' \<subset> contents P" using v sub(1) by blast
  then show less: "card (contents P') < card (contents P)" by (simp add: psubset_card_mono)
  have "card (contents X') \<le> card (contents X)" using sub(3) by (simp add: card_mono)
  then show small: "card (contents P') + card (contents X') < card (contents P) + card (contents X)"
    using less by simp
  have "shows_adj (target c) adj g (contents P') (contents X')" using shows_adj_mono [OF g(2) sub(1,2)] .
  moreover have "contents P' \<inter> contents X' = {}" using nd sub unfolding node_def by blast
  ultimately show "node c gg R' P' X' G1"
    using nd P'(1) X'(1) R' w small alv [OF g(1)] by (auto simp: node_def)
qed

lemma node_rest:
  assumes nd: "node c gg R P X G" and v: "v \<in> contents P"
    and alv: "\<And>g. alive gg g 1 G \<Longrightarrow> alive gg g 1 G1"
    and P': "list_set (target c) P'" "contents P' = contents P - {v}"
    and X': "list_set (target c) X'" "contents X' = insert v (contents X)"
    and R': "ul_inv R'" "to_list R' = to_list R"
    and card: "card (contents P - {v}) + card (insert v (contents X)) = card (contents P) + card (contents X)"
  shows "node c gg R' P' X' G1"
proof -
  from nd obtain g where g: "alive gg g 1 G" "shows_adj (target c) adj g (contents P) (contents X)"
    by (auto simp: node_def)
  have sub: "contents P' \<subseteq> contents P" "contents X' \<subseteq> contents P \<union> contents X" using P'(2) X'(2) v by auto
  have "shows_adj (target c) adj g (contents P') (contents X')" using shows_adj_mono [OF g(2) sub] .
  moreover have "contents P' \<inter> contents X' = {}" using nd P'(2) X'(2) unfolding node_def by blast
  ultimately show ?thesis using nd P' X' R' card alv [OF g(1)] by (auto simp: node_def)
qed

text \<open>
  The call of the sequential recursion that \<open>LoopIteration\<close> makes keeps the clique, drops at most
  one reference of the guard and counts what its node has to count.
\<close>

definition runs_node ::
  "config \<Rightarrow> nat \<Rightarrow> (ulist \<Rightarrow> simple_hash_set \<Rightarrow> simple_hash_set \<Rightarrow> guard_ptr \<Rightarrow> state \<Rightarrow> (ulist \<times> state) result) \<Rightarrow>
    ulist \<Rightarrow> simple_hash_set \<Rightarrow> simple_hash_set \<Rightarrow> guard_ptr \<Rightarrow> state \<Rightarrow> bool" where
  "runs_node c thr run R P X gg st \<longleftrightarrow> ends (target c) (host c) (run R P X gg st) (\<lambda>(R', st').
     ul_inv R' \<and> to_list R' = to_list R \<and>
     ran c thr 1 gg (counted c (length (to_list R)) (contents P) (contents X)) st st')"

definition iterated ::
  "config \<Rightarrow> nat \<Rightarrow> key \<Rightarrow> ulist \<Rightarrow> simple_hash_set \<Rightarrow> simple_hash_set \<Rightarrow> guard_ptr \<Rightarrow> state \<Rightarrow>
    ulist \<times> simple_hash_set \<times> simple_hash_set \<times> state \<Rightarrow> bool" where
  "iterated c thr v R P X gg st = (\<lambda>(R', P', X', st').
     node c gg R' P' X' (guards st') \<and> to_list R' = to_list R \<and> contents P' = contents P - {v} \<and>
     contents X' = insert v (contents X) \<and>
     ran c thr 0 gg (counted c (Suc (length (to_list R))) (contents P \<inter> adj v) (contents X \<inter> adj v)) st st')"

lemma enter_leave:
  assumes "ran c thr d gg f (st\<lparr>this := (this st)\<lparr>taskSpawnCnt := taskSpawnCnt (this st) + 1,
      taskLevel := taskLevel (this st) + 1\<rparr>, guards := G\<rparr>) st1"
    and "keeps e gg (guards st) G" "agrees (at gg) (guards st) G" "subgraphBased c \<noteq> 3 \<Longrightarrow> G = guards st"
    and "0 \<le> d"
  shows "ran c thr (e + d) gg f st (st1\<lparr>this := (this st1)\<lparr>taskLevel := taskLevel (this st1) - 1\<rparr>\<rparr>)"
proof -
  let ?st = "st\<lparr>this := (this st)\<lparr>taskSpawnCnt := taskSpawnCnt (this st) + 1,
      taskLevel := taskLevel (this st) + 1\<rparr>, guards := G\<rparr>"
  obtain n G1 H where n: "n \<ge> taskSpawnCnt (this ?st)"
    and st1: "st1 = ?st\<lparr>this := (this ?st)\<lparr>taskSpawnCnt := n\<rparr>, guards := G1, pt_hist := H\<rparr>"
    using assms(1) unfolding ran_def by blast
  let ?st1 = "st1\<lparr>this := (this st1)\<lparr>taskLevel := taskLevel (this st1) - 1\<rparr>\<rparr>"
  have "?st1 = st\<lparr>this := (this st)\<lparr>taskSpawnCnt := n\<rparr>, guards := guards ?st1, pt_hist := pt_hist ?st1\<rparr>"
    by (simp add: st1)
  moreover have "taskSpawnCnt (this st) \<le> n" using n by simp
  moreover have "agrees (at gg) (guards st) (guards ?st1)"
    using ran_fields(5) [OF assms(1)] assms(3) by (auto intro: agrees_trans [where T = "at gg"])
  moreover have "keeps (e + d) gg (guards st) (guards ?st1)"
    using keeps_trans [OF assms(2) _ assms(5)] ran_fields(6) [OF assms(1)] by simp
  moreover have "subgraphBased c \<noteq> 3 \<longrightarrow> guards ?st1 = guards st"
    using ran_fields(7) [OF assms(1)] assms(4) by simp
  moreover have "adds thr f st ?st1"
    using ran_fields(8) [OF assms(1)] by (rule adds_cong) simp_all
  ultimately show ?thesis unfolding ran_def by blast
qed

lemma take_reference:
  assumes "alive gg g n (guards st)"
  shows "\<exists>G. (if b then inc_graph_ref_count gg st else Inr st) = Inr (st\<lparr>guards := G\<rparr>) \<and>
    keeps (if b then -1 else 0) gg (guards st) G \<and> agrees (at gg) (guards st) G \<and> (\<not> b \<longrightarrow> G = guards st)"
  using inc_alive [OF assms] by (cases b) auto

lemma reference_taken:
  assumes "keeps (if b then -1 else 0) gg G G'" and "alive gg h 1 G"
  shows "alive gg h 1 G'"
  using keepsD [OF assms] alive_le [of gg h 2 G' 1] by (cases b) simp_all

lemma sequential_branch:
  assumes nd: "node c gg R P X (guards st)" and v: "v \<in> contents P" and w: "within c (Suc (length (to_list R)))"
    and P1: "list_set (target c) P1" "contents P1 = contents P \<inter> adj v"
    and X1: "list_set (target c) X1" "contents X1 = contents X \<inter> adj v"
    and P': "list_set (target c) P'" "contents P' = contents P - {v}"
    and X': "list_set (target c) X'" "contents X' = insert v (contents X)"
    and run: "\<And>st'. \<lbrakk>node c gg (push_back v R) P1 X1 (guards st'); 0 < taskSpawnCnt (this st'); 0 < taskLevel (this st')\<rbrakk>
      \<Longrightarrow> runs_node c thr run (push_back v R) P1 X1 gg st'"
  shows "ends (target c) (host c)
    (let st = st\<lparr>this := (this st)\<lparr>taskSpawnCnt := taskSpawnCnt (this st) + 1,
                                   taskLevel := taskLevel (this st) + 1\<rparr>\<rparr>;
         R = push_back v R
     in bind_result (if subgraphBased c = 3 then inc_graph_ref_count gg st else Inr st) (\<lambda>st.
        bind_result (run R P1 X1 gg st) (\<lambda>(R, st).
        Inr (None, pop_back R, P', X',
             st\<lparr>this := (this st)\<lparr>taskLevel := taskLevel (this st) - 1\<rparr>\<rparr>))))
    (\<lambda>(a, s'). a = (None :: main_task option) \<and> iterated c thr v R P X gg st s')"
proof -
  from nd have R: "ul_inv R" and disj: "contents P \<inter> contents X = {}"
    and PX: "list_set (target c) P" "list_set (target c) X" by (simp_all add: node_def)
  from nd obtain g where g: "alive gg g 1 (guards st)" by (auto simp: node_def)
  let ?R = "push_back v R"
  let ?st = "st\<lparr>this := (this st)\<lparr>taskSpawnCnt := taskSpawnCnt (this st) + 1,
      taskLevel := taskLevel (this st) + 1\<rparr>\<rparr>"
  let ?e = "if subgraphBased c = 3 then -1 else 0 :: int"
  have "alive gg g 1 (guards ?st)" using g by simp
  from take_reference [OF this, of "subgraphBased c = 3"] obtain G where
    inc: "(if subgraphBased c = 3 then inc_graph_ref_count gg ?st else Inr ?st) = Inr (?st\<lparr>guards := G\<rparr>)"
    and G: "keeps ?e gg (guards st) G" "agrees (at gg) (guards st) G" "subgraphBased c \<noteq> 3 \<Longrightarrow> G = guards st"
    by auto
  let ?st1 = "?st\<lparr>guards := G\<rparr>"
  have R1: "ul_inv ?R" "to_list ?R = to_list R @ [v]" using R push_back_to_list by simp_all
  note nb = node_branch [OF nd v w reference_taken [OF G(1)] P1 X1 R1]
  have "runs_node c thr run ?R P1 X1 gg ?st1" using nb(1) by (intro run) auto
  then have branch: "ends (target c) (host c) (run ?R P1 X1 gg ?st1) (\<lambda>(R', st').
      iterated c thr v R P X gg st (pop_back R', P', X',
        st'\<lparr>this := (this st')\<lparr>taskLevel := taskLevel (this st') - 1\<rparr>\<rparr>))"
    unfolding runs_node_def
  proof (rule ends_mono, elim case_prodE conjE, hypsubst, unfold prod.case)
    fix R' st'
    assume R': "ul_inv R'" "to_list R' = to_list ?R"
      and r: "ran c thr 1 gg (counted c (length (to_list ?R)) (contents P1) (contents X1)) ?st1 st'"
    let ?st' = "st'\<lparr>this := (this st')\<lparr>taskLevel := taskLevel (this st') - 1\<rparr>\<rparr>"
    have f: "counted c (length (to_list ?R)) (contents P1) (contents X1) =
      counted c (Suc (length (to_list R))) (contents P \<inter> adj v) (contents X \<inter> adj v)"
      using R1(2) P1(2) X1(2) by simp
    have "ran c thr (?e + 1) gg (counted c (length (to_list ?R)) (contents P1) (contents X1)) st ?st'"
      by (rule enter_leave [OF r G]) simp_all
    then have ran: "ran c thr 0 gg (counted c (length (to_list ?R)) (contents P1) (contents X1)) st ?st'"
      using ran_unchanged by (cases "subgraphBased c = 3") auto
    have ne: "to_list R' \<noteq> []" using R'(2) R1(2) by simp
    have R2: "ul_inv (pop_back R')" "to_list (pop_back R') = to_list R"
      using R' ne R1(2) pop_back_inv [OF R'(1) ne] pop_back_to_list [OF R'(1) ne] by simp_all
    have "alive gg h 1 (guards ?st')" if "alive gg h 1 (guards st)" for h
      using keepsD [OF ran_fields(6) [OF ran] that] by simp
    from node_rest [OF nd v this P' X' R2 move_vertex(4) [OF PX v disj]] ran R2(2) P'(2) X'(2) f
    show "iterated c thr v R P X gg st (pop_back R', P', X', ?st')"
      unfolding iterated_def by simp
  qed
  show ?thesis
    unfolding Let_def inc bind_result_simps by (rule ends_bind [OF branch]) auto
qed

text \<open>The child task takes the branch instead, with a reference of its own in modes 2 and 3.\<close>

definition child_made ::
  "config \<Rightarrow> key \<Rightarrow> ulist \<Rightarrow> simple_hash_set \<Rightarrow> simple_hash_set \<Rightarrow> guard_ptr \<Rightarrow> state \<Rightarrow> main_task \<Rightarrow>
    ulist \<times> simple_hash_set \<times> simple_hash_set \<times> state \<Rightarrow> bool" where
  "child_made c v R P X gg st a = (\<lambda>(R', P', X', st').
     R' = R \<and> node c gg R P' X' (guards st') \<and> contents P' = contents P - {v} \<and> contents X' = insert v (contents X) \<and>
     st' = st\<lparr>guards := guards st'\<rparr> \<and> agrees (at gg) (guards st) (guards st') \<and>
     keeps (if subgraphBased c > 1 then -1 else 0) gg (guards st) (guards st') \<and>
     (\<not> subgraphBased c > 1 \<longrightarrow> guards st' = guards st) \<and>
     (\<exists>Rc P1 X1. a = MainBKTask_child Rc P1 X1 gg (subgraphBased c > 1) (self st) \<and>
        to_list Rc = to_list R @ [v] \<and> contents P1 = contents P \<inter> adj v \<and> contents X1 = contents X \<inter> adj v \<and>
        node c gg Rc P1 X1 (guards st') \<and> PX_threshold c \<le> int (card (contents P1)) + int (card (contents X1))))"

lemma child_branch:
  assumes nd: "node c gg R P X (guards st)" and v: "v \<in> contents P" and w: "within c (Suc (length (to_list R)))"
    and P1: "list_set (target c) P1" "contents P1 = contents P \<inter> adj v"
    and X1: "list_set (target c) X1" "contents X1 = contents X \<inter> adj v"
    and P': "list_set (target c) P'" "contents P' = contents P - {v}"
    and X': "list_set (target c) X'" "contents X' = insert v (contents X)"
    and many: "PX_threshold c \<le> int (card (contents P1)) + int (card (contents X1))"
  shows "ends (target c) (host c)
    (let Rcpy = push_back v (UnrolledList_copy R);
         a = MainBKTask_child Rcpy P1 X1 gg (subgraphBased c > 1) (self st)
     in bind_result (if subgraphBased c > 1 then inc_graph_ref_count gg st else Inr st) (\<lambda>st.
        Inr (Some a, R, P', X', st)))
    (\<lambda>(a, s'). \<exists>t. a = Some t \<and> child_made c v R P X gg st t s')"
proof -
  from nd have R: "ul_inv R" and disj: "contents P \<inter> contents X = {}"
    and PX: "list_set (target c) P" "list_set (target c) X" by (simp_all add: node_def)
  from nd obtain g where g: "alive gg g 1 (guards st)" by (auto simp: node_def)
  let ?R = "push_back v (UnrolledList_copy R)" and ?b = "subgraphBased c > 1"
  from take_reference [OF g, of ?b] obtain G where
    inc: "(if ?b then inc_graph_ref_count gg st else Inr st) = Inr (st\<lparr>guards := G\<rparr>)"
    and G: "keeps (if ?b then -1 else 0) gg (guards st) G" "agrees (at gg) (guards st) G" "\<not> ?b \<longrightarrow> G = guards st"
    by blast
  have R1: "ul_inv ?R" "to_list ?R = to_list R @ [v]" using copy_correct [OF R] push_back_to_list by simp_all
  note nb = node_branch [OF nd v w reference_taken [OF G(1)] P1 X1 R1]
  note nr = node_rest [OF nd v reference_taken [OF G(1)] P' X' R refl move_vertex(4) [OF PX v disj]]
  have "child_made c v R P X gg st (MainBKTask_child ?R P1 X1 gg ?b (self st)) (R, P', X', st\<lparr>guards := G\<rparr>)"
    unfolding child_made_def using nb(1) nr G P1(2) X1(2) P'(2) X'(2) R1(2) many by auto
  then show ?thesis unfolding Let_def inc bind_result_simps by simp
qed

lemma LoopIteration_ends:
  assumes nd: "node c gg R P X (guards st)" and v: "v \<in> contents P" and w: "within c (Suc (length (to_list R)))"
    and run: "\<And>R' P' X' st'. \<lbrakk>node c gg R' P' X' (guards st'); 0 < taskSpawnCnt (this st'); 0 < taskLevel (this st');
      card (contents P') < card (contents P);
      int (card (contents P')) + int (card (contents X')) < PX_threshold c\<rbrakk>
      \<Longrightarrow> runs_node c thr run R' P' X' gg st'"
  shows "ends (target c) (host c) (LoopIteration c run v gg (R, P, X, st))
    (\<lambda>(a, s'). case a of None \<Rightarrow> iterated c thr v R P X gg st s' | Some t \<Rightarrow> child_made c v R P X gg st t s')"
proof -
  from nd have P: "list_set (target c) P" and X: "list_set (target c) X"
    and disj: "contents P \<inter> contents X = {}" by (simp_all add: node_def)
  from nd obtain g where g: "alive gg g 1 (guards st)" "shows_adj (target c) adj g (contents P) (contents X)"
    by (auto simp: node_def)
  obtain gd where gd: "deref_guard gg st = Inr gd" "guarded gd = g" using g(1) by (rule deref_alive)
  note move = move_vertex [OF P X v disj]
  from move(1) obtain X1 where X1: "add_elem (target c) v X = Inr X1" "list_set (target c) X1"
    "contents X1 = insert v (contents X)" by blast
  let ?P = "del_elem (target c) v P"
  have inter: "ends (target c) (host c) (intersect (target c) S (getAdjacentNodes g v)) (\<lambda>r. \<exists>novi. r = Some novi \<and>
      list_set (target c) novi \<and> contents novi = contents S \<inter> adj v)"
    if "S = P \<or> S = X" for S
    using that P X by (intro intersect_vertex [OF _ g(2) v]) auto
  show ?thesis
    unfolding LoopIteration_def prod.case gd(1) bind_result_simps gd(2)
  proof (rule ends_bind [OF inter], simp, elim exE conjE, hypsubst, rule ends_bind [OF inter], simp,
      elim exE conjE, hypsubst, unfold X1(1) bind_result_simps Let_def [of ?P] option.case)
    fix P' X'
    assume P': "list_set (target c) P'" "contents P' = contents P \<inter> adj v"
      and X': "list_set (target c) X'" "contents X' = contents X \<inter> adj v"
    have size: "int (hs_size P') + int (hs_size X') = int (card (contents P')) + int (card (contents X'))"
      using list_set_size [OF P'(1)] list_set_size [OF X'(1)] by simp
    have less: "card (contents P') < card (contents P)"
      using P'(2) v adj_irrefl by (intro psubset_card_mono) auto
    let ?goal = "\<lambda>r. ends (target c) (host c) r (\<lambda>(a, s'). case a of None \<Rightarrow> iterated c thr v R P X gg st s'
      | Some t \<Rightarrow> child_made c v R P X gg st t s')"
    show "?goal (if int (hs_size P') + int (hs_size X') < PX_threshold c then
           (let st = st\<lparr>this := (this st)\<lparr>taskSpawnCnt := taskSpawnCnt (this st) + 1,
                                          taskLevel := taskLevel (this st) + 1\<rparr>\<rparr>;
                R = push_back v R
            in bind_result (if subgraphBased c = 3 then inc_graph_ref_count gg st else Inr st) (\<lambda>st.
               bind_result (run R P' X' gg st) (\<lambda>(R, st).
               Inr (None, pop_back R, ?P, X1,
                    st\<lparr>this := (this st)\<lparr>taskLevel := taskLevel (this st) - 1\<rparr>\<rparr>))))
         else
           (let Rcpy = push_back v (UnrolledList_copy R);
                a = MainBKTask_child Rcpy P' X' gg (subgraphBased c > 1) (self st)
            in bind_result (if subgraphBased c > 1 then inc_graph_ref_count gg st else Inr st) (\<lambda>st.
               Inr (Some a, R, ?P, X1, st))))"
    proof (cases "int (hs_size P') + int (hs_size X') < PX_threshold c")
      case True
      show ?thesis
        unfolding if_P [OF True]
        by (rule ends_mono [OF sequential_branch [OF nd v w P' X' move(2,3) X1(2,3)]])
          (use run less True size in auto)
    next
      case False
      show ?thesis
        unfolding if_not_P [OF False]
        by (rule ends_mono [OF child_branch [OF nd v w P' X' move(2,3) X1(2,3)]]) (use False size in auto)
    qed
  qed
qed

text \<open>The loop over the candidates.\<close>

definition looped ::
  "config \<Rightarrow> nat \<Rightarrow> ulist \<Rightarrow> simple_hash_set \<Rightarrow> simple_hash_set \<Rightarrow> guard_ptr \<Rightarrow> state \<Rightarrow> key list \<Rightarrow>
    ulist \<times> simple_hash_set \<times> simple_hash_set \<times> state \<Rightarrow> bool" where
  "looped c thr R P X gg st vs = (\<lambda>(R', P', X', st').
     node c gg R' P' X' (guards st') \<and> to_list R' = to_list R \<and> contents P' = contents P - set vs \<and>
     contents X' = contents X \<union> set vs \<and>
     ran c thr 0 gg (counted_branches c (length (to_list R)) (contents P) (contents X) vs) st st')"

lemma looped_Nil: "node c gg R P X (guards st) \<Longrightarrow> looped c thr R P X gg st [] (R, P, X, st)"
proof -
  have "counted_branches c (length (to_list R)) (contents P) (contents X) [] = (\<lambda>_. 0)" by (simp add: fun_eq_iff)
  then show "node c gg R P X (guards st) \<Longrightarrow> looped c thr R P X gg st [] (R, P, X, st)" by (simp add: looped_def ran_nothing)
qed

lemma looped_snoc:
  assumes "looped c thr R P X gg st vs (R1, P1, X1, st1)" and "iterated c thr v R1 P1 X1 gg st1 s2"
  shows "looped c thr R P X gg st (vs @ [v]) s2"
proof -
  obtain R2 P2 X2 st2 where s2: "s2 = (R2, P2, X2, st2)" by (cases s2)
  have "ran c thr (0 + 0) gg (counted_branches c (length (to_list R)) (contents P) (contents X) (vs @ [v])) st st2"
    unfolding counted_branches_snoc using assms s2
    by (intro ran_trans [of c thr 0 gg _ st st1]) (auto simp: looped_def iterated_def)
  then show ?thesis using assms unfolding s2 by (auto simp: looped_def iterated_def)
qed

lemma no_child_below:
  assumes "int (card (contents P)) + int (card (contents X)) < PX_threshold c"
  shows "\<not> child_made c v R P X gg st t s"
proof
  assume "child_made c v R P X gg st t s"
  then obtain P1 X1 where "contents P1 = contents P \<inter> adj v" "contents X1 = contents X \<inter> adj v"
    and "PX_threshold c \<le> int (card (contents P1)) + int (card (contents X1))"
    by (cases s) (auto simp: child_made_def)
  moreover have "card (contents P \<inter> adj v) \<le> card (contents P)" "card (contents X \<inter> adj v) \<le> card (contents X)"
    by (simp_all add: card_mono)
  ultimately show False using assms by simp
qed

text \<open>One round of the loop, given what the calls of the recursion below do.\<close>

lemma round_sizes:
  assumes "finite P" and "V \<subseteq> P"
  shows "card (P - V) \<le> card P" and "card (P - V) + card (X \<union> V) \<le> card P + card X"
proof -
  have "card V \<le> card P" "card (P - V) = card P - card V" "card (X \<union> V) \<le> card X + card V"
    using assms by (simp_all add: card_mono card_Diff_subset finite_subset card_Un_le)
  then show "card (P - V) \<le> card P" "card (P - V) + card (X \<union> V) \<le> card P + card X" by linarith+
qed

lemma sequential_round:
  assumes L: "looped c thr R P X gg st vs s" and v: "v \<in> contents P" "v \<notin> set vs" and vs: "set vs \<subseteq> contents P"
    and w: "within c (Suc (length (to_list R)))"
    and small: "int (card (contents P)) + int (card (contents X)) < PX_threshold c"
    and run: "\<And>R' P' X' st'. \<lbrakk>node c gg R' P' X' (guards st'); plain c st'; card (contents P') < card (contents P);
      int (card (contents P')) + int (card (contents X')) < PX_threshold c\<rbrakk> \<Longrightarrow> runs_node c thr run R' P' X' gg st'"
  shows "ends (target c) (host c) (candidate_step c run gg v s) (looped c thr R P X gg st (vs @ [v]))"
proof -
  obtain R1 P1 X1 st1 where s: "s = (R1, P1, X1, st1)" by (cases s)
  have nd: "node c gg R1 P1 X1 (guards st1)" and R1: "to_list R1 = to_list R"
    and P1: "contents P1 = contents P - set vs" and X1: "contents X1 = contents X \<union> set vs"
    using L by (simp_all add: looped_def s)
  have v1: "v \<in> contents P1" using v P1 by simp
  note sizes = round_sizes(1) [OF finite_set vs] round_sizes(2) [OF finite_set vs, of "contents X"]
  have few: "int (card (contents P1)) + int (card (contents X1)) < PX_threshold c"
    using small sizes(2) unfolding P1 X1 by linarith
  have w1: "within c (Suc (length (to_list R1)))" using w R1 by simp
  have "ends (target c) (host c) (LoopIteration c run v gg (R1, P1, X1, st1))
    (\<lambda>(a, s'). case a of None \<Rightarrow> iterated c thr v R1 P1 X1 gg st1 s'
      | Some t \<Rightarrow> child_made c v R1 P1 X1 gg st1 t s')"
    using sizes(1) P1 by (intro LoopIteration_ends [OF nd v1 w1] run) (auto simp: plain_def)
  then show ?thesis
    unfolding candidate_step_def s
    by (rule ends_bind)
      (use looped_snoc [OF L [unfolded s]] no_child_below [OF few] in \<open>auto split: option.splits\<close>)
qed

lemma sequential_rounds:
  assumes nd: "node c gg R P X (guards st)" and cs: "hs_inv (target c) cs" "distinct (iteration cs)"
    and sub: "contents cs \<subseteq> contents P" and w: "within c (Suc (length (to_list R)))"
    and small: "int (card (contents P)) + int (card (contents X)) < PX_threshold c"
    and run: "\<And>R' P' X' st'. \<lbrakk>node c gg R' P' X' (guards st'); plain c st'; card (contents P') < card (contents P);
      int (card (contents P')) + int (card (contents X')) < PX_threshold c\<rbrakk> \<Longrightarrow> runs_node c thr run R' P' X' gg st'"
  shows "ends (target c) (host c) (hs_for_each_result (candidate_step c run gg) cs (R, P, X, st))
    (looped c thr R P X gg st (iteration cs))"
  unfolding hs_for_each_result_fold [OF cs(1)]
proof (rule ends_fold)
  show "looped c thr R P X gg st [] (R, P, X, st)" by (rule looped_Nil [OF nd])
next
  fix vs v s assume L: "looped c thr R P X gg st vs s" and "\<exists>zs. vs @ v # zs = iteration cs"
  then obtain zs where split: "iteration cs = vs @ v # zs" by metis
  then have "v \<in> contents P" "v \<notin> set vs" "set vs \<subseteq> contents P" using cs(2) sub by auto
  from sequential_round [OF L this w small run]
  show "ends (target c) (host c) (candidate_step c run gg v s) (looped c thr R P X gg st (vs @ [v]))" .
qed

text \<open>
  The end of a call: the reference of a sub-graph made for this node is dropped, which leaves the
  guard of the caller alone.
\<close>

definition finished ::
  "config \<Rightarrow> nat \<Rightarrow> ulist \<Rightarrow> simple_hash_set \<Rightarrow> simple_hash_set \<Rightarrow> guard_ptr \<Rightarrow> state \<Rightarrow> ulist \<times> state \<Rightarrow> bool" where
  "finished c thr R P X gg st = (\<lambda>(R', st'). ul_inv R' \<and> to_list R' = to_list R \<and>
     ran c thr 1 gg (counted c (length (to_list R)) (contents P) (contents X)) st st')"

lemma runs_node_finished:
  "runs_node c thr run R P X gg st \<longleftrightarrow> ends (target c) (host c) (run R P X gg st) (finished c thr R P X gg st)"
  by (simp add: runs_node_def finished_def)

lemma drop_subgraph:
  assumes nd: "node c gg1 R P X (guards st2)" and new: "at gg1 \<inter> {..<length (guards st)} = {}"
    and old: "at gg \<subseteq> {..<length (guards st)}"
    and ag: "agrees (at gg) (guards st) (guards st1)" and kp: "keeps 1 gg (guards st) (guards st1)"
    and ag2: "agrees (at gg1) (guards st1) (guards st2)"
  shows "\<exists>gg' G. dec_graph_ref_count gg1 st2 = Inr (gg', st2\<lparr>guards := G\<rparr>) \<and>
    agrees (at gg) (guards st) G \<and> keeps 1 gg (guards st) G"
proof -
  obtain h where "alive gg1 h 1 (guards st2)" using nd by (auto simp: node_def)
  from dec_alive [OF this] obtain gg' G where dec: "dec_graph_ref_count gg1 st2 = Inr (gg', st2\<lparr>guards := G\<rparr>)"
    and G: "agrees (at gg1) (guards st2) G" by blast
  have G1: "agrees (at gg1) (guards st1) G" using ag2 G by (rule agrees_trans) auto
  have "agrees (at gg) (guards st) G" using ag G1 by (rule agrees_trans) (use new in auto)
  moreover have "keeps 0 gg (guards st1) G" using new old by (intro keeps_agrees [OF G1]) auto
  from keeps_trans [OF kp this] have "keeps 1 gg (guards st) G" by simp
  ultimately show ?thesis using dec by blast
qed

lemma sequential_leave:
  assumes nd: "node c gg R P X (guards st)" and started: "started c thr R P X gg st (Some (Some cs), gg1, st1)"
    and cs: "distinct (iteration cs)" and L: "looped c thr R P X gg1 st1 (iteration cs) (R2, P2, X2, st2)"
  shows "ends (target c) (host c)
    (bind_result (if subgraphBased c = 3 then dec_graph_ref_count gg1 st2 else Inr (gg1, st2)) (\<lambda>(gg, st). Inr (R2, st)))
    (finished c thr R P X gg st)"
proof -
  let ?r = "length (to_list R)"
  have st1: "st1 = st\<lparr>guards := guards st1, pt_hist := pt_hist st1\<rparr>" "pt_hist st1 = pt_hist st"
    and ag: "agrees (at gg) (guards st) (guards st1)" and kp: "keeps 1 gg (guards st) (guards st1)"
    and same: "subgraphBased c \<noteq> 3 \<Longrightarrow> guards st1 = guards st"
    and new: "if subgraphBased c = 3 then at gg1 \<inter> {..<length (guards st)} = {} else gg1 = gg"
    using started by (auto simp: started_def)
  obtain u where u: "u \<in> contents P \<union> contents X" "contents cs = contents P - adj u"
    using started by (auto simp: started_def)
  have nd2: "node c gg1 R2 P2 X2 (guards st2)" and R2: "to_list R2 = to_list R"
    and r: "ran c thr 0 gg1 (counted_branches c ?r (contents P) (contents X) (iteration cs)) st1 st2"
    using L by (simp_all add: looped_def)
  have f: "counted_branches c ?r (contents P) (contents X) (iteration cs) = counted c ?r (contents P) (contents X)"
    using counted_by_pivot [OF finite_set u(1) cs u(2)] by (simp add: fun_eq_iff)
  have "\<exists>n \<ge> taskSpawnCnt (this st). st1 = st\<lparr>this := (this st)\<lparr>taskSpawnCnt := n\<rparr>, guards := guards st1,
      pt_hist := pt_hist st1\<rparr>"
    using st1(1) by (intro exI [of _ "taskSpawnCnt (this st)"]) simp
  with r have up: "\<exists>n \<ge> taskSpawnCnt (this st). st2 = st\<lparr>this := (this st)\<lparr>taskSpawnCnt := n\<rparr>,
      guards := guards st2, pt_hist := pt_hist st2\<rparr>"
    unfolding ran_def using ran_state_trans by blast
  have ad: "adds thr (counted c ?r (contents P) (contents X)) st st2"
    using ran_fields(8) [OF r] f st1(2) by (simp add: adds_def hist_count_def)
  show ?thesis
  proof (cases "subgraphBased c = 3")
    case False
    then have "guards st2 = guards st" using same ran_fields(7) [OF r] by simp
    then have "ran c thr 1 gg (counted c ?r (contents P) (contents X)) st st2" using up ad by (simp add: ran_def)
    with False R2 nd2 show ?thesis by (simp add: node_def finished_def)
  next
    case True
    have old: "at gg \<subseteq> {..<length (guards st)}" using nd by (auto simp: node_def alive_def)
    have "at gg1 \<inter> {..<length (guards st)} = {}" using new True by simp
    from drop_subgraph [OF nd2 this old ag kp ran_fields(5) [OF r]] obtain gg' G where
      dec: "dec_graph_ref_count gg1 st2 = Inr (gg', st2\<lparr>guards := G\<rparr>)"
      and G: "agrees (at gg) (guards st) G" "keeps 1 gg (guards st) G" by blast
    have up': "\<exists>n \<ge> taskSpawnCnt (this st). st2\<lparr>guards := G\<rparr> = st\<lparr>this := (this st)\<lparr>taskSpawnCnt := n\<rparr>,
      guards := guards (st2\<lparr>guards := G\<rparr>), pt_hist := pt_hist (st2\<lparr>guards := G\<rparr>)\<rparr>"
    proof -
      obtain n G2 H where "n \<ge> taskSpawnCnt (this st)"
        and e: "st2 = st\<lparr>this := (this st)\<lparr>taskSpawnCnt := n\<rparr>, guards := G2, pt_hist := H\<rparr>"
        using up by blast
      then show ?thesis by (intro exI [of _ n]) (simp add: e)
    qed
    have "adds thr (counted c ?r (contents P) (contents X)) st (st2\<lparr>guards := G\<rparr>)"
      using ad by (rule adds_cong) simp_all
    with up' G True have "ran c thr 1 gg (counted c ?r (contents P) (contents X)) st (st2\<lparr>guards := G\<rparr>)"
      unfolding ran_def by simp
    with True R2 nd2 dec show ?thesis by (simp add: node_def finished_def)
  qed
qed

lemma sequential_leaf:
  assumes nd: "node c gg R P X (guards st)" and started: "started c thr R P X gg st (None, gg1, st1)"
  shows "finished c thr R P X gg st (R, st1)"
proof -
  have st1: "st1 = st\<lparr>guards := guards st1, pt_hist := pt_hist st1\<rparr>" using started by (auto simp: started_def)
  have "\<exists>n \<ge> taskSpawnCnt (this st). st1 = st\<lparr>this := (this st)\<lparr>taskSpawnCnt := n\<rparr>, guards := guards st1,
        pt_hist := pt_hist st1\<rparr>"
    using st1 by (intro exI [of _ "taskSpawnCnt (this st)"]) simp
  then have "ran c thr 1 gg (counted c (length (to_list R)) (contents P) (contents X)) st st1"
    using started unfolding ran_def started_def prod.case option.case by blast
  then show ?thesis using nd by (simp add: node_def finished_def)
qed

text \<open>The recursion; the fuel is more than the vertices in \<open>P\<close>.\<close>

lemma SequentialRun_ends:
  assumes "node c gg R P X (guards st)" and "plain c st" and "card (contents P) < n"
    and "int (card (contents P)) + int (card (contents X)) < PX_threshold c"
  shows "runs_node c thr (SequentialRun c thr n) R P X gg st"
  using assms
proof (induction n arbitrary: R P X gg st)
  case (Suc n)
  note nd = Suc.prems(1) and pl = Suc.prems(2)
  show ?case
    unfolding runs_node_finished SequentialRun.simps
  proof (rule ends_bind [OF StartTask_plain [OF nd pl]])
    fix s assume s': "started c thr R P X gg st s"
    obtain cand gg1 st1 where s: "s = (cand, gg1, st1)" by (cases s)
    show "ends (target c) (host c) (case s of (cand, gg, st) \<Rightarrow>
       case cand of None \<Rightarrow> Inr (R, st)
       | Some None \<Rightarrow> Inl NullDereference
       | Some (Some cand) \<Rightarrow>
           bind_result (hs_for_each_result (candidate_step c (SequentialRun c thr n) gg) cand (R, P, X, st))
             (\<lambda>(R, P, X, st).
             bind_result (if subgraphBased c = 3 then dec_graph_ref_count gg st else Inr (gg, st)) (\<lambda>(gg, st).
             Inr (R, st)))) (finished c thr R P X gg st)"
    proof (cases cand)
      case None
      with sequential_leaf [OF nd] s' s show ?thesis by simp
    next
      case (Some oc)
      with s' s obtain cs where oc: "oc = Some cs" by (cases oc) (auto simp: started_def)
      note start = s' [unfolded s Some oc]
      then have c: "list_set (target c) cs" "contents cs \<subseteq> contents P" "within c (Suc (length (to_list R)))"
        "node c gg1 R P X (guards st1)" by (auto simp: started_def)
      then have cs: "hs_inv (target c) cs" "distinct (iteration cs)" by (simp_all add: list_set_def)
      have below: "runs_node c thr (SequentialRun c thr n) R' P' X' gg1 st'"
        if "node c gg1 R' P' X' (guards st')" "plain c st'" "card (contents P') < card (contents P)"
          "int (card (contents P')) + int (card (contents X')) < PX_threshold c" for R' P' X' st'
        using that Suc.prems(3) by (intro Suc.IH) auto
      show ?thesis
        unfolding s Some oc prod.case option.case
      proof (rule ends_bind [OF sequential_rounds [OF c(4) cs c(2,3) Suc.prems(4) below]])
        fix l assume "looped c thr R P X gg1 st1 (iteration cs) l"
        then show "ends (target c) (host c) (case l of (R, P, X, st) \<Rightarrow>
             bind_result (if subgraphBased c = 3 then dec_graph_ref_count gg1 st else Inr (gg1, st)) (\<lambda>(gg, st).
             Inr (R, st))) (finished c thr R P X gg st)"
          using sequential_leave [OF nd start cs(2)] by (cases l) simp
      qed
    qed
  qed
qed simp

end

end
