(* ===== verification/Roots.thy ===== *)
theory Roots
  imports Sequential
begin

text \<open>
  The sets a root task starts with: the later neighbours of its vertex in \<open>P\<close>, the earlier ones in
  \<open>X\<close>, for the order of the vertices that the options choose.
\<close>

section \<open>The order of the vertices\<close>

text \<open>
  The order as a number: the position, or the size of the adjacency set, ascending or descending,
  and then the vertex itself as a signed number.
\<close>

definition root_key :: "config \<Rightarrow> graph \<Rightarrow> key \<Rightarrow> int" where
  "root_key c g v =
     (if degeneracyOrd c then int (getNodePosition g v)
      else (if degreeOrd c then adj_size g v else - adj_size g v) * 2 ^ 32 + sint v)"

lemma sint_bounds: "- (2 ^ 31) \<le> sint (v :: key)" "sint (v :: key) < 2 ^ 31"
  using sint_greater_eq [of v] sint_less [of v] by simp_all

lemma lex_less:
  fixes a b x y :: int
  assumes "- (2 ^ 31) \<le> x" "x < 2 ^ 31" "- (2 ^ 31) \<le> y" "y < 2 ^ 31"
  shows "a * 2 ^ 32 + x < b * 2 ^ 32 + y \<longleftrightarrow> a < b \<or> a = b \<and> x < y"
proof -
  have "a * 2 ^ 32 + x < b * 2 ^ 32 + y" if "a + 1 \<le> b" "- (2 ^ 31) \<le> y" "x < 2 ^ 31" for a b x y :: int
    using that by simp
  from this [of a b y x] this [of b a x y] assms show ?thesis by fastforce
qed

lemma goes_to_P_key:
  assumes "v \<in> verts g" and "w \<in> verts g"
  shows "goes_to_P c g v w = Inr (root_key c g v < root_key c g w)"
proof (cases "degeneracyOrd c")
  case True
  then show ?thesis by (simp add: goes_to_P_def root_key_def)
next
  case False
  obtain a b where ab: "getAdjacentNodes g w = Some a" "getAdjacentNodes g v = Some b"
    using assms by (meson vertsE)
  have sz: "adj_size g w = int (hs_size a)" "adj_size g v = int (hs_size b)" by (simp_all add: adj_size_def ab)
  have l: "root_key c g v < root_key c g w \<longleftrightarrow>
    (if degreeOrd c then adj_size g v else - adj_size g v) < (if degreeOrd c then adj_size g w else - adj_size g w) \<or>
    (if degreeOrd c then adj_size g v else - adj_size g v) = (if degreeOrd c then adj_size g w else - adj_size g w) \<and>
      sint v < sint w"
    unfolding root_key_def if_not_P [OF False] by (rule lex_less) (simp_all only: sint_bounds)
  show ?thesis
    unfolding l using False by (auto simp: goes_to_P_def ab sz Let_def)
qed

text \<open>Different vertices have different keys; for the positions this is a matter of the graph.\<close>

definition ordered :: "config \<Rightarrow> graph \<Rightarrow> bool" where
  "ordered c g \<longleftrightarrow> (degeneracyOrd c \<longrightarrow> inj_on (getNodePosition g) (verts g))"

lemma root_key_inj:
  assumes "ordered c g"
  shows "inj_on (root_key c g) (verts g)"
proof (cases "degeneracyOrd c")
  case True
  then show ?thesis using assms by (simp add: ordered_def root_key_def inj_on_def)
next
  case False
  show ?thesis
  proof (rule inj_onI)
    fix v w assume "root_key c g v = root_key c g w"
    then have "\<not> root_key c g v < root_key c g w" "\<not> root_key c g w < root_key c g v" by simp_all
    then have "sint v = sint w"
      unfolding root_key_def if_not_P [OF False]
      by (simp only: lex_less [OF sint_bounds sint_bounds]) auto
    then show "v = w" by (rule signed_word_eqI)
  qed
qed

section \<open>The root sets\<close>

definition later :: "config \<Rightarrow> graph \<Rightarrow> key \<Rightarrow> key set" where
  "later c g v = {w \<in> abs_adj g v. root_key c g v < root_key c g w}"

definition earlier :: "config \<Rightarrow> graph \<Rightarrow> key \<Rightarrow> key set" where
  "earlier c g v = {w \<in> abs_adj g v. root_key c g w < root_key c g v}"

lemma list_set_new: "(USE_AVX512 bld \<Longrightarrow> USE_HOPSCOTCH bld) \<Longrightarrow> list_set bld create_set"
  using list_set_inv [of bld UnrolledList] by (simp add: list_set_def create_set_def)

lemma list_set_add:
  assumes "list_set bld X" and "valid_key v" and "v \<notin> contents X"
  shows "\<exists>X'. add_elem bld v X = Inr X' \<and> list_set bld X' \<and> contents X' = insert v (contents X)"
proof -
  have ul: "ul_inv (elems X)" and X: "hs_inv bld X" "\<not> isHashed X" "distinct (iteration X)"
    using assms(1) by (simp_all add: list_set_def hs_inv_def)
  let ?X = "X\<lparr>elems := push_back v (elems X)\<rparr>"
  have it: "iteration ?X = iteration X @ [v]" using X(2) ul by (simp add: iteration_def push_back_to_list)
  have "hs_inv bld ?X" using X assms(2) ul by (simp add: hs_inv_def push_back_to_list)
  then have "list_set bld ?X" using X assms(3) it by (simp add: list_set_def)
  moreover have "add_elem bld v X = Inr ?X" using X(2) by (simp add: add_elem_def)
  ultimately show ?thesis using it by auto
qed

lemma adjacency_set:
  assumes ok: "graph_ok bld g" and Q: "getAdjacentNodes g v = Some Q"
  shows "hs_inv bld Q" "set (iteration Q) = abs_adj g v" "distinct (iteration Q)" "hs_size Q = card (abs_adj g v)"
proof -
  show inv: "hs_inv bld Q" using ok Q by (auto simp: graph_ok_def)
  have hashed: "isHashed Q" using ok Q by (auto simp: graph_ok_def)
  have tok: "table_ok bld (hashed_elems Q)" using inv by (simp add: hs_inv_def)
  have mem: "members Q = abs_adj g v" using Q by (simp add: abs_adj_neighbours [OF ok] neighbours_def)
  show "set (iteration Q) = abs_adj g v"
    using table_keys_set [OF tok] hashed mem by (simp add: iteration_def members_def)
  show "distinct (iteration Q)"
    using tok table_keys_distinct [of bld "hashed_elems Q"] table_keys_set [OF tok] hashed
    by (auto simp: iteration_def table_ok_def)
  show "hs_size Q = card (abs_adj g v)"
    using tok num_of_keys_card [of bld "hashed_elems Q"] hashed mem by (auto simp: table_ok_def hs_size_def members_def)
qed

text \<open>The loop of \<open>create_root_sets\<close>: later neighbours go to \<open>P\<close>, earlier ones to \<open>X\<close>.\<close>

abbreviation root_step :: "config \<Rightarrow> graph \<Rightarrow> key \<Rightarrow> key \<Rightarrow> simple_hash_set \<times> simple_hash_set \<Rightarrow> (simple_hash_set \<times> simple_hash_set) result" where
  "root_step c g v \<equiv> \<lambda>vertex_name (P, X).
     bind_result (goes_to_P c g v vertex_name) (\<lambda>toP.
       if toP
       then bind_result (add_elem (target c) vertex_name P) (\<lambda>P. Inr (P, X))
       else bind_result (add_elem (target c) vertex_name X) (\<lambda>X. Inr (P, X)))"

lemma root_sets_loop:
  assumes bld: "target c = bld" and v: "v \<in> verts g" and valid: "\<And>w. w \<in> abs_adj g v \<Longrightarrow> valid_key w"
    and "set xs \<subseteq> abs_adj g v" "distinct xs" "set xs \<inter> (contents P \<union> contents X) = {}" "list_set bld P" "list_set bld X"
  shows "\<exists>P' X'. fold_result (root_step c g v) xs (P, X) = Inr (P', X') \<and> list_set bld P' \<and> list_set bld X' \<and>
    contents P' = contents P \<union> {w \<in> set xs. root_key c g v < root_key c g w} \<and>
    contents X' = contents X \<union> {w \<in> set xs. \<not> root_key c g v < root_key c g w}"
  using assms(4-)
proof (induction xs arbitrary: P X)
  case (Cons w xs)
  have w: "w \<in> verts g" using Cons.prems(1) G.adj_V by auto
  have val: "valid_key w" using valid Cons.prems(1) by auto
  show ?case
  proof (cases "root_key c g v < root_key c g w")
    case True
    obtain P1 where P1: "add_elem bld w P = Inr P1" "list_set bld P1" "contents P1 = insert w (contents P)"
      using list_set_add [OF Cons.prems(4) val] Cons.prems(3) by auto
    have "set xs \<inter> (contents P1 \<union> contents X) = {}" using P1(3) Cons.prems(2,3) by auto
    from Cons.IH [OF _ _ this P1(2) Cons.prems(5)] Cons.prems(1,2) obtain P' X' where
      "fold_result (root_step c g v) xs (P1, X) = Inr (P', X')" "list_set bld P'" "list_set bld X'"
      "contents P' = contents P1 \<union> {w \<in> set xs. root_key c g v < root_key c g w}"
      "contents X' = contents X \<union> {w \<in> set xs. \<not> root_key c g v < root_key c g w}" by auto
    then show ?thesis using True P1 by (auto simp: goes_to_P_key [OF v w] bld)
  next
    case False
    obtain X1 where X1: "add_elem bld w X = Inr X1" "list_set bld X1" "contents X1 = insert w (contents X)"
      using list_set_add [OF Cons.prems(5) val] Cons.prems(3) by auto
    have "set xs \<inter> (contents P \<union> contents X1) = {}" using X1(3) Cons.prems(2,3) by auto
    from Cons.IH [OF _ _ this Cons.prems(4) X1(2)] Cons.prems(1,2) obtain P' X' where
      "fold_result (root_step c g v) xs (P, X1) = Inr (P', X')" "list_set bld P'" "list_set bld X'"
      "contents P' = contents P \<union> {w \<in> set xs. root_key c g v < root_key c g w}"
      "contents X' = contents X1 \<union> {w \<in> set xs. \<not> root_key c g v < root_key c g w}" by auto
    then show ?thesis using False X1 by (auto simp: goes_to_P_key [OF v w] bld)
  qed
qed simp

lemma create_root_sets_correct:
  assumes ok: "graph_ok bld g" and bld: "target c = bld" and ord: "ordered c g" and v: "v \<in> verts g"
  shows "\<exists>P X. create_root_sets c g v = Inr (P, X) \<and> list_set bld P \<and> list_set bld X \<and>
    contents P = later c g v \<and> contents X = earlier c g v"
proof -
  obtain Q where Q: "getAdjacentNodes g v = Some Q" using v by (rule vertsE)
  note inv = adjacency_set(1) [OF ok Q] and mem = adjacency_set(2) [OF ok Q] and dist = adjacency_set(3) [OF ok Q]
  have tok: "table_ok bld (hashed_elems Q)" using inv by (simp add: hs_inv_def)
  have avx: "USE_AVX512 bld \<Longrightarrow> USE_HOPSCOTCH bld" using tok by (simp add: table_ok_def)
  have "valid_key w" if "w \<in> abs_adj g v" for w
    using iteration_valid [OF inv] mem that by auto
  from root_sets_loop [OF bld v this, of "iteration Q" create_set create_set] list_set_new [OF avx] mem dist obtain P X where
    PX: "fold_result (root_step c g v) (iteration Q) (create_set, create_set) = Inr (P, X)" "list_set bld P" "list_set bld X"
    "contents P = {w \<in> abs_adj g v. root_key c g v < root_key c g w}"
    "contents X = {w \<in> abs_adj g v. \<not> root_key c g v < root_key c g w}" by auto
  have "root_key c g w \<noteq> root_key c g v" if "w \<in> abs_adj g v" for w
  proof -
    have "w \<noteq> v" "w \<in> verts g" using that G.adj_irrefl [of v g] G.adj_V [of g v] by auto
    then show ?thesis using root_key_inj [OF ord] v by (auto simp: inj_on_def)
  qed
  then have "contents X = earlier c g v" unfolding PX(5) earlier_def by (auto simp: not_less order_le_less)
  with PX Q show ?thesis
    by (auto simp: create_root_sets_def hs_for_each_result_fold [OF inv] later_def)
qed

end
