(* ===== verification/Tasks.thy ===== *)
theory Tasks
  imports Roots
begin

text \<open>
  What one call of \<open>execute\<close> does to its task, in every sub-graph mode: the branches a task still has
  to count, its share in the guards, and that a call only moves these around.
\<close>

section \<open>Options the enumeration works with\<close>

text \<open>
  The sub-graph modes 0 to 3; mode 1 only with a size limit that lets the root tasks go on, since
  a root task stopped by the limit gives up a reference that it never took.
\<close>

definition sane :: "config \<Rightarrow> bool" where
  "sane c \<longleftrightarrow> 0 \<le> subgraphBased c \<and> subgraphBased c \<le> 3 \<and> (subgraphBased c = 1 \<longrightarrow> within c 2)"

text \<open>The graph as the reader leaves it.\<close>

definition input_ok :: "config \<Rightarrow> graph \<Rightarrow> bool" where
  "input_ok c g \<longleftrightarrow> library_ok (stdlib c) \<and> graph_ok (target c) g \<and> ordered c g \<and> card (verts g) \<le> 2 ^ 28"

section \<open>Tasks in order\<close>

definition remaining :: "simple_hash_set \<Rightarrow> key list" where
  "remaining s = drop (iter_pos (elems s)) (iteration s)"

definition rest_cands :: "main_task \<Rightarrow> key list" where
  "rest_cands t = (case cand_task t of None \<Rightarrow> [] | Some s \<Rightarrow> remaining s)"

text \<open>The cliques a task has still to count.\<close>

definition pending :: "config \<Rightarrow> graph \<Rightarrow> main_task \<Rightarrow> nat \<Rightarrow> nat" where
  "pending c g t k =
     (if isContinuation t then 0
      else if newTask t \<and> parent t = None
      then KG.counted g c 1 (later c g (new_vertex t)) (earlier c g (new_vertex t)) k
      else case (R_task t, P_task t, X_task t) of
        (Some R, Some P, Some X) \<Rightarrow>
          if newTask t then KG.counted g c (length (to_list R)) (contents P) (contents X) k
          else KG.counted_branches g c (length (to_list R)) (contents P) (contents X) (rest_cands t) k
      | _ \<Rightarrow> 0)"

text \<open>
  A task at rest: finished but for its continuation, or not begun, as a root or as a child, or
  between two candidates.
\<close>

definition in_progress :: "config \<Rightarrow> graph \<Rightarrow> graph_guard option list \<Rightarrow> main_task \<Rightarrow> bool" where
  "in_progress c g G t \<longleftrightarrow> (\<exists>R P X. R_task t = Some R \<and> P_task t = Some P \<and> X_task t = Some X \<and>
     KG.node g c (graphg t) R P X G \<and> (subgraphBased c \<noteq> 0 \<longrightarrow> graphg t \<noteq> Some 0) \<and>
     (if newTask t then taskSpawnCnt t = 0
      else within c (Suc (length (to_list R))) \<and> (\<exists>cs. cand_task t = Some cs \<and> list_set (target c) cs \<and>
        iter_inv (elems cs) \<and> set (remaining cs) \<subseteq> contents P)))"

definition makes_graph :: "config \<Rightarrow> main_task \<Rightarrow> bool" where
  "makes_graph c t \<longleftrightarrow> (if parent t = None then subgraphBased c \<noteq> 0 else subgraphBased c > 1)"

definition task_ok :: "config \<Rightarrow> graph \<Rightarrow> graph_guard option list \<Rightarrow> main_task \<Rightarrow> bool" where
  "task_ok c g G t \<longleftrightarrow>
     (NewGraph t \<longrightarrow> makes_graph c t) \<and>
     (if isContinuation t then
        subgraphBased c = 1 \<and> NewGraph t \<longrightarrow> graphg t \<noteq> Some 0 \<and> (\<exists>h. alive (graphg t) h 1 G)
      else
        NewGraph t = makes_graph c t \<and> taskLevel t = 0 \<and>
        (if newTask t \<and> parent t = None
         then taskSpawnCnt t = 0 \<and> new_vertex t \<in> verts g \<and> graphg t = Some 0 \<and> alive (Some 0) g 1 G
         else in_progress c g G t))"

lemma task_ok_marked: "task_ok c g G t \<Longrightarrow> \<not> isContinuation t \<Longrightarrow> NewGraph t = makes_graph c t"
  by (simp add: task_ok_def)

lemma in_progressE:
  assumes "in_progress c g G t"
  obtains R P X where "R_task t = Some R" "P_task t = Some P" "X_task t = Some X"
    "KG.node g c (graphg t) R P X G" "subgraphBased c \<noteq> 0 \<Longrightarrow> graphg t \<noteq> Some 0"
  using assms unfolding in_progress_def by blast

text \<open>The share of a task in the references of a guard other than that of the whole graph.\<close>

definition holds :: "config \<Rightarrow> main_task \<Rightarrow> nat \<Rightarrow> bool" where
  "holds c t i \<longleftrightarrow> i \<noteq> 0 \<and> graphg t = Some i \<and>
     (if subgraphBased c = 1 then parent t = None \<and> NewGraph t else subgraphBased c > 1 \<and> \<not> isContinuation t)"

definition share :: "config \<Rightarrow> main_task \<Rightarrow> guard_ptr \<Rightarrow> int" where
  "share c t gg = (case gg of None \<Rightarrow> 0 | Some i \<Rightarrow> of_bool (holds c t i))"

abbreviation given :: "config \<Rightarrow> main_task option \<Rightarrow> guard_ptr \<Rightarrow> int" where
  "given c a gg \<equiv> (case a of None \<Rightarrow> 0 | Some t \<Rightarrow> share c t gg)"

text \<open>
  One call of \<open>execute\<close>: the answer, the child and the new state.  What the task and the child have
  to count, with what the call counted, is what the task had to count before.
\<close>

definition conserves :: "config \<Rightarrow> graph \<Rightarrow> nat \<Rightarrow> state \<Rightarrow> main_task option \<Rightarrow> state \<Rightarrow> bool" where
  "conserves c g thr st a st' \<longleftrightarrow> (\<exists>f. adds thr f st st' \<and> (\<forall>k. f k + pending c g (this st') k +
     (case a of None \<Rightarrow> 0 | Some t \<Rightarrow> pending c g t k) = pending c g (this st) k))"

text \<open>
  The guard of the task loses at most the references the task gave up and did not pass to the
  child; the other guards stay.  A new guard has the references that the task and the child have.
\<close>

definition moves_references :: "config \<Rightarrow> state \<Rightarrow> main_task option \<Rightarrow> state \<Rightarrow> bool" where
  "moves_references c st a st' \<longleftrightarrow>
     (let gg = graphg (this st); gg' = graphg (this st') in
      agrees (at gg) (guards st) (guards st') \<and>
      keeps (share c (this st) gg - share c (this st') gg - given c a gg) gg (guards st) (guards st') \<and>
      (gg' \<noteq> gg \<longrightarrow> at gg' \<inter> {..<length (guards st)} = {} \<and>
        (let n = share c (this st') gg' + given c a gg' in 0 < n \<longrightarrow> (\<exists>h. alive gg' h n (guards st')))))"

text \<open>A bound on how often the task and its children will be executed.\<close>

definition weight :: "config \<Rightarrow> graph \<Rightarrow> main_task \<Rightarrow> nat" where
  "weight c g t =
     (if isContinuation t then 1
      else if newTask t \<and> parent t = None then 2 * 3 ^ card (later c g (new_vertex t)) + 1
      else case P_task t of None \<Rightarrow> 0 | Some P \<Rightarrow> 2 * 3 ^ card (contents P) + of_bool (newTask t))"

abbreviation given_weight :: "config \<Rightarrow> graph \<Rightarrow> main_task option \<Rightarrow> nat" where
  "given_weight c g a \<equiv> (case a of None \<Rightarrow> 0 | Some t \<Rightarrow> weight c g t)"

text \<open>
  Without sub-graphs of its own a task stays with its guard; and it keeps its mark as the maker of
  a graph, unless it is over at once.
\<close>

definition stays :: "config \<Rightarrow> state \<Rightarrow> main_task option \<Rightarrow> state \<Rightarrow> bool" where
  "stays c st a st' \<longleftrightarrow>
     (subgraphBased c = 0 \<or> subgraphBased c = 1 \<and> (\<not> newTask (this st) \<or> parent (this st) \<noteq> None) \<longrightarrow> graphg (this st') = graphg (this st)) \<and>
     (a \<noteq> None \<or> \<not> newTask (this st) \<longrightarrow> NewGraph (this st') = makes_graph c (this st'))"

definition advanced ::
  "config \<Rightarrow> graph \<Rightarrow> nat \<Rightarrow> state \<Rightarrow> recycle \<times> main_task option \<times> state \<Rightarrow> bool" where
  "advanced c g thr st = (\<lambda>(r, a, st').
     self st' = self st \<and> spawned st' = spawned st \<and> parent (this st') = parent (this st) \<and>
     (r = SafeContinuation \<and> isContinuation (this st') \<or>
      r = Reexecute \<and> \<not> isContinuation (this st') \<and> \<not> newTask (this st')) \<and>
     task_ok c g (guards st') (this st') \<and>
     (\<forall>t. a = Some t \<longrightarrow> task_ok c g (guards st') t \<and> newTask t \<and> \<not> isContinuation t \<and>
        parent t = Some (self st) \<and> graphg t = graphg (this st')) \<and>
     conserves c g thr st a st' \<and> moves_references c st a st' \<and> stays c st a st' \<and>
     weight c g (this st') + given_weight c g a < weight c g (this st))"

section \<open>The iterator over the candidates\<close>

lemma next_candidate:
  assumes cs: "list_set bld cs" "iter_inv (elems cs)"
  shows "remaining cs = [] \<Longrightarrow> hs_get_next cs = (-1, cs)"
    and "remaining cs = v # vs \<Longrightarrow> \<exists>cs'. hs_get_next cs = (v, cs') \<and> v \<noteq> -1 \<and> list_set bld cs' \<and>
      iter_inv (elems cs') \<and> remaining cs' = vs \<and> (hs_end_iter cs' \<longleftrightarrow> vs = [])"
proof -
  have lm: "\<not> isHashed cs" and it: "iteration cs = to_list (elems cs)" and ul: "ul_inv (elems cs)"
    using cs by (simp_all add: list_set_def iteration_def iter_inv_def)
  have le: "iter_pos (elems cs) \<le> length (to_list (elems cs))" using cs(2) by (simp add: iter_inv_def length_to_list)
  show "hs_get_next cs = (-1, cs)" if "remaining cs = []"
  proof -
    have "iter_pos (elems cs) = length (to_list (elems cs))" using that le it by (simp add: remaining_def)
    from get_next_end [OF cs(2) this] lm show ?thesis by (simp add: hs_get_next_def)
  qed
  show "\<exists>cs'. hs_get_next cs = (v, cs') \<and> v \<noteq> -1 \<and> list_set bld cs' \<and>
      iter_inv (elems cs') \<and> remaining cs' = vs \<and> (hs_end_iter cs' \<longleftrightarrow> vs = [])" if rest: "remaining cs = v # vs"
  proof -
    have less: "iter_pos (elems cs) < length (to_list (elems cs))"
      using rest it by (cases "iter_pos (elems cs) < length (to_list (elems cs))") (auto simp: remaining_def)
    obtain x l' where nx: "get_next (elems cs) = (x, l')" by (cases "get_next (elems cs)")
    note step = get_next_step [OF cs(2) less nx]
    let ?cs = "cs\<lparr>elems := l'\<rparr>"
    have hd: "to_list (elems cs) ! iter_pos (elems cs) = v" "drop (Suc (iter_pos (elems cs))) (to_list (elems cs)) = vs"
      using rest Cons_nth_drop_Suc [OF less] it by (auto simp: remaining_def)
    have it': "iteration ?cs = iteration cs" using step(4) lm it by (simp add: iteration_def)
    have "ul_inv l'" using step(2) by (simp add: iter_inv_def)
    then have ls: "list_set bld ?cs" using cs(1) step(4) it' by (simp add: list_set_def hs_inv_def)
    have r': "remaining ?cs = vs" using it' it hd(2) step(3) by (simp add: remaining_def)
    have "v \<in> set (iteration cs)" using hd(1) less it by auto
    then have "valid_key v" using iteration_valid cs(1) by (auto simp: list_set_def)
    moreover have "iter_pos l' \<le> length (to_list l')" using step(2) by (simp add: iter_inv_def length_to_list)
    then have "hs_end_iter ?cs \<longleftrightarrow> vs = []"
      using end_iter_correct [OF step(2)] r' it' it step(4) lm by (auto simp: hs_end_iter_def remaining_def)
    ultimately show ?thesis using nx step(1,2) hd(1) ls r' lm by (auto simp: hs_get_next_def)
  qed
qed

section \<open>The end of a task's loop\<close>

definition dropped :: "config \<Rightarrow> state \<Rightarrow> int" where
  "dropped c st = (if subgraphBased c = 3 \<or> subgraphBased c = 2 \<and> NewGraph (this st) then 1 else 0)"

lemma finish_loop_result:
  assumes "alive (graphg (this st)) h n (guards st)"
  shows "\<exists>gg' G. finish_loop c st = Inr (SafeContinuation, st\<lparr>this := (this st)\<lparr>P_task := None, X_task := None,
      cand_task := None, graphg := gg', isContinuation := True\<rparr>, guards := G\<rparr>) \<and>
    agrees (at (graphg (this st))) (guards st) G \<and> keeps (dropped c st) (graphg (this st)) (guards st) G \<and>
    (dropped c st = 0 \<longrightarrow> G = guards st \<and> gg' = graphg (this st)) \<and> (2 \<le> n \<longrightarrow> gg' = graphg (this st)) \<and>
    (gg' = graphg (this st) \<or> gg' = None)"
proof -
  let ?st = "set_this (\<lambda>t. t\<lparr>P_task := None, X_task := None, cand_task := None\<rparr>) st"
  have f: "guards ?st = guards st" "graphg (this ?st) = graphg (this st)" "NewGraph (this ?st) = NewGraph (this st)"
    by (simp_all add: set_this_def)
  show ?thesis
  proof (cases "dropped c st = 1")
    case True
    then have b: "subgraphBased c = 3 \<or> subgraphBased c = 2 \<and> NewGraph (this ?st)"
      by (simp add: dropped_def f split: if_splits)
    from assms have "alive (graphg (this st)) h n (guards ?st)" by (simp add: f)
    from dec_alive [OF this] obtain gg' G where d: "dec_graph_ref_count (graphg (this st)) ?st = Inr (gg', ?st\<lparr>guards := G\<rparr>)"
      "agrees (at (graphg (this st))) (guards st) G" "keeps 1 (graphg (this st)) (guards st) G"
      "2 \<le> n \<longrightarrow> gg' = graphg (this st)" unfolding f by blast
    moreover from d(1) have "gg' = graphg (this st) \<or> gg' = None"
      by (auto simp: dec_graph_ref_count_def Let_def split: if_splits)
    moreover have "finish_loop c st = Inr (SafeContinuation, set_this (\<lambda>t. t\<lparr>isContinuation := True\<rparr>)
        (set_this (\<lambda>t. t\<lparr>graphg := gg'\<rparr>) (?st\<lparr>guards := G\<rparr>)))"
      unfolding finish_loop_def Let_def if_P [OF b] by (simp only: f d(1) bind_result_simps prod.case)
    ultimately show ?thesis
      using True by (intro exI [of _ gg'] exI [of _ G]) (simp add: set_this_def)
  next
    case False
    then have b: "\<not> (subgraphBased c = 3 \<or> subgraphBased c = 2 \<and> NewGraph (this ?st))" and d: "dropped c st = 0"
      by (simp_all add: dropped_def f split: if_splits)
    have "finish_loop c st = Inr (SafeContinuation, set_this (\<lambda>t. t\<lparr>isContinuation := True\<rparr>) ?st)"
      unfolding finish_loop_def Let_def if_not_P [OF b] by (simp only: bind_result_simps)
    with d show ?thesis
      by (intro exI [of _ "graphg (this st)"] exI [of _ "guards st"]) (simp add: set_this_def)
  qed
qed

section \<open>Facts about tasks and guards\<close>

lemma node_mono:
  assumes "KG.node g c gg R P X G" and "\<And>h. alive gg h 1 G \<Longrightarrow> alive gg h 1 G'"
  shows "KG.node g c gg R P X G'"
  using assms unfolding KG.node_def by blast

lemma alive_same: "alive gg h n G \<Longrightarrow> alive gg h' m G \<Longrightarrow> h' = h"
  by (auto simp: alive_def)

lemma node_alive: "KG.node g c gg R P X G \<Longrightarrow> \<exists>h. alive gg h 1 G"
  by (auto simp: KG.node_def)

text \<open>A task survives what happens to the guards if its own guard stays alive.\<close>

lemma in_progress_mono:
  assumes "in_progress c g G t" and "\<And>h. alive (graphg t) h 1 G \<Longrightarrow> alive (graphg t) h 1 G'"
  shows "in_progress c g G' t"
  using assms(1) node_mono [OF _ assms(2)] unfolding in_progress_def by blast

lemma task_ok_mono:
  assumes "task_ok c g G t" and "\<And>h. alive (graphg t) h 1 G \<Longrightarrow> alive (graphg t) h 1 G'"
  shows "task_ok c g G' t"
proof -
  have ex: "(\<exists>h. alive (graphg t) h 1 G) \<longrightarrow> (\<exists>h. alive (graphg t) h 1 G')"
    using assms(2) by blast
  have run: "in_progress c g G t \<longrightarrow> in_progress c g G' t" using in_progress_mono [OF _ assms(2)] by blast
  have root: "graphg t = Some 0 \<and> alive (Some 0) g 1 G \<longrightarrow> alive (Some 0) g 1 G'"
    using assms(2) [of g] by auto
  show ?thesis
  proof (cases "isContinuation t")
    case True
    with assms(1) ex show ?thesis by (simp add: task_ok_def)
  next
    case False
    with assms(1) run root show ?thesis by (cases "newTask t \<and> parent t = None") (auto simp: task_ok_def)
  qed
qed

lemma share_bounds: "0 \<le> share c t gg" "share c t gg \<le> 1"
  by (auto simp: share_def split: option.split)

lemma share_active:
  assumes "sane c" and "\<not> isContinuation t" and "graphg t \<noteq> None" and "subgraphBased c \<noteq> 0 \<Longrightarrow> graphg t \<noteq> Some 0"
    and "subgraphBased c \<noteq> 1"
  shows "share c t (graphg t) = (if subgraphBased c > 1 then 1 else 0)"
  using assms by (auto simp: share_def holds_def sane_def)

section \<open>Between two candidates\<close>

text \<open>
  What is known after a candidate has been dealt with, or when none was left: the state \<open>st1\<close> with
  the child \<open>a\<close>, compared with the state \<open>st\<close> of the call.
\<close>

definition midway :: "config \<Rightarrow> graph \<Rightarrow> nat \<Rightarrow> state \<Rightarrow> main_task option \<Rightarrow> state \<Rightarrow> bool" where
  "midway c g thr st a st1 \<longleftrightarrow>
     self st1 = self st \<and> spawned st1 = spawned st \<and> parent (this st1) = parent (this st) \<and>
     NewGraph (this st1) = NewGraph (this st) \<and> graphg (this st1) = graphg (this st) \<and>
     \<not> isContinuation (this st1) \<and> \<not> newTask (this st1) \<and> task_ok c g (guards st1) (this st1) \<and>
     (\<forall>t. a = Some t \<longrightarrow> task_ok c g (guards st1) t \<and> newTask t \<and> \<not> isContinuation t \<and>
        parent t = Some (self st) \<and> graphg t = graphg (this st)) \<and>
     conserves c g thr st a st1 \<and>
     (\<exists>h. alive (graphg (this st)) h 1 (guards st)) \<and> agrees (at (graphg (this st))) (guards st) (guards st1) \<and>
     keeps (- given c a (graphg (this st))) (graphg (this st)) (guards st) (guards st1) \<and>
     weight c g (this st1) + given_weight c g a \<le> weight c g (this st)"

lemma midway_advanced:
  assumes "midway c g thr st a st1" and "\<not> isContinuation (this st)"
    and "weight c g (this st1) + given_weight c g a < weight c g (this st)"
  shows "advanced c g thr st (Reexecute, a, st1)"
proof -
  have "share c (this st1) (graphg (this st)) = share c (this st) (graphg (this st))"
    using assms by (auto simp: midway_def share_def holds_def split: option.split)
  moreover have "task_ok c g (guards st1) (this st1)" "\<not> isContinuation (this st1)"
    "graphg (this st1) = graphg (this st)" using assms(1) by (simp_all add: midway_def)
  with task_ok_marked have "stays c st a st1" by (simp add: stays_def)
  ultimately show ?thesis using assms by (auto simp: advanced_def midway_def moves_references_def Let_def)
qed

section \<open>A task that is over\<close>

abbreviation ended_state :: "guard_ptr \<Rightarrow> graph_guard option list \<Rightarrow> state \<Rightarrow> state" where
  "ended_state gg G st \<equiv> st\<lparr>this := (this st)\<lparr>P_task := None, X_task := None, cand_task := None, graphg := gg, isContinuation := True\<rparr>,
     guards := G\<rparr>"

lemma midway_marked:
  assumes "midway c g thr st a st1"
  shows "NewGraph (this st) = makes_graph c (this st)" and "in_progress c g (guards st1) (this st1)"
proof -
  from assms have "task_ok c g (guards st1) (this st1)" "\<not> isContinuation (this st1)" "\<not> newTask (this st1)"
    "parent (this st1) = parent (this st)" "NewGraph (this st1) = NewGraph (this st)" by (simp_all add: midway_def)
  then show "NewGraph (this st) = makes_graph c (this st)" "in_progress c g (guards st1) (this st1)"
    by (simp_all add: task_ok_def makes_graph_def)
qed

lemma midway_guard:
  assumes "midway c g thr st a st1"
  shows "graphg (this st) \<noteq> None" and "subgraphBased c \<noteq> 0 \<Longrightarrow> graphg (this st) \<noteq> Some 0"
    and "\<exists>h. alive (graphg (this st)) h 1 (guards st1)"
proof -
  have gg: "graphg (this st1) = graphg (this st)" using assms by (simp add: midway_def)
  from midway_marked(2) [OF assms] obtain R P X where nd: "KG.node g c (graphg (this st)) R P X (guards st1)"
    and g0: "subgraphBased c \<noteq> 0 \<Longrightarrow> graphg (this st) \<noteq> Some 0"
    unfolding gg [symmetric] by (elim in_progressE) blast
  from node_alive [OF nd] show "\<exists>h. alive (graphg (this st)) h 1 (guards st1)" .
  then show "graphg (this st) \<noteq> None" by (auto simp: alive_def)
  show "subgraphBased c \<noteq> 0 \<Longrightarrow> graphg (this st) \<noteq> Some 0" by (rule g0)
qed

lemma midway_share:
  assumes "sane c" and "midway c g thr st a st1" and "\<not> isContinuation (this st)"
  shows "share c (this st) (graphg (this st)) =
    (if subgraphBased c > 1 then 1 else if subgraphBased c = 1 \<and> parent (this st) = None then 1 else 0)"
  using assms(1,3) midway_guard(1,2) [OF assms(2)] midway_marked(1) [OF assms(2)]
  by (auto simp: share_def holds_def sane_def makes_graph_def)

lemma midway_given:
  assumes "midway c g thr st a st1"
  shows "given c a (graphg (this st)) = (if a = None \<or> \<not> subgraphBased c > 1 then 0 else 1)"
proof (cases a)
  case (Some t)
  with assms have t: "\<not> isContinuation t" "parent t = Some (self st)" "graphg t = graphg (this st)" by (simp_all add: midway_def)
  have "\<not> holds c t i" if "\<not> subgraphBased c > 1" for i using that t(2) by (auto simp: holds_def)
  moreover have "share c t (graphg (this st)) = 1" if "subgraphBased c > 1"
    using that midway_guard(1,2) [OF assms] t(1,3) by (auto simp: share_def holds_def)
  ultimately show ?thesis using Some by (auto simp: share_def split: option.split)
qed simp

lemma midway_dropped:
  assumes "sane c" and "midway c g thr st a st1"
  shows "dropped c st1 = (if subgraphBased c > 1 then 1 else 0)"
  using assms midway_marked(1) [OF assms(2)] by (auto simp: dropped_def sane_def makes_graph_def midway_def)

text \<open>A child holds a reference of its own.\<close>

lemma midway_alive:
  assumes "midway c g thr st a st1"
  obtains h n where "alive (graphg (this st)) h n (guards st1)" "1 \<le> n" "a \<noteq> None \<and> subgraphBased c > 1 \<Longrightarrow> 2 \<le> n"
proof (cases "a \<noteq> None \<and> subgraphBased c > 1")
  case True
  let ?gg = "graphg (this st)"
  from True have "given c a ?gg = 1" using midway_given [OF assms] by simp
  moreover have "keeps (- given c a ?gg) ?gg (guards st) (guards st1)" using assms by (simp add: midway_def)
  ultimately have "keeps (- 1) ?gg (guards st) (guards st1)" by simp
  moreover obtain h where "alive ?gg h 1 (guards st)" using assms by (auto simp: midway_def)
  ultimately have "alive ?gg h 2 (guards st1)" using keepsD [of "- 1" ?gg "guards st" "guards st1" h 1] by simp
  then show ?thesis by (rule that) simp_all
next
  case False
  from midway_guard(3) [OF assms] obtain h where al: "alive (graphg (this st)) h 1 (guards st1)" by blast
  show ?thesis by (rule that [OF al]) (use False in simp_all)
qed

text \<open>The loop of a task is finished: the reference of a task with a graph of its own is given up.\<close>

definition gives_up :: "config \<Rightarrow> state \<Rightarrow> main_task option \<Rightarrow> state \<Rightarrow> guard_ptr \<Rightarrow> graph_guard option list \<Rightarrow> bool" where
  "gives_up c st a st1 gg' G \<longleftrightarrow>
     (let gg = graphg (this st) in
      agrees (at gg) (guards st1) G \<and> keeps (dropped c st1) gg (guards st1) G \<and>
      (dropped c st1 = 0 \<longrightarrow> G = guards st1 \<and> gg' = gg) \<and> (gg' = gg \<or> gg' = None) \<and>
      (a \<noteq> None \<and> subgraphBased c > 1 \<longrightarrow> gg' = gg))"

lemma finish_gives_up:
  assumes mid: "midway c g thr st a st1"
  obtains gg' G where "finish_loop c st1 = Inr (SafeContinuation, ended_state gg' G st1)" "gives_up c st a st1 gg' G"
proof -
  obtain h n where al: "alive (graphg (this st)) h n (guards st1)" and n: "1 \<le> n" "a \<noteq> None \<and> subgraphBased c > 1 \<Longrightarrow> 2 \<le> n"
    by (rule midway_alive [OF mid]) blast
  have gg: "graphg (this st1) = graphg (this st)" using mid by (simp add: midway_def)
  from finish_loop_result [OF al [folded gg], of c, unfolded gg] n that show thesis
    unfolding gives_up_def Let_def by blast
qed

lemma over_share:
  assumes "sane c" and mid: "midway c g thr st a st1" and up: "gives_up c st a st1 gg' G"
  shows "share c (this (ended_state gg' G st1)) (graphg (this st)) = (if subgraphBased c = 1 \<and> parent (this st) = None then 1 else 0)"
proof (cases "subgraphBased c = 1")
  case True
  then have "gg' = graphg (this st)" using up midway_dropped [OF assms(1,2)] by (simp add: gives_up_def Let_def)
  moreover have "NewGraph (this st1) = (parent (this st1) = None)" "parent (this st1) = parent (this st)"
    using True mid midway_marked(1) [OF mid] by (simp_all add: midway_def makes_graph_def)
  ultimately show ?thesis using True midway_guard(1,2) [OF mid]
    by (cases "graphg (this st)") (simp_all add: share_def holds_def)
next
  case False
  then show ?thesis by (cases "graphg (this st)") (simp_all add: share_def holds_def)
qed

lemma over_moves:
  assumes sane: "sane c" and mid: "midway c g thr st a st1" and active: "\<not> isContinuation (this st)"
    and up: "gives_up c st a st1 gg' G"
  shows "moves_references c st a (ended_state gg' G st1)"
proof -
  let ?gg = "graphg (this st)"
  from up have G: "agrees (at ?gg) (guards st1) G" "keeps (dropped c st1) ?gg (guards st1) G" "gg' = ?gg \<or> gg' = None"
    by (simp_all add: gives_up_def Let_def)
  from mid have m: "agrees (at ?gg) (guards st) (guards st1)" "keeps (- given c a ?gg) ?gg (guards st) (guards st1)"
    by (simp_all add: midway_def)
  have "agrees (at ?gg) (guards st) G" using m(1) G(1) by (rule agrees_trans) auto
  moreover have "keeps (- given c a ?gg + dropped c st1) ?gg (guards st) G"
    using keeps_trans [OF m(2) G(2)] midway_dropped [OF sane mid] by simp
  then have "keeps (share c (this st) ?gg - share c (this (ended_state gg' G st1)) ?gg - given c a ?gg) ?gg (guards st) G"
    unfolding midway_share [OF sane mid active] over_share [OF sane mid up] midway_given [OF mid] midway_dropped [OF sane mid]
    by (auto split: if_splits)
  moreover have "share c (this (ended_state gg' G st1)) None + given c a None = 0" by (auto simp: share_def split: option.split)
  ultimately show ?thesis using G(3) by (auto simp: moves_references_def Let_def)
qed

lemma over_tasks:
  assumes sane: "sane c" and mid: "midway c g thr st a st1" and up: "gives_up c st a st1 gg' G"
  shows "task_ok c g G (this (ended_state gg' G st1))" and "\<And>t. a = Some t \<Longrightarrow> task_ok c g G t \<and> graphg t = gg'"
    and "stays c st a (ended_state gg' G st1)"
proof -
  let ?gg = "graphg (this st)"
  from up have G: "keeps (dropped c st1) ?gg (guards st1) G" "dropped c st1 = 0 \<longrightarrow> G = guards st1 \<and> gg' = ?gg"
      "a \<noteq> None \<and> subgraphBased c > 1 \<longrightarrow> gg' = ?gg"
    by (simp_all add: gives_up_def Let_def)
  from mid have m: "parent (this st1) = parent (this st)" "NewGraph (this st1) = NewGraph (this st)" by (simp_all add: midway_def)
  note mark = midway_marked(1) [OF mid, unfolded makes_graph_def] and dr = midway_dropped [OF sane mid]
  obtain h n where al: "alive ?gg h n (guards st1)" and n: "1 \<le> n" "a \<noteq> None \<and> subgraphBased c > 1 \<Longrightarrow> 2 \<le> n"
    by (rule midway_alive [OF mid]) blast
  show "task_ok c g G (this (ended_state gg' G st1))"
    using mark m midway_guard(2) [OF mid] G(2) dr alive_le [OF al n(1)] by (auto simp: task_ok_def makes_graph_def)
  show "stays c st a (ended_state gg' G st1)" using mark m G(2) dr by (auto simp: stays_def makes_graph_def)
  show "task_ok c g G t \<and> graphg t = gg'" if a: "a = Some t" for t
  proof
    from a mid have t: "task_ok c g (guards st1) t" "graphg t = ?gg" by (simp_all add: midway_def)
    show "task_ok c g G t"
    proof (rule task_ok_mono [OF t(1)])
      fix h' assume h': "alive (graphg t) h' 1 (guards st1)"
      then have "h' = h" using alive_same [OF al] t(2) by simp
      then show "alive (graphg t) h' 1 G"
        using h' alive_le [OF keepsD [OF G(1) al], of 1] G(2) a dr n t(2) by (cases "subgraphBased c > 1") auto
    qed
    show "graphg t = gg'" using G(2,3) dr a t(2) by (cases "subgraphBased c > 1") auto
  qed
qed

lemma finish_advanced:
  assumes sane: "sane c" and mid: "midway c g thr st a st1" and active: "\<not> isContinuation (this st)"
    and empty: "\<And>k. pending c g (this st1) k = 0"
  shows "ends (target c) (host c) (bind_result (finish_loop c st1) (\<lambda>(r, st'). Inr (r, a, st')))
    (advanced c g thr st)"
proof -
  obtain gg' G where run: "finish_loop c st1 = Inr (SafeContinuation, ended_state gg' G st1)" and up: "gives_up c st a st1 gg' G"
    by (rule finish_gives_up [OF mid])
  have "2 \<le> weight c g (this st1)"
    using mid midway_marked(2) [OF mid] by (auto simp: midway_def weight_def in_progress_def)
  then have "1 + given_weight c g a < weight c g (this st)" using mid by (simp add: midway_def)
  moreover obtain f where "adds thr f st st1" "\<forall>k. f k + (case a of None \<Rightarrow> 0 | Some t \<Rightarrow> pending c g t k) = pending c g (this st) k"
    using mid empty by (auto simp: midway_def conserves_def)
  moreover from this(1) have "adds thr f st (ended_state gg' G st1)" by (rule adds_cong) simp_all
  moreover have "pending c g (this (ended_state gg' G st1)) k = 0" for k by (simp add: pending_def)
  ultimately have "conserves c g thr st a (ended_state gg' G st1)" "1 + given_weight c g a < weight c g (this st)"
    by (auto simp: conserves_def)
  with over_moves [OF sane mid active up] over_tasks [OF sane mid up] mid
  have "advanced c g thr st (SafeContinuation, a, ended_state gg' G st1)"
    by (auto simp: advanced_def weight_def midway_def)
  then show ?thesis by (simp add: run)
qed

section \<open>One candidate\<close>

lemma child_task_ok:
  assumes "KG.node g c gg Rc P1 X1 G" and "subgraphBased c \<noteq> 0 \<longrightarrow> gg \<noteq> Some 0"
  shows "task_ok c g G (MainBKTask_child Rc P1 X1 gg (subgraphBased c > 1) par)"
  using assms by (simp add: task_ok_def makes_graph_def in_progress_def MainBKTask_child_def)

lemma child_fields [simp]:
  "newTask (MainBKTask_child Rc P1 X1 gg b par)" "\<not> isContinuation (MainBKTask_child Rc P1 X1 gg b par)"
  "parent (MainBKTask_child Rc P1 X1 gg b par) = Some par" "graphg (MainBKTask_child Rc P1 X1 gg b par) = gg"
  by (simp_all add: MainBKTask_child_def)

lemma child_share:
  assumes "alive gg h n G" and "subgraphBased c \<noteq> 0 \<longrightarrow> gg \<noteq> Some 0"
  shows "share c (MainBKTask_child Rc P1 X1 gg b par) gg = (if subgraphBased c > 1 then 1 else 0)"
  using assms by (auto simp: share_def holds_def alive_def)

lemma child_pending:
  "pending c g (MainBKTask_child Rc P1 X1 gg b par) k = KG.counted g c (length (to_list Rc)) (contents P1) (contents X1) k"
  by (simp add: pending_def MainBKTask_child_def)

text \<open>The task after a candidate: it has one branch less to count.\<close>

lemma next_state:
  fixes n :: nat
  assumes t: "task_ok c g G t" "\<not> isContinuation t" "\<not> newTask t"
    and R: "R_task t = Some R" "P_task t = Some P" "X_task t = Some X" "cand_task t = Some cs"
    and w: "within c (Suc (length (to_list R)))" and rest: "remaining cs = v # vs" and sub: "set (remaining cs) \<subseteq> contents P"
      and dist: "distinct (remaining cs)"
    and cs': "list_set (target c) cs'" "iter_inv (elems cs')" "remaining cs' = vs"
    and nd: "KG.node g c (graphg t) R' P' X' G'" and R': "to_list R' = to_list R"
    and P': "contents P' = contents P - {v}" "contents X' = insert v (contents X)"
    and t'_def: "t' = t\<lparr>taskSpawnCnt := n, R_task := Some R', P_task := Some P', X_task := Some X', cand_task := Some cs'\<rparr>"
  shows "task_ok c g G' t'"
    and "KG.counted g c (Suc (length (to_list R))) (contents P \<inter> abs_adj g v) (contents X \<inter> abs_adj g v) k + pending c g t' k =
      pending c g t k"
proof -
  have g0: "subgraphBased c \<noteq> 0 \<longrightarrow> graphg t \<noteq> Some 0"
    using t unfolding task_ok_def in_progress_def by auto
  have "set vs \<subseteq> contents P'" using rest sub dist P'(1) by auto
  then have "in_progress c g G' t'"
    using t(3) nd R' w cs' g0 unfolding in_progress_def t'_def by simp
  then show "task_ok c g G' t'" using t by (simp add: task_ok_def t'_def makes_graph_def)
  show "KG.counted g c (Suc (length (to_list R))) (contents P \<inter> abs_adj g v) (contents X \<inter> abs_adj g v) k + pending c g t' k =
      pending c g t k"
    using t(2,3) R rest cs'(3) R' P' by (simp add: pending_def t'_def rest_cands_def)
qed

lemma conserves_nothing:
  "pt_hist st' = pt_hist st \<Longrightarrow> (\<And>k. pending c g (this st') k = pending c g (this st) k) \<Longrightarrow> conserves c g thr st None st'"
  unfolding conserves_def by (intro exI [of _ "\<lambda>_. 0"]) simp

abbreviation put_sets :: "ulist \<Rightarrow> simple_hash_set \<Rightarrow> simple_hash_set \<Rightarrow> state \<Rightarrow> state" where
  "put_sets R P X \<equiv> set_this (\<lambda>t. t\<lparr>R_task := Some R, P_task := Some P, X_task := Some X\<rparr>)"

text \<open>What a candidate leaves, whether its branch was run or became a child.\<close>

abbreviation handled :: "config \<Rightarrow> graph \<Rightarrow> nat \<Rightarrow> key \<Rightarrow> ulist \<Rightarrow> simple_hash_set \<Rightarrow> simple_hash_set \<Rightarrow> guard_ptr \<Rightarrow> state \<Rightarrow>
    main_task option \<Rightarrow> ulist \<times> simple_hash_set \<times> simple_hash_set \<times> state \<Rightarrow> bool" where
  "handled c g thr v R P X gg st a s \<equiv> (case a of None \<Rightarrow> KG.iterated g c thr v R P X gg st s
     | Some t \<Rightarrow> KG.child_made g c v R P X gg st t s)"

lemma handled_state:
  assumes s: "handled c g thr v R P X gg st a (R1, P1, X1, st1)"
  obtains n G H where "st1 = st\<lparr>this := (this st)\<lparr>taskSpawnCnt := n\<rparr>, guards := G, pt_hist := H\<rparr>"
    "KG.node g c gg R1 P1 X1 G" "to_list R1 = to_list R" "contents P1 = contents P - {v}"
    "contents X1 = insert v (contents X)" "agrees (at gg) (guards st) G"
proof (cases a)
  case None
  with s have it: "KG.iterated g c thr v R P X gg st (R1, P1, X1, st1)" by simp
  then obtain n where "st1 = st\<lparr>this := (this st)\<lparr>taskSpawnCnt := n\<rparr>, guards := guards st1, pt_hist := pt_hist st1\<rparr>"
    by (auto simp: KG.iterated_def KG.ran_def)
  then show ?thesis by (rule that) (use it in \<open>auto simp: KG.iterated_def KG.ran_def\<close>)
next
  case (Some t)
  with s have it: "KG.child_made g c v R P X gg st t (R1, P1, X1, st1)" by simp
  then obtain G where G: "st1 = st\<lparr>guards := G\<rparr>" by (auto simp: KG.child_made_def)
  have "st1 = st\<lparr>this := (this st)\<lparr>taskSpawnCnt := taskSpawnCnt (this st)\<rparr>, guards := G, pt_hist := pt_hist st\<rparr>"
    by (simp add: G)
  then show ?thesis by (rule that) (use it in \<open>auto simp: KG.child_made_def G\<close>)
qed

lemma iterated_keeps:
  assumes it: "KG.iterated g c thr v R P X gg st0 (R1, P1, X1, st1)"
    and f0: "guards st0 = guards st" "pt_hist st0 = pt_hist st"
    and cons: "\<And>k. KG.counted g c (Suc (length (to_list R))) (contents P \<inter> abs_adj g v) (contents X \<inter> abs_adj g v) k +
      pending c g (this (put_sets R1 P1 X1 st1)) k = pending c g (this st) k"
  shows "conserves c g thr st None (put_sets R1 P1 X1 st1)" and "keeps 0 gg (guards st) (guards st1)"
proof -
  let ?f = "KG.counted g c (Suc (length (to_list R))) (contents P \<inter> abs_adj g v) (contents X \<inter> abs_adj g v)"
  from it have r: "KG.ran c thr 0 gg ?f st0 st1" by (simp add: KG.iterated_def)
  have "adds thr ?f st (put_sets R1 P1 X1 st1)"
    using KG.ran_fields(8) [OF r] by (rule adds_cong) (simp_all add: f0 set_this_def)
  then show "conserves c g thr st None (put_sets R1 P1 X1 st1)" using cons unfolding conserves_def by auto
  show "keeps 0 gg (guards st) (guards st1)" using KG.ran_fields(6) [OF r] by (simp add: f0)
qed

lemma child_keeps:
  assumes it: "KG.child_made g c v R P X gg st0 t (R1, P1, X1, st1)"
    and f0: "guards st0 = guards st" "pt_hist st0 = pt_hist st" "self st0 = self st"
    and cons: "\<And>k. KG.counted g c (Suc (length (to_list R))) (contents P \<inter> abs_adj g v) (contents X \<inter> abs_adj g v) k +
      pending c g (this (put_sets R1 P1 X1 st1)) k = pending c g (this st) k"
    and al: "alive gg h n (guards st)" and g0: "subgraphBased c \<noteq> 0 \<longrightarrow> gg \<noteq> Some 0" and v: "v \<in> contents P"
  shows "conserves c g thr st (Some t) (put_sets R1 P1 X1 st1)" and "keeps (- share c t gg) gg (guards st) (guards st1)"
    and "task_ok c g (guards st1) t" and "newTask t" "\<not> isContinuation t" "parent t = Some (self st)" "graphg t = gg"
    and "weight c g t \<le> 2 * 3 ^ (card (contents P) - 1) + 1"
proof -
  from it obtain Rc Pc Xc where t: "t = MainBKTask_child Rc Pc Xc gg (subgraphBased c > 1) (self st)"
    and C: "to_list Rc = to_list R @ [v]" "contents Pc = contents P \<inter> abs_adj g v" "contents Xc = contents X \<inter> abs_adj g v"
      "KG.node g c gg Rc Pc Xc (guards st1)"
    by (auto simp: KG.child_made_def f0(3))
  from it obtain G where "st1 = st0\<lparr>guards := G\<rparr>" by (auto simp: KG.child_made_def)
  then have "pt_hist (put_sets R1 P1 X1 st1) = pt_hist st" by (simp add: set_this_def f0)
  then have "adds thr (\<lambda>_. 0) st (put_sets R1 P1 X1 st1)" by simp
  then show "conserves c g thr st (Some t) (put_sets R1 P1 X1 st1)"
    using cons C by (auto simp: conserves_def child_pending t add.commute intro!: exI [of _ "\<lambda>_. 0"])
  show "keeps (- share c t gg) gg (guards st) (guards st1)"
    using it child_share [OF al g0] by (auto simp: KG.child_made_def t f0)
  show "task_ok c g (guards st1) t" unfolding t by (rule child_task_ok [OF C(4) g0])
  have "card (contents P \<inter> abs_adj g v) \<le> card (contents P) - 1"
    using card_mono [of "contents P - {v}" "contents P \<inter> abs_adj g v"] G.adj_irrefl [of v g] v by auto
  then show "weight c g t \<le> 2 * 3 ^ (card (contents P) - 1) + 1"
    using power_increasing [of _ _ "3 :: nat"] by (simp add: t weight_def MainBKTask_child_def C)
qed (use it in \<open>auto simp: KG.child_made_def f0(3)\<close>)

text \<open>A task that is between two candidates and has \<open>v\<close> next, and the candidates after it.\<close>

definition facing :: "config \<Rightarrow> graph \<Rightarrow> state \<Rightarrow> ulist \<Rightarrow> simple_hash_set \<Rightarrow> simple_hash_set \<Rightarrow> simple_hash_set \<Rightarrow>
    key \<Rightarrow> simple_hash_set \<Rightarrow> bool" where
  "facing c g st R P X cs v cs' \<longleftrightarrow> task_ok c g (guards st) (this st) \<and> \<not> isContinuation (this st) \<and> \<not> newTask (this st) \<and>
     R_task (this st) = Some R \<and> P_task (this st) = Some P \<and> X_task (this st) = Some X \<and> cand_task (this st) = Some cs \<and>
     KG.node g c (graphg (this st)) R P X (guards st) \<and> (subgraphBased c \<noteq> 0 \<longrightarrow> graphg (this st) \<noteq> Some 0) \<and>
     within c (Suc (length (to_list R))) \<and> remaining cs = v # remaining cs' \<and> set (remaining cs) \<subseteq> contents P \<and>
     distinct (remaining cs) \<and> list_set (target c) cs' \<and> iter_inv (elems cs')"

lemma facing_next:
  fixes n :: nat
  assumes "facing c g st R P X cs v cs'" and nd: "KG.node g c (graphg (this st)) R' P' X' G'" and R': "to_list R' = to_list R"
    and P': "contents P' = contents P - {v}" "contents X' = insert v (contents X)"
    and t'_def: "t' = (this st)\<lparr>taskSpawnCnt := n, R_task := Some R', P_task := Some P', X_task := Some X', cand_task := Some cs'\<rparr>"
  shows "task_ok c g G' t'"
    and "KG.counted g c (Suc (length (to_list R))) (contents P \<inter> abs_adj g v) (contents X \<inter> abs_adj g v) k + pending c g t' k =
      pending c g (this st) k"
    and "weight c g t' + 2 * 3 ^ (card (contents P) - 1) + 1 < weight c g (this st)"
    and "remaining cs' = [] \<Longrightarrow> pending c g t' k = 0"
proof -
  from assms(1) have f: "task_ok c g (guards st) (this st)" "\<not> isContinuation (this st)" "\<not> newTask (this st)"
    "R_task (this st) = Some R" "P_task (this st) = Some P" "X_task (this st) = Some X" "cand_task (this st) = Some cs"
    "within c (Suc (length (to_list R)))" "remaining cs = v # remaining cs'" "set (remaining cs) \<subseteq> contents P"
    "distinct (remaining cs)" "list_set (target c) cs'" "iter_inv (elems cs')"
    unfolding facing_def by blast+
  note nx = next_state [OF f(1-13) refl nd R' P' t'_def]
  show "task_ok c g G' t'" by (rule nx(1))
  show "KG.counted g c (Suc (length (to_list R))) (contents P \<inter> abs_adj g v) (contents X \<inter> abs_adj g v) k + pending c g t' k =
      pending c g (this st) k" by (rule nx(2))
  have v: "v \<in> contents P" using f(9,10) by auto
  then have "0 < card (contents P)" using card_gt_0_iff [of "contents P"] by auto
  then have "3 ^ card (contents P) = 3 * (3 :: nat) ^ (card (contents P) - 1)" by (cases "card (contents P)") simp_all
  moreover have "1 \<le> (3 :: nat) ^ (card (contents P) - 1)" by simp
  moreover have "weight c g t' = 2 * 3 ^ (card (contents P) - 1)" "weight c g (this st) = 2 * 3 ^ card (contents P)"
    using f(2,3,5) v P'(1) by (simp_all add: weight_def t'_def)
  ultimately show "weight c g t' + 2 * 3 ^ (card (contents P) - 1) + 1 < weight c g (this st)" by linarith
  show "pending c g t' k = 0" if "remaining cs' = []"
    using that f(2,3) by (simp add: pending_def rest_cands_def t'_def)
qed

lemma candidate_midway:
  assumes fc: "facing c g st R P X cs v cs'" and st0: "st0 = set_this (\<lambda>t. t\<lparr>cand_task := Some cs'\<rparr>) st"
    and s: "handled c g thr v R P X (graphg (this st)) st0 a (R1, P1, X1, st1)"
  shows "midway c g thr st a (put_sets R1 P1 X1 st1)"
    and "weight c g (this (put_sets R1 P1 X1 st1)) + given_weight c g a < weight c g (this st)"
    and "remaining cs' = [] \<Longrightarrow> pending c g (this (put_sets R1 P1 X1 st1)) k = 0"
proof -
  let ?gg = "graphg (this st)" and ?st2 = "put_sets R1 P1 X1 st1"
  from fc have v: "v \<in> contents P" and g0: "subgraphBased c \<noteq> 0 \<longrightarrow> ?gg \<noteq> Some 0"
    and active: "\<not> isContinuation (this st)" "\<not> newTask (this st)" by (auto simp: facing_def)
  from fc node_alive obtain h where al: "alive ?gg h 1 (guards st)" unfolding facing_def by blast
  have f0: "guards st0 = guards st" "pt_hist st0 = pt_hist st" "self st0 = self st" by (simp_all add: st0 set_this_def)
  obtain n G H where st1: "st1 = st0\<lparr>this := (this st0)\<lparr>taskSpawnCnt := n\<rparr>, guards := G, pt_hist := H\<rparr>"
    and nd1: "KG.node g c ?gg R1 P1 X1 G" "to_list R1 = to_list R" "contents P1 = contents P - {v}"
      "contents X1 = insert v (contents X)" and ag: "agrees (at ?gg) (guards st0) G"
    by (rule handled_state [OF s])
  have t2: "this ?st2 = (this st)\<lparr>taskSpawnCnt := n, R_task := Some R1, P_task := Some P1, X_task := Some X1, cand_task := Some cs'\<rparr>"
    and s2: "guards ?st2 = G" "guards st1 = G" "self ?st2 = self st" "spawned ?st2 = spawned st"
    by (simp_all add: st1 st0 set_this_def)
  note nx = facing_next [OF fc nd1 t2]
  have *: "(\<forall>t. a = Some t \<longrightarrow> task_ok c g G t \<and> newTask t \<and> \<not> isContinuation t \<and> parent t = Some (self st) \<and> graphg t = ?gg) \<and>
    conserves c g thr st a ?st2 \<and> keeps (- given c a ?gg) ?gg (guards st) G \<and>
    given_weight c g a \<le> 2 * 3 ^ (card (contents P) - 1) + 1"
    using s iterated_keeps [OF _ f0(1,2) nx(2)] child_keeps [OF _ f0 nx(2) al g0 v]
    by (cases a) (simp_all add: s2)
  with nx(3) show wt: "weight c g (this ?st2) + given_weight c g a < weight c g (this st)" by linarith
  show "midway c g thr st a ?st2"
    using * wt nx(1) ag al active t2 s2 f0 by (auto simp: midway_def)
  show "pending c g (this ?st2) k = 0" if "remaining cs' = []" using that by (rule nx(4))
qed

text \<open>A call on a task that is between two candidates.\<close>

lemma facing_handled:
  assumes "facing c g st R P X cs v cs'"
  shows "ends (target c) (host c) (LoopIteration c (SequentialRun c thr (sequential_fuel P)) v (graphg (this st))
      (R, P, X, set_this (\<lambda>t. t\<lparr>cand_task := Some cs'\<rparr>) st))
    (\<lambda>(a, s'). handled c g thr v R P X (graphg (this st)) (set_this (\<lambda>t. t\<lparr>cand_task := Some cs'\<rparr>) st) a s')"
proof (rule KG.LoopIteration_ends)
  from assms have nd: "KG.node g c (graphg (this st)) R P X (guards st)" by (simp add: facing_def)
  then show "KG.node g c (graphg (this st)) R P X (guards (set_this (\<lambda>t. t\<lparr>cand_task := Some cs'\<rparr>) st))"
    by (simp add: set_this_def)
  show "v \<in> contents P" "within c (Suc (length (to_list R)))" using assms by (auto simp: facing_def)
  fix R' P' X' and st' :: state
  assume "KG.node g c (graphg (this st)) R' P' X' (guards st')" "0 < taskSpawnCnt (this st')" "0 < taskLevel (this st')"
    "card (contents P') < card (contents P)" "int (card (contents P')) + int (card (contents X')) < PX_threshold c"
  moreover have "hs_size P = card (contents P)" using nd list_set_size by (auto simp: KG.node_def)
  ultimately show "KG.runs_node g c thr (SequentialRun c thr (sequential_fuel P)) R' P' X' (graphg (this st)) st'"
    by (intro KG.SequentialRun_ends) (auto simp: plain_def sequential_fuel_def)
qed

lemma loop_once_candidate:
  assumes sane: "sane c" and fc: "facing c g st R P X cs v cs'"
    and nx: "hs_get_next cs = (v, cs')" "v \<noteq> -1" and stop: "hs_end_iter cs' \<longleftrightarrow> remaining cs' = []"
  shows "ends (target c) (host c) (loop_once c thr st) (advanced c g thr st)"
proof -
  let ?st0 = "set_this (\<lambda>t. t\<lparr>cand_task := Some cs'\<rparr>) st" and ?gg = "graphg (this st)"
  from fc have f: "R_task (this st) = Some R" "P_task (this st) = Some P" "X_task (this st) = Some X" "cand_task (this st) = Some cs"
    and active: "\<not> isContinuation (this st)" by (simp_all add: facing_def)
  have "graphg (this ?st0) = ?gg" by (simp add: set_this_def)
  then have run: "loop_once c thr st =
    bind_result (LoopIteration c (SequentialRun c thr (sequential_fuel P)) v ?gg (R, P, X, ?st0)) (\<lambda>(a, R1, P1, X1, st1).
      if \<not> hs_end_iter cs' then Inr (Reexecute, a, put_sets R1 P1 X1 st1)
      else bind_result (finish_loop c (put_sets R1 P1 X1 st1)) (\<lambda>(r, st). Inr (r, a, st)))"
    using f nx by (simp add: loop_once_def Let_def del: minus_1_EMPTY)
  show ?thesis
    unfolding run
  proof (rule ends_bind [OF facing_handled [OF fc]])
    fix s assume s: "case s of (a, s') \<Rightarrow> handled c g thr v R P X ?gg ?st0 a s'"
    obtain a R1 P1 X1 st1 where s': "s = (a, R1, P1, X1, st1)" by (cases s)
    note m = candidate_midway [OF fc refl s [unfolded s' prod.case]]
    show "ends (target c) (host c) (case s of (a, R1, P1, X1, st1) \<Rightarrow>
      if \<not> hs_end_iter cs' then Inr (Reexecute, a, put_sets R1 P1 X1 st1)
      else bind_result (finish_loop c (put_sets R1 P1 X1 st1)) (\<lambda>(r, st). Inr (r, a, st))) (advanced c g thr st)"
      using midway_advanced [OF m(1) active m(2)] finish_advanced [OF sane m(1) active m(3)] stop
      by (cases "remaining cs' = []") (simp_all add: s')
  qed
qed

lemma loop_once_ends:
  assumes sane: "sane c" and ok: "task_ok c g (guards st) (this st)"
    and active: "\<not> isContinuation (this st)" "\<not> newTask (this st)"
  shows "ends (target c) (host c) (loop_once c thr st) (advanced c g thr st)"
proof -
  let ?t = "this st" and ?gg = "graphg (this st)"
  have "in_progress c g (guards st) ?t" using ok active by (simp add: task_ok_def)
  then obtain R P X cs where R: "R_task ?t = Some R" "P_task ?t = Some P" "X_task ?t = Some X" "cand_task ?t = Some cs"
    and nd: "KG.node g c ?gg R P X (guards st)" and g0: "subgraphBased c \<noteq> 0 \<longrightarrow> ?gg \<noteq> Some 0"
    and w: "within c (Suc (length (to_list R)))" and cs: "list_set (target c) cs" "iter_inv (elems cs)"
    and sub: "set (remaining cs) \<subseteq> contents P"
    using active(2) unfolding in_progress_def by auto
  show ?thesis
  proof (cases "remaining cs")
    case Nil
    from node_alive [OF nd] obtain h where al: "alive ?gg h 1 (guards st)" by blast
    have same: "set_this (\<lambda>t. t\<lparr>cand_task := Some cs\<rparr>) st = st" using R(4) by (simp add: set_this_def)
    have "pending c g ?t k = 0" for k using active R Nil by (simp add: pending_def rest_cands_def)
    moreover have "midway c g thr st None st"
      using ok active al conserves_nothing by (auto simp: midway_def)
    moreover have "loop_once c thr st = bind_result (finish_loop c st) (\<lambda>(r, st'). Inr (r, None, st'))"
      using R next_candidate(1) [OF cs Nil] same by (simp add: loop_once_def del: minus_1_EMPTY)
    ultimately show ?thesis using finish_advanced [OF sane _ active(1)] by simp
  next
    case (Cons v vs)
    then obtain cs' where nx: "hs_get_next cs = (v, cs')" "v \<noteq> -1"
      and cs': "list_set (target c) cs'" "iter_inv (elems cs')" "remaining cs' = vs" and stop: "hs_end_iter cs' \<longleftrightarrow> vs = []"
      using next_candidate(2) [OF cs] by blast
    have "distinct (remaining cs)" using cs(1) by (simp add: remaining_def list_set_def)
    then have "facing c g st R P X cs v cs'"
      using ok active R nd g0 w Cons sub cs' unfolding facing_def by simp
    from loop_once_candidate [OF sane this nx] stop cs'(3) show ?thesis by simp
  qed
qed

end
