(* ===== verification/Execute.thy ===== *)
theory Execute
  imports Tasks
begin

text \<open>
  One call of \<open>execute\<close> in every state a task can be in: a new task, a task between two
  candidates, and a task that comes back as its own continuation.
\<close>

section \<open>The sets of a task\<close>

text \<open>A state whose task has its sets: the node they stand for has to count what the task has to.\<close>

definition set_up :: "config \<Rightarrow> graph \<Rightarrow> ulist \<Rightarrow> simple_hash_set \<Rightarrow> simple_hash_set \<Rightarrow> state \<Rightarrow> bool" where
  "set_up c g R P X st \<longleftrightarrow>
     KG.node g c (graphg (this st)) R P X (guards st) \<and> taskSpawnCnt (this st) = 0 \<and> taskLevel (this st) = 0 \<and>
     NewGraph (this st) = makes_graph c (this st) \<and>
     (if parent (this st) = None then graphg (this st) = Some 0 \<and> length (to_list R) = 1
      else subgraphBased c \<noteq> 0 \<longrightarrow> graphg (this st) \<noteq> Some 0) \<and>
     (\<forall>k. pending c g (this st) k = KG.counted g c (length (to_list R)) (contents P) (contents X) k) \<and>
     weight c g (this st) = 2 * 3 ^ card (contents P) + 1"

text \<open>The first part of \<open>begin_task\<close>.\<close>

abbreviation enter_task :: "config \<Rightarrow> state \<Rightarrow> state result" where
  "enter_task c st \<equiv>
     (if parent (this st) = None then
        bind_result (deref_guard (graphg (this st)) st) (\<lambda>gd.
        bind_result (create_root_sets c (guarded gd) (new_vertex (this st))) (\<lambda>(P, X).
        Inr (set_this (\<lambda>t. t\<lparr>R_task := Some (push_back (new_vertex t) UnrolledList),
                            P_task := Some P, X_task := Some X\<rparr>) st)))
      else Inr st)"

lemma root_node:
  assumes inp: "input_ok c g" and v: "v \<in> verts g" and gd: "alive (Some 0) g 1 G"
    and P: "list_set (target c) P" "contents P = later c g v"
    and X: "list_set (target c) X" "contents X = earlier c g v"
  shows "KG.node g c (Some 0) (push_back v UnrolledList) P X G"
proof -
  have sub: "contents P \<subseteq> verts g" "contents X \<subseteq> verts g" "contents P \<inter> contents X = {}"
    using P(2) X(2) G.adj_V [of g v] by (auto simp: later_def earlier_def)
  then have "card (contents P \<union> contents X) \<le> card (verts g)" by (intro card_mono) auto
  then have "card (contents P) + card (contents X) \<le> 2 ^ 28"
    using inp sub(3) by (simp add: card_Un_disjoint input_ok_def)
  moreover have "shows_adj (target c) (abs_adj g) g (contents P) (contents X)"
    using inp sub by (intro shows_adj_graph) (simp_all add: input_ok_def)
  moreover have "to_list (push_back v UnrolledList) = [v]" by (simp add: push_back_to_list)
  ultimately show ?thesis
    using inp gd P(1) X(1) sub(3) unfolding KG.node_def
    by (auto simp: input_ok_def within_def)
qed

lemma enter_task_ends:
  assumes inp: "input_ok c g" and ok: "task_ok c g (guards st) (this st)"
    and new: "\<not> isContinuation (this st)" "newTask (this st)"
  shows "\<exists>R P X. enter_task c st = Inr (put_sets R P X st) \<and> set_up c g R P X st"
proof (cases "parent (this st) = None")
  case True
  let ?v = "new_vertex (this st)"
  have t: "taskSpawnCnt (this st) = 0" "?v \<in> verts g" "graphg (this st) = Some 0" "alive (Some 0) g 1 (guards st)"
    "taskLevel (this st) = 0" "NewGraph (this st) = makes_graph c (this st)"
    using ok new True by (simp_all add: task_ok_def)
  obtain gd where gd: "deref_guard (Some 0) st = Inr gd" "guarded gd = g" using t(4) by (rule deref_alive)
  from create_root_sets_correct [OF _ refl _ t(2), of c] inp obtain P X where
    PX: "create_root_sets c g ?v = Inr (P, X)" "list_set (target c) P" "list_set (target c) X"
      "contents P = later c g ?v" "contents X = earlier c g ?v"
    by (auto simp: input_ok_def)
  let ?R = "push_back ?v UnrolledList"
  have "enter_task c st = Inr (put_sets ?R P X st)"
    using True gd PX(1) t(3) by (simp add: set_this_def)
  moreover have "to_list ?R = [?v]" by (simp add: push_back_to_list)
  then have "set_up c g ?R P X st"
    using root_node [OF inp t(2,4) PX(2,4,3,5)] t True new PX(4,5)
    by (simp add: set_up_def pending_def weight_def)
  ultimately show ?thesis by blast
next
  case False
  then obtain p where p: "parent (this st) = Some p" by auto
  have t: "taskLevel (this st) = 0" "NewGraph (this st) = makes_graph c (this st)" "in_progress c g (guards st) (this st)"
    using ok new False by (simp_all add: task_ok_def)
  then obtain R P X where R: "R_task (this st) = Some R" "P_task (this st) = Some P" "X_task (this st) = Some X"
    and nd: "KG.node g c (graphg (this st)) R P X (guards st)" "subgraphBased c \<noteq> 0 \<longrightarrow> graphg (this st) \<noteq> Some 0"
    "taskSpawnCnt (this st) = 0" using new(2) unfolding in_progress_def by auto
  have "put_sets R P X st = st" using R by (simp add: set_this_def)
  then have "enter_task c st = Inr (put_sets R P X st)" using p by simp
  moreover have "set_up c g R P X st"
    using nd t p new R by (simp add: set_up_def pending_def weight_def)
  ultimately show ?thesis by blast
qed

lemma begin_task_eq:
  assumes "enter_task c st = Inr (put_sets R P X st)"
  shows "begin_task c thr st = bind_result (StartTask c thr R P X (graphg (this st)) (put_sets R P X st))
    (\<lambda>(cand, gg, st). let st = set_this (\<lambda>t. t\<lparr>graphg := gg\<rparr>) st in
       case cand of None \<Rightarrow> Inr (True, set_this (\<lambda>t. t\<lparr>isContinuation := True\<rparr>) st)
       | Some cand \<Rightarrow> Inr (False, set_this (\<lambda>t. t\<lparr>cand_task := cand, newTask := False\<rparr>) st))"
  unfolding begin_task_def assms bind_result_simps by (simp add: set_this_def)

section \<open>A new task\<close>

text \<open>What \<open>StartTask\<close> gives up and creates for a new task.\<close>

lemma set_up_graph:
  assumes sane: "sane c" and su: "set_up c g R P X st" and new: "\<not> isContinuation (this st)"
  shows "creates c (put_sets R P X st) \<longleftrightarrow> makes_graph c (this st)"
    and "drops c (put_sets R P X st) = share c (this st) (graphg (this st))"
    and "ready c (put_sets R P X st)"
proof -
  have s: "taskSpawnCnt (this st) = 0" "taskLevel (this st) = 0" "NewGraph (this st) = makes_graph c (this st)"
    using su by (simp_all add: set_up_def)
  show cr: "creates c (put_sets R P X st) \<longleftrightarrow> makes_graph c (this st)"
    using s sane by (auto simp: creates_def makes_graph_def is_root_sg_def set_this_def sane_def)
  then show "ready c (put_sets R P X st)" using s(3) by (simp add: ready_def set_this_def)
  have "graphg (this st) \<noteq> None" using su node_alive by (fastforce simp: set_up_def alive_def)
  then show "drops c (put_sets R P X st) = share c (this st) (graphg (this st))"
    using s(1) su sane new
    by (auto simp: drops_def is_root_sg_def set_this_def share_def holds_def set_up_def sane_def split: if_splits)
qed

text \<open>
  A new task that goes on: it has its candidates, and its own graph, with the reference that it
  holds to it, if it makes one.
\<close>

definition opened :: "config \<Rightarrow> graph \<Rightarrow> state \<Rightarrow> state \<Rightarrow> bool" where
  "opened c g st st' \<longleftrightarrow>
     self st' = self st \<and> spawned st' = spawned st \<and> parent (this st') = parent (this st) \<and>
     pt_hist st' = pt_hist st \<and> \<not> isContinuation (this st') \<and> \<not> newTask (this st') \<and>
     task_ok c g (guards st') (this st') \<and> (\<forall>k. pending c g (this st') k = pending c g (this st) k) \<and>
     weight c g (this st') \<le> weight c g (this st) \<and>
     (let gg = graphg (this st); gg' = graphg (this st') in
      agrees (at gg) (guards st) (guards st') \<and> (\<exists>h. alive gg h 1 (guards st)) \<and> (\<not> makes_graph c (this st) \<longrightarrow> gg' = gg) \<and>
      (if gg' = gg then guards st' = guards st \<and> share c (this st') gg = share c (this st) gg
       else at gg' \<inter> {..<length (guards st)} = {} \<and> share c (this st') gg' = 1 \<and>
         (\<exists>h. alive gg' h 1 (guards st')) \<and> keeps (share c (this st) gg) gg (guards st) (guards st')))"

lemma begin_over:
  assumes sane: "sane c" and su: "set_up c g R P X st" and new: "\<not> isContinuation (this st)" "newTask (this st)"
    and b: "KG.begun g c thr R P X (graphg (this st)) (put_sets R P X st) (None, gg', st1)"
  shows "advanced c g thr st (SafeContinuation, None,
    set_this (\<lambda>t. t\<lparr>isContinuation := True\<rparr>) (set_this (\<lambda>t. t\<lparr>graphg := gg'\<rparr>) st1))"
    (is "advanced c g thr st (SafeContinuation, None, ?st')")
proof -
  let ?gg = "graphg (this st)" and ?st0 = "put_sets R P X st"
  note sg = set_up_graph [OF sane su new(1)]
  have s: "taskSpawnCnt (this st) = 0" "NewGraph (this st) = makes_graph c (this st)"
    "\<And>k. pending c g (this st) k = KG.counted g c (length (to_list R)) (contents P) (contents X) k"
    "weight c g (this st) = 2 * 3 ^ card (contents P) + 1" "ul_inv R"
    and one: "parent (this st) = None \<Longrightarrow> length (to_list R) = 1"
    using su by (simp_all add: set_up_def KG.node_def split: if_splits)
  from b have st1: "st1 = ?st0\<lparr>this := (this ?st0)\<lparr>NewGraph := NewGraph (this ?st0) \<and>
      \<not> (contents P = {} \<and> taskSpawnCnt (this ?st0) = 0)\<rparr>, guards := guards st1, pt_hist := pt_hist st1\<rparr>"
    and G: "agrees (at ?gg) (guards st) (guards st1)" "keeps (share c (this st) ?gg) ?gg (guards st) (guards st1)"
    and gg': "gg' = ?gg \<or> gg' = None" "share c (this st) ?gg = 0 \<Longrightarrow> gg' = ?gg"
    and ad: "adds thr (KG.counted g c (length (to_list R)) (contents P) (contents X)) ?st0 st1"
    and stop: "contents P = {} \<or> size_limit_reached c R"
    unfolding KG.begun_def prod.case option.case sg(2) by (auto simp: set_this_def)
  obtain N G H where st1: "st1 = ?st0\<lparr>this := (this ?st0)\<lparr>NewGraph := N\<rparr>, guards := G, pt_hist := H\<rparr>"
    and N: "N = (NewGraph (this st) \<and> contents P \<noteq> {})"
    using st1 s(1) by (auto simp: set_this_def)
  have f: "self ?st' = self st" "spawned ?st' = spawned st" "parent (this ?st') = parent (this st)"
    "NewGraph (this ?st') = N" "graphg (this ?st') = gg'" "isContinuation (this ?st')" "guards ?st' = guards st1"
    "pt_hist ?st' = pt_hist st1"
    by (simp_all add: st1 set_this_def)
  have root: "\<not> N" if "subgraphBased c = 1"
  proof
    assume "N"
    then have "parent (this st) = None" "contents P \<noteq> {}"
      using that N s(2) by (auto simp: makes_graph_def split: if_splits)
    with stop one have "size_limit_reached c R" "length (to_list R) = 1" by auto
    with sane that s(5) show False by (auto simp: sane_def within_def KG.size_limit_reached_eq)
  qed
  have "task_ok c g (guards ?st') (this ?st')"
    using root N s(2) f by (auto simp: task_ok_def makes_graph_def)
  moreover have "adds thr (KG.counted g c (length (to_list R)) (contents P) (contents X)) st ?st'"
    using ad by (rule adds_cong) (simp_all add: f set_this_def)
  then have "conserves c g thr st None ?st'"
    unfolding conserves_def using s(3) f(6) by (intro exI conjI) (auto simp: pending_def)
  moreover have "share c (this ?st') gg = 0" for gg
    using root f by (auto simp: share_def holds_def split: option.split)
  then have "moves_references c st None ?st'"
    using G gg'(1) f by (auto simp: moves_references_def Let_def)
  moreover have "stays c st None ?st'"
    using gg'(2) f new by (auto simp: stays_def share_def holds_def split: option.splits)
  ultimately show ?thesis using f s(4) by (simp add: advanced_def weight_def)
qed

lemma fresh_iterator:
  assumes "list_set bld cs" and "iter (elems cs) = None"
  shows "iter_inv (elems cs)" and "remaining cs = iteration cs"
  using assms by (auto simp: iter_inv_def iter_pos_def remaining_def list_set_def hs_inv_def)

text \<open>The new task with its candidates, and the graph it has then.\<close>

abbreviation opened_task :: "ulist \<Rightarrow> simple_hash_set \<Rightarrow> simple_hash_set \<Rightarrow> guard_ptr \<Rightarrow> simple_hash_set \<Rightarrow> main_task \<Rightarrow> main_task" where
  "opened_task R P X gg cs t \<equiv> t\<lparr>R_task := Some R, P_task := Some P, X_task := Some X, graphg := gg,
     cand_task := Some cs, newTask := False\<rparr>"

lemma opened_pending:
  assumes su: "set_up c g R P X st" and new: "\<not> isContinuation (this st)"
    and cs: "list_set (target c) cs" "iter (elems cs) = None"
    and u: "u \<in> contents P \<union> contents X" "contents cs = contents P - abs_adj g u"
  shows "pending c g (opened_task R P X gg cs (this st)) k = pending c g (this st) k"
proof -
  have "distinct (iteration cs)" using cs(1) by (simp add: list_set_def)
  note piv = KG.counted_by_pivot [OF finite_set u(1) this u(2)]
  have "pending c g (opened_task R P X gg cs (this st)) k =
    KG.counted_branches g c (length (to_list R)) (contents P) (contents X) (iteration cs) k"
    using new fresh_iterator(2) [OF cs] by (simp add: pending_def rest_cands_def)
  moreover have "pending c g (this st) k = KG.counted g c (length (to_list R)) (contents P) (contents X) k"
    using su by (simp add: set_up_def)
  ultimately show ?thesis unfolding piv by simp
qed

lemma opened_graph:
  assumes sane: "sane c" and su: "set_up c g R P X st" and new: "\<not> isContinuation (this st)"
    and b: "KG.begun g c thr R P X (graphg (this st)) (put_sets R P X st) (Some (Some cs), gg', st1)"
  obtains hh where "st1 = (put_sets R P X st)\<lparr>this := (this (put_sets R P X st))\<lparr>graphg := hh\<rparr>, guards := guards st1\<rparr>"
    "agrees (at (graphg (this st))) (guards st) (guards st1)"
    "keeps (share c (this st) (graphg (this st))) (graphg (this st)) (guards st) (guards st1)"
    "if makes_graph c (this st) then at gg' \<inter> {..<length (guards st)} = {} else gg' = graphg (this st) \<and> guards st1 = guards st"
    "subgraphBased c \<noteq> 0 \<Longrightarrow> gg' \<noteq> Some 0"
proof -
  let ?gg = "graphg (this st)" and ?st0 = "put_sets R P X st"
  note sg = set_up_graph [OF sane su new]
  from b have cr: "KG.created c ?gg ?st0 gg' st1" by (simp add: KG.begun_def)
  then obtain hh where st1: "st1 = ?st0\<lparr>this := (this ?st0)\<lparr>graphg := hh\<rparr>, guards := guards st1\<rparr>"
    unfolding KG.created_def by auto
  have gs: "guards ?st0 = guards st" by (simp add: set_this_def)
  have G: "agrees (at ?gg) (guards st) (guards st1)" "keeps (share c (this st) ?gg) ?gg (guards st) (guards st1)"
    "if makes_graph c (this st) then at gg' \<inter> {..<length (guards st)} = {} else gg' = ?gg \<and> guards st1 = guards st"
    using cr unfolding KG.created_def sg gs by auto
  have "0 < length (guards st)" using su node_alive by (fastforce simp: set_up_def alive_def)
  moreover have "?gg \<noteq> Some 0" if "parent (this st) \<noteq> None" "subgraphBased c \<noteq> 0"
    using su that by (simp add: set_up_def split: if_splits)
  ultimately have "gg' \<noteq> Some 0" if "subgraphBased c \<noteq> 0"
    using that G(3) by (auto simp: makes_graph_def split: if_splits)
  with st1 G show thesis using that by blast
qed

lemma opened_task_ok:
  assumes su: "set_up c g R P X st" and new: "\<not> isContinuation (this st)" "newTask (this st)"
    and b: "KG.begun g c thr R P X (graphg (this st)) (put_sets R P X st) (Some (Some cs), gg', st1)"
    and gg0: "subgraphBased c \<noteq> 0 \<Longrightarrow> gg' \<noteq> Some 0"
  shows "task_ok c g (guards st1) (opened_task R P X gg' cs (this st))"
proof -
  from b have w: "within c (Suc (length (to_list R)))"
    and cs: "list_set (target c) cs" "iter (elems cs) = None"
    and u: "\<exists>u \<in> contents P \<union> contents X. contents cs = contents P - abs_adj g u"
    and nd: "KG.node g c gg' R P X (guards st1)"
    by (simp_all add: KG.begun_def)
  have "in_progress c g (guards st1) (opened_task R P X gg' cs (this st))"
    using nd gg0 w cs fresh_iterator [OF cs] u unfolding in_progress_def by auto
  moreover have "taskLevel (this st) = 0" "NewGraph (this st) = makes_graph c (this st)" using su by (simp_all add: set_up_def)
  ultimately show ?thesis using new by (simp add: task_ok_def makes_graph_def)
qed

lemma opened_share:
  assumes sane: "sane c" and su: "set_up c g R P X st" and new: "\<not> isContinuation (this st)"
    and made: "makes_graph c (this st)" and nd: "KG.node g c gg' R P X G" and gg0: "subgraphBased c \<noteq> 0 \<Longrightarrow> gg' \<noteq> Some 0"
  shows "share c (opened_task R P X gg' cs (this st)) gg' = 1 \<and> (\<exists>h. alive gg' h 1 G)"
proof -
  have "subgraphBased c \<noteq> 0" using made by (auto simp: makes_graph_def split: if_splits)
  then have "gg' \<noteq> Some 0" by (rule gg0)
  moreover obtain h where "alive gg' h 1 G" using node_alive [OF nd] by blast
  moreover from this have "gg' \<noteq> None" by (auto simp: alive_def)
  moreover have "NewGraph (this st) = makes_graph c (this st)" using su by (simp add: set_up_def)
  ultimately show ?thesis
    using sane made new by (auto simp: sane_def share_def holds_def makes_graph_def split: if_splits)
qed

lemma begin_opened:
  assumes sane: "sane c" and su: "set_up c g R P X st" and new: "\<not> isContinuation (this st)" "newTask (this st)"
    and b: "KG.begun g c thr R P X (graphg (this st)) (put_sets R P X st) (Some (Some cs), gg', st1)"
  shows "opened c g st
    (set_this (\<lambda>t. t\<lparr>cand_task := Some cs, newTask := False\<rparr>) (set_this (\<lambda>t. t\<lparr>graphg := gg'\<rparr>) st1))"
    (is "opened c g st ?st'")
proof -
  let ?gg = "graphg (this st)" and ?t = "opened_task R P X gg' cs (this st)"
  obtain hh where st1: "st1 = (put_sets R P X st)\<lparr>this := (this (put_sets R P X st))\<lparr>graphg := hh\<rparr>, guards := guards st1\<rparr>"
    and G: "agrees (at ?gg) (guards st) (guards st1)" "keeps (share c (this st) ?gg) ?gg (guards st) (guards st1)"
      "if makes_graph c (this st) then at gg' \<inter> {..<length (guards st)} = {} else gg' = ?gg \<and> guards st1 = guards st"
    and gg0: "subgraphBased c \<noteq> 0 \<Longrightarrow> gg' \<noteq> Some 0"
    by (rule opened_graph [OF sane su new(1) b]) blast
  have "?st' = (put_sets R P X st)\<lparr>this := ?t, guards := guards st1\<rparr>" by (subst st1) (simp add: set_this_def)
  then have f: "this ?st' = ?t" "self ?st' = self st" "spawned ?st' = spawned st" "pt_hist ?st' = pt_hist st" "guards ?st' = guards st1"
    by (simp_all add: set_this_def)
  from su node_alive obtain h where al: "alive ?gg h 1 (guards st)" unfolding set_up_def by blast
  from b obtain u where cs: "list_set (target c) cs" "iter (elems cs) = None"
    and u: "u \<in> contents P \<union> contents X" "contents cs = contents P - abs_adj g u" and nd: "KG.node g c gg' R P X (guards st1)"
    by (auto simp: KG.begun_def)
  have "weight c g ?t \<le> weight c g (this st)" using su new by (simp add: weight_def set_up_def)
  moreover have "gg' \<noteq> ?gg" if "makes_graph c (this st)" using that G(3) al by (auto simp: alive_def)
  moreover have "share c ?t x = share c ((this st)\<lparr>graphg := gg'\<rparr>) x" for x
    by (cases x) (simp_all add: share_def holds_def)
  then have "share c ?t ?gg = share c (this st) ?gg" "gg' = ?gg" if "\<not> makes_graph c (this st)" using that G(3) by simp_all
  ultimately show ?thesis
    using G al new f opened_task_ok [OF su new b gg0] opened_pending [OF su new(1) cs u, of gg'] opened_share [OF sane su new(1) _ nd gg0, of cs]
    unfolding opened_def Let_def by (cases "makes_graph c (this st)") auto
qed

lemma begin_task_ends:
  assumes sane: "sane c" and inp: "input_ok c g" and ok: "task_ok c g (guards st) (this st)"
    and new: "\<not> isContinuation (this st)" "newTask (this st)"
  shows "ends (target c) (host c) (begin_task c thr st)
    (\<lambda>(over, st'). if over then advanced c g thr st (SafeContinuation, None, st') else opened c g st st')"
proof -
  obtain R P X where e: "enter_task c st = Inr (put_sets R P X st)" and su: "set_up c g R P X st"
    using enter_task_ends [OF inp ok new] by blast
  have "KG.node g c (graphg (this st)) R P X (guards (put_sets R P X st))"
    using su by (simp add: set_up_def set_this_def)
  note start = KG.StartTask_ends [OF this set_up_graph(3) [OF sane su new(1)], of thr]
  show ?thesis
    unfolding begin_task_eq [OF e]
  proof (rule ends_bind [OF start])
    fix s assume b': "KG.begun g c thr R P X (graphg (this st)) (put_sets R P X st) s"
    obtain cand gg' st1 where s: "s = (cand, gg', st1)" by (cases s)
    note b = b' [unfolded s]
    show "ends (target c) (host c) (case s of (cand, gg, st) \<Rightarrow>
      let st = set_this (\<lambda>t. t\<lparr>graphg := gg\<rparr>) st in
       case cand of None \<Rightarrow> Inr (True, set_this (\<lambda>t. t\<lparr>isContinuation := True\<rparr>) st)
       | Some cand \<Rightarrow> Inr (False, set_this (\<lambda>t. t\<lparr>cand_task := cand, newTask := False\<rparr>) st))
      (\<lambda>(over, st'). if over then advanced c g thr st (SafeContinuation, None, st') else opened c g st st')"
    proof (cases cand)
      case None
      with begin_over [OF sane su new, of thr gg' st1] b show ?thesis by (simp add: s)
    next
      case (Some oc)
      with b obtain cs where "oc = Some cs" by (cases oc) (auto simp: KG.begun_def)
      with begin_opened [OF sane su new, of thr cs gg' st1] b Some show ?thesis by (simp add: s)
    qed
  qed
qed


section \<open>One call of execute\<close>

text \<open>References that are moved after the task has made a graph of its own.\<close>

lemma moves_after_creation:
  assumes op: "opened c g st st1" and mv: "moves_references c st1 a st'" and ne: "graphg (this st1) \<noteq> graphg (this st)"
    and kid: "\<And>t. a = Some t \<Longrightarrow> graphg t = graphg (this st')"
  shows "moves_references c st a st'"
proof -
  let ?gg = "graphg (this st)" and ?g1 = "graphg (this st1)" and ?g2 = "graphg (this st')"
  from mv have m: "agrees (at ?g1) (guards st1) (guards st')"
    "keeps (share c (this st1) ?g1 - share c (this st') ?g1 - given c a ?g1) ?g1 (guards st1) (guards st')"
    and m2: "?g2 \<noteq> ?g1 \<Longrightarrow> at ?g2 \<inter> {..<length (guards st1)} = {}"
      "?g2 \<noteq> ?g1 \<Longrightarrow> 0 < share c (this st') ?g2 + given c a ?g2 \<Longrightarrow>
        \<exists>h. alive ?g2 h (share c (this st') ?g2 + given c a ?g2) (guards st')"
    by (simp_all add: moves_references_def Let_def)
  from op ne have o: "agrees (at ?gg) (guards st) (guards st1)" "at ?g1 \<inter> {..<length (guards st)} = {}"
      "share c (this st1) ?g1 = 1" "keeps (share c (this st) ?gg) ?gg (guards st) (guards st1)"
    and al: "\<exists>h. alive ?gg h 1 (guards st)" and al1: "\<exists>h. alive ?g1 h 1 (guards st1)"
    by (simp_all add: opened_def Let_def)
  have "length (guards st) \<le> length (guards st1)" using o(1) by (simp add: agrees_def)
  then have fresh: "at ?g2 \<inter> {..<length (guards st)} = {}" using o(2) m2(1) by (cases "?g2 = ?g1") auto
  then have ne2: "?g2 \<noteq> ?gg" using al by (auto simp: alive_def)
  then have none: "share c (this st') ?gg = 0" "given c a ?gg = 0"
    using kid by (auto simp: share_def holds_def split: option.split)
  have "agrees (at ?gg) (guards st) (guards st')" by (rule agrees_trans [OF o(1) m(1)]) (use o(2) in auto)
  moreover have "keeps 0 ?gg (guards st1) (guards st')" by (rule keeps_agrees [OF m(1)]) (use ne in auto)
  from keeps_trans [OF o(4) this] none
  have "keeps (share c (this st) ?gg - share c (this st') ?gg - given c a ?gg) ?gg (guards st) (guards st')" by simp
  moreover have "\<exists>h. alive ?g2 h (share c (this st') ?g2 + given c a ?g2) (guards st')"
    if pos: "0 < share c (this st') ?g2 + given c a ?g2"
  proof (cases "?g2 = ?g1")
    case True
    from al1 obtain h where "alive ?g1 h 1 (guards st1)" by blast
    from keepsD [OF m(2) this] pos o(3) show ?thesis unfolding True by (auto simp: algebra_simps)
  qed (use m2(2) pos in blast)
  ultimately show ?thesis using ne2 fresh by (simp add: moves_references_def Let_def)
qed

lemma opened_advanced:
  assumes new: "newTask (this st)" and op: "opened c g st st1" and adv: "advanced c g thr st1 (r, a, st')"
  shows "advanced c g thr st (r, a, st')"
proof -
  from op have o: "self st1 = self st" "spawned st1 = spawned st" "parent (this st1) = parent (this st)"
    "pt_hist st1 = pt_hist st" "\<And>k. pending c g (this st1) k = pending c g (this st) k"
    "weight c g (this st1) \<le> weight c g (this st)" "\<not> newTask (this st1)"
    by (simp_all add: opened_def Let_def)
  from adv have a: "self st' = self st1" "spawned st' = spawned st1" "parent (this st') = parent (this st1)"
    "conserves c g thr st1 a st'" "moves_references c st1 a st'"
    "weight c g (this st') + given_weight c g a < weight c g (this st1)"
    and kid: "\<And>t. a = Some t \<Longrightarrow> graphg t = graphg (this st')"
    by (simp_all add: advanced_def)
  obtain f where "adds thr f st1 st'" "\<forall>k. f k + pending c g (this st') k +
     (case a of None \<Rightarrow> 0 | Some t \<Rightarrow> pending c g t k) = pending c g (this st) k"
    using a(4) by (auto simp: conserves_def o(5))
  moreover from this(1) have "adds thr f st st'" by (rule adds_cong) (simp_all add: o)
  ultimately have cons: "conserves c g thr st a st'" by (auto simp: conserves_def)
  have "moves_references c st a st'"
  proof (cases "graphg (this st1) = graphg (this st)")
    case True
    then have "guards st1 = guards st" "share c (this st1) (graphg (this st)) = share c (this st) (graphg (this st))"
      using op by (simp_all add: opened_def Let_def)
    with True a(5) show ?thesis by (simp add: moves_references_def)
  qed (rule moves_after_creation [OF op a(5) _ kid])
  moreover have "\<not> makes_graph c (this st)" if "subgraphBased c = 0 \<or> subgraphBased c = 1 \<and> parent (this st) \<noteq> None"
    using that by (auto simp: makes_graph_def)
  then have "stays c st a st'" using adv op new o(7) by (auto simp: advanced_def stays_def opened_def Let_def)
  ultimately show ?thesis using adv o a cons by (simp add: advanced_def)
qed

lemma SpawnTask_ends:
  assumes sane: "sane c" and inp: "input_ok c g" and ok: "task_ok c g (guards st) (this st)"
    and active: "\<not> isContinuation (this st)"
  shows "ends (target c) (host c) (SpawnTask c thr st) (advanced c g thr st)"
proof (cases "newTask (this st)")
  case True
  note new = this
  show ?thesis
    unfolding SpawnTask_def if_P [OF True]
  proof (rule ends_bind [OF begin_task_ends [OF sane inp ok active True]])
    fix s assume s': "case s of (over, st') \<Rightarrow> if over then advanced c g thr st (SafeContinuation, None, st')
      else opened c g st st'"
    obtain over st1 where s: "s = (over, st1)" by (cases s)
    show "ends (target c) (host c) (case s of (over, st) \<Rightarrow>
      if over then Inr (SafeContinuation, None, st) else loop_once c thr st) (advanced c g thr st)"
    proof (cases over)
      case True
      with s' s show ?thesis by simp
    next
      case False
      with s' s have op: "opened c g st st1" by simp
      then have "task_ok c g (guards st1) (this st1)" "\<not> isContinuation (this st1)" "\<not> newTask (this st1)"
        by (simp_all add: opened_def)
      note loop = loop_once_ends [OF sane this, of thr]
      have "ends (target c) (host c) (loop_once c thr st1) (advanced c g thr st)"
        using opened_advanced [OF new op] by (intro ends_mono [OF loop]) auto
      with False s show ?thesis by simp
    qed
  qed
next
  case False
  with loop_once_ends [OF sane ok active] show ?thesis by (simp add: SpawnTask_def)
qed

text \<open>A task that comes back as its own continuation gives up its reference and is done.\<close>

definition retired :: "config \<Rightarrow> state \<Rightarrow> recycle \<times> main_task option \<times> state \<Rightarrow> bool" where
  "retired c st = (\<lambda>(r, a, st').
     r = Finished \<and> a = None \<and> spawned st' = spawned st \<and> parent (this st') = parent (this st) \<and> pt_hist st' = pt_hist st \<and>
     agrees (at (graphg (this st))) (guards st) (guards st') \<and>
     keeps (share c (this st) (graphg (this st))) (graphg (this st)) (guards st) (guards st'))"

lemma Continuation_ends:
  assumes ok: "task_ok c g (guards st) (this st)" and cont: "isContinuation (this st)"
  shows "ends (target c) (host c) (bind_result (Continuation c st) (\<lambda>st. Inr (Finished, None, st))) (retired c st)"
proof (cases "subgraphBased c = 1 \<and> NewGraph (this st)")
  case True
  with ok cont obtain h where al: "alive (graphg (this st)) h 1 (guards st)" and "graphg (this st) \<noteq> Some 0"
    and "parent (this st) = None"
    by (auto simp: task_ok_def makes_graph_def split: if_splits)
  then have "share c (this st) (graphg (this st)) = 1"
    using True by (auto simp: share_def holds_def alive_def)
  moreover obtain gg' G where "dec_graph_ref_count (graphg (this st)) st = Inr (gg', st\<lparr>guards := G\<rparr>)"
    "agrees (at (graphg (this st))) (guards st) G" "keeps 1 (graphg (this st)) (guards st) G"
    using dec_alive [OF al] by blast
  ultimately show ?thesis using True by (simp add: Continuation_def retired_def set_this_def)
next
  case False
  then show ?thesis using share_bounds by (auto simp: Continuation_def retired_def)
qed

lemma execute_ends:
  assumes "sane c" and "input_ok c g" and "task_ok c g (guards st) (this st)"
  shows "ends (target c) (host c) (execute c thr st)
    (if isContinuation (this st) then retired c st else advanced c g thr st)"
  using SpawnTask_ends [OF assms, of thr] Continuation_ends [OF assms(3)]
  by (simp add: execute_def)

end
