(* ===== verification/Scheduler.thy ===== *)
theory Scheduler
  imports Execute
begin

text \<open>
  All tasks of a run: the root iteration of \<^verbatim>\<open>src/BKTask.cpp\<close>, and the tasks that
  \<open>execute\<close> recycles, waits for or finishes, in every order a scheduler may choose.
\<close>

section \<open>State\<close>

text \<open>
  A slot is a task with its count of references, as the scheduler keeps it: the task can be
  executed, waits for its children, or is gone.  Of the task that iterates over the roots only its
  count of references is of interest.
\<close>

datatype phase = Ready | Waiting | Gone

record slot =
  job :: main_task
  refs :: int
  phase_of :: phase

record world =
  slots :: "slot list"
  guard_table :: "graph_guard option list"
  hists :: "nat \<Rightarrow> nat \<Rightarrow> nat option"
  root_refs :: int
  failure :: "error option"

definition new_slot :: "main_task \<Rightarrow> slot" where
  "new_slot t = \<lparr>job = t, refs = 0, phase_of = Ready\<rparr>"

section \<open>The root iteration\<close>

text \<open>
  \<open>RootIterBKTask::SpawnTask\<close>: one task per position of the vertex ordering.  The count of references
  is the number of vertices and one, less the one of the task itself, which is recycled as a
  continuation.
\<close>

definition spawn_root :: "config \<Rightarrow> graph \<Rightarrow> guard_ptr \<Rightarrow> nat \<Rightarrow> main_task list \<Rightarrow> main_task list result" where
  "spawn_root c g gg i ts =
     bind_result (getMappedNode g i) (\<lambda>v. Inr (ts @ [MainBKTask_root v gg (subgraphBased c \<noteq> 0)]))"

definition RootIter_SpawnTask :: "config \<Rightarrow> graph \<Rightarrow> guard_ptr \<Rightarrow> (int \<times> main_task list) result" where
  "RootIter_SpawnTask c g gg =
     (let n = 1 + nodeNo g in
      bind_result (fold_result (spawn_root c g gg) [0..<nat (nodeNo g)] []) (\<lambda>ts. Inr (n - 1, ts)))"

text \<open>\<open>Graph::BronKerboschDegeneracy\<close>: a guard for the graph and the root iteration.\<close>

definition BronKerboschDegeneracy :: "config \<Rightarrow> graph \<Rightarrow> world result" where
  "BronKerboschDegeneracy c g =
     bind_result (RootIter_SpawnTask c g (Some 0)) (\<lambda>(n, ts).
       Inr \<lparr>slots = map new_slot ts, guard_table = [Some \<lparr>guarded = g, ref_count = 1\<rparr>],
            hists = (\<lambda>_ _. None), root_refs = n, failure = None\<rparr>)"

section \<open>Steps\<close>

text \<open>The call of \<open>execute\<close> on a slot.\<close>

definition call :: "nat \<Rightarrow> world \<Rightarrow> state" where
  "call p w = \<lparr>this = job (slots w ! p), self = p, guards = guard_table w, pt_hist = hists w, spawned = []\<rparr>"

text \<open>
  The count of references after the call: \<open>set_ref_count(1)\<close> for a new task, one more for every
  child, one less when the task is recycled as a safe continuation, which then waits until the
  count is zero.
\<close>

definition recount :: "slot \<Rightarrow> main_task list \<Rightarrow> int" where
  "recount s new = (if newTask (job s) \<and> \<not> isContinuation (job s) then 1 else refs s) + int (length new)"

text \<open>
  A task that called \<open>recycle_to_reexecute\<close> is ready again, with or without a child; the task library asks for a
  returned task in this case, and the code does not always return one.
\<close>

definition recycled :: "recycle \<Rightarrow> main_task \<Rightarrow> int \<Rightarrow> slot" where
  "recycled r t n =
     (case r of Reexecute \<Rightarrow> \<lparr>job = t, refs = n, phase_of = Ready\<rparr>
      | SafeContinuation \<Rightarrow> \<lparr>job = t, refs = n - 1, phase_of = (if n - 1 = 0 then Ready else Waiting)\<rparr>
      | Finished \<Rightarrow> \<lparr>job = t, refs = n, phase_of = Gone\<rparr>)"

text \<open>A task that is done gives up the reference to its parent, which may become ready.\<close>

definition dec_refs :: "slot \<Rightarrow> slot" where
  "dec_refs s = s\<lparr>refs := refs s - 1,
     phase_of := if phase_of s = Waiting \<and> refs s - 1 = 0 then Ready else phase_of s\<rparr>"

definition release :: "nat option \<Rightarrow> world \<Rightarrow> world" where
  "release p w =
     (case p of None \<Rightarrow> w\<lparr>root_refs := root_refs w - 1\<rparr>
      | Some q \<Rightarrow> w\<lparr>slots := (slots w)[q := dec_refs (slots w ! q)]\<rparr>)"

definition settle :: "nat \<Rightarrow> recycle \<times> main_task option \<times> state \<Rightarrow> world \<Rightarrow> world" where
  "settle p x w = (case x of (r, a, st) \<Rightarrow>
     let new = spawned st @ (case a of None \<Rightarrow> [] | Some t \<Rightarrow> [t]);
         w = w\<lparr>slots := (slots w)[p := recycled r (this st) (recount (slots w ! p) new)] @ map new_slot new,
               guard_table := guards st, hists := pt_hist st\<rparr>
     in if r = Finished then release (parent (this st)) w else w)"

text \<open>Any worker thread may execute any task that is ready; an error ends the run.\<close>

inductive step :: "config \<Rightarrow> nat \<Rightarrow> world \<Rightarrow> world \<Rightarrow> bool" for c nthr where
  run: "\<lbrakk>failure w = None; p < length (slots w); phase_of (slots w ! p) = Ready; thr < nthr;
      execute c thr (call p w) = Inr x\<rbrakk> \<Longrightarrow> step c nthr w (settle p x w)"
| fail: "\<lbrakk>failure w = None; p < length (slots w); phase_of (slots w ! p) = Ready; thr < nthr;
      execute c thr (call p w) = Inl er\<rbrakk> \<Longrightarrow> step c nthr w (w\<lparr>failure := Some er\<rparr>)"

inductive_cases stepE: "step c nthr w w'"

section \<open>Totals over the tasks that are not gone\<close>

definition live :: "slot \<Rightarrow> bool" where
  "live s \<longleftrightarrow> phase_of s \<noteq> Gone"

definition total :: "(main_task \<Rightarrow> int) \<Rightarrow> slot list \<Rightarrow> int" where
  "total f ss = (\<Sum>s \<leftarrow> ss. if live s then f (job s) else 0)"

lemma total_simps [simp]:
  "total f [] = 0"
  "total f (ss @ ss') = total f ss + total f ss'"
  "total f (map new_slot ts) = (\<Sum>t \<leftarrow> ts. f t)"
  by (simp_all add: total_def new_slot_def live_def comp_def)

lemma total_update:
  assumes "p < length ss"
  shows "total f (ss[p := s]) = total f ss - (if live (ss ! p) then f (job (ss ! p)) else 0) + (if live s then f (job s) else 0)"
  using assms
proof (induction ss arbitrary: p)
  case (Cons s' ss)
  then show ?case by (cases p) (simp_all add: total_def)
qed simp

lemma total_member:
  assumes "p < length ss" and "live (ss ! p)" and "\<And>t. 0 \<le> f t"
  shows "f (job (ss ! p)) \<le> total f ss"
  using assms
proof (induction ss arbitrary: p)
  case (Cons s ss)
  have "0 \<le> total f ss" unfolding total_def using Cons.prems(3) by (intro sum_list_nonneg) auto
  with Cons show ?case by (cases p) (auto simp: total_def intro: add_increasing)
qed simp

lemma total_two:
  assumes "p < length ss" "live (ss ! p)" and "q < length ss" "live (ss ! q)" and "p \<noteq> q" and "\<And>t. 0 \<le> f t"
  shows "f (job (ss ! p)) + f (job (ss ! q)) \<le> total f ss"
proof -
  let ?ss = "ss[p := (ss ! p)\<lparr>phase_of := Gone\<rparr>]"
  have "f (job (?ss ! q)) \<le> total f ?ss" using assms by (intro total_member) simp_all
  then show ?thesis using assms by (simp add: total_update live_def)
qed

lemma total_zero:
  assumes "total f ss = 0" and "\<And>t. 0 \<le> f t" and "s \<in> set ss" and "live s"
  shows "f (job s) = 0"
proof -
  obtain p where "p < length ss" "ss ! p = s" using assms(3) by (auto simp: in_set_conv_nth)
  with total_member [of p ss f] assms show ?thesis by (simp add: order_antisym)
qed

lemma total_nonneg: "(\<And>t. 0 \<le> f t) \<Longrightarrow> 0 \<le> total f ss"
  unfolding total_def by (intro sum_list_nonneg) auto

lemma total_pos:
  assumes "0 < total f ss"
  shows "\<exists>p < length ss. live (ss ! p) \<and> 0 < f (job (ss ! p))"
proof (rule ccontr)
  assume "\<not> ?thesis"
  then have "\<forall>x \<in> set (map (\<lambda>s. if live s then f (job s) else 0) ss). x \<le> 0"
    by (fastforce simp: in_set_conv_nth not_less)
  then have "total f ss \<le> 0" unfolding total_def by (intro sum_list_nonpos) auto
  with assms show False by simp
qed


section \<open>Worlds in order\<close>

definition users :: "config \<Rightarrow> slot list \<Rightarrow> nat \<Rightarrow> int" where
  "users c ss i = total (\<lambda>t. share c t (Some i)) ss"

definition kids :: "slot list \<Rightarrow> nat \<Rightarrow> int" where
  "kids ss p = total (\<lambda>t. of_bool (parent t = Some p)) ss"

definition orphans :: "slot list \<Rightarrow> int" where
  "orphans ss = total (\<lambda>t. of_bool (parent t = None)) ss"

text \<open>
  A live slot: its task is in order and knows its place, and its count of references is the number
  of its live children, and one until it has been recycled as a continuation.
\<close>

definition linked :: "config \<Rightarrow> slot list \<Rightarrow> nat \<Rightarrow> bool" where
  "linked c ss p \<longleftrightarrow> (\<forall>q. parent (job (ss ! p)) = Some q \<longrightarrow> q < p \<and> live (ss ! q) \<and>
     (subgraphBased c = 1 \<longrightarrow> graphg (job (ss ! q)) = graphg (job (ss ! p))))"

definition marked :: "config \<Rightarrow> main_task \<Rightarrow> bool" where
  "marked c t \<longleftrightarrow> NewGraph t = makes_graph c t"

definition counts_ok :: "config \<Rightarrow> int \<Rightarrow> slot \<Rightarrow> bool" where
  "counts_ok c n s \<longleftrightarrow>
     refs s = n + of_bool (\<not> isContinuation (job s) \<and> \<not> newTask (job s)) \<and>
     (newTask (job s) \<and> \<not> isContinuation (job s) \<longrightarrow> n = 0) \<and>
     (phase_of s = Waiting \<longleftrightarrow> isContinuation (job s) \<and> n \<noteq> 0) \<and>
     (subgraphBased c = 0 \<longrightarrow> graphg (job s) = Some 0) \<and>
     (n \<noteq> 0 \<longrightarrow> marked c (job s))"

definition slot_ok :: "config \<Rightarrow> graph \<Rightarrow> graph_guard option list \<Rightarrow> slot list \<Rightarrow> nat \<Rightarrow> bool" where
  "slot_ok c g G ss p \<longleftrightarrow> task_ok c g G (job (ss ! p)) \<and> counts_ok c (kids ss p) (ss ! p) \<and> linked c ss p"

definition world_ok :: "config \<Rightarrow> graph \<Rightarrow> world \<Rightarrow> bool" where
  "world_ok c g w \<longleftrightarrow>
     alive (Some 0) g 1 (guard_table w) \<and>
     (\<forall>i. i \<noteq> 0 \<longrightarrow> 0 < users c (slots w) i \<longrightarrow> (\<exists>h. alive (Some i) h (users c (slots w) i) (guard_table w))) \<and>
     (\<forall>p < length (slots w). live (slots w ! p) \<longrightarrow> slot_ok c g (guard_table w) (slots w) p) \<and>
     root_refs w = orphans (slots w)"

lemma kids_member: "p < length ss \<Longrightarrow> live (ss ! p) \<Longrightarrow> parent (job (ss ! p)) = Some q \<Longrightarrow> 1 \<le> kids ss q"
  using total_member [of p ss "\<lambda>t. of_bool (parent t = Some q)"] by (simp add: kids_def)

lemma kids_nonneg: "0 \<le> kids ss q"
  unfolding kids_def by (intro total_nonneg) simp

lemma users_nonneg: "0 \<le> users c ss i"
  unfolding users_def by (intro total_nonneg) (simp add: share_bounds)

lemma kids_beyond:
  assumes "\<And>p. p < length ss \<Longrightarrow> live (ss ! p) \<Longrightarrow> linked c ss p" and "length ss \<le> q"
  shows "kids ss q = 0"
proof (rule ccontr)
  assume "kids ss q \<noteq> 0"
  then have "0 < kids ss q" using kids_nonneg [of ss q] by simp
  then obtain p where "p < length ss" "live (ss ! p)" "parent (job (ss ! p)) = Some q"
    unfolding kids_def by (auto dest: total_pos split: if_splits)
  with assms show False by (fastforce simp: linked_def)
qed

text \<open>
  A task that needs its graph, and any task with children, is backed by a reference: its own, or,
  when only the root tasks make graphs, that of the root task above it.
\<close>

definition needs :: "config \<Rightarrow> main_task \<Rightarrow> bool" where
  "needs c t \<longleftrightarrow> \<not> isContinuation t \<or> subgraphBased c = 1 \<and> NewGraph t"

lemma backed:
  assumes sane: "sane c" and all: "\<And>p. p < length ss \<Longrightarrow> live (ss ! p) \<Longrightarrow> slot_ok c g G ss p"
    and "p < length ss" "live (ss ! p)" "graphg (job (ss ! p)) = Some i" "i \<noteq> 0"
    and "needs c (job (ss ! p)) \<or> subgraphBased c = 1 \<and> kids ss p \<noteq> 0"
  shows "\<exists>q < length ss. live (ss ! q) \<and> holds c (job (ss ! q)) i \<and> (q = p \<or> subgraphBased c = 1 \<and> kids ss q \<noteq> 0)"
  using assms(3-)
proof (induction p rule: less_induct)
  case (less p)
  let ?t = "job (ss ! p)"
  from all [OF less.prems(1,2)] have ok: "task_ok c g G ?t" "counts_ok c (kids ss p) (ss ! p)" "linked c ss p"
    by (simp_all add: slot_ok_def)
  consider "subgraphBased c = 0" | "subgraphBased c = 1" | "1 < subgraphBased c"
    using sane by (fastforce simp: sane_def)
  then show ?case
  proof cases
    case 1
    with ok(2) less.prems(3,4) show ?thesis by (simp add: counts_ok_def)
  next
    case 3
    with less.prems have "holds c ?t i" by (simp add: holds_def needs_def)
    with less.prems show ?thesis by blast
  next
    case one: 2
    show ?thesis
    proof (cases "parent ?t")
      case None
      have "NewGraph ?t"
      proof (cases "isContinuation ?t \<and> kids ss p = 0")
        case True
        with less.prems(5) show ?thesis by (auto simp: needs_def)
      next
        case False
        then have "marked c ?t" using ok task_ok_marked by (auto simp: counts_ok_def marked_def)
        with None one show ?thesis by (simp add: marked_def makes_graph_def)
      qed
      with None one less.prems show ?thesis by (auto simp: holds_def)
    next
      case (Some q)
      with ok(3) one less.prems(3) have q: "q < p" "live (ss ! q)" "graphg (job (ss ! q)) = Some i"
        by (simp_all add: linked_def)
      have "1 \<le> kids ss q" using kids_member [OF less.prems(1,2) Some] .
      then have "kids ss q \<noteq> 0" by simp
      with less.IH [OF q(1) _ q(2,3) less.prems(4)] q(1) less.prems(1) one obtain r where
        "r < length ss" "live (ss ! r)" "holds c (job (ss ! r)) i" "r = q \<or> kids ss r \<noteq> 0" by auto
      with \<open>kids ss q \<noteq> 0\<close> one show ?thesis by blast
    qed
  qed
qed

section \<open>A guard outlives the step of another task\<close>

lemma share_pos: "0 < share c t gg \<longleftrightarrow> (\<exists>i. gg = Some i \<and> holds c t i)"
  by (cases gg) (simp_all add: share_def)

lemma task_ok_kept:
  assumes "task_ok c g G t" and "needs c t \<Longrightarrow> \<forall>h. alive (graphg t) h 1 G \<longrightarrow> alive (graphg t) h 1 G'"
  shows "task_ok c g G' t"
proof (cases "needs c t")
  case True
  with assms show ?thesis by (intro task_ok_mono [OF assms(1)]) blast
next
  case False
  with assms(1) show ?thesis by (auto simp: needs_def task_ok_def)
qed

text \<open>
  The step of the task in slot \<open>p\<close> takes \<open>d\<close> references of its guard.  It keeps those of the other
  tasks, if a root task that has children keeps its own.
\<close>

lemma guard_kept:
  assumes sane: "sane c" and ok: "world_ok c g w" and p: "p < length (slots w)" "live (slots w ! p)"
    and gg: "gg = graphg (job (slots w ! p))"
    and ag: "agrees (at gg) (guard_table w) G" and kp: "keeps d gg (guard_table w) G"
    and d: "d \<le> share c (job (slots w ! p)) gg"
      "subgraphBased c = 1 \<Longrightarrow> kids (slots w) p \<noteq> 0 \<Longrightarrow> d \<le> 0"
    and q: "q < length (slots w)" "live (slots w ! q)" "q \<noteq> p" "needs c (job (slots w ! q))"
    and al: "alive (graphg (job (slots w ! q))) h 1 (guard_table w)"
  shows "alive (graphg (job (slots w ! q))) h 1 G"
proof (cases "graphg (job (slots w ! q)) = gg")
  case False
  then show ?thesis using agrees_alive [OF ag al] by auto
next
  case same: True
  show ?thesis
  proof (cases "d \<le> 0")
    case True
    then have "alive gg h (1 - d) G" using keepsD [OF kp, of h 1] al same by simp
    then show ?thesis using True same alive_le by auto
  next
    case pos: False
    then have "0 < share c (job (slots w ! p)) gg" using d(1) by simp
    then obtain i where i: "gg = Some i" "holds c (job (slots w ! p)) i" by (auto simp: share_pos)
    then have "i \<noteq> 0" by (simp add: holds_def)
    note i = i(1) this i(2)
    from ok have all: "\<And>p. p < length (slots w) \<Longrightarrow> live (slots w ! p) \<Longrightarrow> slot_ok c g (guard_table w) (slots w) p"
      by (simp add: world_ok_def)
    obtain r where r: "r < length (slots w)" "live (slots w ! r)" "holds c (job (slots w ! r)) i"
        "r = q \<or> subgraphBased c = 1 \<and> kids (slots w) r \<noteq> 0"
      using backed [OF sane all q(1,2), of i] same i q(4) by auto
    have "r \<noteq> p" using r(4) q(3) d(2) pos by auto
    then have "share c (job (slots w ! r)) gg + share c (job (slots w ! p)) gg \<le> users c (slots w) i"
      using total_two [OF r(1,2) p, of "\<lambda>t. share c t gg"] by (simp add: users_def i share_bounds)
    then have u: "1 + d \<le> users c (slots w) i" using r(3) d(1) i by (simp add: share_def)
    then have "0 < users c (slots w) i" using pos by simp
    then obtain h' where "alive gg h' (users c (slots w) i) (guard_table w)"
      using ok i by (auto simp: world_ok_def)
    from keepsD [OF kp this] u have "alive gg h' (users c (slots w) i - d) G" by simp
    then have "alive gg h' 1 G" by (rule alive_le) (use u in simp)
    moreover have "h' = h" using alive_same [of gg h 1 "guard_table w" h'] al same \<open>alive gg h' (users c (slots w) i) (guard_table w)\<close>
      by auto
    ultimately show ?thesis using same by simp
  qed
qed


section \<open>The step of a task that goes on\<close>

abbreviation made :: "main_task option \<Rightarrow> main_task list" where
  "made a \<equiv> (case a of None \<Rightarrow> [] | Some t \<Rightarrow> [t])"

text \<open>The slots after the step, for a task that is not done.\<close>

definition moved :: "nat \<Rightarrow> recycle \<Rightarrow> main_task \<Rightarrow> main_task option \<Rightarrow> slot list \<Rightarrow> slot list" where
  "moved p r t a ss = ss[p := recycled r t (recount (ss ! p) (made a))] @ map new_slot (made a)"

lemma recycled_live:
  "r \<noteq> Finished \<Longrightarrow> live (recycled r t n)" "job (recycled r t n) = t"
  by (cases r; simp add: recycled_def live_def)+

lemma total_moved:
  assumes "r \<noteq> Finished" and "p < length ss" and "live (ss ! p)"
  shows "total f (moved p r t a ss) = total f ss - f (job (ss ! p)) + f t + (\<Sum>u \<leftarrow> made a. f u)"
  using assms by (simp add: moved_def total_update recycled_live)

lemma moved_nth:
  assumes "p < length ss"
  shows "length (moved p r t a ss) = length ss + length (made a)"
    "moved p r t a ss ! p = recycled r t (recount (ss ! p) (made a))"
    "q < length ss \<Longrightarrow> q \<noteq> p \<Longrightarrow> moved p r t a ss ! q = ss ! q"
    "a = Some u \<Longrightarrow> moved p r t a ss ! length ss = new_slot u"
  using assms by (simp_all add: moved_def nth_append)

lemma share_advanced:
  assumes sane: "sane c" and adv: "advanced c g thr st (r, a, st')" and act: "\<not> isContinuation (this st)"
    and ok: "task_ok c g (guards st) (this st)" and gg: "graphg (this st) = Some i" "i \<noteq> 0"
    and none: "share c (this st) (Some i) = 0"
  shows "share c (this st') (Some i) + given c a (Some i) = 0"
proof -
  have mg: "NewGraph (this st) = makes_graph c (this st)" using task_ok_marked [OF ok act] .
  have par: "parent (this st') = parent (this st)" and ok': "NewGraph (this st') \<longrightarrow> makes_graph c (this st')"
    and kid: "\<And>t. a = Some t \<Longrightarrow> parent t \<noteq> None"
    using adv by (auto simp: advanced_def task_ok_def)
  have no: "\<not> holds c (this st) i" using none by (simp add: share_def)
  then have "\<not> holds c (this st') i" and "\<not> holds c t i" if "a = Some t" for t
    using sane act gg mg par ok' kid [OF that] by (auto simp: holds_def sane_def makes_graph_def split: if_splits)
  moreover have "\<not> holds c (this st') i"
    using no sane act gg mg par ok' by (auto simp: holds_def sane_def makes_graph_def split: if_splits)
  ultimately show ?thesis by (auto simp: share_def split: option.split)
qed

lemma users_moved_sum:
  assumes adv: "advanced c g thr (call p w) (r, a, st')" and p: "p < length (slots w)" "live (slots w ! p)"
  shows "users c (moved p r (this st') a (slots w)) i =
    users c (slots w) i - share c (job (slots w ! p)) (Some i) + share c (this st') (Some i) + given c a (Some i)"
proof -
  have "r \<noteq> Finished" using adv by (auto simp: advanced_def)
  from total_moved [OF this p] show ?thesis by (simp add: users_def split: option.split)
qed

lemma share_users:
  assumes "p < length (slots w)" and "live (slots w ! p)"
  shows "share c (job (slots w ! p)) (Some i) \<le> users c (slots w) i"
  using total_member [OF assms, of "\<lambda>t. share c t (Some i)"] by (simp add: users_def share_bounds)

text \<open>The graph guard the task had when it was called keeps the users that are left.\<close>

lemma users_moved_kept:
  assumes sane: "sane c" and adv: "advanced c g thr (call p w) (r, a, st')" and ok: "world_ok c g w"
    and p: "p < length (slots w)" "live (slots w ! p)" and act: "\<not> isContinuation (job (slots w ! p))"
    and i: "i \<noteq> 0" "0 < users c (moved p r (this st') a (slots w)) i" and at: "graphg (job (slots w ! p)) = Some i"
  shows "\<exists>h. alive (Some i) h (users c (moved p r (this st') a (slots w)) i) (guards st')"
proof -
  let ?t = "job (slots w ! p)" and ?u = "users c (slots w) i"
  let ?u' = "users c (moved p r (this st') a (slots w)) i"
  have c: "this (call p w) = ?t" "guards (call p w) = guard_table w" by (simp_all add: call_def)
  note u' = users_moved_sum [OF adv p, of i] and le = share_users [OF p, of c i]
  from adv at have m:
    "keeps (share c ?t (Some i) - share c (this st') (Some i) - given c a (Some i)) (Some i) (guard_table w) (guards st')"
    by (simp add: advanced_def moves_references_def Let_def c)
  have tok: "task_ok c g (guards (call p w)) (this (call p w))" using ok p by (simp add: world_ok_def slot_ok_def c)
  have "0 < ?u"
  proof (rule ccontr)
    assume "\<not> 0 < ?u"
    then have "?u = 0" "share c ?t (Some i) = 0" using le users_nonneg [of c "slots w" i] share_bounds(1) [of c ?t "Some i"] by simp_all
    with share_advanced [OF sane adv _ tok _ i(1)] at act u' i(2) c(1) show False by simp
  qed
  then obtain h where "alive (Some i) h ?u (guard_table w)" using ok i(1) by (auto simp: world_ok_def)
  moreover have e: "?u' = ?u - (share c ?t (Some i) - share c (this st') (Some i) - given c a (Some i))"
    using u' by simp
  ultimately have "alive (Some i) h ?u' (guards st')"
    unfolding e using i(2) u' by (intro keepsD [OF m]) simp_all
  then show ?thesis ..
qed

lemma users_moved:
  assumes sane: "sane c" and adv: "advanced c g thr (call p w) (r, a, st')" and ok: "world_ok c g w"
    and p: "p < length (slots w)" "live (slots w ! p)" and act: "\<not> isContinuation (job (slots w ! p))"
    and i: "i \<noteq> 0" "0 < users c (moved p r (this st') a (slots w)) i"
  shows "\<exists>h. alive (Some i) h (users c (moved p r (this st') a (slots w)) i) (guards st')"
proof -
  let ?t = "job (slots w ! p)" and ?gg' = "graphg (this st')" and ?u = "users c (slots w) i"
  let ?u' = "users c (moved p r (this st') a (slots w)) i"
  have c: "this (call p w) = ?t" "guards (call p w) = guard_table w" by (simp_all add: call_def)
  have kid: "\<And>t. a = Some t \<Longrightarrow> graphg t = ?gg'" using adv by (auto simp: advanced_def)
  note u' = users_moved_sum [OF adv p, of i]
  from adv have m: "agrees (at (graphg ?t)) (guard_table w) (guards st')"
    and m2: "?gg' \<noteq> graphg ?t \<Longrightarrow> at ?gg' \<inter> {..<length (guard_table w)} = {}"
      "?gg' \<noteq> graphg ?t \<Longrightarrow> 0 < share c (this st') ?gg' + given c a ?gg' \<Longrightarrow>
        \<exists>h. alive ?gg' h (share c (this st') ?gg' + given c a ?gg') (guards st')"
    by (simp_all add: advanced_def moves_references_def Let_def c)
  from ok i(1) have al: "0 < ?u \<Longrightarrow> \<exists>h. alive (Some i) h ?u (guard_table w)" by (simp add: world_ok_def)
  show ?thesis
  proof (cases "graphg ?t = Some i")
    case True
    with users_moved_kept [OF assms] show ?thesis by blast
  next
    case False
    then have s0: "share c ?t (Some i) = 0" by (simp add: share_def holds_def)
    show ?thesis
    proof (cases "?gg' = Some i")
      case True
      with False have ne: "?gg' \<noteq> graphg ?t" by simp
      have "?u = 0"
      proof (rule ccontr)
        assume "?u \<noteq> 0"
        then obtain h where "alive (Some i) h ?u (guard_table w)" using al users_nonneg [of c "slots w" i] by force
        then have "i < length (guard_table w)" by (auto simp: alive_def)
        with m2(1) [OF ne] True show False by auto
      qed
      with m2(2) [OF ne, unfolded True] u' i(2) s0 show ?thesis by simp
    next
      case no: False
      then have "share c (this st') (Some i) = 0" "given c a (Some i) = 0"
        using kid by (auto simp: share_def holds_def split: option.split)
      then have "?u' = ?u" using u' s0 by simp
      with al i(2) obtain h where "alive (Some i) h ?u (guard_table w)" by auto
      from agrees_alive [OF m this] False \<open>?u' = ?u\<close> show ?thesis by auto
    qed
  qed
qed


text \<open>The counts of the tasks and their links.\<close>

lemma kids_moved:
  assumes "advanced c g thr (call p w) (r, a, st')" and "p < length (slots w)" "live (slots w ! p)"
  shows "kids (moved p r (this st') a (slots w)) q = kids (slots w) q + (if q = p \<and> a \<noteq> None then 1 else 0)"
proof -
  from assms(1) have r: "r \<noteq> Finished" and par: "parent (this st') = parent (job (slots w ! p))"
    "\<And>t. a = Some t \<Longrightarrow> parent t = Some p" by (auto simp: advanced_def call_def)
  then show ?thesis using total_moved [OF r assms(2,3)] by (cases a) (auto simp: kids_def)
qed

lemma counts_moved:
  assumes adv: "advanced c g thr (call p w) (r, a, st')" and p: "live (slots w ! p)" "phase_of (slots w ! p) = Ready"
    and cnt: "counts_ok c (kids (slots w) p) (slots w ! p)" and act: "\<not> isContinuation (job (slots w ! p))"
    and n: "n = kids (slots w) p + (if a \<noteq> None then 1 else 0)"
  shows "counts_ok c n (recycled r (this st') (recount (slots w ! p) (made a)))"
proof -
  let ?s = "slots w ! p" and ?n = "int (length (made a))"
  have n': "n = kids (slots w) p + ?n" unfolding n by (cases a) simp_all
  have rc: "recount ?s (made a) = kids (slots w) p + 1 + ?n"
    using cnt act by (auto simp: recount_def counts_ok_def)
  have "stays c (call p w) a st'" using adv by (simp add: advanced_def)
  then have st: "subgraphBased c = 0 \<Longrightarrow> graphg (this st') = graphg (job ?s)"
    "a \<noteq> None \<or> \<not> newTask (job ?s) \<Longrightarrow> NewGraph (this st') = makes_graph c (this st')"
    unfolding stays_def by (simp_all add: call_def)
  from adv have r: "r = SafeContinuation \<and> isContinuation (this st') \<or>
      r = Reexecute \<and> \<not> isContinuation (this st') \<and> \<not> newTask (this st')"
    by (simp add: advanced_def)
  have ng: "n \<noteq> 0 \<longrightarrow> marked c (this st')"
  proof
    assume "n \<noteq> 0"
    then have "a \<noteq> None \<or> kids (slots w) p \<noteq> 0" using n by auto
    then have "a \<noteq> None \<or> \<not> newTask (job ?s)" using cnt act unfolding counts_ok_def by blast
    then show "marked c (this st')" unfolding marked_def by (rule st(2))
  qed
  have g0: "subgraphBased c = 0 \<longrightarrow> graphg (this st') = Some 0" using st(1) cnt by (simp add: counts_ok_def)
  from r show ?thesis
  proof (elim disjE conjE)
    assume "r = SafeContinuation" "isContinuation (this st')"
    then show ?thesis unfolding rc counts_ok_def using ng g0 n' by (simp add: recycled_def)
  next
    assume "r = Reexecute" "\<not> isContinuation (this st')" "\<not> newTask (this st')"
    then show ?thesis unfolding rc counts_ok_def using ng g0 n' by (simp add: recycled_def)
  qed
qed

lemma linked_moved:
  assumes adv: "advanced c g thr (call p w) (r, a, st')" and p: "p < length (slots w)" "live (slots w ! p)"
    and cnt: "counts_ok c (kids (slots w) p) (slots w ! p)" and act: "\<not> isContinuation (job (slots w ! p))"
    and all: "\<And>q. q < length (slots w) \<Longrightarrow> live (slots w ! q) \<Longrightarrow> linked c (slots w) q"
    and q: "q < length (moved p r (this st') a (slots w))" "live (moved p r (this st') a (slots w) ! q)"
  shows "linked c (moved p r (this st') a (slots w)) q"
proof -
  let ?ss = "slots w" and ?ss' = "moved p r (this st') a (slots w)"
  note nth = moved_nth [OF p(1), where r = r and t = "this st'" and a = a]
  from adv have r: "r \<noteq> Finished" and par: "parent (this st') = parent (job (?ss ! p))"
    and kid: "\<And>t. a = Some t \<Longrightarrow> parent t = Some p \<and> graphg t = graphg (this st')"
    and st: "subgraphBased c = 1 \<Longrightarrow> \<not> newTask (job (?ss ! p)) \<or> parent (job (?ss ! p)) \<noteq> None \<Longrightarrow>
      graphg (this st') = graphg (job (?ss ! p))"
    by (auto simp: advanced_def stays_def call_def)
  have lv: "live (?ss' ! p)" "job (?ss' ! p) = this st'" by (simp_all add: nth recycled_live r)
  consider "q = p" | "q < length ?ss" "q \<noteq> p" | t where "a = Some t" "q = length ?ss"
    using q(1) nth(1) by (cases a) (auto simp: less_Suc_eq)
  then show ?thesis
  proof cases
    case 1
    show ?thesis
      unfolding linked_def 1
    proof (intro allI impI)
      fix u assume "parent (job (?ss' ! p)) = Some u"
      then have u: "parent (job (?ss ! p)) = Some u" using lv(2) par by simp
      with all [OF p] have l: "u < p" "live (?ss ! u)" "subgraphBased c = 1 \<longrightarrow> graphg (job (?ss ! u)) = graphg (job (?ss ! p))"
        by (simp_all add: linked_def)
      then have "?ss' ! u = ?ss ! u" using nth(3) [of u] p(1) by simp
      with l st u lv(2) show "u < p \<and> live (?ss' ! u) \<and>
        (subgraphBased c = 1 \<longrightarrow> graphg (job (?ss' ! u)) = graphg (job (?ss' ! p)))" by simp
    qed
  next
    case 2
    have e: "?ss' ! q = ?ss ! q" using nth(3) 2 by simp
    with q(2) 2(1) all have l: "linked c ?ss q" and lq: "live (?ss ! q)" by simp_all
    show ?thesis
      unfolding linked_def e
    proof (intro allI impI)
      fix u assume u: "parent (job (?ss ! q)) = Some u"
      with l have lu: "u < q" "live (?ss ! u)" "subgraphBased c = 1 \<longrightarrow> graphg (job (?ss ! u)) = graphg (job (?ss ! q))"
        by (simp_all add: linked_def)
      show "u < q \<and> live (?ss' ! u) \<and> (subgraphBased c = 1 \<longrightarrow> graphg (job (?ss' ! u)) = graphg (job (?ss ! q)))"
      proof (cases "u = p")
        case True
        with kids_member [OF 2(1) lq u] cnt act have "\<not> newTask (job (?ss ! p))" by (auto simp: counts_ok_def)
        with True lu lv st show ?thesis by simp
      next
        case False
        with lu 2(1) nth(3) [of u] show ?thesis by simp
      qed
    qed
  next
    case 3
    then have "?ss' ! q = new_slot t" using nth(4) by simp
    with 3 kid lv p(1) show ?thesis by (auto simp: linked_def new_slot_def)
  qed
qed

text \<open>
  The other tasks stay in order, and so does the guard of the whole graph, if the task in slot \<open>p\<close> gives up
  no more references than it has.
\<close>

lemma others_kept:
  assumes sane: "sane c" and ok: "world_ok c g w" and p: "p < length (slots w)" "live (slots w ! p)"
    and gg: "gg = graphg (job (slots w ! p))"
    and ag: "agrees (at gg) (guard_table w) G" and kp: "keeps d gg (guard_table w) G"
    and d: "d \<le> share c (job (slots w ! p)) gg"
      "subgraphBased c = 1 \<Longrightarrow> kids (slots w) p \<noteq> 0 \<Longrightarrow> d \<le> 0"
  shows "q < length (slots w) \<Longrightarrow> live (slots w ! q) \<Longrightarrow> q \<noteq> p \<Longrightarrow> task_ok c g G (job (slots w ! q))"
    and "alive (Some 0) g 1 G"
proof -
  assume q: "q < length (slots w)" "live (slots w ! q)" "q \<noteq> p"
  show "task_ok c g G (job (slots w ! q))"
  proof (rule task_ok_kept)
    show "task_ok c g (guard_table w) (job (slots w ! q))" using ok q by (simp add: world_ok_def slot_ok_def)
    show "\<forall>h. alive (graphg (job (slots w ! q))) h 1 (guard_table w) \<longrightarrow> alive (graphg (job (slots w ! q))) h 1 G"
      if n: "needs c (job (slots w ! q))"
      using guard_kept [OF sane ok p gg ag kp d q n] by blast
  qed
next
  have root: "alive (Some 0) g 1 (guard_table w)" using ok by (simp add: world_ok_def)
  show "alive (Some 0) g 1 G"
  proof (cases "gg = Some 0")
    case True
    then have "d \<le> 0" using d(1) by (simp add: share_def holds_def)
    then have "alive (Some 0) g (1 - d) G" using keepsD [OF kp, of g 1] root True by simp
    then show ?thesis by (rule alive_le) (use \<open>d \<le> 0\<close> in simp)
  next
    case False
    then show ?thesis using agrees_alive [OF ag root] by auto
  qed
qed

lemma advance_gives_up:
  assumes adv: "advanced c g thr (call p w) (r, a, st')" and act: "\<not> isContinuation (job (slots w ! p))"
    and cnt: "counts_ok c (kids (slots w) p) (slots w ! p)" and t: "t = job (slots w ! p)"
    and d: "d = share c t (graphg t) - share c (this st') (graphg t) - given c a (graphg t)"
  shows "d \<le> share c t (graphg t)" and "subgraphBased c = 1 \<Longrightarrow> kids (slots w) p \<noteq> 0 \<Longrightarrow> d \<le> 0"
proof -
  have g0: "0 \<le> given c a (graphg t)" by (simp add: share_bounds split: option.split)
  then show "d \<le> share c t (graphg t)" unfolding d using share_bounds(1) [of c "this st'" "graphg t"] by linarith
  show "d \<le> 0" if m: "subgraphBased c = 1" "kids (slots w) p \<noteq> 0"
  proof -
    have nt: "\<not> newTask t" "marked c t" using cnt m act unfolding counts_ok_def t by blast+
    have nn: "NewGraph t = makes_graph c t" using nt(2) unfolding marked_def .
    have "graphg (this st') = graphg t" "NewGraph (this st') = makes_graph c (this st')" "parent (this st') = parent t"
      using adv m(1) nt(1) by (simp_all add: advanced_def stays_def call_def t)
    then have "share c (this st') (graphg t) = share c t (graphg t)"
      using nn m(1) by (simp add: share_def holds_def makes_graph_def split: option.split)
    then show ?thesis unfolding d using g0 by simp
  qed
qed

lemma slot_moved:
  assumes adv: "advanced c g thr (call p w) (r, a, st')" and p: "p < length (slots w)" "phase_of (slots w ! p) = Ready"
    and act: "\<not> isContinuation (job (slots w ! p))"
    and all: "\<And>q. q < length (slots w) \<Longrightarrow> live (slots w ! q) \<Longrightarrow> slot_ok c g (guard_table w) (slots w) q"
    and kept: "\<And>q. q < length (slots w) \<Longrightarrow> live (slots w ! q) \<Longrightarrow> q \<noteq> p \<Longrightarrow> task_ok c g (guards st') (job (slots w ! q))"
    and q: "q < length (moved p r (this st') a (slots w))" "live (moved p r (this st') a (slots w) ! q)"
  shows "slot_ok c g (guards st') (moved p r (this st') a (slots w)) q"
proof -
  let ?ss = "slots w" and ?ss' = "moved p r (this st') a (slots w)"
  have lp: "live (?ss ! p)" using p(2) by (simp add: live_def)
  from adv have r: "r \<noteq> Finished" and tok: "task_ok c g (guards st') (this st')"
    and kid: "\<And>t. a = Some t \<Longrightarrow> graphg t = graphg (this st') \<and> task_ok c g (guards st') t \<and> newTask t \<and> \<not> isContinuation t"
    by (auto simp: advanced_def)
  have cnt: "counts_ok c (kids ?ss p) (?ss ! p)" using all [OF p(1) lp] by (simp add: slot_ok_def)
  have links: "\<And>q. q < length ?ss \<Longrightarrow> live (?ss ! q) \<Longrightarrow> linked c ?ss q" using all by (simp add: slot_ok_def)
  note l = linked_moved [OF adv p(1) lp cnt act links q]
  note km = kids_moved [OF adv p(1) lp] and nth = moved_nth [OF p(1), where r = r and t = "this st'" and a = a]
  consider "q = p" | "q < length ?ss" "q \<noteq> p" | t where "a = Some t" "q = length ?ss"
    using q(1) nth(1) by (cases a) (auto simp: less_Suc_eq)
  then show ?thesis
  proof cases
    case 1
    have "counts_ok c (kids ?ss' p) (?ss' ! p)"
      unfolding nth(2) by (rule counts_moved [OF adv lp p(2) cnt act]) (simp add: km)
    with l tok 1 nth(2) recycled_live(2) show ?thesis by (simp add: slot_ok_def)
  next
    case 2
    have e: "?ss' ! q = ?ss ! q" using nth(3) 2 by simp
    have "counts_ok c (kids ?ss' q) (?ss' ! q)"
      unfolding km e using all [OF 2(1)] q(2) 2(2) by (simp add: slot_ok_def e)
    with l kept [OF 2(1) _ 2(2)] q(2) show ?thesis by (simp add: slot_ok_def e)
  next
    case 3
    have s: "?ss' ! q = new_slot t" using nth(4) 3 by simp
    have "kids ?ss q = 0" by (rule kids_beyond [OF links]) (use 3(2) in simp_all)
    then have "kids ?ss' q = 0" using km p(1) 3(2) by simp
    moreover have "graphg t = Some 0" if "subgraphBased c = 0"
      using that cnt adv kid [OF 3(1)] by (simp add: counts_ok_def advanced_def stays_def call_def)
    ultimately have "counts_ok c (kids ?ss' q) (?ss' ! q)" unfolding s using kid [OF 3(1)] by (simp add: counts_ok_def new_slot_def)
    with l kid [OF 3(1)] s show ?thesis by (simp add: slot_ok_def new_slot_def)
  qed
qed

lemma advance_ok:
  assumes sane: "sane c" and adv: "advanced c g thr (call p w) (r, a, st')" and ok: "world_ok c g w"
    and p: "p < length (slots w)" "phase_of (slots w ! p) = Ready" and act: "\<not> isContinuation (job (slots w ! p))"
  shows "settle p (r, a, st') w = w\<lparr>slots := moved p r (this st') a (slots w), guard_table := guards st', hists := pt_hist st'\<rparr>"
    and "world_ok c g (settle p (r, a, st') w)"
proof -
  let ?ss = "slots w" and ?ss' = "moved p r (this st') a (slots w)" and ?t = "job (slots w ! p)"
  have lp: "live (?ss ! p)" using p(2) by (simp add: live_def)
  from ok have all: "\<And>q. q < length ?ss \<Longrightarrow> live (?ss ! q) \<Longrightarrow> slot_ok c g (guard_table w) ?ss q"
    and rr: "root_refs w = orphans ?ss" by (simp_all add: world_ok_def)
  have cnt: "counts_ok c (kids ?ss p) (?ss ! p)" using all [OF p(1) lp] by (simp add: slot_ok_def)
  from adv have r: "r \<noteq> Finished" and par: "parent (this st') = parent ?t" and sp: "spawned st' = []"
    and kid: "\<And>t. a = Some t \<Longrightarrow> parent t = Some p"
    and ag: "agrees (at (graphg ?t)) (guard_table w) (guards st')"
    and kp: "keeps (share c ?t (graphg ?t) - share c (this st') (graphg ?t) - given c a (graphg ?t)) (graphg ?t)
      (guard_table w) (guards st')"
    by (auto simp: advanced_def call_def moves_references_def Let_def)
  show e: "settle p (r, a, st') w = w\<lparr>slots := ?ss', guard_table := guards st', hists := pt_hist st'\<rparr>"
    using r sp by (simp add: settle_def Let_def moved_def)
  note kept = others_kept [OF sane ok p(1) lp refl ag kp advance_gives_up [OF adv act cnt refl refl]]
  have "orphans ?ss' = orphans ?ss"
    using total_moved [OF r p(1) lp, of "\<lambda>t. of_bool (parent t = None)"] kid par by (cases a) (auto simp: orphans_def)
  then show "world_ok c g (settle p (r, a, st') w)"
    unfolding e using kept(2) users_moved [OF sane adv ok p(1) lp act] slot_moved [OF adv p act all kept(1)] rr
    by (simp add: world_ok_def)
qed


section \<open>The step of a task that is done\<close>

text \<open>The slots after the step: the task is gone, its parent has one reference less.\<close>

definition signalled :: "nat option \<Rightarrow> nat \<Rightarrow> slot \<Rightarrow> slot" where
  "signalled par u s = (if par = Some u then dec_refs s else s)"

lemma dec_refs_simps [simp]: "job (dec_refs s) = job s" "live (dec_refs s) = live s"
  by (simp_all add: dec_refs_def live_def)

lemma signalled_simps [simp]: "job (signalled par u s) = job s" "live (signalled par u s) = live s"
  by (simp_all add: signalled_def)

lemma released:
  assumes "linked c ss p" and p: "p < length ss" "live (ss ! p)" and x: "\<not> live x"
    and ss': "ss' = slots (release (parent (job (ss ! p))) (w\<lparr>slots := ss[p := x]\<rparr>))"
  shows "length ss' = length ss" and "\<not> live (ss' ! p)"
    and "u < length ss \<Longrightarrow> u \<noteq> p \<Longrightarrow> ss' ! u = signalled (parent (job (ss ! p))) u (ss ! u)"
    and "total f ss' = total f ss - f (job (ss ! p))"
proof -
  have nq: "parent (job (ss ! p)) = Some q \<Longrightarrow> q \<noteq> p \<and> q < length ss" for q using assms(1) p(1) by (auto simp: linked_def)
  show "length ss' = length ss" by (auto simp: ss' release_def Let_def split: option.split)
  show "\<not> live (ss' ! p)" using nq x p(1) by (auto simp: ss' release_def Let_def split: option.split)
  show "ss' ! u = signalled (parent (job (ss ! p))) u (ss ! u)" if "u < length ss" "u \<noteq> p"
    using that by (auto simp: ss' release_def Let_def signalled_def nth_list_update split: option.split)
  have one: "total f (ss[p := x]) = total f ss - f (job (ss ! p))" using p x by (simp add: total_update)
  show "total f ss' = total f ss - f (job (ss ! p))"
  proof (cases "parent (job (ss ! p))")
    case None
    then show ?thesis using one by (simp add: ss' release_def)
  next
    case (Some q)
    then show ?thesis using one nq [OF Some] by (simp add: ss' release_def total_update)
  qed
qed

text \<open>The references and the slots after the step.\<close>

lemma users_released:
  assumes ok: "world_ok c g w" and p: "p < length (slots w)" and t: "t = job (slots w ! p)"
    and ag: "agrees (at (graphg t)) (guard_table w) G" and kp: "keeps (share c t (graphg t)) (graphg t) (guard_table w) G"
    and u: "users c ss' i = users c (slots w) i - share c t (Some i)" and i: "i \<noteq> 0" "0 < users c ss' i"
  shows "\<exists>h. alive (Some i) h (users c ss' i) G"
proof -
  obtain h where al: "alive (Some i) h (users c (slots w) i) (guard_table w)"
    using ok i u share_bounds(1) [of c t "Some i"] unfolding world_ok_def by fastforce
  show ?thesis
  proof (cases "graphg t = Some i")
    case True
    with keepsD [OF kp, unfolded True, OF al] u i(2) show ?thesis by auto
  next
    case False
    then have "share c t (Some i) = 0" by (simp add: share_def holds_def)
    with agrees_alive [OF ag al] False u show ?thesis by auto
  qed
qed

lemma counts_signalled:
  assumes cnt: "counts_ok c n s" and "live s" and "par = Some u \<Longrightarrow> 1 \<le> n"
  shows "counts_ok c (n - of_bool (par = Some u)) (signalled par u s)"
proof (cases "par = Some u")
  case True
  then show ?thesis using assms unfolding signalled_def counts_ok_def by (auto simp: live_def dec_refs_def)
qed (use cnt in \<open>simp add: signalled_def\<close>)

lemma slot_released:
  assumes all: "\<And>q. q < length ss \<Longrightarrow> live (ss ! q) \<Longrightarrow> slot_ok c g G ss q" and p: "p < length ss" "live (ss ! p)"
    and k0: "kids ss p = 0" and par: "par = parent (job (ss ! p))"
    and len: "length ss' = length ss" and gone: "\<not> live (ss' ! p)"
    and nth: "\<And>u. u < length ss \<Longrightarrow> u \<noteq> p \<Longrightarrow> ss' ! u = signalled par u (ss ! u)"
    and kids': "\<And>q. kids ss' q = kids ss q - of_bool (par = Some q)"
    and kept: "\<And>q. q < length ss \<Longrightarrow> live (ss ! q) \<Longrightarrow> q \<noteq> p \<Longrightarrow> task_ok c g G' (job (ss ! q))"
    and q: "q < length ss'" "live (ss' ! q)"
  shows "slot_ok c g G' ss' q"
proof -
  have qp: "q \<noteq> p" and ql: "q < length ss" using q gone len by auto
  note s = nth [OF ql qp]
  have lq: "live (ss ! q)" using q(2) s by simp
  have cnt: "counts_ok c (kids ss q) (ss ! q)" and lnk: "linked c ss q" using all [OF ql lq] by (simp_all add: slot_ok_def)
  have "counts_ok c (kids ss' q) (ss' ! q)"
    unfolding kids' s by (rule counts_signalled [OF cnt lq]) (use kids_member [OF p] par in simp)
  moreover have "linked c ss' q"
    unfolding linked_def
  proof (intro allI impI)
    fix u assume "parent (job (ss' ! q)) = Some u"
    then have u: "parent (job (ss ! q)) = Some u" by (simp add: s)
    have "1 \<le> kids ss u" using kids_member [OF ql lq u] .
    then have "u \<noteq> p" using k0 by auto
    have l: "u < q" "live (ss ! u)" "subgraphBased c = 1 \<longrightarrow> graphg (job (ss ! u)) = graphg (job (ss ! q))"
      using lnk u by (simp_all add: linked_def)
    with nth [of u] \<open>u \<noteq> p\<close> ql s show "u < q \<and> live (ss' ! u) \<and>
      (subgraphBased c = 1 \<longrightarrow> graphg (job (ss' ! u)) = graphg (job (ss' ! q)))" by simp
  qed
  ultimately show ?thesis using kept [OF ql lq qp] by (simp add: slot_ok_def s)
qed

lemma retire_ok:
  assumes sane: "sane c" and ret: "retired c (call p w) (r, a, st')" and ok: "world_ok c g w"
    and p: "p < length (slots w)" "phase_of (slots w ! p) = Ready" and cont: "isContinuation (job (slots w ! p))"
  shows "world_ok c g (settle p (r, a, st') w)"
    and "total f (slots (settle p (r, a, st') w)) = total f (slots w) - f (job (slots w ! p))"
    and "hists (settle p (r, a, st') w) = hists w"
proof -
  let ?ss = "slots w" and ?t = "job (slots w ! p)" and ?w' = "settle p (r, a, st') w"
  let ?x = "recycled Finished (this st') (recount (?ss ! p) [])"
  have c: "this (call p w) = ?t" "guards (call p w) = guard_table w" "spawned (call p w) = []" "pt_hist (call p w) = hists w"
    by (simp_all add: call_def)
  have lp: "live (?ss ! p)" using p(2) by (simp add: live_def)
  from ok have all: "\<And>q. q < length ?ss \<Longrightarrow> live (?ss ! q) \<Longrightarrow> slot_ok c g (guard_table w) ?ss q"
    and rr: "root_refs w = orphans ?ss" by (simp_all add: world_ok_def)
  from all [OF p(1) lp] have cnt: "counts_ok c (kids ?ss p) (?ss ! p)" and lnk: "linked c ?ss p"
    by (simp_all add: slot_ok_def)
  have k0: "kids ?ss p = 0" using cnt cont p(2) by (auto simp: counts_ok_def)
  from ret have r: "r = Finished" "a = None" "spawned st' = []" "parent (this st') = parent ?t" "pt_hist st' = hists w"
    and ag: "agrees (at (graphg ?t)) (guard_table w) (guards st')"
    and kp: "keeps (share c ?t (graphg ?t)) (graphg ?t) (guard_table w) (guards st')"
    by (simp_all add: retired_def c)
  have e: "?w' = release (parent ?t) (w\<lparr>slots := ?ss[p := ?x], guard_table := guards st', hists := pt_hist st'\<rparr>)"
    using r by (simp add: settle_def Let_def)
  have f: "slots ?w' = slots (release (parent ?t) (w\<lparr>slots := ?ss[p := ?x]\<rparr>))" "guard_table ?w' = guards st'"
    "hists ?w' = hists w"
    unfolding e using r(5) by (auto simp: release_def Let_def split: option.split)
  have "\<not> live ?x" by (simp add: recycled_def live_def)
  note rel = released [OF lnk p(1) lp this f(1)]
  show "hists ?w' = hists w" by (rule f(3))
  show "total f (slots ?w') = total f ?ss - f ?t" by (rule rel(4))
  have "orphans (slots ?w') = orphans ?ss - of_bool (parent ?t = None)" using rel(4) by (simp add: orphans_def)
  moreover have "root_refs ?w' = root_refs w - of_bool (parent ?t = None)"
    unfolding e by (auto simp: release_def Let_def split: option.split)
  moreover have "share c ?t (graphg ?t) \<le> 0" if "subgraphBased c = 1" "kids ?ss p \<noteq> 0" using that k0 by simp
  note kept = others_kept [OF sane ok p(1) lp refl ag kp order_refl this]
  have "users c (slots ?w') i = users c ?ss i - share c ?t (Some i)" for i using rel(4) by (simp add: users_def)
  note us = users_released [OF ok p(1) refl ag kp this]
  have "kids (slots ?w') q = kids ?ss q - of_bool (parent ?t = Some q)" for q using rel(4) by (simp add: kids_def)
  note so = slot_released [OF all p(1) lp k0 refl rel(1,2,3) this kept(1)]
  ultimately show "world_ok c g ?w'" using kept(2) us so rr by (simp add: world_ok_def f(2))
qed

end
