(* ===== verification/Transition.thy ===== *)
theory Transition
  imports Main
begin

text \<open>
  Step relations whose every step keeps an invariant and lowers a number: their runs are bounded,
  and each of them can be carried on to a state without a step.  The runs of the tasks are an
  instance.
\<close>

locale lowering_steps =
  fixes step :: "'s \<Rightarrow> 's \<Rightarrow> bool" and ok :: "'s \<Rightarrow> bool" and level :: "'s \<Rightarrow> nat"
  assumes step_inv: "ok s \<Longrightarrow> step s s' \<Longrightarrow> ok s'"
    and step_level: "ok s \<Longrightarrow> step s s' \<Longrightarrow> level s' < level s"
begin

lemma steps_inv: "step\<^sup>*\<^sup>* s s' \<Longrightarrow> ok s \<Longrightarrow> ok s'"
  by (induction rule: rtranclp_induct) (auto intro: step_inv)

lemma steps_level: "(step ^^ n) s s' \<Longrightarrow> ok s \<Longrightarrow> n + level s' \<le> level s"
proof (induction n arbitrary: s)
  case (Suc n)
  then obtain s1 where s1: "step s s1" "(step ^^ n) s1 s'" by (metis relpowp_Suc_D2)
  with Suc.IH [OF s1(2)] step_inv [OF Suc.prems(2) s1(1)] step_level [OF Suc.prems(2) s1(1)] show ?case by simp
qed simp

lemma steps_stop: "ok s \<Longrightarrow> \<exists>s'. step\<^sup>*\<^sup>* s s' \<and> (\<nexists>s''. step s' s'')"
proof (induction "level s" arbitrary: s rule: less_induct)
  case less
  show ?case
  proof (cases "\<exists>s1. step s s1")
    case True
    then obtain s1 where s1: "step s s1" by blast
    with less.hyps [OF step_level [OF less.prems s1] step_inv [OF less.prems s1]] show ?thesis
      by (meson converse_rtranclp_into_rtranclp)
  qed blast
qed

end

text \<open>
  A step relation on states with an annotation, whose steps are those of the plain relation as long as
  states are in order: runs can be stripped of the annotation, and can be given one.
\<close>

locale annotated_steps =
  fixes step :: "'s \<Rightarrow> 's \<Rightarrow> bool" and astep :: "'s \<times> 'a \<Rightarrow> 's \<times> 'a \<Rightarrow> bool" and ok :: "'s \<times> 'a \<Rightarrow> bool"
  assumes strip: "ok (s, a) \<Longrightarrow> astep (s, a) (s', a') \<Longrightarrow> step s s' \<and> ok (s', a')"
    and annotate: "ok (s, a) \<Longrightarrow> step s s' \<Longrightarrow> \<exists>a'. astep (s, a) (s', a')"
begin

lemma steps_strip: "astep\<^sup>*\<^sup>* x y \<Longrightarrow> ok x \<Longrightarrow> step\<^sup>*\<^sup>* (fst x) (fst y) \<and> ok y"
proof (induction rule: rtranclp_induct)
  case (step y z)
  then show ?case using strip [of "fst y" "snd y" "fst z" "snd z"] by auto
qed simp

lemma steps_annotate: "step\<^sup>*\<^sup>* s s' \<Longrightarrow> ok (s, a) \<Longrightarrow> \<exists>a'. astep\<^sup>*\<^sup>* (s, a) (s', a')"
proof (induction rule: rtranclp_induct)
  case (step s1 s2)
  then obtain a1 where a1: "astep\<^sup>*\<^sup>* (s, a) (s1, a1)" by blast
  with steps_strip [OF a1 step.prems] annotate [of s1 a1 s2] step.hyps(2) show ?case
    by (metis rtranclp.rtrancl_into_rtrancl snd_conv)
qed blast

end

end
