(* ===== verification/Runs.thy ===== *)
theory Runs
  imports Scheduler Transition
begin

text \<open>
  Whole runs: what is counted and what is still to count is the same in every world of a run,
  every step makes the run shorter, and a run that can go no further has counted the maximal
  cliques of the graph.
\<close>

section \<open>What a step changes\<close>

definition recorded :: "nat \<Rightarrow> (nat \<Rightarrow> nat \<Rightarrow> nat option) \<Rightarrow> nat \<Rightarrow> nat" where
  "recorded nthr H k = (\<Sum>t < nthr. case H t k of None \<Rightarrow> 0 | Some n \<Rightarrow> n)"

definition outstanding :: "config \<Rightarrow> graph \<Rightarrow> slot list \<Rightarrow> nat \<Rightarrow> int" where
  "outstanding c g ss k = total (\<lambda>t. int (pending c g t k)) ss"

definition load :: "config \<Rightarrow> graph \<Rightarrow> slot list \<Rightarrow> int" where
  "load c g ss = total (\<lambda>t. int (weight c g t)) ss"

lemma recorded_adds:
  assumes "adds thr f st st'" and "thr < nthr"
  shows "recorded nthr (pt_hist st') k = recorded nthr (pt_hist st) k + f k"
proof -
  have "recorded nthr (pt_hist st') k = (\<Sum>t < nthr. hist_count st t k + (if t = thr then f k else 0))"
    using assms(1) by (simp add: recorded_def adds_def hist_count_def)
  also have "\<dots> = recorded nthr (pt_hist st) k + f k"
    using assms(2) by (simp add: sum.distrib recorded_def hist_count_def)
  finally show ?thesis .
qed

definition carried :: "config \<Rightarrow> graph \<Rightarrow> nat \<Rightarrow> world \<Rightarrow> world \<Rightarrow> bool" where
  "carried c g nthr w w' \<longleftrightarrow> failure w' = None \<and> world_ok c g w' \<and>
     (\<forall>k. int (recorded nthr (hists w') k) + outstanding c g (slots w') k =
       int (recorded nthr (hists w) k) + outstanding c g (slots w) k) \<and>
     load c g (slots w') < load c g (slots w)"

lemma failure_settle: "failure (settle p x w) = failure w"
  by (simp add: settle_def release_def Let_def split: prod.split option.split)

lemma run_carried:
  assumes sane: "sane c" and inp: "input_ok c g" and ok: "world_ok c g w"
    and p: "failure w = None" "p < length (slots w)" "phase_of (slots w ! p) = Ready" "thr < nthr"
  shows "ends (target c) (host c) (execute c thr (call p w)) (\<lambda>x. carried c g nthr w (settle p x w))"
proof -
  let ?t = "job (slots w ! p)"
  have c: "this (call p w) = ?t" "guards (call p w) = guard_table w" "pt_hist (call p w) = hists w"
    by (simp_all add: call_def)
  have lp: "live (slots w ! p)" using p(3) by (simp add: live_def)
  then have "task_ok c g (guards (call p w)) (this (call p w))"
    using ok p(2) by (simp add: world_ok_def slot_ok_def c)
  note ex = execute_ends [OF sane inp this, of thr]
  show ?thesis
  proof (rule ends_mono [OF ex])
    fix x assume x: "(if isContinuation (this (call p w)) then retired c (call p w) else advanced c g thr (call p w)) x"
    obtain r a st' where x': "x = (r, a, st')" by (cases x)
    show "carried c g nthr w (settle p x w)"
    proof (cases "isContinuation ?t")
      case True
      with x x' have "retired c (call p w) (r, a, st')" by (simp add: c)
      note ret = retire_ok [OF sane this ok p(2,3) True]
      have "pending c g ?t k = 0" "weight c g ?t = 1" for k using True by (simp_all add: pending_def weight_def)
      with ret p(1) show ?thesis
        unfolding carried_def x' by (simp add: failure_settle outstanding_def load_def)
    next
      case False
      with x x' have adv: "advanced c g thr (call p w) (r, a, st')" by (simp add: c)
      note e = advance_ok [OF sane adv ok p(2,3) False]
      from adv have r: "r \<noteq> Finished" and wt: "weight c g (this st') + given_weight c g a < weight c g ?t"
        and cons: "conserves c g thr (call p w) a st'"
        by (auto simp: advanced_def c)
      note tm = total_moved [OF r p(2) lp]
      from cons obtain f where f: "adds thr f (call p w) st'"
        "\<And>k. f k + pending c g (this st') k + (case a of None \<Rightarrow> 0 | Some t \<Rightarrow> pending c g t k) = pending c g ?t k"
        by (auto simp: conserves_def c)
      have "int (recorded nthr (pt_hist st') k) + outstanding c g (moved p r (this st') a (slots w)) k =
        int (recorded nthr (hists w) k) + outstanding c g (slots w) k" for k
        using recorded_adds [OF f(1) p(4), of k] f(2) [of k]
        by (cases a) (simp_all add: outstanding_def tm c flip: f(2))
      moreover have "load c g (moved p r (this st') a (slots w)) < load c g (slots w)"
        using wt by (cases a) (simp_all add: load_def tm)
      ultimately show ?thesis using e(2) p(1) unfolding carried_def x' by (simp add: failure_settle) (simp add: e(1))
    qed
  qed
qed

lemma step_carried:
  assumes "sane c" and "input_ok c g" and "world_ok c g w" and "step c nthr w w'"
  shows "carried c g nthr w w' \<or> (\<exists>er. w' = w\<lparr>failure := Some er\<rparr> \<and> excused (target c) (host c) er)"
  using assms(4)
proof cases
  case (run p thr x)
  from run_carried [OF assms(1-3) run(2-5)] run show ?thesis by simp
next
  case (fail p thr er)
  from run_carried [OF assms(1-3) fail(2-5)] fail show ?thesis by auto
qed

section \<open>A run goes on while a task is left\<close>

lemma last_live:
  assumes "\<exists>p < length ss. live (ss ! p)"
  shows "\<exists>p < length ss. live (ss ! p) \<and> (\<forall>q < length ss. p < q \<longrightarrow> \<not> live (ss ! q))"
proof -
  let ?A = "{p. p < length ss \<and> live (ss ! p)}"
  have A: "finite ?A" "?A \<noteq> {}" using assms by auto
  have m: "Max ?A < length ss" "live (ss ! Max ?A)" using Max_in [OF A] by auto
  moreover have "\<not> live (ss ! q)" if "q < length ss" "Max ?A < q" for q
    using Max_ge [OF A(1), of q] leD [of q "Max ?A"] that by blast
  ultimately show ?thesis by blast
qed

lemma some_ready:
  assumes ok: "world_ok c g w" and "\<exists>p < length (slots w). live (slots w ! p)"
  shows "\<exists>p < length (slots w). phase_of (slots w ! p) = Ready"
proof -
  from last_live [OF assms(2)] obtain p where p: "p < length (slots w)" "live (slots w ! p)"
    and last: "\<And>q. q < length (slots w) \<Longrightarrow> p < q \<Longrightarrow> \<not> live (slots w ! q)" by blast
  have all: "\<And>q. q < length (slots w) \<Longrightarrow> live (slots w ! q) \<Longrightarrow> slot_ok c g (guard_table w) (slots w) q"
    using ok by (simp add: world_ok_def)
  have "kids (slots w) p = 0"
  proof (rule ccontr)
    assume "kids (slots w) p \<noteq> 0"
    then have "0 < kids (slots w) p" using kids_nonneg [of "slots w" p] by simp
    then obtain q where "q < length (slots w)" "live (slots w ! q)" "parent (job (slots w ! q)) = Some p"
      unfolding kids_def by (auto dest: total_pos split: if_splits)
    with all [of q] last [of q] show False by (simp add: slot_ok_def linked_def)
  qed
  with all [OF p] have "phase_of (slots w ! p) \<noteq> Waiting" by (simp add: slot_ok_def counts_ok_def)
  with p show ?thesis by (cases "phase_of (slots w ! p)") (auto simp: live_def)
qed

lemma some_step:
  assumes "world_ok c g w" and "\<exists>p < length (slots w). live (slots w ! p)" and "failure w = None" and "0 < nthr"
  shows "\<exists>w'. step c nthr w w'"
proof -
  obtain p where p: "p < length (slots w)" "phase_of (slots w ! p) = Ready" using some_ready [OF assms(1,2)] by blast
  show ?thesis
    using step.fail [OF assms(3) p assms(4), of c] step.run [OF assms(3) p assms(4), of c]
    by (cases "execute c 0 (call p w)") blast+
qed


section \<open>The start\<close>

text \<open>The vertex ordering lists every vertex once, as the reader and the degeneracy ordering leave it.\<close>

definition numbered :: "graph \<Rightarrow> bool" where
  "numbered g \<longleftrightarrow> distinct (vertexOrdering g) \<and> set (vertexOrdering g) = verts g \<and>
     nodeNo g = int (length (vertexOrdering g))"

definition root_of :: "config \<Rightarrow> key \<Rightarrow> main_task" where
  "root_of c v = MainBKTask_root v (Some 0) (subgraphBased c \<noteq> 0)"

lemma root_tasks:
  assumes "n \<le> length (vertexOrdering g)"
  shows "fold_result (spawn_root c g (Some 0)) [0..<n] [] = Inr (map (root_of c) (take n (vertexOrdering g)))"
  using assms
proof (induction n)
  case (Suc n)
  then show ?case
    by (simp add: fold_result_snoc spawn_root_def getMappedNode_def read_cell_def root_of_def take_Suc_conv_app_nth)
qed simp

definition start :: "config \<Rightarrow> graph \<Rightarrow> world" where
  "start c g = \<lparr>slots = map (\<lambda>v. new_slot (root_of c v)) (vertexOrdering g),
     guard_table = [Some \<lparr>guarded = g, ref_count = 1\<rparr>], hists = (\<lambda>_ _. None),
     root_refs = int (length (vertexOrdering g)), failure = None\<rparr>"

lemma start_run: "numbered g \<Longrightarrow> BronKerboschDegeneracy c g = Inr (start c g)"
  by (simp add: BronKerboschDegeneracy_def RootIter_SpawnTask_def numbered_def root_tasks start_def comp_def)

lemma total_start: "total f (slots (start c g)) = (\<Sum>v \<leftarrow> vertexOrdering g. f (root_of c v))"
  using total_simps(3) [of f "map (root_of c) (vertexOrdering g)"] by (simp add: start_def comp_def)

lemma root_of_fields [simp]:
  "parent (root_of c v) = None" "graphg (root_of c v) = Some 0" "newTask (root_of c v)" "\<not> isContinuation (root_of c v)"
  "new_vertex (root_of c v) = v" "taskSpawnCnt (root_of c v) = 0" "taskLevel (root_of c v) = 0"
  "NewGraph (root_of c v) = (subgraphBased c \<noteq> 0)"
  by (simp_all add: root_of_def MainBKTask_root_def)

lemma start_ok:
  assumes "numbered g"
  shows "world_ok c g (start c g)"
proof -
  have g0: "alive (Some 0) g 1 (guard_table (start c g))" by (simp add: start_def alive_def)
  have "users c (slots (start c g)) i = 0" if "i \<noteq> 0" for i
    using that by (simp add: users_def total_start share_def holds_def)
  moreover have k: "kids (slots (start c g)) p = 0" for p by (simp add: kids_def total_start)
  moreover have "orphans (slots (start c g)) = root_refs (start c g)"
    by (simp add: orphans_def total_start sum_list_triv) (simp add: start_def)
  moreover have "slot_ok c g (guard_table (start c g)) (slots (start c g)) p" if "p < length (slots (start c g))" for p
  proof -
    let ?v = "vertexOrdering g ! p"
    have p: "p < length (vertexOrdering g)" using that by (simp add: start_def)
    then have s: "slots (start c g) ! p = new_slot (root_of c ?v)" by (simp add: start_def)
    have "?v \<in> verts g" using nth_mem [OF p] assms by (simp add: numbered_def)
    then have "task_ok c g (guard_table (start c g)) (root_of c ?v)"
      using g0 by (simp add: task_ok_def makes_graph_def)
    then show ?thesis
      using k [of p] by (simp add: slot_ok_def s counts_ok_def linked_def new_slot_def)
  qed
  ultimately show ?thesis using g0 by (simp add: world_ok_def)
qed

text \<open>What the root tasks have to count are the maximal cliques of the graph.\<close>

lemma start_outstanding:
  assumes num: "numbered g" and inp: "input_ok c g" and ne: "verts g \<noteq> {}"
  shows "outstanding c g (slots (start c g)) k =
    (if within c k then int (card {C. G.maximal_clique g C \<and> card C = k}) else 0)"
proof -
  have "(\<Sum>v \<leftarrow> vertexOrdering g. int (pending c g (root_of c v) k)) =
    (\<Sum>v \<in> verts g. int (pending c g (root_of c v) k))"
    using num by (simp add: numbered_def sum_list_distinct_conv_sum_set)
  also have "\<dots> = (\<Sum>v \<in> verts g. int (KG.counted g c 1 (later c g v) (earlier c g v) k))"
    by (simp add: pending_def)
  also have "\<dots> = (if within c k
      then int (\<Sum>v \<in> verts g. G.report g 1 (later c g v) (earlier c g v) k) else 0)"
    by (simp add: KG.counted_def)
  also have "(\<Sum>v \<in> verts g. G.report g 1 (later c g v) (earlier c g v) k) =
    card {C. G.maximal_clique g C \<and> card C = k}"
    unfolding later_def earlier_def using inp ne
    by (intro G.report_roots [symmetric] root_key_inj) (simp_all add: input_ok_def)
  finally show ?thesis by (simp add: outstanding_def total_start)
qed

section \<open>Runs\<close>

abbreviation steps :: "config \<Rightarrow> nat \<Rightarrow> world \<Rightarrow> world \<Rightarrow> bool" where
  "steps c nthr \<equiv> (step c nthr)\<^sup>*\<^sup>*"

text \<open>In every world of a run: either the run was cut short, or all is in order.\<close>

definition on_course :: "config \<Rightarrow> graph \<Rightarrow> nat \<Rightarrow> world \<Rightarrow> bool" where
  "on_course c g nthr w \<longleftrightarrow>
     (case failure w of
        Some er \<Rightarrow> excused (target c) (host c) er
      | None \<Rightarrow> world_ok c g w \<and> (\<forall>k. int (recorded nthr (hists w) k) + outstanding c g (slots w) k =
          outstanding c g (slots (start c g)) k))"

lemma step_on_course:
  assumes "sane c" and "input_ok c g" and on: "on_course c g nthr w" and st: "step c nthr w w'"
  shows "on_course c g nthr w'"
    and "failure w' = None \<Longrightarrow> load c g (slots w') < load c g (slots w)"
    and "failure w' \<noteq> None \<Longrightarrow> slots w' = slots w"
proof -
  have "failure w = None" using st by (rule stepE)
  with on have ok: "world_ok c g w" "\<And>k. int (recorded nthr (hists w) k) + outstanding c g (slots w) k =
          outstanding c g (slots (start c g)) k" by (simp_all add: on_course_def)
  note moved = step_carried [OF assms(1,2) ok(1) st]
  from moved ok(2) show "on_course c g nthr w'" by (auto simp: on_course_def carried_def)
  from moved show "failure w' = None \<Longrightarrow> load c g (slots w') < load c g (slots w)" "failure w' \<noteq> None \<Longrightarrow> slots w' = slots w"
    by (auto simp: carried_def)
qed

lemma start_on_course: "numbered g \<Longrightarrow> on_course c g nthr (start c g)"
  using start_ok by (simp add: on_course_def recorded_def start_def)

lemma all_gone_total: "\<forall>s \<in> set ss. \<not> live s \<Longrightarrow> total f ss = 0"
  by (induction ss) (simp_all add: total_def)

text \<open>The steps of a run lower the load; only a failure leaves it as it is, and is the last step.\<close>

definition well_run :: "config \<Rightarrow> graph \<Rightarrow> nat \<Rightarrow> world \<Rightarrow> bool" where
  "well_run c g nthr w \<longleftrightarrow> sane c \<and> input_ok c g \<and> on_course c g nthr w"

definition level :: "config \<Rightarrow> graph \<Rightarrow> world \<Rightarrow> nat" where
  "level c g w = nat (load c g (slots w)) + of_bool (failure w = None)"

lemma load_nonneg: "0 \<le> load c g ss"
  by (simp add: load_def total_nonneg)

lemma level_decreases:
  assumes "well_run c g nthr w" and st: "step c nthr w w'"
  shows "level c g w' < level c g w"
proof -
  have a: "sane c" "input_ok c g" "on_course c g nthr w" using assms(1) by (simp_all add: well_run_def)
  have "failure w = None" using st by (rule stepE)
  with step_on_course(2,3) [OF a st] load_nonneg [of c g "slots w'"] show ?thesis
    by (cases "failure w' = None") (simp_all add: level_def)
qed

interpretation run: lowering_steps "step c nthr" "well_run c g nthr" "level c g" for c g nthr
  by unfold_locales (auto simp: well_run_def step_on_course(1) level_decreases)

lemma steps_on_course:
  assumes "sane c" "input_ok c g" "numbered g" and "steps c nthr (start c g) w"
  shows "on_course c g nthr w"
  using run.steps_inv [OF assms(4)] start_on_course [OF assms(3)] assms(1,2) by (simp add: well_run_def)

text \<open>The bound on the length of a run: the load at the start, and a failure.  Every run comes to a world without a step.\<close>

lemma steps_bounded:
  assumes "sane c" and "input_ok c g" and "on_course c g nthr w" and "(step c nthr ^^ n) w w'"
  shows "int n \<le> load c g (slots w) + 1"
proof -
  have "n + level c g w' \<le> level c g w" using run.steps_level [OF assms(4)] assms(1-3) by (simp add: well_run_def)
  then have "int n \<le> int (level c g w)" by simp
  also have "\<dots> \<le> load c g (slots w) + 1" using load_nonneg [of c g "slots w"] by (simp add: level_def)
  finally show ?thesis .
qed

lemma runs_stop:
  assumes "sane c" and "input_ok c g" and "on_course c g nthr w"
  shows "\<exists>w'. steps c nthr w w' \<and> (\<nexists>w''. step c nthr w' w'')"
  using run.steps_stop [of c g nthr w] assms by (simp add: well_run_def)

text \<open>A run that can go no further.\<close>

lemma run_result:
  assumes sane: "sane c" and inp: "input_ok c g" and num: "numbered g" and ne: "verts g \<noteq> {}" and thr: "0 < nthr"
    and run: "steps c nthr (start c g) w" and stop: "\<nexists>w'. step c nthr w w'"
  shows "case failure w of
      Some er \<Rightarrow> excused (target c) (host c) er
    | None \<Rightarrow> (\<forall>s \<in> set (slots w). phase_of s = Gone) \<and> root_refs w = 0 \<and>
        (\<forall>k. recorded nthr (hists w) k = (if within c k then card {C. G.maximal_clique g C \<and> card C = k} else 0))"
proof (cases "failure w")
  case None
  note on = steps_on_course [OF sane inp num run]
  with None have ok: "world_ok c g w" "\<And>k. int (recorded nthr (hists w) k) + outstanding c g (slots w) k =
          outstanding c g (slots (start c g)) k" by (simp_all add: on_course_def)
  have "\<not> (\<exists>p < length (slots w). live (slots w ! p))" using some_step [OF ok(1) _ None thr] stop by blast
  then have gone: "\<forall>s \<in> set (slots w). \<not> live s" by (metis in_set_conv_nth)
  note z = all_gone_total [OF gone]
  have e: "int (recorded nthr (hists w) k) = (if within c k then int (card {C. G.maximal_clique g C \<and> card C = k}) else 0)" for k
    using ok(2) [of k] start_outstanding [OF num inp ne, of k] z by (simp add: outstanding_def)
  have "recorded nthr (hists w) k = (if within c k then card {C. G.maximal_clique g C \<and> card C = k} else 0)" for k
    using e [of k] by (cases "within c k") simp_all
  moreover have "root_refs w = 0" using ok(1) z by (simp add: world_ok_def orphans_def)
  moreover have "\<forall>s \<in> set (slots w). phase_of s = Gone" using gone by (simp add: live_def)
  ultimately show ?thesis using None by simp
next
  case (Some er)
  with steps_on_course [OF sane inp num run] show ?thesis by (simp add: on_course_def)
qed

end
