(* ===== verification/TaskMemory.thy ===== *)
theory TaskMemory
  imports SeqMemory Runs
begin

text \<open>
  The places of the sets across the calls of \<open>execute\<close>: what a task remembers between them, the calls with
  the statements that create and delete sets and pools, and whole runs in which every task has its
  sets and its pool.
\<close>

section \<open>Executing a task\<close>

text \<open>The pointers \<open>P_task\<close>, \<open>X_task\<close>, \<open>cand_task\<close> and \<open>sets_chunk\<close> of a task; \<open>None\<close> is null.\<close>

record spot =
  P_at :: "nat option"
  X_at :: "nat option"
  cand_at :: "nat option"
  chunk_at :: "nat option"

definition delete_at :: "nat option \<Rightarrow> mem \<Rightarrow> mem result" where
  "delete_at h me = (case h of None \<Rightarrow> Inl NullDereference | Some h \<Rightarrow> on_heap (delete_set h) me)"

definition finish_loop_mem :: "config \<Rightarrow> spot \<Rightarrow> state \<times> mem \<Rightarrow> (recycle \<times> spot \<times> state \<times> mem) result" where
  "finish_loop_mem c sp = (\<lambda>(st, me).
     bind_result (delete_at (P_at sp) me) (\<lambda>me.
     bind_result (delete_at (X_at sp) me) (\<lambda>me.
     bind_result (delete_at (cand_at sp) me) (\<lambda>me.
     bind_result (finish_loop c st) (\<lambda>(r, st).
     Inr (r, sp\<lparr>P_at := None, X_at := None, cand_at := None\<rparr>, st, me))))))"

text \<open>
  The root sets have memory of their own.  \<open>StartTask\<close> is given \<open>P_task\<close> and \<open>X_task\<close> by reference; where it
  deletes them it clears them.
\<close>

definition create_root_sets_mem ::
  "config \<Rightarrow> pool_config \<Rightarrow> graph \<Rightarrow> key \<Rightarrow> mem \<Rightarrow> (placed_set \<times> placed_set \<times> mem) result" where
  "create_root_sets_mem c m g new_v me =
     bind_result (create_root_sets c g new_v) (\<lambda>(P, X).
     bind_result (new_set m None P me) (\<lambda>(p, me).
     bind_result (new_set m None X me) (\<lambda>(x, me). Inr ((p, P), (x, X), me))))"

definition begin_task_mem ::
  "config \<Rightarrow> pool_config \<Rightarrow> nat \<Rightarrow> spot \<Rightarrow> state \<times> mem \<Rightarrow> (bool \<times> spot \<times> state \<times> mem) result" where
  "begin_task_mem c m thr sp = (\<lambda>(st, me).
     bind_result
       (if parent (this st) = None then
          bind_result (deref_guard (graphg (this st)) st) (\<lambda>gd.
          bind_result (create_root_sets_mem c m (guarded gd) (new_vertex (this st)) me) (\<lambda>((p, P), (x, X), me).
          Inr (sp\<lparr>P_at := Some p, X_at := Some x\<rparr>,
               set_this (\<lambda>t. t\<lparr>R_task := Some (push_back (new_vertex t) UnrolledList),
                              P_task := Some P, X_task := Some X\<rparr>) st, me)))
        else Inr (sp, st, me)) (\<lambda>(sp, st, me).
       case (R_task (this st), P_task (this st), X_task (this st), P_at sp, X_at sp) of
         (Some R, Some P, Some X, Some p, Some x) \<Rightarrow>
           bind_result (StartTask_mem c m thr R (p, P) (x, X) (graphg (this st)) (st, me)) (\<lambda>(cand, gg, st, me).
             let st = set_this (\<lambda>t. t\<lparr>graphg := gg\<rparr>) st in
             case cand of
               None \<Rightarrow> Inr (True, if hs_empty P then sp\<lparr>P_at := None, X_at := None\<rparr> else sp,
                 set_this (\<lambda>t. t\<lparr>isContinuation := True\<rparr>) st, me)
             | Some None \<Rightarrow> Inr (False, sp\<lparr>cand_at := None\<rparr>,
                 set_this (\<lambda>t. t\<lparr>cand_task := None, newTask := False\<rparr>) st, me)
             | Some (Some (h, cand)) \<Rightarrow> Inr (False, sp\<lparr>cand_at := Some h\<rparr>,
                 set_this (\<lambda>t. t\<lparr>cand_task := Some cand, newTask := False\<rparr>) st, me))
       | _ \<Rightarrow> Inl NullDereference))"

definition loop_once_mem ::
  "config \<Rightarrow> pool_config \<Rightarrow> nat \<Rightarrow> spot \<Rightarrow> state \<times> mem \<Rightarrow>
    (recycle \<times> (main_task \<times> nat \<times> nat) option \<times> spot \<times> state \<times> mem) result" where
  "loop_once_mem c m thr sp = (\<lambda>(st, me).
     case (R_task (this st), P_task (this st), X_task (this st), cand_task (this st), P_at sp, X_at sp, cand_at sp) of
        (Some R, Some P, Some X, Some cand, Some p, Some x, Some h) \<Rightarrow>
          bind_result (use_set h me) (\<lambda>_.
          let (current_node, cand) = hs_get_next cand;
              st = set_this (\<lambda>t. t\<lparr>cand_task := Some cand\<rparr>) st
          in if current_node \<noteq> -1 then
               bind_result (LoopIteration_mem c m (SequentialRun_mem c m thr (sequential_fuel P)) current_node
                   (graphg (this st)) (R, (p, P), (x, X), st, me)) (\<lambda>(a, R, P, X, st, me).
                 let st = set_this (\<lambda>t. t\<lparr>R_task := Some R, P_task := Some (snd P), X_task := Some (snd X)\<rparr>) st
                 in if \<not> hs_end_iter cand then Inr (Reexecute, a, sp, st, me)
                    else bind_result (finish_loop_mem c sp (st, me)) (\<lambda>(r, sp, st, me). Inr (r, a, sp, st, me)))
             else bind_result (finish_loop_mem c sp (st, me)) (\<lambda>(r, sp, st, me). Inr (r, None, sp, st, me)))
      | _ \<Rightarrow> Inl NullDereference)"

definition SpawnTask_mem ::
  "config \<Rightarrow> pool_config \<Rightarrow> nat \<Rightarrow> spot \<Rightarrow> state \<times> mem \<Rightarrow>
    (recycle \<times> (main_task \<times> nat \<times> nat) option \<times> spot \<times> state \<times> mem) result" where
  "SpawnTask_mem c m thr sp = (\<lambda>(st, me).
     bind_result (if newTask (this st) then begin_task_mem c m thr sp (st, me) else Inr (False, sp, st, me))
       (\<lambda>(end, sp, st, me).
       if end then Inr (SafeContinuation, None, sp, st, me) else loop_once_mem c m thr sp (st, me)))"

definition Continuation_mem :: "config \<Rightarrow> state \<times> mem \<Rightarrow> (state \<times> mem) result" where
  "Continuation_mem c = (\<lambda>(st, me).
     bind_result (Continuation c st) (\<lambda>st.
       case sets_chunk me of
         None \<Rightarrow> Inr (st, me)
       | Some d \<Rightarrow> bind_result (on_heap (delete_chunk d) me) (\<lambda>me. Inr (st, me\<lparr>sets_chunk := None\<rparr>))))"

definition execute_mem ::
  "config \<Rightarrow> pool_config \<Rightarrow> nat \<Rightarrow> spot \<Rightarrow> state \<times> mem \<Rightarrow>
    (recycle \<times> (main_task \<times> nat \<times> nat) option \<times> spot \<times> state \<times> mem) result" where
  "execute_mem c m thr sp = (\<lambda>(st, me).
     if \<not> isContinuation (this st) then SpawnTask_mem c m thr sp (st, me)
     else bind_result (Continuation_mem c (st, me)) (\<lambda>(st, me). Inr (Finished, None, sp, st, me)))"


section \<open>What a call does to the memory\<close>

definition spot_sets :: "spot \<Rightarrow> nat list" where
  "spot_sets sp = concat (map (\<lambda>h. case h of None \<Rightarrow> [] | Some h \<Rightarrow> [h]) [P_at sp, X_at sp, cand_at sp])"

definition handed :: "(main_task \<times> nat \<times> nat) option \<Rightarrow> nat list" where
  "handed a = (case a of None \<Rightarrow> [] | Some (_, p, x) \<Rightarrow> [p, x])"

lemma handed_simps [simp]: "handed None = []" "handed (Some (t, p, x)) = [p, x]"
  by (simp_all add: handed_def)

text \<open>The pointers that the task dereferences next are not null.\<close>

definition fits_task :: "main_task \<Rightarrow> spot \<Rightarrow> bool" where
  "fits_task t sp \<longleftrightarrow> (P_task t \<noteq> None \<longrightarrow> P_at sp \<noteq> None) \<and> (X_task t \<noteq> None \<longrightarrow> X_at sp \<noteq> None) \<and>
     (\<not> newTask t \<and> cand_task t \<noteq> None \<longrightarrow> cand_at sp \<noteq> None)"

text \<open>The sets of the task lie where they did, in memory of their own, or in its pool.\<close>

definition placed_ok :: "nat set \<Rightarrow> mem \<Rightarrow> nat set \<Rightarrow> mem \<Rightarrow> bool" where
  "placed_ok S0 me S me' \<longleftrightarrow> (\<forall>h \<in> S. owner (memory me') h \<in> {None, sets_chunk me'} \<or>
     h \<in> S0 \<and> owner (memory me') h = owner (memory me) h)"

definition begun_at :: "bool \<Rightarrow> nat set \<Rightarrow> nat set \<Rightarrow> mem \<Rightarrow> bool \<times> state \<Rightarrow> bool \<times> spot \<times> state \<times> mem \<Rightarrow> bool" where
  "begun_at tight K S0 me = (\<lambda>(b, st) (b', sp, st', me'). b' = b \<and> st' = st \<and> aligned st me' \<and>
     at_work tight K me (set (spot_sets sp)) me' \<and> distinct (spot_sets sp) \<and>
     placed_ok S0 me (set (spot_sets sp)) me' \<and> (b \<and> tight \<longrightarrow> spot_sets sp = []) \<and> (\<not> b \<longrightarrow> \<not> newTask (this st) \<and> fits_task (this st) sp))"

definition executed_at ::
  "bool \<Rightarrow> nat set \<Rightarrow> nat set \<Rightarrow> mem \<Rightarrow> recycle \<times> main_task option \<times> state \<Rightarrow>
    recycle \<times> (main_task \<times> nat \<times> nat) option \<times> spot \<times> state \<times> mem \<Rightarrow> bool" where
  "executed_at tight K S0 me = (\<lambda>(r, a, st) (r', a', sp, st', me'). r' = r \<and> st' = st \<and> a = map_option fst a' \<and>
     aligned st me' \<and> at_work tight K me (set (spot_sets sp) \<union> set (handed a')) me' \<and> distinct (spot_sets sp @ handed a') \<and>
     placed_ok S0 me (set (spot_sets sp)) me' \<and>
     (\<forall>h \<in> set (handed a'). length (sets (memory me)) \<le> h \<and> owner (memory me') h \<in> {None, sets_chunk me'}) \<and>
     (tight \<and> r = SafeContinuation \<longrightarrow> spot_sets sp = []) \<and> (r \<noteq> SafeContinuation \<longrightarrow> fits_task (this st) sp))"

lemma set_this_fields [simp]:
  "this (set_this f st) = f (this st)" "spawned (set_this f st) = spawned st" "aligned (set_this f st) me = aligned st me"
  by (simp_all add: set_this_def aligned_def)

lemma finish_loop_shape:
  "finish_loop c st = Inr (r, st') \<Longrightarrow> r = SafeContinuation \<and> spawned st' = spawned st"
  by (auto simp: finish_loop_def Let_def guard_ops_spawned split: if_splits)

definition ended_at :: "bool \<Rightarrow> nat set \<Rightarrow> mem \<Rightarrow> nat set \<Rightarrow> mem \<Rightarrow> recycle \<times> state \<Rightarrow> recycle \<times> spot \<times> state \<times> mem \<Rightarrow> bool" where
  "ended_at tight K me0 B me = (\<lambda>(r, st) (r', sp, st', me'). r' = r \<and> st' = st \<and> r = SafeContinuation \<and> spot_sets sp = [] \<and>
     aligned st me' \<and> at_work tight K me0 B me' \<and> same_places B me me' \<and> sets_chunk me' = sets_chunk me)"

lemma finish_loop_matches:
  assumes w: "at_work tight K me0 (set (spot_sets sp) \<union> B) me" and sp: "P_at sp = Some p" "X_at sp = Some x" "cand_at sp = Some h"
    and d: "distinct [p, x, h]" "set (spot_sets sp) \<inter> B = {}" and al: "aligned st me"
  shows "matches (ended_at tight K me0 B me)
    (finish_loop c st) (finish_loop_mem c sp (st, me))"
proof -
  have ss: "set (spot_sets sp) = {p, x, h}" using sp by (simp add: spot_sets_def)
  have w0: "at_work tight K me0 ({p, x, h} \<union> B) me" using w ss by simp
  from at_work_delete [OF w0, of p] obtain me1 where 1: "on_heap (delete_set p) me = Inr me1"
    "at_work tight K me0 ({p, x, h} \<union> B - {p}) me1" "sets_chunk me1 = sets_chunk me" "kids_at me1 = kids_at me"
    "same_places ({p, x, h} \<union> B - {p}) me me1" by auto
  from at_work_delete [OF 1(2), of x] d obtain me2 where 2: "on_heap (delete_set x) me1 = Inr me2"
    "at_work tight K me0 ({p, x, h} \<union> B - {p} - {x}) me2" "sets_chunk me2 = sets_chunk me1" "kids_at me2 = kids_at me1"
    "same_places ({p, x, h} \<union> B - {p} - {x}) me1 me2" by auto
  from at_work_delete [OF 2(2), of h] d obtain me3 where 3: "on_heap (delete_set h) me2 = Inr me3"
    "at_work tight K me0 ({p, x, h} \<union> B - {p} - {x} - {h}) me3" "sets_chunk me3 = sets_chunk me2" "kids_at me3 = kids_at me2"
    "same_places ({p, x, h} \<union> B - {p} - {x} - {h}) me2 me3" by auto
  have e: "{p, x, h} \<union> B - {p} - {x} - {h} = B" using d(2) ss by auto
  show ?thesis
    unfolding finish_loop_mem_def sp delete_at_def prod.case option.case 1(1) 2(1) 3(1) bind_result_simps
  proof (cases "finish_loop c st")
    case (Inr rs)
    obtain r st1 where rs: "rs = (r, st1)" by (cases rs)
    note sh = finish_loop_shape [OF Inr [unfolded rs]]
    have "aligned st1 me3" using al sh 1(4) 2(4) 3(4) by (simp add: aligned_def)
    moreover have "same_places B me me1" by (rule same_places_mono [OF 1(5)]) (use d(2) ss in auto)
    moreover have "same_places B me1 me2" by (rule same_places_mono [OF 2(5)]) (use d(2) ss in auto)
    moreover have "same_places B me2 me3" by (rule same_places_mono [OF 3(5)]) (use d(2) ss in auto)
    moreover note same_places_trans [OF same_places_trans]
    ultimately have "aligned st1 me3" "same_places B me me3" by blast+
    then show "matches (ended_at tight K me0 B me) (finish_loop c st)
      (bind_result (finish_loop c st) (\<lambda>(r, st). Inr (r, sp\<lparr>P_at := None, X_at := None, cand_at := None\<rparr>, st, me3)))"
      using Inr rs sh 1(3) 2(3) 3(2) [unfolded e] 3(3) by (simp add: spot_sets_def ended_at_def)
  qed simp
qed


lemma begin_tail:
  assumes w: "at_work tight K me0 {p, x} me" and px: "p \<noteq> x" and al: "aligned st me" and tight: "tight \<longrightarrow> max_clq_size c = -1"
    and sp: "P_at sp = Some p" "X_at sp = Some x" "cand_at sp = None" 
    and pl: "\<forall>h \<in> {p, x}. owner (memory me) h = None \<or> h \<in> S0 \<and> owner (memory me) h = owner (memory me0) h"
  shows "matches (begun_at tight K S0 me0)
    (bind_result (StartTask c thr R P X gg st) (\<lambda>(cand, gg, st).
       let st = set_this (\<lambda>t. t\<lparr>graphg := gg\<rparr>) st in
       case cand of None \<Rightarrow> Inr (True, set_this (\<lambda>t. t\<lparr>isContinuation := True\<rparr>) st)
       | Some cand \<Rightarrow> Inr (False, set_this (\<lambda>t. t\<lparr>cand_task := cand, newTask := False\<rparr>) st)))
    (bind_result (StartTask_mem c m thr R (p, P) (x, X) gg (st, me)) (\<lambda>(cand, gg, st, me).
       let st = set_this (\<lambda>t. t\<lparr>graphg := gg\<rparr>) st in
       case cand of
         None \<Rightarrow> Inr (True, if hs_empty P then sp\<lparr>P_at := None, X_at := None\<rparr> else sp,
           set_this (\<lambda>t. t\<lparr>isContinuation := True\<rparr>) st, me)
       | Some None \<Rightarrow> Inr (False, sp\<lparr>cand_at := None\<rparr>, set_this (\<lambda>t. t\<lparr>cand_task := None, newTask := False\<rparr>) st, me)
       | Some (Some (h, cand)) \<Rightarrow> Inr (False, sp\<lparr>cand_at := Some h\<rparr>,
           set_this (\<lambda>t. t\<lparr>cand_task := Some cand, newTask := False\<rparr>) st, me)))"
proof (rule matches_bind [OF StartTask_matches [OF w px al]])
  fix a b assume s: "started_at c R P tight K me0 p x me a b"
  obtain o1 gg1 st1 where a: "a = (o1, gg1, st1)" by (cases a)
  with s obtain o2 me1 where b: "b = (o2, gg1, st1, me1)" and al1: "aligned st1 me1" by (auto simp: started_at_def)
  show "matches (begun_at tight K S0 me0)
    (case a of (cand, gg, st) \<Rightarrow> let st = set_this (\<lambda>t. t\<lparr>graphg := gg\<rparr>) st in
       case cand of None \<Rightarrow> Inr (True, set_this (\<lambda>t. t\<lparr>isContinuation := True\<rparr>) st)
       | Some cand \<Rightarrow> Inr (False, set_this (\<lambda>t. t\<lparr>cand_task := cand, newTask := False\<rparr>) st))
    (case b of (cand, gg, st, me) \<Rightarrow> let st = set_this (\<lambda>t. t\<lparr>graphg := gg\<rparr>) st in
       case cand of
         None \<Rightarrow> Inr (True, if hs_empty P then sp\<lparr>P_at := None, X_at := None\<rparr> else sp,
           set_this (\<lambda>t. t\<lparr>isContinuation := True\<rparr>) st, me)
       | Some None \<Rightarrow> Inr (False, sp\<lparr>cand_at := None\<rparr>, set_this (\<lambda>t. t\<lparr>cand_task := None, newTask := False\<rparr>) st, me)
       | Some (Some (h, cand)) \<Rightarrow> Inr (False, sp\<lparr>cand_at := Some h\<rparr>,
           set_this (\<lambda>t. t\<lparr>cand_task := Some cand, newTask := False\<rparr>) st, me))"
  proof (cases o2)
    case None
    have n: "o1 = None" "at_work tight K me0 (if hs_empty P then {} else {p, x}) me1"
      "hs_empty P \<or> size_limit_reached c R \<and> same_places {p, x} me me1"
      using s None by (auto simp: a b started_at_def)
    have "hs_empty P \<or> \<not> tight" using n(3) tight by (auto simp: size_limit_reached_def)
    moreover have "placed_ok S0 me0 {p, x} me1" if "\<not> hs_empty P"
      using n(3) that pl by (auto simp: placed_ok_def same_places_def)
    ultimately show ?thesis
      using n(1,2) al1 sp px by (cases "hs_empty P") (simp_all add: a b None begun_at_def spot_sets_def placed_ok_def insert_commute)
  next
    case (Some oc)
    show ?thesis
    proof (cases oc)
      case None
      with s Some have n: "o1 = Some None" "at_work tight K me0 {p, x} me1" "same_places {p, x} me me1"
        by (auto simp: a b started_at_def)
      have "placed_ok S0 me0 {p, x} me1" using n(3) pl by (auto simp: placed_ok_def same_places_def)
      with n(1,2) al1 sp px Some None show ?thesis
        by (simp add: a b begun_at_def spot_sets_def fits_task_def insert_commute)
    next
      case some: (Some hc)
      obtain h cs where hc: "hc = (h, cs)" by (cases hc)
      with s Some some have n: "o1 = Some (Some cs)" "at_work tight K me0 {p, x, h} me1" "h \<notin> {p, x}"
        "owner (memory me1) h \<in> {None, sets_chunk me1}" "same_places {p, x} me me1"
        by (auto simp: a b started_at_def)
      have "placed_ok S0 me0 {p, x, h} me1" using n(4,5) pl by (auto simp: placed_ok_def same_places_def)
      with n(1-3) al1 sp px Some some hc show ?thesis
        by (simp add: a b begun_at_def spot_sets_def fits_task_def insert_commute)
    qed
  qed
qed

text \<open>The memory of a task when \<open>execute\<close> is called.\<close>

definition task_at :: "bool \<Rightarrow> nat set \<Rightarrow> spot \<Rightarrow> state \<Rightarrow> mem \<Rightarrow> bool" where
  "task_at tight K sp st me \<longleftrightarrow> mem_ok tight (K \<union> set (spot_sets sp)) me \<and> kids_at me = [] \<and> spawned st = [] \<and>
     K \<inter> set (spot_sets sp) = {} \<and> distinct (spot_sets sp) \<and> fits_task (this st) sp \<and>
     (newTask (this st) \<longrightarrow> cand_at sp = None \<and> (parent (this st) = None \<longrightarrow> P_at sp = None \<and> X_at sp = None))"

lemma begin_root_matches:
  assumes t: "task_at tight K sp st me" and new: "newTask (this st)" and tight: "tight \<longrightarrow> max_clq_size c = -1"
    and True: "parent (this st) = None"
  shows "matches (begun_at tight K (set (spot_sets sp)) me) (begin_task c thr st) (begin_task_mem c m thr sp (st, me))"
proof -
  have e: "spot_sets sp = []" "cand_at sp = None" using t new True by (simp_all add: task_at_def spot_sets_def)
  have "at_work tight K me {} me" using t e by (intro at_work_start) (auto simp: task_at_def)
  note w = this
  have al: "aligned st me' \<longleftrightarrow> kids_at me' = []" for me' using t by (simp add: task_at_def aligned_def)
  show ?thesis
  proof (cases "deref_guard (graphg (this st)) st")
    case (Inl er)
    with True show ?thesis by (simp add: begin_task_def begin_task_mem_def)
  next
    case gd: (Inr gd)
    show ?thesis
    proof (cases "create_root_sets c (guarded gd) (new_vertex (this st))")
      case (Inl er)
      with True gd show ?thesis by (simp add: begin_task_def begin_task_mem_def create_root_sets_mem_def)
    next
      case (Inr PX)
      obtain P X where PX: "PX = (P, X)" by (cases PX)
      from at_work_new [OF w, of None m P] obtain p me1 where
        1: "new_set m None P me = Inr (p, me1)" "at_work tight K me {p} me1" "owner (memory me1) p = None" "kids_at me1 = kids_at me"
        by auto
      from at_work_new [OF 1(2), of None m X] obtain x me2 where
        2: "new_set m None X me1 = Inr (x, me2)" "at_work tight K me {p, x} me2" "x \<noteq> p" "owner (memory me2) x = None"
          "owner (memory me2) p = owner (memory me1) p" "kids_at me2 = kids_at me1" by (auto simp: insert_commute)
      have k: "kids_at me2 = []" using 1(4) 2(6) t by (simp add: task_at_def)
      note tail = begin_tail [OF 2(2) 2(3) [symmetric] _ tight, where sp = "sp\<lparr>P_at := Some p, X_at := Some x\<rparr>" and ?S0.0 = "{}"]
      show ?thesis
        using True gd Inr PX 1(1,3) 2(1,4,5) e
        by (auto simp: begin_task_def begin_task_mem_def create_root_sets_mem_def al k intro!: tail split del: if_split)
    qed
  qed
qed

lemma begin_child_matches:
  assumes t: "task_at tight K sp st me" and new: "newTask (this st)" and tight: "tight \<longrightarrow> max_clq_size c = -1"
    and False: "parent (this st) \<noteq> None"
  shows "matches (begun_at tight K (set (spot_sets sp)) me) (begin_task c thr st) (begin_task_mem c m thr sp (st, me))"
proof (cases "R_task (this st) \<noteq> None \<and> P_task (this st) \<noteq> None \<and> X_task (this st) \<noteq> None")
  case True
  then obtain R P X where f: "R_task (this st) = Some R" "P_task (this st) = Some P" "X_task (this st) = Some X" by auto
  with t obtain p x where sp: "P_at sp = Some p" "X_at sp = Some x" "cand_at sp = None"
    using new by (auto simp: task_at_def fits_task_def)
  then have e: "spot_sets sp = [p, x]" by (simp add: spot_sets_def)
  then have px: "p \<noteq> x" using t by (auto simp: task_at_def)
  have w: "at_work tight K me {p, x} me" using t e by (intro at_work_start) (auto simp: task_at_def)
  have al: "aligned st me" using t by (simp add: task_at_def aligned_def)
  show ?thesis
    using False f sp e
    by (auto simp: begin_task_def begin_task_mem_def intro!: begin_tail [OF w px al tight] split del: if_split)
next
  case null: False
  then have "begin_task c thr st = Inl NullDereference" using False by (auto simp: begin_task_def split: option.splits)
  moreover have "begin_task_mem c m thr sp (st, me) = Inl NullDereference"
    using null False by (auto simp: begin_task_mem_def split: option.splits)
  ultimately show ?thesis by simp
qed

lemma begin_task_matches:
  assumes "task_at tight K sp st me" and "newTask (this st)" and "tight \<longrightarrow> max_clq_size c = -1"
  shows "matches (begun_at tight K (set (spot_sets sp)) me) (begin_task c thr st) (begin_task_mem c m thr sp (st, me))"
  using begin_root_matches [OF assms] begin_child_matches [OF assms] by blast

lemma placed_ok_same:
  assumes "placed_ok S0 me0 S me" and "same_places S me me'"
  shows "placed_ok S0 me0 S me'"
  unfolding placed_ok_def
proof
  fix h assume "h \<in> S"
  with assms show "owner (memory me') h \<in> {None, sets_chunk me'} \<or> h \<in> S0 \<and> owner (memory me') h = owner (memory me0) h"
    by (cases "sets_chunk me") (auto simp: placed_ok_def same_places_def)
qed

text \<open>The end of a call that has made the child \<open>a\<close>, or none.\<close>

lemma loop_end_matches:
  assumes w: "at_work tight K me0 (set (spot_sets sp) \<union> set (handed a)) me" and d: "distinct (spot_sets sp @ handed a)"
    and sp: "P_at sp = Some p" "X_at sp = Some x" "cand_at sp = Some h" and al: "aligned st me"
    and new: "\<forall>h \<in> set (handed a). length (sets (memory me0)) \<le> h \<and> owner (memory me) h \<in> {None, sets_chunk me}"
  shows "matches (executed_at tight K S0 me0)
    (bind_result (finish_loop c st) (\<lambda>(r, st). Inr (r, map_option fst a, st)))
    (bind_result (finish_loop_mem c sp (st, me)) (\<lambda>(r, sp, st, me). Inr (r, a, sp, st, me)))"
proof (rule matches_bind [OF finish_loop_matches [OF w sp _ _ al]])
  show "distinct [p, x, h]" "set (spot_sets sp) \<inter> set (handed a) = {}" using d sp by (auto simp: spot_sets_def)
next
  fix q q' assume "ended_at tight K me0 (set (handed a)) me q q'"
  then show "matches (executed_at tight K S0 me0) (case q of (r, st) \<Rightarrow> Inr (r, map_option fst a, st))
      (case q' of (r, sp, st, me) \<Rightarrow> Inr (r, a, sp, st, me))"
    using d new by (cases q; cases q') (auto simp: ended_at_def executed_at_def placed_ok_def same_places_def)
qed

text \<open>What \<open>LoopIteration\<close> leaves, said of the child it made.\<close>

lemma iterated_child:
  assumes i: "iterated_at tight K me0 (set S) me p x (o1, R1, P1, X1, st1) b" and d: "distinct S"
  obtains o2 me1 where "b = (o2, R1, (p, P1), (x, X1), st1, me1)" "aligned st1 me1" "same_places (set S) me me1"
    "o1 = map_option fst o2" "at_work tight K me0 (set S \<union> set (handed o2)) me1" "distinct (S @ handed o2)"
    "\<forall>h \<in> set (handed o2). length (sets (memory me0)) \<le> h \<and> owner (memory me1) h \<in> {None, sets_chunk me1}"
proof -
  from i obtain o2 me1 where b: "b = (o2, R1, (p, P1), (x, X1), st1, me1)" "aligned st1 me1" "same_places (set S) me me1"
    by (auto simp: iterated_at_def)
  have "o1 = map_option fst o2 \<and> at_work tight K me0 (set S \<union> set (handed o2)) me1 \<and> distinct (S @ handed o2) \<and>
    (\<forall>h \<in> set (handed o2). length (sets (memory me0)) \<le> h \<and> owner (memory me1) h \<in> {None, sets_chunk me1})"
  proof (cases o2)
    case None
    with i d show ?thesis by (simp add: b iterated_at_def)
  next
    case (Some k)
    obtain t ip ix where "k = (t, ip, ix)" by (cases k)
    with i d Some show ?thesis by (simp add: b iterated_at_def)
  qed
  with that b show thesis by blast
qed

lemma loop_once_matches:
  assumes w: "at_work tight K me0 (set (spot_sets sp)) me" and d: "distinct (spot_sets sp)" and al: "aligned st me"
    and old: "\<not> newTask (this st)" and fits: "fits_task (this st) sp" and pl: "placed_ok S0 me0 (set (spot_sets sp)) me"
    and tight: "tight \<longrightarrow> max_clq_size c = -1"
  shows "matches (executed_at tight K S0 me0) (loop_once c thr st) (loop_once_mem c m thr sp (st, me))"
proof (cases "R_task (this st) \<noteq> None \<and> P_task (this st) \<noteq> None \<and> X_task (this st) \<noteq> None \<and> cand_task (this st) \<noteq> None")
  case True
  then obtain R P X cs where f: "R_task (this st) = Some R" "P_task (this st) = Some P" "X_task (this st) = Some X"
    "cand_task (this st) = Some cs" by auto
  with old fits obtain p x h where sp: "P_at sp = Some p" "X_at sp = Some x" "cand_at sp = Some h" by (auto simp: fits_task_def)
  have ss: "spot_sets sp = [p, x, h]" using sp by (simp add: spot_sets_def)
  obtain sh where u: "use_set h me = Inr sh" using at_work_use [OF w, of h] ss by auto
  obtain v cs' where nx: "hs_get_next cs = (v, cs')" by fastforce
  let ?st = "set_this (\<lambda>t. t\<lparr>cand_task := Some cs'\<rparr>) st"
  show ?thesis
  proof (cases "v = -1")
    case True
    have "matches (executed_at tight K S0 me0)
      (bind_result (finish_loop c ?st) (\<lambda>(r, st). Inr (r, None, st)))
      (bind_result (finish_loop_mem c sp (?st, me)) (\<lambda>(r, sp, st, me). Inr (r, None, sp, st, me)))"
      using loop_end_matches [where a = None, OF _ _ sp] w d al by simp
    with True f sp u nx show ?thesis by (simp add: loop_once_def loop_once_mem_def)
  next
    case False
    have px: "{p, x} \<subseteq> set (spot_sets sp)" using ss by simp
    have al': "aligned ?st me" using al by simp
    note it = LoopIteration_matches [OF w px al' SequentialRun_matches [OF tight, of thr "sequential_fuel P" m]]
    show ?thesis
      using f sp u nx False
      apply (simp add: loop_once_def loop_once_mem_def)
      apply (rule matches_bind [OF it])
      subgoal for a b
      proof -
        assume i: "iterated_at tight K me0 (set (spot_sets sp)) me p x a b"
        obtain o1 R1 P1 X1 st1 where a: "a = (o1, R1, P1, X1, st1)" by (cases a)
        from iterated_child [OF i [unfolded a] d] obtain o2 me1 where
          b: "b = (o2, R1, (p, P1), (x, X1), st1, me1)" and al1: "aligned st1 me1" and same: "same_places (set (spot_sets sp)) me me1"
          and o: "o1 = map_option fst o2" "at_work tight K me0 (set (spot_sets sp) \<union> set (handed o2)) me1"
            "distinct (spot_sets sp @ handed o2)"
            "\<forall>h \<in> set (handed o2). length (sets (memory me0)) \<le> h \<and> owner (memory me1) h \<in> {None, sets_chunk me1}" .
        let ?st1 = "set_this (\<lambda>t. t\<lparr>R_task := Some R1, P_task := Some P1, X_task := Some X1\<rparr>) st1"
        have al2: "aligned ?st1 me1" using al1 by simp
        show ?thesis
        proof (cases "hs_end_iter cs'")
          case True
          with loop_end_matches [OF o(2,3) sp al2 o(4), of S0 c] o(1) show ?thesis by (simp add: a b Let_def)
        next
          case False
          with placed_ok_same [OF pl same] o sp al1 show ?thesis by (simp add: a b Let_def executed_at_def fits_task_def)
        qed
      qed
      done
  qed
next
  case null: False
  then have "loop_once c thr st = Inl NullDereference" by (auto simp: loop_once_def split: option.splits)
  moreover have "loop_once_mem c m thr sp (st, me) = Inl NullDereference"
    using null by (auto simp: loop_once_mem_def split: option.splits)
  ultimately show ?thesis by simp
qed


lemma SpawnTask_matches:
  assumes t: "task_at tight K sp st me" and tight: "tight \<longrightarrow> max_clq_size c = -1"
  shows "matches (executed_at tight K (set (spot_sets sp)) me) (SpawnTask c thr st) (SpawnTask_mem c m thr sp (st, me))"
proof -
  have "matches (begun_at tight K (set (spot_sets sp)) me)
    (if newTask (this st) then begin_task c thr st else Inr (False, st))
    (if newTask (this st) then begin_task_mem c m thr sp (st, me) else Inr (False, sp, st, me))"
  proof (cases "newTask (this st)")
    case True
    with begin_task_matches [OF t True tight] show ?thesis by simp
  next
    case False
    have "at_work tight K me (set (spot_sets sp)) me" using t by (intro at_work_start) (auto simp: task_at_def)
    with False t show ?thesis by (auto simp: begun_at_def task_at_def placed_ok_def aligned_def)
  qed
  then show ?thesis
    unfolding SpawnTask_def SpawnTask_mem_def prod.case
  proof (rule matches_bind)
    fix q q' assume q: "begun_at tight K (set (spot_sets sp)) me q q'"
    obtain b st1 where q1: "q = (b, st1)" by (cases q)
    with q obtain sp1 me1 where q2: "q' = (b, sp1, st1, me1)" by (auto simp: begun_at_def)
    have f: "at_work tight K me (set (spot_sets sp1)) me1" "distinct (spot_sets sp1)" "aligned st1 me1"
      "placed_ok (set (spot_sets sp)) me (set (spot_sets sp1)) me1" "b \<and> tight \<longrightarrow> spot_sets sp1 = []"
      "\<not> b \<longrightarrow> \<not> newTask (this st1)" "\<not> b \<longrightarrow> fits_task (this st1) sp1" using q by (simp_all add: q1 q2 begun_at_def)
    show "matches (executed_at tight K (set (spot_sets sp)) me)
      (case q of (end, st) \<Rightarrow> if end then Inr (SafeContinuation, None, st) else loop_once c thr st)
      (case q' of (end, sp, st, me) \<Rightarrow> if end then Inr (SafeContinuation, None, sp, st, me)
        else loop_once_mem c m thr sp (st, me))"
    proof (cases b)
      case True
      with f show ?thesis by (simp add: q1 q2 executed_at_def)
    next
      case False
      with f(6,7) loop_once_matches [OF f(1,2,3) _ _ f(4) tight, of thr m] show ?thesis by (simp add: q1 q2)
    qed
  qed
qed

end
