(* ===== verification/MemoryRuns.thy ===== *)
theory MemoryRuns
  imports TaskMemory
begin

text \<open>
  Whole runs with the places of the sets of all tasks.  Every such run is a run without them and every run can be
  given places, so no set is ever used after it has been freed, or freed twice; and when all tasks are
  gone and there was no size limit, nothing is left in memory.
\<close>

section \<open>Steps\<close>

record places =
  heap_at :: heap
  spots :: "spot list"

definition mem_call :: "nat \<Rightarrow> places \<Rightarrow> mem" where
  "mem_call p pl = \<lparr>memory = heap_at pl, sets_chunk = chunk_at (spots pl ! p), kids_at = []\<rparr>"

definition kid_spot :: "nat \<times> nat \<Rightarrow> spot" where
  "kid_spot = (\<lambda>(p, x). \<lparr>P_at = Some p, X_at = Some x, cand_at = None, chunk_at = None\<rparr>)"

definition settle_mem :: "nat \<Rightarrow> (main_task \<times> nat \<times> nat) option \<times> spot \<times> mem \<Rightarrow> places \<Rightarrow> places" where
  "settle_mem p = (\<lambda>(a, sp, me) pl. \<lparr>heap_at = memory me,
     spots = (spots pl)[p := sp\<lparr>chunk_at := sets_chunk me\<rparr>] @
       map kid_spot (kids_at me @ (case a of None \<Rightarrow> [] | Some (_, px) \<Rightarrow> [px]))\<rparr>)"

inductive mem_step :: "config \<Rightarrow> pool_config \<Rightarrow> nat \<Rightarrow> world \<times> places \<Rightarrow> world \<times> places \<Rightarrow> bool" for c m nthr where
  run: "\<lbrakk>failure w = None; p < length (slots w); phase_of (slots w ! p) = Ready; thr < nthr;
      execute_mem c m thr (spots pl ! p) (call p w, mem_call p pl) = Inr (r, a, sp, st, me)\<rbrakk> \<Longrightarrow>
      mem_step c m nthr (w, pl) (settle p (r, map_option fst a, st) w, settle_mem p (a, sp, me) pl)"
| fail: "\<lbrakk>failure w = None; p < length (slots w); phase_of (slots w ! p) = Ready; thr < nthr;
      execute_mem c m thr (spots pl ! p) (call p w, mem_call p pl) = Inl er\<rbrakk> \<Longrightarrow>
      mem_step c m nthr (w, pl) (w\<lparr>failure := Some er\<rparr>, pl)"

definition start_places :: "graph \<Rightarrow> places" where
  "start_places g = \<lparr>heap_at = \<lparr>sets = [], chunks = [], deleted_chunks = []\<rparr>,
     spots = map (\<lambda>_. \<lparr>P_at = None, X_at = None, cand_at = None, chunk_at = None\<rparr>) (vertexOrdering g)\<rparr>"

lemma spot_sets_simps [simp]:
  "spot_sets (sp\<lparr>chunk_at := c\<rparr>) = spot_sets sp" "spot_sets (kid_spot (p, x)) = [p, x]"
  "chunk_at (kid_spot px) = None" "cand_at (kid_spot px) = None"
  by (simp_all add: spot_sets_def kid_spot_def split: prod.split)

section \<open>Memory in order\<close>

text \<open>
  The tasks that are not gone are given by the set \<open>L\<close> of their numbers, with their fields \<open>J\<close> and their
  spots \<open>S\<close>; the sets \<open>E\<close> are in use, but not held by a task yet.
\<close>

abbreviation held :: "(nat \<Rightarrow> spot) \<Rightarrow> nat \<Rightarrow> nat set" where
  "held S p \<equiv> set (spot_sets (S p))"

definition spot_ok :: "bool \<Rightarrow> main_task \<Rightarrow> spot \<Rightarrow> bool" where
  "spot_ok tight t sp \<longleftrightarrow> distinct (spot_sets sp) \<and>
     (if isContinuation t then tight \<longrightarrow> spot_sets sp = []
      else fits_task t sp \<and> (newTask t \<longrightarrow> cand_at sp = None \<and> (parent t = None \<longrightarrow> P_at sp = None \<and> X_at sp = None)))"

text \<open>A task's sets lie in memory of their own, in its pool or in that of its parent.\<close>

definition owners_ok :: "nat set \<Rightarrow> (nat \<Rightarrow> spot) \<Rightarrow> heap \<Rightarrow> main_task \<Rightarrow> spot \<Rightarrow> bool" where
  "owners_ok L S hp t sp \<longleftrightarrow> (\<forall>h \<in> set (spot_sets sp). owner hp h \<in> {None, chunk_at sp} \<or>
     (\<exists>q \<in> L. parent t = Some q \<and> owner hp h = chunk_at (S q)))"

definition separate :: "(nat \<Rightarrow> spot) \<Rightarrow> nat \<Rightarrow> nat \<Rightarrow> bool" where
  "separate S p q \<longleftrightarrow> held S p \<inter> held S q = {} \<and> (chunk_at (S p) = chunk_at (S q) \<longrightarrow> chunk_at (S p) = None)"

definition slots_mem :: "bool \<Rightarrow> nat set \<Rightarrow> nat set \<Rightarrow> (nat \<Rightarrow> main_task) \<Rightarrow> (nat \<Rightarrow> spot) \<Rightarrow> heap \<Rightarrow> bool" where
  "slots_mem tight E L J S hp \<longleftrightarrow> heap_ok tight None ((\<Union>p \<in> L. held S p) \<union> E) hp \<and>
     (\<forall>p \<in> L. spot_ok tight (J p) (S p) \<and> owners_ok L S hp (J p) (S p) \<and> held S p \<inter> E = {} \<and>
        (\<forall>c. chunk_at (S p) = Some c \<longrightarrow> (\<exists>ch. cell_at (chunks hp) c = Inr ch))) \<and>
     (\<forall>p \<in> L. \<forall>q \<in> L. p \<noteq> q \<longrightarrow> separate S p q) \<and>
     (\<forall>c ch. cell_at (chunks hp) c = Inr ch \<longrightarrow> (\<exists>p \<in> L. chunk_at (S p) = Some c))"

definition others :: "nat set \<Rightarrow> (nat \<Rightarrow> spot) \<Rightarrow> nat \<Rightarrow> nat set" where
  "others L S p = (\<Union>q \<in> L - {p}. held S q)"

lemma all_sets: "p \<in> L \<Longrightarrow> (\<Union>q \<in> L. held S q) = others L S p \<union> held S p"
  by (auto simp: others_def)

lemma slots_memD:
  assumes "slots_mem tight E L J S hp" and "p \<in> L"
  shows "heap_ok tight None (others L S p \<union> held S p \<union> E) hp" and "spot_ok tight (J p) (S p)"
    and "owners_ok L S hp (J p) (S p)" and "others L S p \<inter> held S p = {}"
    and "chunk_at (S p) = Some c \<Longrightarrow> \<exists>ch. cell_at (chunks hp) c = Inr ch"
proof -
  show "heap_ok tight None (others L S p \<union> held S p \<union> E) hp" "spot_ok tight (J p) (S p)" "owners_ok L S hp (J p) (S p)"
    "chunk_at (S p) = Some c \<Longrightarrow> \<exists>ch. cell_at (chunks hp) c = Inr ch"
    using assms all_sets [OF assms(2), of S] by (auto simp: slots_mem_def)
  have "separate S q p" if "q \<in> L - {p}" for q using that assms by (auto simp: slots_mem_def)
  then show "others L S p \<inter> held S p = {}" by (fastforce simp: others_def separate_def)
qed

lemma slots_mem_separate: "slots_mem tight E L J S hp \<Longrightarrow> p \<in> L \<Longrightarrow> q \<in> L \<Longrightarrow> p \<noteq> q \<Longrightarrow> separate S p q"
  unfolding slots_mem_def by blast

lemma slots_mem_owned: "slots_mem tight E L J S hp \<Longrightarrow> cell_at (chunks hp) c = Inr ch \<Longrightarrow> \<exists>q \<in> L. chunk_at (S q) = Some c"
  unfolding slots_mem_def by blast

text \<open>The pools while a task is executed: they stay, and at most one comes, its own.\<close>

lemma moves_pools:
  assumes mv: "moves K me0 me"
  shows "sets_chunk me0 \<noteq> None \<Longrightarrow> sets_chunk me = sets_chunk me0"
    and "cell_at (chunks (memory me0)) c = Inr ch \<Longrightarrow> \<exists>ch. cell_at (chunks (memory me)) c = Inr ch"
    and "cell_at (chunks (memory me)) c = Inr ch \<Longrightarrow> (\<exists>ch. cell_at (chunks (memory me0)) c = Inr ch) \<or> sets_chunk me = Some c"
    and "sets_chunk me = Some c \<Longrightarrow> sets_chunk me0 = Some c \<or> length (chunks (memory me0)) \<le> c"
proof -
  have np: "new_pool me0 me" and lv: "\<And>c. c < length (chunks (memory me0)) \<Longrightarrow>
      (chunks (memory me) ! c = None) = (chunks (memory me0) ! c = None)"
    using mv by (auto simp: moves_def)
  show "sets_chunk me0 \<noteq> None \<Longrightarrow> sets_chunk me = sets_chunk me0" using np by (auto simp: new_pool_def)
  show "cell_at (chunks (memory me0)) c = Inr ch \<Longrightarrow> \<exists>ch. cell_at (chunks (memory me)) c = Inr ch"
    using lv [of c] new_pool_length [OF np] by (auto simp: cell_at_Inr)
  show "sets_chunk me = Some c \<Longrightarrow> sets_chunk me0 = Some c \<or> length (chunks (memory me0)) \<le> c"
    using np by (auto simp: new_pool_def)
  show "cell_at (chunks (memory me)) c = Inr ch \<Longrightarrow> (\<exists>ch. cell_at (chunks (memory me0)) c = Inr ch) \<or> sets_chunk me = Some c"
    using lv [of c] np by (cases "c < length (chunks (memory me0))") (auto simp: cell_at_Inr new_pool_def)
qed

text \<open>A task is executed: the other tasks have their sets where they had them.\<close>

lemma owners_others:
  assumes ok: "slots_mem tight {} L J S hp" and q: "q \<in> L" "q \<noteq> p"
    and mv: "moves (others L S p) \<lparr>memory = hp, sets_chunk = chunk_at (S p), kids_at = []\<rparr> me"
  shows "owners_ok L (S(p := sp\<lparr>chunk_at := sets_chunk me\<rparr>)) (memory me) (J q) (S q)"
  unfolding owners_ok_def
proof
  let ?S = "S(p := sp\<lparr>chunk_at := sets_chunk me\<rparr>)"
  fix h assume h: "h \<in> set (spot_sets (S q))"
  then have "h \<in> others L S p" using q by (auto simp: others_def)
  then have own: "owner (memory me) h = owner hp h" using mv by (simp add: moves_def)
  have keep: "chunk_at (S p) \<noteq> None \<Longrightarrow> sets_chunk me = chunk_at (S p)" using moves_pools(1) [OF mv] by simp
  from slots_memD(3) [OF ok q(1)] h consider "owner hp h \<in> {None, chunk_at (S q)}"
    | x where "x \<in> L" "parent (J q) = Some x" "owner hp h = chunk_at (S x)" by (auto simp: owners_ok_def)
  then show "owner (memory me) h \<in> {None, chunk_at (S q)} \<or>
      (\<exists>x \<in> L. parent (J q) = Some x \<and> owner (memory me) h = chunk_at (?S x))"
    using own keep by cases (fastforce, cases "chunk_at (S p)", auto)
qed

text \<open>Its own sets are placed in memory of their own, in its pool, or stay.\<close>

lemma owners_executed:
  assumes ok: "slots_mem tight {} L J S hp" and p: "p \<in> L"
    and mv: "moves (others L S p) \<lparr>memory = hp, sets_chunk = chunk_at (S p), kids_at = []\<rparr> me"
    and po: "placed_ok (held S p) \<lparr>memory = hp, sets_chunk = chunk_at (S p), kids_at = []\<rparr> (set (spot_sets sp)) me"
    and par: "parent t = parent (J p)" "parent (J p) \<noteq> Some p"
  shows "owners_ok L (S(p := sp\<lparr>chunk_at := sets_chunk me\<rparr>)) (memory me) t (sp\<lparr>chunk_at := sets_chunk me\<rparr>)"
  unfolding owners_ok_def
proof
  let ?S = "S(p := sp\<lparr>chunk_at := sets_chunk me\<rparr>)"
  fix h assume "h \<in> set (spot_sets (sp\<lparr>chunk_at := sets_chunk me\<rparr>))"
  with po consider "owner (memory me) h \<in> {None, sets_chunk me}" | "h \<in> held S p" "owner (memory me) h = owner hp h"
    by (auto simp: placed_ok_def)
  then show "owner (memory me) h \<in> {None, chunk_at (sp\<lparr>chunk_at := sets_chunk me\<rparr>)} \<or>
      (\<exists>x \<in> L. parent t = Some x \<and> owner (memory me) h = chunk_at (?S x))"
  proof cases
    case 2
    have "chunk_at (S p) \<noteq> None \<Longrightarrow> sets_chunk me = chunk_at (S p)" using moves_pools(1) [OF mv] by simp
    with 2 slots_memD(3) [OF ok p] par show ?thesis by (cases "chunk_at (S p)") (fastforce simp: owners_ok_def)+
  qed simp
qed

text \<open>A task is executed: its spot changes, it allocates and frees, and it may give the sets \<open>E\<close> to a child.\<close>

lemma slots_mem_update:
  assumes ok: "slots_mem tight {} L J S hp" and p: "p \<in> L"
    and w: "at_work tight (others L S p) \<lparr>memory = hp, sets_chunk = chunk_at (S p), kids_at = []\<rparr> (set (spot_sets sp) \<union> E) me"
    and k: "kids_at me = []" and dE: "set (spot_sets sp) \<inter> E = {}" and sp: "spot_ok tight t sp"
    and po: "placed_ok (held S p) \<lparr>memory = hp, sets_chunk = chunk_at (S p), kids_at = []\<rparr> (set (spot_sets sp)) me"
    and par: "parent t = parent (J p)" "parent (J p) \<noteq> Some p"
  shows "slots_mem tight E L (J(p := t)) (S(p := sp\<lparr>chunk_at := sets_chunk me\<rparr>)) (memory me)"
proof -
  let ?K = "others L S p" and ?S = "S(p := sp\<lparr>chunk_at := sets_chunk me\<rparr>)"
  have m: "mem_ok tight (?K \<union> (set (spot_sets sp) \<union> E)) me" and dK: "?K \<inter> (set (spot_sets sp) \<union> E) = {}"
    and mv: "moves ?K \<lparr>memory = hp, sets_chunk = chunk_at (S p), kids_at = []\<rparr> me"
    using at_workD(1,4) [OF w] w k by (auto simp: at_work_def)
  note pools = moves_pools [OF mv, simplified]
  have oth: "(\<Union>q \<in> L. held ?S q) = ?K \<union> set (spot_sets sp)"
    unfolding all_sets [OF p] by (simp add: others_def)
  have 1: "heap_ok tight None ((\<Union>q \<in> L. held ?S q) \<union> E) (memory me)" using m unfolding oth mem_ok_def by (simp add: Un_assoc)
  have 2: "spot_ok tight ((J(p := t)) q) (?S q)" if "q \<in> L" for q
    using slots_memD(2) [OF ok that] sp by (auto simp: spot_ok_def fits_task_def)
  have 3: "owners_ok L ?S (memory me) ((J(p := t)) q) (?S q)" if "q \<in> L" for q
    using owners_others [OF ok that _ mv] owners_executed [OF ok p mv po par] by (cases "q = p") simp_all
  have 4: "held ?S q \<inter> E = {}" if "q \<in> L" for q using that dE dK by (auto simp: others_def)
  have 5: "\<exists>ch. cell_at (chunks (memory me)) c = Inr ch" if "q \<in> L" "chunk_at (?S q) = Some c" for q c
    using that slots_memD(5) [OF ok that(1)] pools(2) m by (cases "q = p") (auto simp: mem_ok_def)
  have fresh: "chunk_at (S q) \<noteq> sets_chunk me \<or> chunk_at (S q) = None" if q: "q \<in> L" "q \<noteq> p" for q
  proof -
    have "separate S q p" using slots_mem_separate [OF ok q(1) p q(2)] .
    moreover have "c < length (chunks hp)" if "chunk_at (S q) = Some c" for c
      using slots_memD(5) [OF ok q(1) that] by (auto simp: cell_at_Inr)
    ultimately show ?thesis using pools(4) by (cases "chunk_at (S q)") (fastforce simp: separate_def)+
  qed
  have 6: "separate ?S x y" if "x \<in> L" "y \<in> L" "x \<noteq> y" for x y
    using slots_mem_separate [OF ok that] that fresh [of x] fresh [of y] dK by (auto simp: separate_def others_def)
  have 7: "\<exists>q \<in> L. chunk_at (?S q) = Some c" if c: "cell_at (chunks (memory me)) c = Inr ch" for c ch
  proof (cases "sets_chunk me = Some c")
    case False
    with pools(3) [OF c] slots_mem_owned [OF ok] obtain q where "q \<in> L" "chunk_at (S q) = Some c" by blast
    then show ?thesis using pools(1) by (intro bexI [of _ q]) auto
  qed (use p in \<open>auto intro!: bexI [of _ p]\<close>)
  show ?thesis
    unfolding slots_mem_def using 1 2 3 4 5 6 7 by blast
qed


text \<open>A child comes into being; it takes over its sets.\<close>

lemma slots_mem_add:
  assumes ok: "slots_mem tight {ip, ix} L J S hp" and n: "n \<notin> L" and d: "ip \<noteq> ix"
    and t: "newTask t" "\<not> isContinuation t" "parent t = Some q" and q: "q \<in> L"
    and own: "owner hp ip \<in> {None, chunk_at (S q)}" "owner hp ix \<in> {None, chunk_at (S q)}"
  shows "slots_mem tight {} (insert n L) (J(n := t)) (S(n := kid_spot (ip, ix))) hp"
proof -
  let ?S = "S(n := kid_spot (ip, ix))" and ?J = "J(n := t)"
  have S: "?S x = S x" "?J x = J x" if "x \<in> L" for x using that n by auto
  have "(\<Union>x \<in> insert n L. held ?S x) \<union> {} = (\<Union>x \<in> L. held S x) \<union> {ip, ix}" using S(1) by auto
  then have 1: "heap_ok tight None ((\<Union>x \<in> insert n L. held ?S x) \<union> {}) hp" using ok by (simp add: slots_mem_def)
  have tn: "spot_ok tight t (kid_spot (ip, ix))" using t d by (simp add: spot_ok_def fits_task_def kid_spot_def spot_sets_def)
  have 2: "spot_ok tight (?J x) (?S x)" if "x \<in> insert n L" for x
    using that tn slots_memD(2) [OF ok, of x] by auto
  have 3: "owners_ok (insert n L) ?S hp (?J x) (?S x)" if x: "x \<in> insert n L" for x
  proof (cases "x = n")
    case True
    then show ?thesis using own t(3) q S(1) [OF q] by (auto simp: owners_ok_def)
  next
    case False
    with x have "x \<in> L" by simp
    from slots_memD(3) [OF ok this] S [OF this] S(1) show ?thesis unfolding owners_ok_def by (metis insertI2)
  qed
  have 5: "\<exists>ch. cell_at (chunks hp) c = Inr ch" if "x \<in> insert n L" "chunk_at (?S x) = Some c" for x c
    using that slots_memD(5) [OF ok, of x c] by (auto split: if_splits)
  have e: "held S x \<inter> {ip, ix} = {}" if "x \<in> L" for x using ok that by (auto simp: slots_mem_def)
  have 6: "separate ?S x y" if xy: "x \<in> insert n L" "y \<in> insert n L" "x \<noteq> y" for x y
  proof -
    consider "x = n" "y \<in> L" | "y = n" "x \<in> L" | "x \<in> L" "y \<in> L" using xy by blast
    then show ?thesis
    proof cases
      case 1
      with e [of y] S(1) [of y] show ?thesis by (auto simp: separate_def)
    next
      case 2
      with e [of x] S(1) [of x] show ?thesis by (auto simp: separate_def)
    next
      case 3
      then have "separate S x y" using slots_mem_separate [OF ok] xy(3) by blast
      with S(1) 3 show ?thesis by (simp add: separate_def)
    qed
  qed
  have 7: "\<exists>x \<in> insert n L. chunk_at (?S x) = Some c" if c: "cell_at (chunks hp) c = Inr ch" for c ch
  proof -
    obtain x where "x \<in> L" "chunk_at (S x) = Some c" using slots_mem_owned [OF ok c] by blast
    with S(1) show ?thesis by (intro bexI [of _ x]) simp_all
  qed
  show ?thesis
    unfolding slots_mem_def using 1 2 3 5 6 7 by blast
qed

text \<open>The pool of a task without children holds no set of another task.\<close>

lemma pool_unused:
  assumes ok: "slots_mem tight {} L J S hp" and p: "p \<in> L" and c: "chunk_at (S p) = Some c"
    and kids: "\<And>q. q \<in> L \<Longrightarrow> parent (J q) \<noteq> Some p" and h: "h \<in> others L S p"
  shows "owner hp h \<noteq> Some c"
proof
  assume o: "owner hp h = Some c"
  obtain q where q: "h \<in> held S q" "q \<in> L" "q \<noteq> p" using h by (auto simp: others_def)
  from slots_memD(3) [OF ok q(2)] q(1) o obtain x where x: "x \<in> L" "chunk_at (S x) = Some c" "x = q \<or> parent (J q) = Some x"
    using q(2) by (fastforce simp: owners_ok_def)
  have "x \<noteq> p" using x(3) q(3) kids [OF q(2)] by auto
  then have "separate S x p" using slots_mem_separate [OF ok x(1) p] by blast
  with x(2) c show False by (simp add: separate_def)
qed

text \<open>A task is done; its pool goes.  Sets it still has are lost.\<close>

lemma slots_mem_without:
  assumes ok: "slots_mem tight {} L J S hp" and p: "p \<in> L" and kids: "\<And>q. q \<in> L \<Longrightarrow> parent (J q) \<noteq> Some p"
    and hp': "heap_ok tight None (others L S p) hp'" "owner hp' = owner hp"
      "\<And>c ch. cell_at (chunks hp') c = Inr ch \<longleftrightarrow> chunk_at (S p) \<noteq> Some c \<and> cell_at (chunks hp) c = Inr ch"
  shows "slots_mem tight {} (L - {p}) J S hp'"
proof -
  have 1: "heap_ok tight None ((\<Union>q \<in> L - {p}. held S q) \<union> {}) hp'" using hp'(1) by (simp add: others_def)
  have 3: "owners_ok (L - {p}) S hp' (J q) (S q)" if "q \<in> L - {p}" for q
    using that slots_memD(3) [OF ok, of q] kids [of q] hp'(2) by (fastforce simp: owners_ok_def)
  have sep: "separate S x y" if "x \<in> L" "y \<in> L" "x \<noteq> y" for x y using slots_mem_separate [OF ok] that by blast
  have 5: "\<exists>ch. cell_at (chunks hp') c = Inr ch" if "q \<in> L - {p}" "chunk_at (S q) = Some c" for q c
    using that slots_memD(5) [OF ok, of q c] sep [of q p] p by (auto simp: hp'(3) separate_def)
  have 7: "\<exists>q \<in> L - {p}. chunk_at (S q) = Some c" if "cell_at (chunks hp') c = Inr ch" for c ch
  proof -
    have c: "chunk_at (S p) \<noteq> Some c" "cell_at (chunks hp) c = Inr ch" using that by (simp_all add: hp'(3))
    then obtain q where q: "q \<in> L" "chunk_at (S q) = Some c" using slots_mem_owned [OF ok] by blast
    moreover have "q \<noteq> p" using q(2) c(1) by auto
    ultimately show ?thesis by blast
  qed
  show ?thesis
    unfolding slots_mem_def using 1 3 5 7 sep slots_memD(2) [OF ok] by blast
qed

lemma slots_mem_remove:
  assumes ok: "slots_mem tight {} L J S hp" and p: "p \<in> L" and none: "tight \<longrightarrow> spot_sets (S p) = []"
    and kids: "\<And>q. q \<in> L \<Longrightarrow> parent (J q) \<noteq> Some p"
  shows "\<exists>hp'. (case chunk_at (S p) of None \<Rightarrow> Inr hp | Some c \<Rightarrow> delete_chunk c hp) = Inr hp' \<and>
    slots_mem tight {} (L - {p}) J S hp'"
proof -
  have heap: "heap_ok tight None (others L S p) hp"
  proof (cases tight)
    case True
    with none slots_memD(1) [OF ok p] show ?thesis by simp
  next
    case False
    with slots_memD(1) [OF ok p] show ?thesis by (auto intro: heap_ok_drop)
  qed
  note rest = slots_mem_without [OF ok p kids]
  show ?thesis
  proof (cases "chunk_at (S p)")
    case None
    with rest [OF _ heap refl] show ?thesis by simp
  next
    case (Some c)
    obtain ch where ch: "cell_at (chunks hp) c = Inr ch" using slots_memD(5) [OF ok p Some] by blast
    from delete_chunk_ok [OF heap ch pool_unused [OF ok p Some kids]] obtain hp' where
      d: "delete_chunk c hp = Inr hp'" "heap_ok tight None (others L S p) hp'" "owner hp' = owner hp"
        "chunks hp' = (chunks hp)[c := None]" by blast
    have b: "c < length (chunks hp)" using ch by (simp add: cell_at_Inr)
    have "cell_at (chunks hp') x = Inr y \<longleftrightarrow> chunk_at (S p) \<noteq> Some x \<and> cell_at (chunks hp) x = Inr y" for x y
      using b by (auto simp: d(4) Some)
    from rest [OF _ d(2,3) this] d(1) Some show ?thesis by simp
  qed
qed


section \<open>Worlds\<close>

definition alive_slots :: "slot list \<Rightarrow> nat set" where
  "alive_slots ss = {p. p < length ss \<and> live (ss ! p)}"

definition places_ok :: "bool \<Rightarrow> slot list \<Rightarrow> places \<Rightarrow> bool" where
  "places_ok tight ss pl \<longleftrightarrow> length (spots pl) = length ss \<and>
     slots_mem tight {} (alive_slots ss) (\<lambda>p. job (ss ! p)) (\<lambda>p. spots pl ! p) (heap_at pl)"

lemma slots_mem_cong:
  assumes "slots_mem tight E L J S hp" and "\<And>p. p \<in> L \<Longrightarrow> J' p = J p" and "\<And>p. p \<in> L \<Longrightarrow> S' p = S p"
  shows "slots_mem tight E L J' S' hp"
proof -
  have "owners_ok L S' hp t sp \<longleftrightarrow> owners_ok L S hp t sp" for t sp using assms(3) by (simp add: owners_ok_def)
  moreover have "separate S' p q = separate S p q" if "p \<in> L" "q \<in> L" for p q using that assms(3) by (simp add: separate_def)
  moreover have "(\<Union>p \<in> L. held S' p) = (\<Union>p \<in> L. held S p)" using assms(3) by simp
  ultimately show ?thesis using assms unfolding slots_mem_def by simp
qed

lemma start_places_ok: "places_ok tight (slots (start c g)) (start_places g)"
proof -
  let ?sp = "\<lparr>P_at = None, X_at = None, cand_at = None, chunk_at = None\<rparr>" and ?hp = "heap_at (start_places g)"
  let ?L = "alive_slots (slots (start c g))"
  have l: "p < length (vertexOrdering g)" if "p \<in> ?L" for p using that by (simp add: alive_slots_def start_def)
  have s: "spots (start_places g) ! p = ?sp" if "p \<in> ?L" for p using l [OF that] by (simp add: start_places_def)
  have t: "job (slots (start c g) ! p) = root_of c (vertexOrdering g ! p)" if "p \<in> ?L" for p
    using l [OF that] by (simp add: start_def new_slot_def)
  have e: "spot_sets ?sp = []" by (simp add: spot_sets_def)
  have ok: "spot_ok tight (root_of c v) ?sp" "owners_ok L S hp u ?sp" for v L S hp u
    by (simp_all add: spot_ok_def owners_ok_def fits_task_def e root_of_def MainBKTask_root_def)
  have h: "cell_at (chunks ?hp) d \<noteq> Inr ch" "cell_at (sets ?hp) h \<noteq> Inr st" "deleted_chunks ?hp = []" for d ch h st
    by (simp_all add: start_places_def cell_at_def)
  have "heap_ok tight None {} ?hp" using h by (simp add: heap_ok_def)
  then have "slots_mem tight {} ?L (\<lambda>p. root_of c (vertexOrdering g ! p)) (\<lambda>_. ?sp) ?hp"
    using ok h by (simp add: slots_mem_def e separate_def)
  then have "slots_mem tight {} ?L (\<lambda>p. job (slots (start c g) ! p)) (\<lambda>p. spots (start_places g) ! p) ?hp"
    by (rule slots_mem_cong) (simp_all add: s t)
  then show ?thesis by (simp add: places_ok_def) (simp add: start_def start_places_def)
qed

lemma call_task_at:
  assumes ok: "places_ok tight (slots w) pl" and p: "p \<in> alive_slots (slots w)" and act: "\<not> isContinuation (job (slots w ! p))"
  shows "task_at tight (others (alive_slots (slots w)) (\<lambda>p. spots pl ! p) p) (spots pl ! p) (call p w) (mem_call p pl)"
proof -
  note s = ok [unfolded places_ok_def, THEN conjunct2]
  show ?thesis
    using slots_memD(1,2,4,5) [OF s p] act by (auto simp: task_at_def mem_ok_def spot_ok_def call_def mem_call_def)
qed

lemma alive_moved:
  assumes "p \<in> alive_slots ss" and "r \<noteq> Finished"
  shows "alive_slots (moved p r t a ss) = alive_slots ss \<union> (if a = None then {} else {length ss})"
proof -
  have p: "p < length ss" "live (ss ! p)" using assms(1) by (simp_all add: alive_slots_def)
  have "live (moved p r t a ss ! q) \<longleftrightarrow> live (ss ! q)" if "q < length ss" for q
    using moved_nth(2,3) [OF p(1)] recycled_live(1) [OF assms(2)] p(2) that by (cases "q = p") simp_all
  moreover have "live (moved p r t a ss ! length ss)" if "a = Some u" for u
    using moved_nth(4) [OF p(1) that] by (simp add: live_def new_slot_def)
  ultimately show ?thesis
    using moved_nth(1) [OF p(1), of r t a] by (auto simp: alive_slots_def less_Suc_eq split: option.splits)
qed

lemma advance_places:
  assumes ok: "places_ok tight (slots w) pl" and p: "p \<in> alive_slots (slots w)" and act: "\<not> isContinuation (job (slots w ! p))"
    and adv: "advanced c g thr (call p w) (r, map_option fst a, st')"
    and par: "parent (job (slots w ! p)) \<noteq> Some p"
    and ex: "executed_at tight (others (alive_slots (slots w)) (\<lambda>p. spots pl ! p) p) (set (spot_sets (spots pl ! p))) (mem_call p pl)
      (r, map_option fst a, st') (r, a, sp, st', me)"
  shows "places_ok tight (moved p r (this st') (map_option fst a) (slots w)) (settle_mem p (a, sp, me) pl)"
proof -
  let ?ss = "slots w" and ?ss' = "moved p r (this st') (map_option fst a) (slots w)" and ?pl' = "settle_mem p (a, sp, me) pl"
  let ?L = "alive_slots (slots w)" and ?n = "length (slots w)"
  let ?J = "(\<lambda>q. job (?ss ! q))(p := this st')" and ?S = "(\<lambda>q. spots pl ! q)(p := sp\<lparr>chunk_at := sets_chunk me\<rparr>)"
  have pl: "p < ?n" "length (spots pl) = ?n" using ok p by (simp_all add: places_ok_def alive_slots_def)
  from adv have r: "r \<noteq> Finished" and par': "parent (this st') = parent (job (?ss ! p))" and sp0: "spawned st' = []"
    and kid: "\<And>t. map_option fst a = Some t \<Longrightarrow> parent t = Some p \<and> newTask t \<and> \<not> isContinuation t"
    and go: "r = SafeContinuation \<and> isContinuation (this st') \<or> r = Reexecute \<and> \<not> isContinuation (this st') \<and> \<not> newTask (this st')"
    by (auto simp: advanced_def call_def)
  from ex sp0 have k: "kids_at me = []" and d: "distinct (spot_sets sp @ handed a)"
    and w: "at_work tight (others ?L (\<lambda>q. spots pl ! q) p) (mem_call p pl) (set (spot_sets sp) \<union> set (handed a)) me"
    and po: "placed_ok (set (spot_sets (spots pl ! p))) (mem_call p pl) (set (spot_sets sp)) me"
    and new: "\<forall>h \<in> set (handed a). owner (memory me) h \<in> {None, sets_chunk me}"
    and tight: "tight \<and> r = SafeContinuation \<longrightarrow> spot_sets sp = []" and fits: "r \<noteq> SafeContinuation \<longrightarrow> fits_task (this st') sp"
    by (auto simp: executed_at_def aligned_def)
  have spok: "spot_ok tight (this st') sp" using go tight fits d by (auto simp: spot_ok_def)
  have dE: "set (spot_sets sp) \<inter> set (handed a) = {}" using d by simp
  note s0 = slots_mem_update [OF ok [unfolded places_ok_def, THEN conjunct2] p w [unfolded mem_call_def] k dE spok po [unfolded mem_call_def] par' par]
  have jq: "job (?ss' ! q) = ?J q" if "q < ?n" for q
    using moved_nth(2,3) [OF pl(1)] recycled_live(2) that by simp
  have sq: "spots ?pl' ! q = ?S q" if "q < ?n" for q
    using that pl by (simp add: settle_mem_def nth_append)
  have lt: "q < ?n" if "q \<in> ?L" for q using that by (simp add: alive_slots_def)
  have len: "length (spots ?pl') = length ?ss'"
    using pl k moved_nth(1) [OF pl(1), of r "this st'" "map_option fst a"] by (simp add: settle_mem_def split: option.splits)
  have hp: "heap_at ?pl' = memory me" by (simp add: settle_mem_def)
  show ?thesis
  proof (cases a)
    case None
    have L: "alive_slots ?ss' = ?L" using alive_moved [OF p r, of "this st'" "map_option fst a"] None by simp
    have "slots_mem tight {} ?L ?J ?S (memory me)" using s0 None by simp
    then have "slots_mem tight {} ?L (\<lambda>q. job (?ss' ! q)) (\<lambda>q. spots ?pl' ! q) (memory me)"
      by (rule slots_mem_cong) (simp_all only: jq sq lt)
    then show ?thesis using len by (simp add: places_ok_def L hp)
  next
    case (Some b)
    obtain t ip ix where b: "b = (t, ip, ix)" by (cases b)
    have L: "alive_slots ?ss' = insert ?n ?L" using alive_moved [OF p r, of "this st'" "map_option fst a"] Some by simp
    have s1: "slots_mem tight {ip, ix} ?L ?J ?S (memory me)" using s0 Some b by simp
    have n: "?n \<notin> ?L" by (simp add: alive_slots_def)
    have "slots_mem tight {} (insert ?n ?L) (?J(?n := t)) (?S(?n := kid_spot (ip, ix))) (memory me)"
      using kid [of t] d new p by (intro slots_mem_add [OF s1 n, of t p]) (simp_all add: Some b)
    moreover have "job (?ss' ! q) = (?J(?n := t)) q" "spots ?pl' ! q = (?S(?n := kid_spot (ip, ix))) q"
      if "q \<in> insert ?n ?L" for q
    proof -
      have n1: "job (?ss' ! ?n) = t" using moved_nth(4) [OF pl(1), of "map_option fst a" t] by (simp add: Some b new_slot_def)
      have n2: "spots ?pl' ! ?n = kid_spot (ip, ix)" using pl k by (simp add: settle_mem_def Some b nth_append)
      show "job (?ss' ! q) = (?J(?n := t)) q" "spots ?pl' ! q = (?S(?n := kid_spot (ip, ix))) q"
        using that n1 n2 jq [of q] sq [of q] lt [of q] by (cases "q = ?n"; simp)+
    qed
    ultimately have "slots_mem tight {} (insert ?n ?L) (\<lambda>q. job (?ss' ! q)) (\<lambda>q. spots ?pl' ! q) (memory me)"
      by (rule slots_mem_cong)
    then show ?thesis using len by (simp add: places_ok_def L hp)
  qed
qed


section \<open>A task that is done\<close>

lemma retire_places:
  assumes ok: "places_ok tight (slots w) pl" and p: "p \<in> alive_slots (slots w)" and cont: "isContinuation (job (slots w ! p))"
    and kids: "\<And>q. q \<in> alive_slots (slots w) \<Longrightarrow> parent (job (slots w ! q)) \<noteq> Some p"
    and st: "Continuation c (call p w) = Inr st"
  shows "\<exists>me. Continuation_mem c (call p w, mem_call p pl) = Inr (st, me) \<and>
    places_ok tight ((slots w)[p := (slots w ! p)\<lparr>phase_of := Gone\<rparr>]) (settle_mem p (None, spots pl ! p, me) pl)"
proof -
  let ?L = "alive_slots (slots w)" and ?S = "\<lambda>q. spots pl ! q" and ?J = "\<lambda>q. job (slots w ! q)"
  note s = ok [unfolded places_ok_def, THEN conjunct2]
  have pl: "p < length (slots w)" "length (spots pl) = length (slots w)" using ok p by (simp_all add: places_ok_def alive_slots_def)
  have "tight \<longrightarrow> spot_sets (?S p) = []" using slots_memD(2) [OF s p] cont by (simp add: spot_ok_def)
  from slots_mem_remove [OF s p this kids] obtain hp where
    hp: "(case chunk_at (?S p) of None \<Rightarrow> Inr (heap_at pl) | Some d \<Rightarrow> delete_chunk d (heap_at pl)) = Inr hp"
    and s': "slots_mem tight {} (?L - {p}) ?J ?S hp" by blast
  let ?me = "\<lparr>memory = hp, sets_chunk = None, kids_at = []\<rparr>"
  have r: "Continuation_mem c (call p w, mem_call p pl) = Inr (st, ?me)"
    using hp st by (auto simp: Continuation_mem_def mem_call_def on_heap_def split: option.splits)
  let ?ss' = "(slots w)[p := (slots w ! p)\<lparr>phase_of := Gone\<rparr>]" and ?pl' = "settle_mem p (None, spots pl ! p, ?me) pl"
  have L: "alive_slots ?ss' = ?L - {p}" using pl by (auto simp: alive_slots_def live_def nth_list_update)
  have "slots_mem tight {} (?L - {p}) (\<lambda>q. job (?ss' ! q)) (\<lambda>q. spots ?pl' ! q) hp"
    by (rule slots_mem_cong [OF s']) (simp_all add: settle_mem_def)
  then have "places_ok tight ?ss' ?pl'" using pl L by (simp add: places_ok_def settle_mem_def)
  with r show ?thesis by blast
qed


lemma places_ok_cong:
  assumes "places_ok tight ss pl" and "length ss' = length ss"
    and "\<And>q. q < length ss \<Longrightarrow> live (ss' ! q) = live (ss ! q) \<and> (live (ss ! q) \<longrightarrow> job (ss' ! q) = job (ss ! q))"
  shows "places_ok tight ss' pl"
proof -
  have L: "alive_slots ss' = alive_slots ss" using assms(2,3) by (auto simp: alive_slots_def)
  have "slots_mem tight {} (alive_slots ss) (\<lambda>p. job (ss' ! p)) (\<lambda>p. spots pl ! p) (heap_at pl)"
    by (rule slots_mem_cong [OF assms(1) [unfolded places_ok_def, THEN conjunct2]]) (use assms(3) in \<open>auto simp: alive_slots_def\<close>)
  then show ?thesis using assms(1,2) by (simp add: places_ok_def L)
qed

lemma settle_finished:
  assumes "p < length (slots w)" and "spawned st = []" and "q < length (slots w)"
  shows "live (slots (settle p (Finished, None, st) w) ! q) = live ((slots w)[p := (slots w ! p)\<lparr>phase_of := Gone\<rparr>] ! q)"
    and "q \<noteq> p \<Longrightarrow> job (slots (settle p (Finished, None, st) w) ! q) = job (slots w ! q)"
    and "length (slots (settle p (Finished, None, st) w)) = length (slots w)"
proof -
  let ?ss = "(slots w)[p := recycled Finished (this st) (recount (slots w ! p) [])]"
  have e: "slots (settle p (Finished, None, st) w) =
      (case parent (this st) of None \<Rightarrow> ?ss | Some x \<Rightarrow> ?ss[x := dec_refs (?ss ! x)])"
    using assms(2) by (cases "parent (this st)") (simp_all add: settle_def release_def)
  have l: "live (dec_refs s) = live s" "job (dec_refs s) = job s" for s by (simp_all add: live_def dec_refs_def)
  have s: "live (slots (settle p (Finished, None, st) w) ! q) = live (?ss ! q)"
    "job (slots (settle p (Finished, None, st) w) ! q) = job (?ss ! q)"
    unfolding e using assms(3) l by (cases "parent (this st)"; cases "parent (this st) = Some q"; simp)+
  show "live (slots (settle p (Finished, None, st) w) ! q) = live ((slots w)[p := (slots w ! p)\<lparr>phase_of := Gone\<rparr>] ! q)"
    using assms(1) s(1) by (cases "q = p") (simp_all add: recycled_def live_def)
  show "job (slots (settle p (Finished, None, st) w) ! q) = job (slots w ! q)" if "q \<noteq> p" using that s(2) by simp
  show "length (slots (settle p (Finished, None, st) w)) = length (slots w)" by (simp add: e split: option.split)
qed

section \<open>Runs\<close>

text \<open>Where nothing is lost: runs without a size limit.\<close>

definition unlimited :: "config \<Rightarrow> bool" where
  "unlimited c \<longleftrightarrow> max_clq_size c = -1"

definition settled_at :: "config \<Rightarrow> nat \<Rightarrow> world \<Rightarrow> places \<Rightarrow> recycle \<times> main_task option \<times> state \<Rightarrow>
    recycle \<times> (main_task \<times> nat \<times> nat) option \<times> spot \<times> state \<times> mem \<Rightarrow> bool" where
  "settled_at c p w pl = (\<lambda>(r, a, st) (r', a', sp, st', me). r' = r \<and> st' = st \<and> a = map_option fst a' \<and>
     places_ok (unlimited c) (slots (settle p (r, a, st) w)) (settle_mem p (a', sp, me) pl))"

lemma matches_also:
  "matches Q r r' \<Longrightarrow> (\<And>a b. r = Inr a \<Longrightarrow> Q a b \<Longrightarrow> Q' a b) \<Longrightarrow> matches Q' r r'"
  by (cases r; cases r') simp_all

lemma advance_matches:
  assumes sane: "sane c" and inp: "input_ok c g" and wok: "world_ok c g w" and pok: "places_ok (unlimited c) (slots w) pl"
    and p: "p < length (slots w)" "phase_of (slots w ! p) = Ready" and pL: "p \<in> alive_slots (slots w)" and sok: "slot_ok c g (guard_table w) (slots w) p"
    and active: "\<not> isContinuation (job (slots w ! p))"
  shows "matches (settled_at c p w pl) (execute c thr (call p w)) (execute_mem c m thr (spots pl ! p) (call p w, mem_call p pl))"
proof -
  let ?E = "executed_at (unlimited c) (others (alive_slots (slots w)) (\<lambda>p. spots pl ! p) p) (set (spot_sets (spots pl ! p))) (mem_call p pl)"
  have c: "this (call p w) = job (slots w ! p)" by (simp add: call_def)
  have tk: "task_ok c g (guards (call p w)) (this (call p w))" using sok by (simp add: slot_ok_def call_def)
  note ex = execute_ends [OF sane inp tk, of thr]
  have "matches ?E (execute c thr (call p w)) (execute_mem c m thr (spots pl ! p) (call p w, mem_call p pl))"
    using SpawnTask_matches [OF call_task_at [OF pok pL active], of c thr m] active
    by (simp add: execute_def execute_mem_def c unlimited_def)
  then show ?thesis
  proof (rule matches_also)
    fix x x' assume x: "execute c thr (call p w) = Inr x" and e: "?E x x'"
    obtain r a st where xs: "x = (r, a, st)" by (cases x)
    with e obtain a' sp me where x's: "x' = (r, a', sp, st, me)" and a: "a = map_option fst a'" by (auto simp: executed_at_def)
    have adv: "advanced c g thr (call p w) (r, a, st)" using ex x active by (simp add: xs c)
    have par: "parent (job (slots w ! p)) \<noteq> Some p" using sok by (auto simp: slot_ok_def linked_def)
    have "places_ok (unlimited c) (moved p r (this st) (map_option fst a') (slots w)) (settle_mem p (a', sp, me) pl)"
      using advance_places [OF pok pL active adv [unfolded a] par] e by (simp add: xs x's a)
    then show "settled_at c p w pl x x'"
      using advance_ok(1) [OF sane adv wok p active] by (simp add: settled_at_def xs x's a)
  qed
qed

lemma retire_matches:
  assumes pok: "places_ok (unlimited c) (slots w) pl" and p: "p < length (slots w)" and pL: "p \<in> alive_slots (slots w)"
    and tk: "task_ok c g (guards (call p w)) (this (call p w))" and cont: "isContinuation (job (slots w ! p))"
    and kids: "\<And>q. q \<in> alive_slots (slots w) \<Longrightarrow> parent (job (slots w ! q)) \<noteq> Some p"
  shows "matches (settled_at c p w pl) (execute c thr (call p w)) (execute_mem c m thr (spots pl ! p) (call p w, mem_call p pl))"
proof (cases "Continuation c (call p w)")
  case (Inl e)
  then show ?thesis using cont by (simp add: execute_def execute_mem_def Continuation_mem_def call_def)
next
  case (Inr st)
  have c: "this (call p w) = job (slots w ! p)" by (simp add: call_def)
  let ?ss = "(slots w)[p := (slots w ! p)\<lparr>phase_of := Gone\<rparr>]"
  from Continuation_ends [OF tk] Inr cont have "spawned st = []" by (simp add: c retired_def) (simp add: call_def)
  note fin = settle_finished [OF p this]
  from retire_places [OF pok pL cont kids Inr] obtain me where
    me: "Continuation_mem c (call p w, mem_call p pl) = Inr (st, me)"
    and ok: "places_ok (unlimited c) ?ss (settle_mem p (None, spots pl ! p, me) pl)"
    by blast
  have "places_ok (unlimited c) (slots (settle p (Finished, None, st) w)) (settle_mem p (None, spots pl ! p, me) pl)"
  proof (rule places_ok_cong [OF ok])
    fix q assume "q < length ?ss"
    then have q: "q < length (slots w)" by simp
    show "live (slots (settle p (Finished, None, st) w) ! q) = live (?ss ! q) \<and>
      (live (?ss ! q) \<longrightarrow> job (slots (settle p (Finished, None, st) w) ! q) = job (?ss ! q))"
      using fin(1,2) [OF q] p by (cases "q = p") (simp_all add: live_def)
  qed (use fin(3) [OF p] in simp)
  then show ?thesis
    using me Inr cont by (simp add: execute_def execute_mem_def c settled_at_def)
qed

lemma execute_matches:
  assumes sane: "sane c" and inp: "input_ok c g" and wok: "world_ok c g w" and pok: "places_ok (unlimited c) (slots w) pl"
    and p: "p < length (slots w)" "phase_of (slots w ! p) = Ready"
  shows "matches (settled_at c p w pl) (execute c thr (call p w)) (execute_mem c m thr (spots pl ! p) (call p w, mem_call p pl))"
proof -
  have "live (slots w ! p)" using p(2) by (simp add: live_def)
  then have pL: "p \<in> alive_slots (slots w)" using p(1) by (simp add: alive_slots_def)
  then have sok: "slot_ok c g (guard_table w) (slots w) p" using wok by (simp add: world_ok_def alive_slots_def)
  then have tk: "task_ok c g (guards (call p w)) (this (call p w))" by (simp add: slot_ok_def call_def)
  show ?thesis
  proof (cases "isContinuation (job (slots w ! p))")
    case False
    with advance_matches [OF sane inp wok pok p pL sok] show ?thesis by blast
  next
    case True
    have "kids (slots w) p = 0" using sok True p(2) by (auto simp: slot_ok_def counts_ok_def)
    then have "parent (job (slots w ! q)) \<noteq> Some p" if "q \<in> alive_slots (slots w)" for q
      using kids_member [of q "slots w" p] that by (auto simp: alive_slots_def)
    with retire_matches [OF pok p(1) pL tk True] show ?thesis by blast
  qed
qed

definition in_order :: "config \<Rightarrow> graph \<Rightarrow> nat \<Rightarrow> world \<times> places \<Rightarrow> bool" where
  "in_order c g nthr = (\<lambda>(w, pl). well_run c g nthr w \<and> (failure w = None \<longrightarrow> places_ok (unlimited c) (slots w) pl))"

lemma mem_step_strip:
  assumes ok: "in_order c g nthr (w, pl)" and st: "mem_step c m nthr (w, pl) (w', pl')"
  shows "step c nthr w w' \<and> in_order c g nthr (w', pl')"
proof -
  have wr: "sane c" "input_ok c g" "on_course c g nthr w" using ok by (simp_all add: in_order_def well_run_def)
  have "step c nthr w w' \<and> (failure w' = None \<longrightarrow> places_ok (unlimited c) (slots w') pl')"
    using st
  proof cases
    case 1: (run p thr r a sp st me)
    then have "world_ok c g w" "places_ok (unlimited c) (slots w) pl" using wr(3) ok by (simp_all add: on_course_def in_order_def)
    from execute_matches [OF wr(1,2) this 1(4,5), of thr m] 1(7)
    obtain x where x: "execute c thr (call p w) = Inr x" "settled_at c p w pl x (r, a, sp, st, me)"
      by (cases "execute c thr (call p w)") auto
    then have "x = (r, map_option fst a, st)" by (cases x) (auto simp: settled_at_def)
    with x 1 step.run [OF 1(3-6)] show ?thesis by (simp add: settled_at_def)
  next
    case 2: (fail p thr er)
    then have "world_ok c g w" "places_ok (unlimited c) (slots w) pl" using wr(3) ok by (simp_all add: on_course_def in_order_def)
    from execute_matches [OF wr(1,2) this 2(4,5), of thr m] 2(7) have "execute c thr (call p w) = Inl er"
      by (cases "execute c thr (call p w)") auto
    with 2 step.fail [OF 2(3-6)] show ?thesis by simp
  qed
  then show ?thesis using step_on_course(1) [OF wr] wr by (simp add: in_order_def well_run_def)
qed


lemma mem_step_annotate:
  assumes ok: "in_order c g nthr (w, pl)" and st: "step c nthr w w'"
  shows "\<exists>pl'. mem_step c m nthr (w, pl) (w', pl')"
proof -
  have wr: "sane c" "input_ok c g" "on_course c g nthr w" using ok by (simp_all add: in_order_def well_run_def)
  show ?thesis
    using st
  proof cases
    case 1: (run p thr x)
    then have "world_ok c g w" "places_ok (unlimited c) (slots w) pl" using wr(3) ok by (simp_all add: on_course_def in_order_def)
    from execute_matches [OF wr(1,2) this 1(3,4), of thr m] 1(6)
    obtain y where y: "execute_mem c m thr (spots pl ! p) (call p w, mem_call p pl) = Inr y" "settled_at c p w pl x y"
      by (cases "execute_mem c m thr (spots pl ! p) (call p w, mem_call p pl)") auto
    obtain r a sp st me where y': "y = (r, a, sp, st, me)" by (cases y)
    with y(2) have "x = (r, map_option fst a, st)" by (cases x) (auto simp: settled_at_def)
    with mem_step.run [OF 1(2-5) y(1) [unfolded y']] 1(1) show ?thesis by blast
  next
    case 2: (fail p thr er)
    then have "world_ok c g w" "places_ok (unlimited c) (slots w) pl" using wr(3) ok by (simp_all add: on_course_def in_order_def)
    from execute_matches [OF wr(1,2) this 2(3,4), of thr m] 2(6)
    have "execute_mem c m thr (spots pl ! p) (call p w, mem_call p pl) = Inl er" by simp
    with mem_step.fail [OF 2(2-5)] 2(1) show ?thesis by blast
  qed
qed

interpretation placed: annotated_steps "step c nthr" "mem_step c m nthr" "in_order c g nthr" for c m nthr g
  by unfold_locales (erule (1) mem_step_strip, erule (1) mem_step_annotate)

abbreviation mem_steps :: "config \<Rightarrow> pool_config \<Rightarrow> nat \<Rightarrow> world \<times> places \<Rightarrow> world \<times> places \<Rightarrow> bool" where
  "mem_steps c m nthr \<equiv> (mem_step c m nthr)\<^sup>*\<^sup>*"

lemma start_in_order: "sane c \<Longrightarrow> input_ok c g \<Longrightarrow> numbered g \<Longrightarrow> in_order c g nthr (start c g, start_places g)"
  by (simp add: in_order_def well_run_def start_on_course start_places_ok)

text \<open>When no task is left, no pool is; and without a size limit no set, and no block of a pool.\<close>

lemma nothing_held:
  assumes "places_ok tight (slots w) pl" and gone: "\<forall>s \<in> set (slots w). phase_of s = Gone"
  shows "\<forall>ch \<in> set (chunks (heap_at pl)). ch = None"
    and "tight \<Longrightarrow> \<forall>s \<in> set (sets (heap_at pl)). s = None"
    and "tight \<Longrightarrow> \<forall>ch \<in> set (deleted_chunks (heap_at pl)). dynamic_block_list ch = []"
proof -
  have "alive_slots (slots w) = {}" using gone by (auto simp: alive_slots_def live_def)
  then have m: "slots_mem tight {} {} (\<lambda>p. job (slots w ! p)) (\<lambda>p. spots pl ! p) (heap_at pl)"
    using assms(1) by (simp add: places_ok_def)
  show "\<forall>ch \<in> set (chunks (heap_at pl)). ch = None"
  proof
    fix ch assume "ch \<in> set (chunks (heap_at pl))"
    then obtain d where "d < length (chunks (heap_at pl))" "chunks (heap_at pl) ! d = ch" by (auto simp: in_set_conv_nth)
    with slots_mem_owned [OF m, of d] show "ch = None" by (cases ch) (auto simp: cell_at_Inr)
  qed
  have h: "heap_ok tight None {} (heap_at pl)" using m by (simp add: slots_mem_def)
  show "\<forall>s \<in> set (sets (heap_at pl)). s = None" if "tight"
  proof
    fix s assume "s \<in> set (sets (heap_at pl))"
    then obtain d where "d < length (sets (heap_at pl))" "sets (heap_at pl) ! d = s" by (auto simp: in_set_conv_nth)
    with h that show "s = None" by (cases s) (auto simp: heap_ok_def cell_at_Inr)
  qed
  show "tight \<Longrightarrow> \<forall>ch \<in> set (deleted_chunks (heap_at pl)). dynamic_block_list ch = []" using h by (simp add: heap_ok_def)
qed

lemma placed_runs:
  assumes "sane c" and "input_ok c g" and "numbered g"
  shows "(\<exists>pl. mem_steps c m nthr (start c g, start_places g) (w, pl)) \<longleftrightarrow> steps c nthr (start c g) w"
    and "mem_steps c m nthr (start c g, start_places g) (w, pl) \<Longrightarrow> in_order c g nthr (w, pl)"
  using placed.steps_strip [OF _ start_in_order [OF assms], of m nthr "(w, _)"]
    placed.steps_annotate [OF _ start_in_order [OF assms], of nthr w m] by auto

end
