(* ===== verification/SetSizes.thy ===== *)
theory SetSizes
  imports SimpleHashSet
begin

text \<open>
  The sizes of intersections: whatever the table of the other set answers, a set in list mode gives a set in
  list mode that is not larger, in the scalar and in the vector version.
\<close>

section \<open>Sets in list mode\<close>

definition in_list :: "simple_hash_set \<Rightarrow> bool" where
  "in_list s \<longleftrightarrow> \<not> isHashed s \<and> ul_inv (elems s)"

lemma in_list_size: "in_list s \<Longrightarrow> hs_size s = num_of_elems (elems s)"
  by (simp add: in_list_def hs_size_def ul_size_def)

lemma in_list_fold: "in_list s \<Longrightarrow> hs_for_each f s st = fold f (to_list (elems s)) st"
  by (simp add: in_list_def hs_for_each_fold iteration_def)

lemma push_back_num: "num_of_elems (push_back x l) = Suc (num_of_elems l)"
  by (simp add: push_back_def set_elem_def Let_def)

lemma in_list_add: "in_list s \<Longrightarrow> add_elem bld v s = Inr s' \<Longrightarrow> in_list s'"
  by (auto simp: in_list_def add_elem_def)

lemma remove_keeps_inv:
  assumes "ul_inv l"
  shows "ul_inv (remove bld el l)"
proof (cases "find_element bld el l")
  case None
  with assms show ?thesis by (simp add: remove_def)
next
  case (Some p)
  obtain b j where p: "p = (b, j)" by (cases p)
  have "buckets l \<noteq> []"
  proof
    assume "buckets l = []"
    then have "find_element bld el l = None"
      by (simp add: find_element_def find_element_scalar.simps [of l])
    with Some show False by simp
  qed
  moreover have "ul_inv (set_elem b j x l)" for x
  proof -
    have "length c = ELEMS_IN_BUCKET" if "c \<in> set ((buckets l)[b := (buckets l ! b)[j := x]])" for c
    proof (cases "b < length (buckets l)")
      case True
      then show ?thesis using that ul_inv_buckets [OF assms] set_update_subset_insert [of "buckets l" b "(buckets l ! b)[j := x]"]
        by fastforce
    next
      case False
      with that have "c \<in> set (buckets l)" by (metis list_update_beyond not_less)
      then show ?thesis by (rule ul_inv_buckets [OF assms])
    qed
    then show ?thesis using assms by (auto simp: ul_inv_def set_elem_def split: if_splits)
  qed
  moreover have "buckets (set_elem b j x l) \<noteq> []" for x using calculation(1) by (simp add: set_elem_def)
  ultimately have "ul_inv (set_elem b j x l) \<and> to_list (set_elem b j x l) \<noteq> []" for x
    using to_list_Nil_iff by blast
  then show ?thesis using Some p by (simp add: remove_def)
qed

lemma in_list_del: "in_list s \<Longrightarrow> in_list (del_elem bld v s)"
  by (simp add: in_list_def del_elem_def remove_keeps_inv)

section \<open>Lanes that are found\<close>

lemma vector_lookup_mask:
  assumes "vector_lookup bld t vec m = Inr r" and "bit r i"
  shows "bit m i"
proof (cases "num_of_keys t = 0")
  case True
  with assms show ?thesis by (simp add: vector_lookup_def)
next
  case False
  let ?step = "\<lambda>dm rem i el_cmp_mask. if NOT dm AND push_bit i 1 \<noteq> (0 :: mmask16)
    then bind_result (contains bld t (vec ! i) (Some (unat (rem ! i)))) (\<lambda>found. Inr (el_cmp_mask OR push_bit i (of_bool found)))
    else Inr el_cmp_mask"
  have bits: "(x AND push_bit i 1 \<noteq> 0) = bit x i" for x :: mmask16 and i
    by (auto simp: bit_iff_and_push_bit_not_eq_0)
  have loop: "\<forall>i. bit r i \<longrightarrow> bit m i"
    if "fold_result (?step dm rem) [0..<16] r0 = Inr r" "\<forall>i. bit r0 i \<longrightarrow> bit m i" "\<forall>i. \<not> bit dm i \<longrightarrow> i < 16 \<longrightarrow> bit m i"
    for dm rem r0
  proof (rule fold_result_invariant [OF that(1), where I = "\<lambda>r. \<forall>i. bit r i \<longrightarrow> bit m i"])
    fix i s s' assume "i \<in> set [0..<16 :: nat]" "\<forall>i. bit s i \<longrightarrow> bit m i" "?step dm rem i s = Inr s'"
    then show "\<forall>i. bit s' i \<longrightarrow> bit m i"
      using that(3) unfolding bits
      by (auto simp: bit_simps split: if_splits)
  qed (use that(2) in simp_all)
  let ?done = "\<lambda>fetched. m AND cmpeq_epi32_mask vec fetched OR cmpeq_epi32_mask (set1_epi32 EMPTY_KEY) fetched OR NOT m"
  from assms(1) have "\<exists>fetched. fold_result (?step (?done fetched) (vectorHashFunction t vec)) [0..<16]
      (m AND cmpeq_epi32_mask vec fetched) = Inr r"
    unfolding vector_lookup_def if_not_P [OF False] Let_def bind_result_Inr_iff by (elim exE conjE) (rule exI)
  then obtain fetched where "fold_result (?step (?done fetched) (vectorHashFunction t vec)) [0..<16]
      (m AND cmpeq_epi32_mask vec fetched) = Inr r" ..
  note loop [OF this]
  moreover have "\<forall>i. bit (m AND cmpeq_epi32_mask vec fetched) i \<longrightarrow> bit m i" by (simp add: bit_and_iff)
  moreover have "\<forall>i. \<not> bit (?done fetched) i \<longrightarrow> i < 16 \<longrightarrow> bit m i" by (auto simp: bit_or_iff bit_not_iff)
  ultimately have "\<forall>i. bit r i \<longrightarrow> bit m i" by blast
  with assms(2) show ?thesis by blast
qed

text \<open>A loop over the windows of a list that counts, with every window, no more than its live lanes.\<close>

lemma live_sum:
  assumes "ul_inv l"
  shows "(\<Sum>pom \<leftarrow> [0..<length (buckets l)]. live l pom) = num_of_elems l"
proof (cases "buckets l = []")
  case True
  with assms show ?thesis by (simp add: ul_inv_def)
next
  case False
  then obtain n where n: "length (buckets l) = Suc n" by (cases "buckets l") simp_all
  have "(\<Sum>pom \<leftarrow> [0..<n]. live l pom) = (\<Sum>pom \<leftarrow> [0..<n]. 16)"
    using n by (intro arg_cong [where f = sum_list] map_cong refl) (auto simp: live_def tail_ix_def)
  then show ?thesis
    using assms False n by (simp add: ul_inv_def live_def tail_ix_def ELEMS_IN_BUCKET_16 sum_list_triv)
qed

lemma live_lanes:
  assumes "ul_inv l" and "pom < length (buckets l)"
    and "\<And>i. bit r i \<Longrightarrow> bit (if pom = tail_ix l then list_end_mask l else END_MASK) i"
  shows "length (filter (bit (r :: mmask16)) [0..<16]) \<le> live l pom"
proof -
  have "set (filter (bit r) [0..<16]) \<subseteq> {..<live l pom}"
    using assms(3) end_mask_lanes [OF assms(1,2)] by auto
  then have "card (set (filter (bit r) [0..<16])) \<le> live l pom"
    using card_mono [of "{..<live l pom}"] by fastforce
  moreover have "card (set (filter (bit r) [0..<16])) = length (filter (bit r) [0..<16])" by (intro distinct_card) simp
  ultimately show ?thesis by linarith
qed

lemma bind_nothing: "bind_result r (fold_result f []) = r"
  by (cases r) simp_all

lemma for_each_window_counts:
  assumes inv: "ul_inv l" and run: "for_each_window bld l t f s = Inr s'" and "I s"
    and f: "\<And>vec m s. I s \<Longrightarrow> I (f vec m s) \<and> n (f vec m s) \<le> n s + length (filter (bit m) [0..<16])"
  shows "I s' \<and> n s' \<le> n s + num_of_elems l"
proof -
  let ?mask = "\<lambda>pom. if pom = tail_ix l then list_end_mask l else END_MASK"
  let ?body = "\<lambda>pom s. bind_result (lookup_window bld t (?mask pom) (buckets l ! pom) 0) (\<lambda>(vec, m). Inr (f vec m s))"
  have one: "I s' \<and> n s' \<le> n s + live l pom" if "pom < length (buckets l)" "I s" "?body pom s = Inr s'" for pom s s'
  proof -
    from that(3) obtain vec m where m: "vector_lookup bld t vec (?mask pom) = Inr m" and s': "s' = f vec m s"
      by (auto simp: lookup_window_def Let_def ELEMS_IN_BUCKET_16 split: if_splits)
    have "length (filter (bit m) [0..<16]) \<le> live l pom"
      by (rule live_lanes [OF inv that(1) vector_lookup_mask [OF m]])
    with f [OF that(2), of vec m] show ?thesis by (simp add: s')
  qed
  have all: "I s' \<and> n s' \<le> n s + (\<Sum>pom \<leftarrow> poms. live l pom)"
    if "fold_result ?body poms s = Inr s'" "I s" "set poms \<subseteq> {..<length (buckets l)}" for poms s s'
    using that
  proof (induction poms arbitrary: s)
    case (Cons pom poms)
    from Cons.prems(1) obtain s1 where s1: "?body pom s = Inr s1" "fold_result ?body poms s1 = Inr s'"
      unfolding fold_result.simps bind_result_Inr_iff [of "?body pom s"] by blast
    with one [OF _ Cons.prems(2) s1(1)] Cons.prems(3) Cons.IH [OF s1(2)] show ?case by fastforce
  qed simp
  have "fold_result ?body [0..<length (buckets l)] s = Inr s'"
    using run by (simp add: for_each_window_def windows_single Let_def bind_nothing)
  from all [OF this assms(3)] show ?thesis by (simp add: live_sum [OF inv] atLeast0LessThan)
qed

section \<open>Intersections\<close>

lemma push_found_counts:
  assumes "ul_inv l"
  shows "ul_inv (push_found vec m l) \<and> num_of_elems (push_found vec m l) \<le> num_of_elems l + length (filter (bit m) [0..<16])"
proof -
  have "ul_inv (fold push_back xs l) \<and> num_of_elems (fold push_back xs l) = num_of_elems l + length xs" for xs
    using assms by (induction xs arbitrary: l) (simp_all add: push_back_num)
  then show ?thesis by (simp add: push_found_lanes lanes_def)
qed

lemma intersect_scalar_counts:
  assumes "in_list this" and "intersect_scalar bld this other = Inr l"
  shows "ul_inv l \<and> num_of_elems l \<le> num_of_elems (elems this)"
proof -
  let ?f = "\<lambda>x r. bind_result r (\<lambda>l. bind_result (hs_contains bld other x) (\<lambda>found. Inr (if found then push_back x l else l)))"
  have stop: "fold ?f xs (Inl e) = Inl e" for xs e by (induction xs) simp_all
  have "ul_inv l' \<and> num_of_elems l' \<le> num_of_elems l0 + length xs" if "fold ?f xs (Inr l0) = Inr l'" "ul_inv l0" for xs l0 l'
    using that
  proof (induction xs arbitrary: l0)
    case (Cons x xs)
    show ?case
    proof (cases "hs_contains bld other x")
      case (Inl e)
      with Cons.prems(1) stop show ?thesis by simp
    next
      case (Inr found)
      with Cons.prems Cons.IH [of "if found then push_back x l0 else l0"] show ?thesis
        by (cases found) (simp_all add: push_back_num)
    qed
  qed simp
  from this [of "to_list (elems this)" UnrolledList l] assms show ?thesis
    by (simp add: intersect_scalar_def in_list_fold) (simp add: in_list_def UnrolledList_def)
qed

lemma intersect_smaller:
  assumes "in_list P" and "intersect bld P other = Inr (Some S)"
  shows "in_list S" and "hs_size S \<le> hs_size P"
proof -
  obtain o' l where l: "(if USE_VECTOR_LOOKUP bld \<and> USE_AVX512 bld
      then for_each_window bld (elems P) (hashed_elems o') push_found UnrolledList
      else intersect_scalar bld P o') = Inr l" and S: "S = create_set\<lparr>elems := l\<rparr>"
    using assms(2) unfolding intersect_def elems_create_set by (auto split: option.splits)
  have "ul_inv l \<and> num_of_elems l \<le> num_of_elems (elems P)"
  proof (cases "USE_VECTOR_LOOKUP bld \<and> USE_AVX512 bld")
    case True
    with l have "for_each_window bld (elems P) (hashed_elems o') push_found UnrolledList = Inr l" by simp
    from for_each_window_counts [OF _ this, where I = ul_inv and n = num_of_elems] push_found_counts assms(1)
    show ?thesis by (simp add: in_list_def) (simp add: UnrolledList_def)
  next
    case False
    with l intersect_scalar_counts [OF assms(1), of bld o' l] show ?thesis by auto
  qed
  then show "in_list S" "hs_size S \<le> hs_size P"
    using assms(1) by (simp_all add: S in_list_def hs_size_def ul_size_def create_set_def)
qed

end
