(* ===== verification/PoolPrivacy.thy ===== *)
theory PoolPrivacy
  imports MemoryRuns SetSizes
begin

text \<open>
  Whose pool a set lies in.  The sets of a child lie in its parent's pool only if they are small enough for the
  pool and large enough for a task; if no set is both, every task has its pool to itself.
\<close>

section \<open>Sets with memory of their own\<close>

definition own_sets :: "heap \<Rightarrow> nat set" where
  "own_sets hp = {h. h < length (sets hp) \<and> owner hp h = None}"

lemma own_sets_chunks [simp]: "own_sets (hp\<lparr>chunks := cs\<rparr>) = own_sets hp" "own_sets (hp\<lparr>chunks := cs, deleted_chunks := ds\<rparr>) = own_sets hp"
  by (simp_all add: own_sets_def owner_def)

lemma own_sets_new: "own_sets hp \<subseteq> own_sets (hp\<lparr>sets := sets hp @ [x]\<rparr>)"
  by (auto simp: own_sets_def owner_def nth_append)

lemma own_sets_put:
  assumes "case x of None \<Rightarrow> True | Some s \<Rightarrow> my_chunk s = owner hp h"
  shows "own_sets hp \<subseteq> own_sets (hp\<lparr>sets := (sets hp)[h := x]\<rparr>)"
proof
  fix y assume "y \<in> own_sets hp"
  with assms show "y \<in> own_sets (hp\<lparr>sets := (sets hp)[h := x]\<rparr>)"
    by (cases "y = h"; cases x) (simp_all add: own_sets_def owner_def)
qed

lemma in_chunk_own: "in_chunk f c hp = Inr hp' \<Longrightarrow> own_sets hp' = own_sets hp"
  by (auto simp: in_chunk_def)

lemma pool_address_own: "pool_address n c hp = Inr (b, hp') \<Longrightarrow> own_sets hp' = own_sets hp \<and> sets hp' = sets hp"
proof -
  assume r: "pool_address n c hp = Inr (b, hp')"
  then obtain ch where ch: "cell_at (chunks hp) c = Inr ch" by (auto simp: pool_address_def)
  obtain a ch' where "get_address n ch = (a, ch')" by fastforce
  with r ch have "hp' = hp\<lparr>chunks := (chunks hp)[c := Some ch']\<rparr>" by (auto simp: pool_address_def)
  then show ?thesis by simp
qed

lemma create_set_own:
  assumes "create_set_in m chunk hp = Inr (h, hp')"
  shows "own_sets hp \<subseteq> own_sets hp'" and "chunk = None \<Longrightarrow> h \<in> own_sets hp'"
proof -
  show "own_sets hp \<subseteq> own_sets hp'"
  proof (cases chunk)
    case None
    with assms own_sets_new show ?thesis by (auto simp: create_set_in_def)
  next
    case (Some c)
    with assms obtain b hp1 where 1: "pool_address (set_bytes m) c hp = Inr (b, hp1)"
      and hp': "hp' = hp1\<lparr>sets := sets hp1 @ [Some \<lparr>my_chunk = Some c, blocks = [b]\<rparr>]\<rparr>"
      using pool_address_own by (auto simp: create_set_in_def)
    with own_sets_new [of hp1] pool_address_own [OF 1] show ?thesis by blast
  qed
  show "chunk = None \<Longrightarrow> h \<in> own_sets hp'"
    using assms by (auto simp: create_set_in_def own_sets_def owner_def)
qed

lemma create_bucket_own:
  assumes "create_bucket_in m h hp = Inr hp'"
  shows "own_sets hp \<subseteq> own_sets hp'"
proof -
  from assms obtain s where s: "deref_set h hp = Inr s" by (auto simp: create_bucket_in_def)
  show ?thesis
  proof (cases "my_chunk s")
    case None
    with assms s show ?thesis by (simp add: create_bucket_in_def)
  next
    case (Some c)
    with assms s obtain b hp1 where 1: "pool_address (bucket_bytes m) c hp = Inr (b, hp1)"
      and hp': "hp' = hp1\<lparr>sets := (sets hp1)[h := Some (s\<lparr>blocks := b # blocks s\<rparr>)]\<rparr>"
      by (auto simp: create_bucket_in_def)
    note p = pool_address_own [OF 1]
    have "owner hp1 h = my_chunk s" using owner_deref [OF s] p by (simp add: owner_def)
    with own_sets_put [of hp1 h "Some (s\<lparr>blocks := b # blocks s\<rparr>)"] p show ?thesis by (simp add: hp')
  qed
qed

lemma grow_set_own: "grow_set m k h hp = Inr hp' \<Longrightarrow> own_sets hp \<subseteq> own_sets hp'"
  unfolding grow_set_def
  by (erule fold_result_invariant) (auto dest: create_bucket_own)

lemma place_set_own:
  assumes "place_set m chunk s hp = Inr (h, hp')"
  shows "own_sets hp \<subseteq> own_sets hp'" and "chunk = None \<Longrightarrow> h \<in> own_sets hp'"
proof -
  from assms obtain hp1 hp2 where 1: "(case chunk of None \<Rightarrow> Inr hp | Some c \<Rightarrow> in_chunk increment_allocations c hp) = Inr hp1"
    and 2: "create_set_in m chunk hp1 = Inr (h, hp2)" and 3: "grow_set m (num_of_buckets (elems s)) h hp2 = Inr hp'"
    by (auto simp: place_set_def)
  have "own_sets hp1 = own_sets hp" using 1 in_chunk_own by (auto split: option.splits)
  with create_set_own [OF 2] grow_set_own [OF 3]
  show "own_sets hp \<subseteq> own_sets hp'" "chunk = None \<Longrightarrow> h \<in> own_sets hp'" by blast+
qed

lemma delete_set_own:
  assumes "delete_set h hp = Inr hp'"
  shows "own_sets hp \<subseteq> own_sets hp'"
proof -
  have "own_sets hp \<subseteq> own_sets (hp\<lparr>sets := (sets hp)[h := None]\<rparr>)" by (rule own_sets_put) simp
  with assms show ?thesis by (auto simp: delete_set_def Let_def split: option.splits dest!: in_chunk_own)
qed

section \<open>What the operations keep\<close>

definition keeps_own :: "mem \<Rightarrow> mem \<Rightarrow> bool" where
  "keeps_own me me' \<longleftrightarrow> own_sets (memory me) \<subseteq> own_sets (memory me') \<and>
     (given_sets me \<subseteq> own_sets (memory me) \<longrightarrow> given_sets me' \<subseteq> own_sets (memory me'))"

lemma keeps_own_refl [simp]: "keeps_own me me"
  by (simp add: keeps_own_def)

lemma keeps_own_trans: "keeps_own me me1 \<Longrightarrow> keeps_own me1 me2 \<Longrightarrow> keeps_own me me2"
  by (auto simp: keeps_own_def)

lemma keeps_own_heap:
  "own_sets (memory me) \<subseteq> own_sets hp \<Longrightarrow> keeps_own me (me\<lparr>memory := hp\<rparr>)"
  "own_sets (memory me) \<subseteq> own_sets hp \<Longrightarrow> keeps_own me (me\<lparr>memory := hp, sets_chunk := d\<rparr>)"
  by (auto simp: keeps_own_def)

lemma choose_chunk_own:
  assumes "choose_chunk m n me = (ptr, me')"
  shows "keeps_own me me'" and "pool_limit m \<le> int n \<Longrightarrow> ptr = None"
proof -
  show "keeps_own me me'"
    using assms by (auto simp: choose_chunk_def new_chunk_def keeps_own_def split: if_splits option.splits)
  show "pool_limit m \<le> int n \<Longrightarrow> ptr = None" using assms by (simp add: choose_chunk_def)
qed

lemma new_set_own:
  assumes "new_set m chunk s me = Inr (h, me')"
  shows "keeps_own me me'" and "chunk = None \<Longrightarrow> h \<in> own_sets (memory me')"
  using assms place_set_own by (fastforce simp: new_set_def intro: keeps_own_heap)+

lemma on_heap_own:
  "on_heap (delete_set h) me = Inr me' \<Longrightarrow> keeps_own me me'"
  "on_heap (grow_set m k h) me = Inr me' \<Longrightarrow> keeps_own me me'"
  by (auto simp: on_heap_def intro!: keeps_own_heap dest: delete_set_own grow_set_own)

lemma StartTask_own:
  assumes "StartTask_mem c m thr R (p, P) (x, X) gg (st, me) = Inr (cand, gg', st', me')"
  shows "keeps_own me me'"
proof (cases "hs_empty P")
  case True
  with assms show ?thesis by (auto simp: StartTask_mem_def dest!: on_heap_own intro: keeps_own_trans)
next
  case False
  obtain ptr me1 where ch: "choose_chunk m (hs_size P + hs_size X) me = (ptr, me1)" by fastforce
  with False assms show ?thesis
    using choose_chunk_own(1) [OF ch] new_set_own(1)
    by (auto simp: StartTask_mem_def split: if_splits option.splits intro: keeps_own_trans)
qed


section \<open>Branches\<close>

text \<open>A run of a node, whose sets are in list mode.\<close>

definition runs_own ::
  "(ulist \<Rightarrow> placed_set \<Rightarrow> placed_set \<Rightarrow> guard_ptr \<Rightarrow> state \<times> mem \<Rightarrow> (ulist \<times> state \<times> mem) result) \<Rightarrow> bool" where
  "runs_own run \<longleftrightarrow> (\<forall>R p P x X gg st me R' st' me'. in_list P \<longrightarrow> in_list X \<longrightarrow>
     run R (p, P) (x, X) gg (st, me) = Inr (R', st', me') \<longrightarrow> keeps_own me me')"

definition iterated_own :: "nat \<Rightarrow> nat \<Rightarrow> mem \<Rightarrow> (main_task \<times> nat \<times> nat) option \<times> ulist \<times> placed_set \<times> placed_set \<times> state \<times> mem \<Rightarrow> bool" where
  "iterated_own p x me = (\<lambda>(a, R', (p', P'), (x', X'), st', me'). p' = p \<and> x' = x \<and> in_list P' \<and> in_list X' \<and> keeps_own me me' \<and>
     set (handed a) \<subseteq> own_sets (memory me'))"

lemma keeps_own_sets: "keeps_own me me' \<Longrightarrow> h \<in> own_sets (memory me) \<Longrightarrow> h \<in> own_sets (memory me')"
  by (auto simp: keeps_own_def)

lemma branch_own:
  assumes k: "keeps_own me me4" and new: "PX_threshold c \<le> int (hs_size S) + int (hs_size T) \<Longrightarrow> {ip, ix} \<subseteq> own_sets (memory me4)"
    and run: "runs_own run" and P: "in_list P'" "in_list X'" and ST: "in_list S" "in_list T"
    and rest: "(if int (hs_size S) + int (hs_size T) < PX_threshold c then
        bind_result b (\<lambda>st. bind_result (run R1 (ip, S) (ix, T) gg (st, me4)) (\<lambda>(R, st, me).
          Inr (None, pop_back R, (p, P'), (x, X'), g st, me)))
      else bind_result b' (\<lambda>st. Inr (Some (a, ip, ix), R, (p, P'), (x, X'), st, me4))) = Inr r"
  shows "iterated_own p x me r"
proof (cases "int (hs_size S) + int (hs_size T) < PX_threshold c")
  case True
  with rest obtain st1 R' st' me' where "run R1 (ip, S) (ix, T) gg (st1, me4) = Inr (R', st', me')"
    and r: "r = (None, pop_back R', (p, P'), (x, X'), g st', me')" by auto
  then have "keeps_own me4 me'" using run ST unfolding runs_own_def by blast
  with k P show ?thesis by (auto simp: r iterated_own_def intro: keeps_own_trans)
next
  case False
  with rest obtain st' where "r = (Some (a, ip, ix), R, (p, P'), (x, X'), st', me4)" by auto
  with k P new False show ?thesis by (simp add: iterated_own_def)
qed

lemma LoopIteration_own:
  assumes run: "runs_own run" and lim: "pool_limit m \<le> PX_threshold c" and P: "in_list P" "in_list X"
    and it: "LoopIteration_mem c m run v gg (R, (p, P), (x, X), st, me) = Inr r"
  shows "iterated_own p x me r"
  using it unfolding LoopIteration_mem_def prod.case
  apply (elim bind_resultE)
  subgoal premises prems for gd oS oT X'
  proof -
    obtain S T where oST: "oS = Some S" "oT = Some T" using prems(5) by (cases oS; cases oT) simp_all
    note S = intersect_smaller [OF P(1) prems(2) [unfolded oST]] and T = intersect_smaller [OF P(2) prems(3) [unfolded oST]]
    have PX: "in_list (del_elem (target c) v P)" "in_list X'" using P in_list_del in_list_add [OF _ prems(4)] by blast+
    obtain ptr me1 where ch: "choose_chunk m (hs_size P + hs_size X) me = (ptr, me1)" by fastforce
    show ?thesis
      using prems(5) unfolding oST Let_def option.case ch prod.case
      apply (elim bind_resultE case_pairE)
      subgoal premises made for sp sx ipm ip me2 ixm ix me3 me4
      proof -
        have k: "keeps_own me1 me2" "keeps_own me2 me3" "keeps_own me3 me4"
          using made new_set_own(1) on_heap_own(2) by blast+
        then have "keeps_own me me4" using choose_chunk_own(1) [OF ch] keeps_own_trans by blast
        then show ?thesis
        proof (rule branch_own [OF _ _ run PX S(1) T(1) made(8)])
          assume "PX_threshold c \<le> int (hs_size S) + int (hs_size T)"
          then have "pool_limit m \<le> int (hs_size P + hs_size X)" using lim S(2) T(2) by linarith
          then have "ptr = None" by (rule choose_chunk_own(2) [OF ch])
          then have "ip \<in> own_sets (memory me2)" "ix \<in> own_sets (memory me3)" using made new_set_own(2) by blast+
          with k show "{ip, ix} \<subseteq> own_sets (memory me4)" by (blast intro: keeps_own_sets)
        qed
      qed
      done
  qed
  done

section \<open>The recursion\<close>

definition looped_own :: "nat \<Rightarrow> nat \<Rightarrow> mem \<Rightarrow> ulist \<times> placed_set \<times> placed_set \<times> state \<times> mem \<Rightarrow> bool" where
  "looped_own p x me = (\<lambda>(R, (p', P), (x', X), st, me'). p' = p \<and> x' = x \<and> in_list P \<and> in_list X \<and> keeps_own me me')"

lemma candidate_step_own:
  assumes run: "runs_own run" and lim: "pool_limit m \<le> PX_threshold c" and l: "looped_own p x me s"
    and st: "candidate_step_mem c m run gg h v s = Inr s'"
  shows "looped_own p x me s'"
proof -
  obtain R P X st0 me0 where s: "s = (R, (p, P), (x, X), st0, me0)" and k: "in_list P" "in_list X" "keeps_own me me0"
    using l by (cases s) (auto simp: looped_own_def)
  from st s obtain a R1 P1 X1 st1 me1 where it: "LoopIteration_mem c m run v gg (R, (p, P), (x, X), st0, me0) = Inr (a, R1, P1, X1, st1, me1)"
    and s': "s' = (case a of None \<Rightarrow> (R1, P1, X1, st1, me1)
      | Some (a, k) \<Rightarrow> (R1, P1, X1, st1\<lparr>spawned := spawned st1 @ [a]\<rparr>, me1\<lparr>kids_at := kids_at me1 @ [k]\<rparr>))"
    by (auto simp: candidate_step_mem_def)
  from LoopIteration_own [OF run lim k(1,2) it] k(3) show ?thesis
    by (cases a) (auto simp: iterated_own_def looped_own_def s' keeps_own_def)
qed

lemma for_each_result_keeps:
  assumes "hs_for_each_result f S s = Inr s'" and "I s" and "\<And>v s s'. I s \<Longrightarrow> f v s = Inr s' \<Longrightarrow> I s'"
  shows "I s'"
proof -
  have "matches (\<lambda>s s'. s = s' \<and> I s) (hs_for_each_result f S s) (hs_for_each_result f S s)"
  proof (rule matches_for_each)
    fix v s s' assume "s = s' \<and> I s"
    then show "matches (\<lambda>s s'. s = s' \<and> I s) (f v s) (f v s')" using assms(3) by (cases "f v s") auto
  qed (use assms(2) in simp)
  with assms(1) show ?thesis by simp
qed

lemma SequentialRun_own: "pool_limit m \<le> PX_threshold c \<Longrightarrow> runs_own (SequentialRun_mem c m thr n)"
proof (induction n)
  case (Suc n)
  show ?case
    unfolding runs_own_def
  proof (intro allI impI)
    fix R p P x X gg st me R' st' me'
    assume P: "in_list P" "in_list X" and run: "SequentialRun_mem c m thr (Suc n) R (p, P) (x, X) gg (st, me) = Inr (R', st', me')"
    from run obtain cand gg1 st1 me1 where s: "StartTask_mem c m thr R (p, P) (x, X) gg (st, me) = Inr (cand, gg1, st1, me1)"
      by (auto split: prod.splits)
    note k1 = StartTask_own [OF s]
    show "keeps_own me me'"
    proof (cases cand)
      case None
      with run s k1 show ?thesis by simp
    next
      case (Some oc)
      with run s obtain h cs where oc: "oc = Some (h, cs)" by (cases oc) auto
      with run s Some obtain R2 P2 X2 st2 me2 me3 me4 me5 where
        loop: "hs_for_each_result (candidate_step_mem c m (SequentialRun_mem c m thr n) gg1 h) cs (R, (p, P), (x, X), st1, me1) =
          Inr (R2, P2, X2, st2, me2)"
        and d: "on_heap (delete_set h) me2 = Inr me3" "on_heap (delete_set (fst P2)) me3 = Inr me4"
          "on_heap (delete_set (fst X2)) me4 = Inr me5" and me': "me' = me5"
        by (auto split: prod.splits)
      have "looped_own p x me1 (R, (p, P), (x, X), st1, me1)" using P by (simp add: looped_own_def)
      then have "looped_own p x me1 (R2, P2, X2, st2, me2)"
        by (rule for_each_result_keeps [OF loop]) (rule candidate_step_own [OF Suc.IH [OF Suc.prems] Suc.prems])
      then have "keeps_own me1 me2" by (auto simp: looped_own_def split: prod.splits)
      with k1 d me' on_heap_own(1) keeps_own_trans show ?thesis by blast
    qed
  qed
qed (simp add: runs_own_def)


section \<open>Tasks\<close>

text \<open>The sets of the task, as values.\<close>

definition in_lists :: "main_task \<Rightarrow> bool" where
  "in_lists t \<longleftrightarrow> (\<forall>s. P_task t = Some s \<or> X_task t = Some s \<longrightarrow> in_list s)"

lemma StartTask_sets:
  assumes "StartTask c thr R P X gg st = Inr (cand, gg', st')"
  shows "P_task (this st') = P_task (this st) \<and> X_task (this st') = X_task (this st)"
proof -
  have s: "this (count_clique thr r st) = this st" for r by (simp add: count_clique_def Let_def)
  have d: "this st' = this st" if "dec_graph_ref_count gg st = Inr (gg', st')" for gg gg' st st'
    using that by (auto simp: dec_graph_ref_count_def put_guard_def Let_def split: option.splits if_splits)
  have g: "P_task (this st') = P_task (this st) \<and> X_task (this st') = X_task (this st)"
    if "create_graph c P X gg st = Inr (gg', st')" for gg' st'
    using that by (auto simp: create_graph_def new_guard_def split: if_splits dest!: d)
  show ?thesis
    using assms s by (auto simp: StartTask_def Let_def split: if_splits prod.splits dest!: d g)
qed

lemma root_sets_in_list:
  assumes "create_root_sets c g v = Inr (P, X)"
  shows "in_list P \<and> in_list X"
proof -
  obtain Q where Q: "getAdjacentNodes g v = Some Q" using assms by (auto simp: create_root_sets_def split: option.splits)
  have "case (P, X) of (P, X) \<Rightarrow> in_list P \<and> in_list X"
    by (rule for_each_result_keeps [OF assms [unfolded create_root_sets_def Q option.case], where I = "\<lambda>(P, X). in_list P \<and> in_list X"])
      (auto simp: in_list_def create_set_def split: if_splits dest!: in_list_add [unfolded in_list_def, rotated])
  then show ?thesis by simp
qed


lemma root_sets_own:
  assumes "create_root_sets_mem c m g v me = Inr ((p, P), (x, X), me')"
  shows "in_list P \<and> in_list X \<and> keeps_own me me'"
proof -
  from assms obtain me1 where r: "create_root_sets c g v = Inr (P, X)" and new: "new_set m None P me = Inr (p, me1)"
    "new_set m None X me1 = Inr (x, me')" by (auto simp: create_root_sets_mem_def)
  from root_sets_in_list [OF r] new_set_own(1) [OF new(1)] new_set_own(1) [OF new(2)] show ?thesis
    by (blast intro: keeps_own_trans)
qed

lemma StartTask_mem_value:
  "StartTask_mem c m thr R (p, P) (x, X) gg (st, me) = Inr (cand, gg', st', me') \<Longrightarrow>
    \<exists>cand. StartTask c thr R P X gg st = Inr (cand, gg', st')"
  by (auto simp: StartTask_mem_def split: if_splits option.splits prod.splits)

lemma begin_task_own:
  assumes t: "parent (this st) \<noteq> None \<Longrightarrow> in_lists (this st)"
    and run: "begin_task_mem c m thr sp (st, me) = Inr (b, sp', st', me')"
  shows "keeps_own me me' \<and> in_lists (this st')"
  using run unfolding begin_task_mem_def prod.case
  apply (elim bind_resultE case_pairE)
  subgoal premises prems for s1 sp1 s2 st1 me1
  proof -
    have k1: "keeps_own me me1 \<and> in_lists (this st1)"
    proof (cases "parent (this st) = None")
      case True
      with prems(1-3) obtain gd :: graph_guard and p P x X where
        roots: "create_root_sets_mem c m (guarded gd) (new_vertex (this st)) me = Inr ((p, P), (x, X), me1)"
        and st1: "P_task (this st1) = Some P" "X_task (this st1) = Some X" by auto
      from root_sets_own [OF roots] show ?thesis by (auto simp: st1 in_lists_def)
    next
      case False
      with prems(1-3) t show ?thesis by simp
    qed
    obtain R P X p x where f: "R_task (this st1) = Some R" "P_task (this st1) = Some P" "X_task (this st1) = Some X"
      "P_at sp1 = Some p" "X_at sp1 = Some x" using prems(4) by (auto split: option.splits)
    obtain cand gg st2 me2 where s: "StartTask_mem c m thr R (p, P) (x, X) (graphg (this st1)) (st1, me1) = Inr (cand, gg, st2, me2)"
      using prems(4) f by (auto split: prod.splits)
    with prems(4) f have st': "P_task (this st') = P_task (this st2) \<and> X_task (this st') = X_task (this st2)" and me': "me2 = me'"
      by (auto simp: Let_def split: option.splits)
    from StartTask_mem_value [OF s] StartTask_sets st' have "P_task (this st') = P_task (this st1) \<and> X_task (this st') = X_task (this st1)" by auto
    with k1 StartTask_own [OF s] show ?thesis by (auto simp: in_lists_def me' intro: keeps_own_trans)
  qed
  done

lemma finish_loop_own: "finish_loop_mem c sp (st, me) = Inr (r, sp', st', me') \<Longrightarrow> keeps_own me me'"
  by (auto simp: finish_loop_mem_def delete_at_def split: option.splits dest!: on_heap_own(1)
      intro: keeps_own_trans [OF keeps_own_trans])

lemma loop_once_own:
  assumes lim: "pool_limit m \<le> PX_threshold c" and t: "in_lists (this st)"
    and run: "loop_once_mem c m thr sp (st, me) = Inr (r, a, sp', st', me')"
  shows "keeps_own me me' \<and> set (handed a) \<subseteq> own_sets (memory me')"
proof -
  obtain R P X cand p x h where f: "R_task (this st) = Some R" "P_task (this st) = Some P" "X_task (this st) = Some X"
    "cand_task (this st) = Some cand" "P_at sp = Some p" "X_at sp = Some x" "cand_at sp = Some h"
    using run by (auto simp: loop_once_mem_def split: option.splits)
  then have PX: "in_list P" "in_list X" using t by (auto simp: in_lists_def)
  obtain v cand' where n: "hs_get_next cand = (v, cand')" by fastforce
  let ?st = "set_this (\<lambda>t. t\<lparr>cand_task := Some cand'\<rparr>) st"
  show ?thesis
  proof (cases "v = -1")
    case True
    with run f n show ?thesis
      by (auto simp: loop_once_mem_def Let_def dest!: finish_loop_own split: prod.splits)
  next
    case False
    with run f n obtain a1 R1 P1 X1 st1 me1 where
      it: "LoopIteration_mem c m (SequentialRun_mem c m thr (sequential_fuel P)) v (graphg (this ?st)) (R, (p, P), (x, X), ?st, me) =
        Inr (a1, R1, P1, X1, st1, me1)"
      and a: "a = a1 \<and> keeps_own me1 me'"
      by (auto simp: loop_once_mem_def Let_def split: prod.splits if_splits dest!: finish_loop_own)
    from LoopIteration_own [OF SequentialRun_own [OF lim] lim PX it] have "keeps_own me me1" "set (handed a1) \<subseteq> own_sets (memory me1)"
      by (auto simp: iterated_own_def split: prod.splits)
    with a show ?thesis by (auto intro: keeps_own_trans keeps_own_sets)
  qed
qed

lemma execute_own:
  assumes lim: "pool_limit m \<le> PX_threshold c" and act: "\<not> isContinuation (this st)"
    and t: "\<not> (newTask (this st) \<and> parent (this st) = None) \<Longrightarrow> in_lists (this st)"
    and run: "execute_mem c m thr sp (st, me) = Inr (r, a, sp', st', me')"
  shows "keeps_own me me' \<and> set (handed a) \<subseteq> own_sets (memory me')"
proof -
  from act run have run': "SpawnTask_mem c m thr sp (st, me) = Inr (r, a, sp', st', me')" by (simp add: execute_mem_def)
  show ?thesis
  proof (cases "newTask (this st)")
    case False
    with run' loop_once_own [OF lim t] show ?thesis by (auto simp: SpawnTask_mem_def)
  next
    case True
    with run' obtain b sp1 st1 me1 where b: "begin_task_mem c m thr sp (st, me) = Inr (b, sp1, st1, me1)"
      and rest: "(if b then Inr (SafeContinuation, None, sp1, st1, me1) else loop_once_mem c m thr sp1 (st1, me1)) = Inr (r, a, sp', st', me')"
      by (auto simp: SpawnTask_mem_def split: prod.splits)
    have k: "keeps_own me me1 \<and> in_lists (this st1)" by (rule begin_task_own [OF _ b]) (use t True in auto)
    with rest loop_once_own [OF lim, of st1] show ?thesis by (cases b) (auto intro: keeps_own_trans)
  qed
qed


section \<open>Runs\<close>

definition private_pools :: "world \<times> places \<Rightarrow> bool" where
  "private_pools = (\<lambda>(w, pl). \<forall>p \<in> alive_slots (slots w). \<forall>h \<in> set (spot_sets (spots pl ! p)).
     owner (heap_at pl) h \<in> {None, chunk_at (spots pl ! p)})"

lemma private_start: "private_pools (start c g, start_places g)"
  by (auto simp: private_pools_def alive_slots_def start_def start_places_def spot_sets_def)

text \<open>A call on a task that is no continuation.\<close>

lemma executed_facts:
  assumes ok: "in_order c g nthr (w, pl)" and w: "failure w = None" "p < length (slots w)" "phase_of (slots w ! p) = Ready"
    and act: "\<not> isContinuation (job (slots w ! p))"
    and ex: "execute_mem c m thr (spots pl ! p) (call p w, mem_call p pl) = Inr (r, a, sp, st, me)"
  shows "executed_at (unlimited c) (others (alive_slots (slots w)) (\<lambda>p. spots pl ! p) p) (set (spot_sets (spots pl ! p))) (mem_call p pl)
      (r, map_option fst a, st) (r, a, sp, st, me)"
    and "advanced c g thr (call p w) (r, map_option fst a, st)"
    and "\<not> (newTask (job (slots w ! p)) \<and> parent (job (slots w ! p)) = None) \<Longrightarrow> in_lists (job (slots w ! p))"
proof -
  have wr: "sane c" "input_ok c g" "world_ok c g w" and pok: "places_ok (unlimited c) (slots w) pl"
    using ok w(1) by (simp_all add: in_order_def well_run_def on_course_def)
  have pL: "p \<in> alive_slots (slots w)" using w by (simp add: alive_slots_def live_def)
  then have tk: "task_ok c g (guards (call p w)) (this (call p w))" using wr(3) w(2) 
    by (simp add: world_ok_def slot_ok_def alive_slots_def call_def)
  let ?E = "executed_at (unlimited c) (others (alive_slots (slots w)) (\<lambda>p. spots pl ! p) p) (set (spot_sets (spots pl ! p))) (mem_call p pl)"
  have "matches ?E (execute c thr (call p w)) (execute_mem c m thr (spots pl ! p) (call p w, mem_call p pl))"
    using SpawnTask_matches [OF call_task_at [OF pok pL act], of c thr m] act
    by (simp add: execute_def execute_mem_def call_def unlimited_def)
  with ex obtain x where x: "execute c thr (call p w) = Inr x" "?E x (r, a, sp, st, me)"
    by (cases "execute c thr (call p w)") auto
  then have xs: "x = (r, map_option fst a, st)" by (cases x) (auto simp: executed_at_def)
  show "?E (r, map_option fst a, st) (r, a, sp, st, me)" using x(2) by (simp add: xs)
  show "advanced c g thr (call p w) (r, map_option fst a, st)"
    using execute_ends [OF wr(1,2) tk, of thr] x(1) act by (simp add: xs call_def)
  show "in_lists (job (slots w ! p))" if "\<not> (newTask (job (slots w ! p)) \<and> parent (job (slots w ! p)) = None)"
    using tk act that by (auto simp: task_ok_def call_def in_progress_def KG.node_def list_set_def hs_inv_def in_lists_def in_list_def)
qed

lemma private_advance:
  assumes lim: "pool_limit m \<le> PX_threshold c" and ok: "in_order c g nthr (w, pl)" and pr: "private_pools (w, pl)"
    and w: "failure w = None" "p < length (slots w)" "phase_of (slots w ! p) = Ready" and act: "\<not> isContinuation (job (slots w ! p))"
    and ex: "execute_mem c m thr (spots pl ! p) (call p w, mem_call p pl) = Inr (r, a, sp, st, me)"
  shows "private_pools (settle p (r, map_option fst a, st) w, settle_mem p (a, sp, me) pl)"
proof -
  note f = executed_facts [OF ok w act ex]
  have wr: "sane c" "world_ok c g w" and pok: "places_ok (unlimited c) (slots w) pl"
    using ok w(1) by (simp_all add: in_order_def well_run_def on_course_def)
  have pL: "p \<in> alive_slots (slots w)" using w by (simp add: alive_slots_def live_def)
  have len: "length (spots pl) = length (slots w)" using pok by (simp add: places_ok_def)
  have k: "keeps_own (mem_call p pl) me \<and> set (handed a) \<subseteq> own_sets (memory me)"
    using execute_own [OF lim _ _ ex] act f(3) by (simp add: call_def)
  have given: "kids_at me = []" using f(1,2) by (simp add: executed_at_def advanced_def aligned_def call_def)
  have "r \<noteq> Finished" using f(2) by (auto simp: advanced_def)
  then have L: "alive_slots (slots (settle p (r, map_option fst a, st) w)) = alive_slots (slots w) \<union> (if a = None then {} else {length (slots w)})"
    using advance_ok(1) [OF wr(1) f(2) wr(2) w(2,3) act] alive_moved [OF pL] by simp
  have mv: "moves (others (alive_slots (slots w)) (\<lambda>p. spots pl ! p) p) (mem_call p pl) me"
    using f(1) by (simp add: executed_at_def at_work_def)
  have pool: "chunk_at (spots pl ! p) \<noteq> None \<Longrightarrow> sets_chunk me = chunk_at (spots pl ! p)"
    using mv by (auto simp: moves_def new_pool_def mem_call_def)
  let ?pl' = "settle_mem p (a, sp, me) pl"
  have "owner (memory me) h \<in> {None, chunk_at (spots ?pl' ! q)}"
    if q: "q \<in> alive_slots (slots w) \<or> a \<noteq> None \<and> q = length (slots w)" and h: "h \<in> set (spot_sets (spots ?pl' ! q))" for q h
  proof -
    consider "q = p" | "q \<noteq> p" "q \<in> alive_slots (slots w)" | t px where "a = Some (t, px)" "q = length (slots w)"
      using q by (cases a) auto
    then show ?thesis
    proof cases
      case 1
      then have "h \<in> set (spot_sets sp)" using h w(2) len by (simp add: settle_mem_def nth_append)
      with f(1) have "owner (memory me) h \<in> {None, sets_chunk me} \<or>
        h \<in> set (spot_sets (spots pl ! p)) \<and> owner (memory me) h = owner (heap_at pl) h"
        by (auto simp: executed_at_def placed_ok_def mem_call_def)
      with pr pL pool have "owner (memory me) h \<in> {None, sets_chunk me}" by (fastforce simp: private_pools_def)
      then show ?thesis using 1 w(2) len by (simp add: settle_mem_def nth_append)
    next
      case 2
      then have s: "spots ?pl' ! q = spots pl ! q" using len by (simp add: settle_mem_def nth_append alive_slots_def)
      with h 2 have "h \<in> others (alive_slots (slots w)) (\<lambda>p. spots pl ! p) p" by (auto simp: others_def)
      then have "owner (memory me) h = owner (heap_at pl) h" using mv by (simp add: moves_def mem_call_def)
      with pr h s 2 show ?thesis by (fastforce simp: private_pools_def)
    next
      case 3
      then have "spots ?pl' ! q = kid_spot px" using len given by (simp add: settle_mem_def nth_append)
      with h k 3 have "h \<in> own_sets (memory me)" by (cases px) auto
      then show ?thesis by (simp add: own_sets_def)
    qed
  qed
  then show ?thesis using L by (auto simp: private_pools_def settle_mem_def split: if_splits)
qed


lemma private_retire:
  assumes ok: "in_order c g nthr (w, pl)" and pr: "private_pools (w, pl)"
    and w: "failure w = None" "p < length (slots w)" "phase_of (slots w ! p) = Ready" and cont: "isContinuation (job (slots w ! p))"
    and ex: "execute_mem c m thr (spots pl ! p) (call p w, mem_call p pl) = Inr (r, a, sp, st, me)"
  shows "private_pools (settle p (r, map_option fst a, st) w, settle_mem p (a, sp, me) pl)"
proof -
  have wr: "sane c" "input_ok c g" "world_ok c g w" and pok: "places_ok (unlimited c) (slots w) pl"
    using ok w(1) by (simp_all add: in_order_def well_run_def on_course_def)
  have pL: "p \<in> alive_slots (slots w)" using w by (simp add: alive_slots_def live_def)
  then have tk: "task_ok c g (guards (call p w)) (this (call p w))" using wr(3) w(2) 
    by (simp add: world_ok_def slot_ok_def alive_slots_def call_def)
  have len: "length (spots pl) = length (slots w)" using pok by (simp add: places_ok_def)
  from ex cont have C: "Continuation_mem c (call p w, mem_call p pl) = Inr (st, me)" and r: "r = Finished" "a = None"
    by (auto simp: execute_mem_def call_def)
  from C have "Continuation c (call p w) = Inr st" by (auto simp: Continuation_mem_def split: option.splits)
  with execute_ends [OF wr(1,2) tk, of thr] cont have sp: "spawned st = []"
    by (simp add: execute_def call_def retired_def)
  have own: "owner (memory me) h = owner (heap_at pl) h" for h
    using C by (auto simp: Continuation_mem_def on_heap_def delete_chunk_def mem_call_def owner_def split: option.splits)
  have kids: "kids_at me = []"
    using C by (auto simp: Continuation_mem_def on_heap_def mem_call_def split: option.splits)
  note fin = settle_finished [OF w(2) sp]
  have "q \<in> alive_slots (slots w) \<and> q \<noteq> p" if "q \<in> alive_slots (slots (settle p (Finished, None, st) w))" for q
    using that fin(1) [of q] fin(3) [OF w(2)] w(2) by (cases "q = p") (auto simp: alive_slots_def live_def)
  note gone = this
  have same: "spots (settle_mem p (a, sp, me) pl) ! q = spots pl ! q" if "q \<noteq> p" for q
    using that kids by (simp add: settle_mem_def r)
  have "heap_at (settle_mem p (a, sp, me) pl) = memory me" by (simp add: settle_mem_def)
  with pr own gone same show ?thesis by (fastforce simp: r private_pools_def)
qed

lemma private_step:
  assumes lim: "pool_limit m \<le> PX_threshold c" and ok: "in_order c g nthr (w, pl)" and pr: "private_pools (w, pl)"
    and st: "mem_step c m nthr (w, pl) (w', pl')"
  shows "private_pools (w', pl')"
  using st
proof cases
  case (run p thr r a sp st me)
  then show ?thesis
    using private_advance [OF lim ok pr run(3-5) _ run(7)] private_retire [OF ok pr run(3-5) _ run(7)] by blast
next
  case (fail p thr er)
  with pr show ?thesis by (simp add: private_pools_def)
qed

lemma private_runs:
  assumes "pool_limit m \<le> PX_threshold c" and "sane c" and "input_ok c g" and "numbered g"
    and "mem_steps c m nthr (start c g, start_places g) s"
  shows "private_pools s"
  using assms(5)
proof (induction rule: rtranclp_induct)
  case base
  show ?case by (rule private_start)
next
  case (step s s')
  then have "in_order c g nthr s" using placed_runs(2) [OF assms(2-4), of m nthr "fst s" "snd s"] by simp
  with private_step [OF assms(1), of g nthr "fst s" "snd s" "fst s'" "snd s'"] step show ?case by simp
qed

end
