(* ===== verification/HistEntries.thy ===== *)
theory HistEntries
  imports PoolPrivacy Runs
begin

text \<open>
  The entries of the histograms: a size is only entered together with its first clique, so that no
  entry is zero.
\<close>

section \<open>Operations of a task\<close>

definition entries_kept :: "state \<Rightarrow> state \<Rightarrow> bool" where
  "entries_kept st st' \<longleftrightarrow> (\<forall>t k. pt_hist st' t k = Some 0 \<longrightarrow> pt_hist st t k = Some 0)"

lemma entries_kept_refl [simp]: "entries_kept st st"
  by (simp add: entries_kept_def)

lemma entries_kept_trans: "entries_kept st st1 \<Longrightarrow> entries_kept st1 st2 \<Longrightarrow> entries_kept st st2"
  by (simp add: entries_kept_def)

lemma entries_kept_same: "pt_hist st' = pt_hist st \<Longrightarrow> entries_kept st st'"
  by (simp add: entries_kept_def)

lemma count_clique_entries: "entries_kept st (count_clique thr k st)"
  by (auto simp: entries_kept_def count_clique_def Let_def split: if_splits)

lemma guard_ops_hist:
  "new_guard g st = (gg, st') \<Longrightarrow> pt_hist st' = pt_hist st"
  "dec_graph_ref_count gg st = Inr (gg', st') \<Longrightarrow> pt_hist st' = pt_hist st"
  "inc_graph_ref_count gg st = Inr st' \<Longrightarrow> pt_hist st' = pt_hist st"
  by (auto simp: new_guard_def dec_graph_ref_count_def inc_graph_ref_count_def put_guard_def Let_def
      split: option.splits if_splits)

lemma set_this_hist [simp]: "pt_hist (set_this f st) = pt_hist st"
  by (simp add: set_this_def)

lemma create_graph_hist: "create_graph c P X gg st = Inr (gg', st') \<Longrightarrow> pt_hist st' = pt_hist st"
  by (auto simp: create_graph_def new_guard_def split: if_splits dest!: guard_ops_hist(2))

lemma StartTask_entries: "StartTask c thr R P X gg st = Inr (cand, gg', st') \<Longrightarrow> entries_kept st st'"
  using count_clique_entries [of st thr "ul_size R"]
  by (auto simp: StartTask_def Let_def entries_kept_def split: if_splits prod.splits
      dest!: guard_ops_hist create_graph_hist)

definition run_kept :: "(ulist \<Rightarrow> simple_hash_set \<Rightarrow> simple_hash_set \<Rightarrow> guard_ptr \<Rightarrow> state \<Rightarrow> (ulist \<times> state) result) \<Rightarrow> bool" where
  "run_kept run \<longleftrightarrow> (\<forall>R P X gg st R' st'. run R P X gg st = Inr (R', st') \<longrightarrow> entries_kept st st')"

lemma LoopIteration_entries:
  assumes "run_kept run" and "LoopIteration c run v gg (R, P, X, st) = Inr (a, R', P', X', st')"
  shows "entries_kept st st'"
proof -
  have r: "entries_kept st st'" if "run R P X gg st = Inr (R', st')" for R P X gg st R' st'
    using assms(1) that unfolding run_kept_def by blast
  show ?thesis
    using assms(2) unfolding LoopIteration_def prod.case Let_def
    by (elim bind_resultE) (auto simp: entries_kept_def split: option.splits if_splits dest!: guard_ops_hist r)
qed

lemma SequentialRun_entries: "run_kept (SequentialRun c thr n)"
proof (induction n)
  case (Suc n)
  have "entries_kept st st'" if run: "SequentialRun c thr (Suc n) R P X gg st = Inr (R', st')" for R P X gg st R' st'
  proof -
    obtain cand gg1 st1 where 1: "StartTask c thr R P X gg st = Inr (cand, gg1, st1)"
      and rest: "(case cand of None \<Rightarrow> Inr (R, st1) | Some None \<Rightarrow> Inl NullDereference
       | Some (Some cand) \<Rightarrow>
           bind_result (hs_for_each_result (candidate_step c (SequentialRun c thr n) gg1) cand (R, P, X, st1))
             (\<lambda>(R, P, X, st).
             bind_result (if subgraphBased c = 3 then dec_graph_ref_count gg1 st else Inr (gg1, st)) (\<lambda>(gg, st).
             Inr (R, st)))) = Inr (R', st')"
      using run by auto
    note k1 = StartTask_entries [OF 1]
    show ?thesis
    proof (cases "cand = None")
      case False
      with rest obtain C R2 P2 X2 st2 where loop: "hs_for_each_result (candidate_step c (SequentialRun c thr n) gg1) C (R, P, X, st1) = Inr (R2, P2, X2, st2)"
        and st': "pt_hist st' = pt_hist st2"
        by (auto split: option.splits if_splits dest: guard_ops_hist(2))
      have "case (R2, P2, X2, st2) of (_, _, _, st) \<Rightarrow> entries_kept st1 st"
      proof (rule for_each_result_keeps [OF loop, where I = "\<lambda>(_, _, _, st). entries_kept st1 st"])
        fix v s s' assume I: "case s of (_, _, _, st) \<Rightarrow> entries_kept st1 st"
          and step: "candidate_step c (SequentialRun c thr n) gg1 v s = Inr s'"
        obtain Ra Pa Xa sta where s: "s = (Ra, Pa, Xa, sta)" by (cases s)
        from step s obtain a Rb Pb Xb stb where b: "LoopIteration c (SequentialRun c thr n) v gg1 (Ra, Pa, Xa, sta) = Inr (a, Rb, Pb, Xb, stb)"
          and s': "s' = (Rb, Pb, Xb, case a of None \<Rightarrow> stb | Some a \<Rightarrow> stb\<lparr>spawned := spawned stb @ [a]\<rparr>)"
          by (auto simp: candidate_step_def)
        from LoopIteration_entries [OF Suc.IH b] I show "case s' of (_, _, _, st) \<Rightarrow> entries_kept st1 st"
          by (auto simp: s s' entries_kept_def split: option.splits)
      qed simp
      with k1 st' show ?thesis by (auto simp: entries_kept_def)
    qed (use rest k1 in simp)
  qed
  then show ?case unfolding run_kept_def by blast
qed (simp add: run_kept_def)

lemma finish_loop_hist: "finish_loop c st = Inr (r, st') \<Longrightarrow> pt_hist st' = pt_hist st"
  by (auto simp: finish_loop_def Let_def split: if_splits dest!: guard_ops_hist(2))

lemma loop_once_entries: "loop_once c thr st = Inr (r, a, st') \<Longrightarrow> entries_kept st st'"
  unfolding loop_once_def Let_def
  by (auto simp: entries_kept_def split: option.splits prod.splits if_splits
      dest!: finish_loop_hist LoopIteration_entries [OF SequentialRun_entries, unfolded entries_kept_def])

lemma begin_task_entries: "begin_task c thr st = Inr (b, st') \<Longrightarrow> entries_kept st st'"
  unfolding begin_task_def Let_def
  by (elim bind_resultE)
    (auto simp: entries_kept_def split: option.splits prod.splits if_splits dest!: StartTask_entries [unfolded entries_kept_def])

lemma execute_entries: "execute c thr st = Inr (r, a, st') \<Longrightarrow> entries_kept st st'"
  unfolding execute_def SpawnTask_def Continuation_def
  by (auto split: if_splits dest!: begin_task_entries loop_once_entries guard_ops_hist(2) intro: entries_kept_trans entries_kept_same)

section \<open>Runs\<close>

lemma steps_entries:
  assumes "steps c n w0 w" and "\<forall>t k. hists w0 t k \<noteq> Some 0"
  shows "\<forall>t k. hists w t k \<noteq> Some 0"
  using assms
proof (induction rule: rtranclp_induct)
  case (step w w')
  from step.hyps(2) show ?case
  proof cases
    case (run p thr x)
    obtain r a st where x: "x = (r, a, st)" by (cases x)
    from execute_entries [of c thr "call p w" r a st] run x have "entries_kept (call p w) st" by simp
    then have "\<forall>t k. pt_hist st t k \<noteq> Some 0" using step.IH [OF step.prems] by (auto simp: entries_kept_def call_def)
    moreover have "hists w' = pt_hist st"
      using run(1) by (auto simp: x settle_def release_def Let_def split: option.split)
    ultimately show ?thesis by simp
  qed (use step.IH [OF step.prems] in simp)
qed simp

end
