(* ===== verification/GraphReader.thy ===== *)
theory GraphReader
  imports Runs
begin

text \<open>
  Reading a graph: \<open>initFromFile\<close> of \<^verbatim>\<open>src/Graph.cpp\<close>: lines by \<open>getline\<close>, integers by the
  stream extraction operator, the guess whether the first row is a header, and the edges.
\<close>

section \<open>Stream extraction\<close>

record istream =
  rest :: string
  eofbit :: bool
  failbit :: bool

definition isspace :: "char \<Rightarrow> bool" where
  "isspace c \<longleftrightarrow> c \<in> set [CHR 0x20, CHR 0x09, CHR 0x0A, CHR 0x0B, CHR 0x0C, CHR 0x0D]"

definition isdigit :: "char \<Rightarrow> bool" where
  "isdigit c \<longleftrightarrow> 48 \<le> (of_char c :: nat) \<and> (of_char c :: nat) \<le> 57"

definition digits_value :: "string \<Rightarrow> int" where
  "digits_value ds = fold (\<lambda>c n. 10 * n + (of_char c - 48)) ds 0"

text \<open>
  \<^verbatim>\<open>ss >> x\<close>.  A stream that is not good leaves the variable as it was, which is
  \<open>None\<close>; so does one with only white space left.  A number without digits stores 0 and one out
  of range the nearest \<open>int\<close>, both with \<open>failbit\<close>.
\<close>

definition extract_int :: "istream \<Rightarrow> int option \<times> istream" where
  "extract_int ss =
     (if eofbit ss \<or> failbit ss then (None, ss\<lparr>failbit := True\<rparr>)
      else
        let r = dropWhile isspace (rest ss) in
        if r = [] then (None, ss\<lparr>rest := [], eofbit := True, failbit := True\<rparr>)
        else
          let neg = (hd r = CHR ''-'');
              r = (if hd r = CHR ''-'' \<or> hd r = CHR ''+'' then tl r else r);
              ds = takeWhile isdigit r;
              r = dropWhile isdigit r;
              v = (if neg then - digits_value ds else digits_value ds)
          in if ds = [] then (Some 0, \<lparr>rest = r, eofbit = (r = []), failbit = True\<rparr>)
             else if v < - (2 ^ 31) then (Some (- (2 ^ 31)), \<lparr>rest = r, eofbit = (r = []), failbit = True\<rparr>)
             else if v > 2 ^ 31 - 1 then (Some (2 ^ 31 - 1), \<lparr>rest = r, eofbit = (r = []), failbit = True\<rparr>)
             else (Some v, \<lparr>rest = r, eofbit = (r = []), failbit = False\<rparr>))"

section \<open>Lines\<close>

text \<open>
  \<open>getline\<close> until \<open>eof()\<close>: a last line without its newline sets \<open>eofbit\<close> and is dropped.
\<close>

fun getlines :: "string \<Rightarrow> string \<Rightarrow> string list" where
  "getlines line [] = []"
| "getlines line (c # cs) =
     (if c = CHR 0x0A then rev line # getlines [] cs else getlines (c # line) cs)"

definition use_var :: "int option \<Rightarrow> int result" where
  "use_var x = (case x of None \<Rightarrow> Inl Uninitialised | Some v \<Rightarrow> Inr v)"

text \<open>
  One row.  A header, guessed from a third number on the first row, is skipped; \<open>reserve\<close> of
  a negative count throws.
\<close>

definition read_row :: "build \<Rightarrow> string \<Rightarrow> graph \<times> bool \<Rightarrow> (graph \<times> bool) result" where
  "read_row bld line = (\<lambda>(g, firstRow).
     if line \<noteq> [] \<and> (hd line = CHR ''%'' \<or> hd line = CHR ''#'') then Inr (g, firstRow)
     else
       let ss = \<lparr>rest = line, eofbit = False, failbit = False\<rparr>;
           (first, ss) = extract_int ss;
           (second, ss) = extract_int ss;
           third = (if firstRow \<and> \<not> eofbit ss
                    then (case fst (extract_int ss) of None \<Rightarrow> -1 | Some t \<Rightarrow> t) else -1)
       in if third \<noteq> -1
          then bind_result (use_var first) (\<lambda>first.
            if first < 0 then Inl AllocFailed else Inr (g\<lparr>nodeNo := first\<rparr>, False))
          else bind_result (use_var first) (\<lambda>first. bind_result (use_var second) (\<lambda>second.
            bind_result (addEdge bld (word_of_int first) (word_of_int second) g) (\<lambda>g. Inr (g, False)))))"

definition initFromFile :: "library \<Rightarrow> build \<Rightarrow> env \<Rightarrow> string \<Rightarrow> graph \<Rightarrow> graph result" where
  "initFromFile lib bld e content g =
     bind_result (fold_result (read_row bld) (getlines [] content) (g\<lparr>nodeNo := -1\<rparr>, True)) (\<lambda>(g, _).
       hash_lists lib bld e (number_vertices lib g))"

section \<open>Writing and reading back a row\<close>

fun decimal :: "nat \<Rightarrow> string" where
  "decimal n = (if n < 10 then [char_of (48 + n)] else decimal (n div 10) @ [char_of (48 + n mod 10)])"

declare decimal.simps [simp del]

definition decimal_int :: "int \<Rightarrow> string" where
  "decimal_int i = (if i < 0 then ''-'' @ decimal (nat (- i)) else decimal (nat i))"

lemma digit_code:
  assumes "n < 10"
  shows "(of_char (char_of (48 + n :: nat)) :: nat) = 48 + n"
    and "(of_char (char_of (48 + n :: nat)) :: int) = 48 + int n"
proof -
  show *: "(of_char (char_of (48 + n :: nat)) :: nat) = 48 + n" using assms by simp
  have "(of_char (char_of (48 + n :: nat)) :: int) = int (of_char (char_of (48 + n :: nat)))"
    by (simp only: of_nat_of_char)
  with * show "(of_char (char_of (48 + n :: nat)) :: int) = 48 + int n" by simp
qed

lemma isdigit_char [simp]: "n < 10 \<Longrightarrow> isdigit (char_of (48 + n :: nat))"
  by (simp only: isdigit_def digit_code) simp

text \<open>A digit is none of the characters the reader treats specially.\<close>

lemma isdigit_not_special:
  "isdigit c \<Longrightarrow> \<not> isspace c \<and> c \<noteq> CHR ''%'' \<and> c \<noteq> CHR ''#'' \<and> c \<noteq> CHR ''-'' \<and> c \<noteq> CHR ''+'' \<and> c \<noteq> CHR 0x0A"
  by (auto simp: isdigit_def isspace_def)

lemma decimal_digits: "list_all isdigit (decimal n)" "decimal n \<noteq> []"
proof -
  have "list_all isdigit (decimal n) \<and> decimal n \<noteq> []"
  proof (induction n rule: decimal.induct)
    case (1 n)
    then show ?case by (subst (1 2) decimal.simps) simp
  qed
  then show "list_all isdigit (decimal n)" "decimal n \<noteq> []" by simp_all
qed

lemma digits_value_snoc: "digits_value (ds @ [c]) = 10 * digits_value ds + (of_char c - 48)"
  by (simp add: digits_value_def)

lemma digits_value_decimal [simp]: "digits_value (decimal n) = int n"
proof (induction n rule: decimal.induct)
  case (1 n)
  show ?case
  proof (cases "n < 10")
    case True
    then show ?thesis by (subst decimal.simps) (simp add: digits_value_def digit_code del: of_char_of)
  next
    case False
    with 1 have "digits_value (decimal (n div 10)) = int (n div 10)" by simp
    with False show ?thesis
      by (subst decimal.simps) (simp add: digits_value_snoc digit_code zdiv_int zmod_int del: of_char_of)
  qed
qed


lemma takeWhile_digits:
  assumes "list_all isdigit ds" and "r = [] \<or> \<not> isdigit (hd r)"
  shows "takeWhile isdigit (ds @ r) = ds" and "dropWhile isdigit (ds @ r) = r"
  using assms by (induction ds) (cases r; simp)+

text \<open>A number after white space, up to a character that is no digit or the end of the stream.\<close>

lemma extract_decimal:
  assumes "list_all isspace sp" and "r = [] \<or> \<not> isdigit (hd r)" and n: "n < 2 ^ 31"
  shows "extract_int \<lparr>rest = sp @ decimal n @ r, eofbit = False, failbit = False\<rparr> =
    (Some (int n), \<lparr>rest = r, eofbit = (r = []), failbit = False\<rparr>)"
proof -
  obtain d ds where d: "decimal n = d # ds" using decimal_digits(2) by (cases "decimal n") auto
  have dig: "isdigit d" using decimal_digits(1) [of n] d by simp
  have "dropWhile isspace (sp @ decimal n @ r) = decimal n @ r"
    using assms(1) isdigit_not_special [OF dig] by (induction sp) (simp_all add: d)
  moreover have "takeWhile isdigit (decimal n @ r) = decimal n" "dropWhile isdigit (decimal n @ r) = r"
    using takeWhile_digits [OF decimal_digits(1) assms(2)] by simp_all
  moreover have "hd (decimal n @ r) \<noteq> CHR ''-''" "hd (decimal n @ r) \<noteq> CHR ''+''" "decimal n @ r \<noteq> []"
    using isdigit_not_special [OF dig] by (simp_all add: d)
  moreover have "int n \<le> 2 ^ 31 - 1" using n by simp
  ultimately show ?thesis using decimal_digits(2) by (simp add: extract_int_def Let_def)
qed

section \<open>Documents\<close>

text \<open>
  A graph file: comments, at most one header in front of the edges, and edges, one on a line.
\<close>

datatype row = Comment char string | Header nat nat nat | Edge nat nat

fun row_text :: "row \<Rightarrow> string" where
  "row_text (Comment c s) = c # s"
| "row_text (Header a b d) = decimal a @ '' '' @ decimal b @ '' '' @ decimal d"
| "row_text (Edge a b) = decimal a @ '' '' @ decimal b"

definition render :: "row list \<Rightarrow> string" where
  "render rs = concat (map (\<lambda>r. row_text r @ [CHR 0x0A]) rs)"

fun row_ok :: "row \<Rightarrow> bool" where
  "row_ok (Comment c s) \<longleftrightarrow> (c = CHR ''%'' \<or> c = CHR ''#'') \<and> CHR 0x0A \<notin> set s"
| "row_ok (Header a b d) \<longleftrightarrow> a < 2 ^ 31 \<and> b < 2 ^ 31 \<and> d < 2 ^ 31"
| "row_ok (Edge a b) \<longleftrightarrow> a < 2 ^ 31 \<and> b < 2 ^ 31"

text \<open>A header may only be the first row that is no comment.\<close>

fun header_first :: "row list \<Rightarrow> bool" where
  "header_first [] = True"
| "header_first (Comment c s # rs) = header_first rs"
| "header_first (r # rs) = (\<forall>r' \<in> set rs. \<forall>a b d. r' \<noteq> Header a b d)"

definition document_ok :: "row list \<Rightarrow> bool" where
  "document_ok rs \<longleftrightarrow> list_all row_ok rs \<and> header_first rs"

fun edges :: "row list \<Rightarrow> (nat \<times> nat) list" where
  "edges [] = []"
| "edges (Edge a b # rs) = (a, b) # edges rs"
| "edges (_ # rs) = edges rs"

lemma getlines_line: "CHR 0x0A \<notin> set l \<Longrightarrow> getlines acc (l @ CHR 0x0A # cs) = (rev acc @ l) # getlines [] cs"
  by (induction l arbitrary: acc) auto

lemma getlines_tail: "CHR 0x0A \<notin> set l \<Longrightarrow> getlines acc l = []"
  by (induction l arbitrary: acc) auto

lemma decimal_no_newline: "CHR 0x0A \<notin> set (decimal n)"
  using decimal_digits(1) [of n] isdigit_not_special by (auto simp: list_all_iff)

lemma row_text_no_newline: "row_ok r \<Longrightarrow> CHR 0x0A \<notin> set (row_text r)"
  using decimal_no_newline by (cases r) auto

text \<open>Whatever follows the last newline is dropped.\<close>

lemma getlines_render:
  assumes "list_all row_ok rs" and "CHR 0x0A \<notin> set tail"
  shows "getlines [] (render rs @ tail) = map row_text rs"
  using assms(1)
proof (induction rs)
  case Nil
  then show ?case using assms(2) by (simp add: render_def getlines_tail)
next
  case (Cons r rs)
  then have "getlines [] (row_text r @ CHR 0x0A # (render rs @ tail)) = row_text r # map row_text rs"
    using getlines_line [of "row_text r" "[]"] row_text_no_newline by simp
  then show ?case by (simp add: render_def)
qed

lemma space_facts [simp]: "isspace CHR '' ''" "\<not> isdigit CHR '' ''"
  by (simp_all add: isspace_def isdigit_def)

lemma decimal_first:
  "hd (decimal n @ r) \<noteq> CHR ''%''" "hd (decimal n @ r) \<noteq> CHR ''#''"
proof -
  obtain d ds where "decimal n = d # ds" using decimal_digits(2) by (cases "decimal n") auto
  with decimal_digits(1) [of n] isdigit_not_special [of d]
  show "hd (decimal n @ r) \<noteq> CHR ''%''" "hd (decimal n @ r) \<noteq> CHR ''#''" by simp_all
qed

text \<open>What the reader makes of each kind of row.\<close>

lemma read_comment: "row_ok (Comment c s) \<Longrightarrow> read_row bld (row_text (Comment c s)) (g, b) = Inr (g, b)"
  by (simp add: read_row_def)

lemma read_edge:
  assumes "row_ok (Edge a b)"
  shows "read_row bld (row_text (Edge a b)) (g, f) =
    bind_result (addEdge bld (of_nat a) (of_nat b) g) (\<lambda>g. Inr (g, False))"
proof -
  have ab: "a < 2 ^ 31" "b < 2 ^ 31" using assms by simp_all
  have 1: "extract_int \<lparr>rest = decimal a @ '' '' @ decimal b, eofbit = False, failbit = False\<rparr> =
    (Some (int a), \<lparr>rest = '' '' @ decimal b, eofbit = False, failbit = False\<rparr>)"
    using extract_decimal [of "[]" "'' '' @ decimal b" a] ab by simp
  have 2: "extract_int \<lparr>rest = '' '' @ decimal b, eofbit = False, failbit = False\<rparr> =
    (Some (int b), \<lparr>rest = [], eofbit = True, failbit = False\<rparr>)"
    using extract_decimal [of "'' ''" "[]" b] ab by simp
  show ?thesis
    using decimal_first [of a "'' '' @ decimal b"]
    unfolding read_row_def row_text.simps prod.case Let_def 1 2
    by (simp add: use_var_def)
qed

lemma read_header:
  assumes "row_ok (Header a b d)"
  shows "read_row bld (row_text (Header a b d)) (g, True) = Inr (g\<lparr>nodeNo := int a\<rparr>, False)"
proof -
  have ab: "a < 2 ^ 31" "b < 2 ^ 31" "d < 2 ^ 31" using assms by simp_all
  have 1: "extract_int \<lparr>rest = decimal a @ '' '' @ decimal b @ '' '' @ decimal d, eofbit = False, failbit = False\<rparr> =
    (Some (int a), \<lparr>rest = '' '' @ decimal b @ '' '' @ decimal d, eofbit = False, failbit = False\<rparr>)"
    using extract_decimal [of "[]" "'' '' @ decimal b @ '' '' @ decimal d" a] ab by simp
  have 2: "extract_int \<lparr>rest = '' '' @ decimal b @ '' '' @ decimal d, eofbit = False, failbit = False\<rparr> =
    (Some (int b), \<lparr>rest = '' '' @ decimal d, eofbit = False, failbit = False\<rparr>)"
    using extract_decimal [of "'' ''" "'' '' @ decimal d" b] ab by simp
  have 3: "extract_int \<lparr>rest = '' '' @ decimal d, eofbit = False, failbit = False\<rparr> =
    (Some (int d), \<lparr>rest = [], eofbit = True, failbit = False\<rparr>)"
    using extract_decimal [of "'' ''" "[]" d] ab by simp
  show ?thesis
    using decimal_first [of a "'' '' @ decimal b @ '' '' @ decimal d"]
    unfolding read_row_def row_text.simps prod.case Let_def 1 2
    by (simp add: 3 [unfolded append.simps] use_var_def)
qed


section \<open>Adding edges\<close>

text \<open>The vertices and the adjacency that a list of edges stands for.\<close>

definition ends_of :: "('v \<times> 'v) list \<Rightarrow> 'v set" where
  "ends_of es = fst ` set es \<union> snd ` set es"

definition joined :: "('v \<times> 'v) list \<Rightarrow> 'v \<Rightarrow> 'v set" where
  "joined es v = {w. w \<noteq> v \<and> ((v, w) \<in> set es \<or> (w, v) \<in> set es)}"

text \<open>
  The graph while edges are added: every adjacency set is a list that may repeat keys, and
  \<open>maxdeg\<close> is at least the length of each of them that is not empty.
\<close>

definition degree_bound :: "graph \<Rightarrow> nat \<Rightarrow> bool" where
  "degree_bound g n \<longleftrightarrow> (0 < n \<longrightarrow> int n \<le> maxdeg g)"

definition built :: "build \<Rightarrow> (key \<times> key) list \<Rightarrow> graph \<Rightarrow> bool" where
  "built bld es g \<longleftrightarrow> simple_adj g \<and> verts g = ends_of es \<and> -1 \<le> maxdeg g \<and>
     (\<forall>v s. getAdjacentNodes g v = Some s \<longrightarrow> hs_inv bld s \<and> \<not> isHashed s \<and> contents s = joined es v \<and>
       length (iteration s) \<le> length es \<and> degree_bound g (length (iteration s)))"

lemma ends_of_simps [simp]: "ends_of [] = {}" "ends_of (es @ [(v, w)]) = insert v (insert w (ends_of es))"
  by (auto simp: ends_of_def)

lemma joined_simps:
  "joined [] v = {}"
  "joined (es @ [(v, v)]) x = joined es x"
  "v \<noteq> w \<Longrightarrow> joined (es @ [(v, w)]) x = joined es x \<union> (if x = v then {w} else {}) \<union> (if x = w then {v} else {})"
  by (auto simp: joined_def)

lemma joined_outside: "v \<notin> ends_of es \<Longrightarrow> joined es v = {}"
  by (force simp: joined_def ends_of_def)

lemma built_new: "built bld [] (Graph n)"
  by (simp add: built_def Graph_def simple_adj_def verts_def getAdjacentNodes_def ends_of_def)

lemma length_contents_0: "length (iteration s) = 0 \<longleftrightarrow> contents s = {}"
  by simp

text \<open>A vertex that is new gets an empty set.\<close>

definition with_vertex :: "key \<Rightarrow> graph \<Rightarrow> graph" where
  "with_vertex v g = (if getAdjacentNodes g v = None
     then g\<lparr>adjList := AList.update v create_set (adjList g)\<rparr> else g)"

definition listed :: "build \<Rightarrow> (key \<times> key) list \<Rightarrow> key set \<Rightarrow> graph \<Rightarrow> bool" where
  "listed bld es V g \<longleftrightarrow> simple_adj g \<and> verts g = V \<and> -1 \<le> maxdeg g \<and>
     (\<forall>v s. getAdjacentNodes g v = Some s \<longrightarrow> hs_inv bld s \<and> \<not> isHashed s \<and> contents s = joined es v \<and>
       length (iteration s) \<le> length es \<and> degree_bound g (length (iteration s)))"

lemma built_listed: "built bld es g \<longleftrightarrow> listed bld es (ends_of es) g"
  by (simp add: built_def listed_def)

lemma listed_vertex:
  assumes bld: "USE_AVX512 bld \<Longrightarrow> USE_HOPSCOTCH bld" and "listed bld es V g" and "ends_of es \<subseteq> V"
  shows "listed bld es (insert v V) (with_vertex v g)" and "vertexOrdering (with_vertex v g) = vertexOrdering g"
    and "backwardsMapping (with_vertex v g) = backwardsMapping g"
proof -
  show "vertexOrdering (with_vertex v g) = vertexOrdering g" "backwardsMapping (with_vertex v g) = backwardsMapping g"
    by (simp_all add: with_vertex_def)
  show "listed bld es (insert v V) (with_vertex v g)"
  proof (cases "getAdjacentNodes g v = None")
    case False
    then have "v \<in> V" using assms(2) get_None_iff [of g v] by (auto simp: listed_def)
    then have "insert v V = V" by auto
    with assms(2) show ?thesis unfolding with_vertex_def if_not_P [OF False] by simp
  next
    case True
    then have "v \<notin> ends_of es" using assms(2,3) get_None_iff [of g v] by (auto simp: listed_def)
    then have "joined es v = {}" by (rule joined_outside)
    moreover have "\<not> isHashed create_set" by (simp add: create_set_def)
    ultimately show ?thesis
      using True assms(2) create_set_inv [OF bld]
      by (auto simp: with_vertex_def listed_def degree_bound_def)
  qed
qed

text \<open>Appending to the adjacency set of a vertex that is there.\<close>

lemma append_elem:
  assumes "hs_inv bld s" "\<not> isHashed s" "valid_key w"
  shows "\<exists>s'. add_elem bld w s = Inr s' \<and> hs_inv bld s' \<and> \<not> isHashed s' \<and> iteration s' = iteration s @ [w]"
proof -
  have ul: "ul_inv (elems s)" using assms(1) by (simp add: hs_inv_def)
  let ?s = "s\<lparr>elems := push_back w (elems s)\<rparr>"
  have "iteration ?s = iteration s @ [w]" using assms(2) ul by (simp add: iteration_def push_back_to_list)
  moreover have "hs_inv bld ?s" using assms ul by (simp add: hs_inv_def push_back_to_list)
  ultimately show ?thesis using assms(2) by (simp add: add_elem_def)
qed

lemma adj_append:
  assumes s: "getAdjacentNodes g v = Some s" "hs_inv bld s" "\<not> isHashed s" and w: "valid_key w"
  shows "\<exists>s'. adj_add_elem bld v w g = Inr (g\<lparr>adjList := AList.update v s' (adjList g)\<rparr>) \<and>
    hs_inv bld s' \<and> \<not> isHashed s' \<and> iteration s' = iteration s @ [w]"
  using append_elem [OF s(2,3) w] s(1) by (auto simp: adj_add_elem_def)

lemma adj_size_list: "getAdjacentNodes g v = Some s \<Longrightarrow> hs_inv bld s \<Longrightarrow> \<not> isHashed s \<Longrightarrow>
    adj_size g v = int (length (iteration s))"
  by (simp add: adj_size_def hs_size_list)

lemma addEdge_eq:
  "addEdge bld v w g =
     (let g = with_vertex w (with_vertex v g) in
      if v = w then Inr g
      else bind_result (adj_add_elem bld v w g) (\<lambda>g.
           bind_result (adj_add_elem bld w v g) (\<lambda>g.
             let g = g\<lparr>edgeNo := edgeNo g + 2\<rparr>;
                 g = (if adj_size g v > maxdeg g then g\<lparr>maxdeg := adj_size g v\<rparr> else g);
                 g = (if adj_size g w > maxdeg g then g\<lparr>maxdeg := adj_size g w\<rparr> else g)
             in Inr g)))"
  by (simp add: addEdge_def with_vertex_def Let_def)


text \<open>The edge between two vertices is in the sets of both.\<close>

lemma edge_built:
  assumes g: "listed bld es (insert v (insert w (ends_of es))) g" and ne: "v \<noteq> w"
    and s: "getAdjacentNodes g v = Some s" "getAdjacentNodes g w = Some t"
    and s': "hs_inv bld s'" "\<not> isHashed s'" "iteration s' = iteration s @ [w]"
    and t': "hs_inv bld t'" "\<not> isHashed t'" "iteration t' = iteration t @ [v]"
    and g': "getAdjacentNodes g' = (getAdjacentNodes g)(v \<mapsto> s', w \<mapsto> t')" "simple_adj g'" "verts g' = verts g"
    and m: "maxdeg g \<le> maxdeg g'" "int (length (iteration s')) \<le> maxdeg g'" "int (length (iteration t')) \<le> maxdeg g'"
  shows "built bld (es @ [(v, w)]) g'"
proof -
  from g s have st: "contents s = joined es v" "length (iteration s) \<le> length es" "contents t = joined es w" "length (iteration t) \<le> length es"
    by (simp_all add: listed_def)
  have one: "hs_inv bld u \<and> \<not> isHashed u \<and> contents u = joined (es @ [(v, w)]) x \<and>
     length (iteration u) \<le> length (es @ [(v, w)]) \<and> degree_bound g' (length (iteration u))"
    if u: "getAdjacentNodes g' x = Some u" for x u
  proof -
    consider "x = v" "u = s'" | "x = w" "u = t'" | "x \<noteq> v" "x \<noteq> w" "getAdjacentNodes g x = Some u"
      using u ne by (auto simp: g'(1) split: if_splits)
    then show ?thesis
    proof cases
      case 1
      with s' st m ne show ?thesis by (simp add: degree_bound_def joined_simps)
    next
      case 2
      with t' st m ne show ?thesis by (simp add: degree_bound_def joined_simps)
    next
      case 3
      with g m ne show ?thesis by (fastforce simp: listed_def degree_bound_def joined_simps)
    qed
  qed
  moreover have "-1 \<le> maxdeg g'" "verts g = insert v (insert w (ends_of es))" using m g by (simp_all add: listed_def)
  ultimately show ?thesis using g'(2,3) unfolding built_def by simp
qed

lemma addEdge_joins:
  assumes g1: "listed bld es (insert v (insert w (ends_of es))) g1" and ne: "v \<noteq> w" and val: "valid_key v" "valid_key w"
  shows "\<exists>g'. bind_result (adj_add_elem bld v w g1) (\<lambda>g.
      bind_result (adj_add_elem bld w v g) (\<lambda>g.
        let g = g\<lparr>edgeNo := edgeNo g + 2\<rparr>;
            g = (if adj_size g v > maxdeg g then g\<lparr>maxdeg := adj_size g v\<rparr> else g);
            g = (if adj_size g w > maxdeg g then g\<lparr>maxdeg := adj_size g w\<rparr> else g)
        in Inr g)) = Inr g' \<and>
    built bld (es @ [(v, w)]) g' \<and> vertexOrdering g' = vertexOrdering g1 \<and> backwardsMapping g' = backwardsMapping g1"
proof -
  have "verts g1 = insert v (insert w (ends_of es))" using g1 by (simp add: listed_def)
  then obtain s t where s: "getAdjacentNodes g1 v = Some s" and t: "getAdjacentNodes g1 w = Some t"
    by (metis vertsE insertI1 insertI2)
  from g1 s t have st: "hs_inv bld s" "\<not> isHashed s" "hs_inv bld t" "\<not> isHashed t" by (simp_all add: listed_def)
  obtain s' where s': "adj_add_elem bld v w g1 = Inr (g1\<lparr>adjList := AList.update v s' (adjList g1)\<rparr>)"
    "hs_inv bld s'" "\<not> isHashed s'" "iteration s' = iteration s @ [w]" using adj_append [OF s st(1,2) val(2)] by blast
  define g2 where "g2 = g1\<lparr>adjList := AList.update v s' (adjList g1)\<rparr>"
  have get2: "getAdjacentNodes g2 = (getAdjacentNodes g1)(v \<mapsto> s')" by (simp add: g2_def)
  then have "getAdjacentNodes g2 w = Some t" using t ne by simp
  then obtain t' where t': "adj_add_elem bld w v g2 = Inr (g2\<lparr>adjList := AList.update w t' (adjList g2)\<rparr>)"
    "hs_inv bld t'" "\<not> isHashed t'" "iteration t' = iteration t @ [v]" using adj_append [OF _ st(3,4) val(1)] by blast
  define g3 where "g3 = g2\<lparr>adjList := AList.update w t' (adjList g2)\<rparr>"
  have get3: "getAdjacentNodes g3 = (getAdjacentNodes g1)(v \<mapsto> s', w \<mapsto> t')" by (simp add: g3_def get2)
  have "simple_adj g2" "verts g2 = insert v (insert w (ends_of es))" using g1 by (auto simp: g2_def listed_def)
  then have sim3: "simple_adj g3" "verts g3 = verts g1" using g1 by (auto simp: g3_def listed_def)
  define m where "m = max (max (maxdeg g1) (int (length (iteration s')))) (int (length (iteration t')))"
  define g' where "g' = g3\<lparr>edgeNo := edgeNo g3 + 2, maxdeg := m\<rparr>"
  have get': "getAdjacentNodes g' = getAdjacentNodes g3" "maxdeg g' = m" "simple_adj g'" "verts g' = verts g3"
    using sim3 by (simp_all add: g'_def getAdjacentNodes_def fun_eq_iff simple_adj_def verts_def)
  have sz: "adj_size h v = int (length (iteration s'))" "adj_size h w = int (length (iteration t'))"
    if "getAdjacentNodes h = getAdjacentNodes g3" for h
    using that ne get3 s'(2,3) t'(2,3) by (simp_all add: adj_size_def hs_size_list)
  have "built bld (es @ [(v, w)]) g'"
    by (rule edge_built [OF g1 ne s t s'(2-4) t'(2-4)]) (simp_all add: get' get3 sim3 m_def)
  moreover have "vertexOrdering g' = vertexOrdering g1" "backwardsMapping g' = backwardsMapping g1" "maxdeg g3 = maxdeg g1"
    by (simp_all add: g'_def g3_def g2_def)
  ultimately show ?thesis
    unfolding s'(1) bind_result_simps g2_def [symmetric] t'(1) g3_def [symmetric] Let_def
    by (intro exI [of _ g']) (simp add: sz g'_def m_def max_def)
qed

lemma addEdge_built:
  assumes bld: "USE_AVX512 bld \<Longrightarrow> USE_HOPSCOTCH bld" and b: "built bld es g" and val: "valid_key v" "valid_key w"
  shows "\<exists>g'. addEdge bld v w g = Inr g' \<and> built bld (es @ [(v, w)]) g' \<and> vertexOrdering g' = vertexOrdering g \<and>
    backwardsMapping g' = backwardsMapping g"
proof -
  let ?g1 = "with_vertex w (with_vertex v g)"
  from b have "listed bld es (ends_of es) g" by (simp add: built_listed)
  note l0 = listed_vertex [OF bld this order_refl, of v]
  have "ends_of es \<subseteq> insert v (ends_of es)" by auto
  note l1 = listed_vertex [OF bld l0(1) this, of w]
  have g1: "listed bld es (insert v (insert w (ends_of es))) ?g1" "vertexOrdering ?g1 = vertexOrdering g"
    "backwardsMapping ?g1 = backwardsMapping g"
    using l1 l0 by (simp_all add: insert_commute)
  show ?thesis
  proof (cases "v = w")
    case True
    have "listed bld (es @ [(v, w)]) (ends_of (es @ [(v, w)])) ?g1"
      using g1(1) True by (auto simp: listed_def joined_simps le_SucI)
    with True g1 show ?thesis by (auto simp: addEdge_eq built_listed)
  next
    case ne: False
    from addEdge_joins [OF g1(1) ne val] g1(2,3) show ?thesis
      unfolding addEdge_eq Let_def if_not_P [OF ne] by (simp only:)
  qed
qed


section \<open>Reading a document\<close>

definition edge_keys :: "row list \<Rightarrow> (key \<times> key) list" where
  "edge_keys rs = map (\<lambda>(a, b). (of_nat a, of_nat b)) (edges rs)"

lemma small_key_valid: "n < 2 ^ 31 \<Longrightarrow> valid_key (of_nat n)"
proof -
  assume "n < 2 ^ 31"
  then have u: "unat (of_nat n :: key) < 2 ^ 31" by (simp add: unat_of_nat)
  have "unat EMPTY_KEY \<ge> 2 ^ 31" "unat INVAL_KEY \<ge> 2 ^ 31" by (simp_all add: EMPTY_KEY_def INVAL_KEY_def)
  with u show ?thesis unfolding valid_key_def by (metis not_le)
qed

definition reading :: "build \<Rightarrow> (key \<times> key) list \<Rightarrow> graph \<Rightarrow> bool" where
  "reading bld es g \<longleftrightarrow> built bld es g \<and> backwardsMapping g = (\<lambda>_. None)"

lemma reading_nodeNo: "reading bld es g \<Longrightarrow> reading bld es (g\<lparr>nodeNo := n\<rparr>)"
  by (simp add: reading_def built_def verts_def simple_adj_def degree_bound_def)

lemma read_rows:
  assumes bld: "USE_AVX512 bld \<Longrightarrow> USE_HOPSCOTCH bld" and "list_all row_ok rs"
    and "f \<Longrightarrow> header_first rs" and "\<not> f \<Longrightarrow> \<forall>r \<in> set rs. \<forall>a b d. r \<noteq> Header a b d"
    and "reading bld es g"
  shows "\<exists>g' f'. fold_result (read_row bld) (map row_text rs) (g, f) = Inr (g', f') \<and> reading bld (es @ edge_keys rs) g'"
  using assms(2-)
proof (induction rs arbitrary: g f es)
  case Nil
  then show ?case by (simp add: edge_keys_def)
next
  case (Cons r rs)
  show ?case
  proof (cases r)
    case (Comment c s)
    then have "read_row bld (row_text r) (g, f) = Inr (g, f)" using Cons.prems(1) read_comment by simp
    with Comment Cons show ?thesis by (auto simp: edge_keys_def)
  next
    case (Header a b d)
    then have f: "f" using Cons.prems(3) by auto
    have "read_row bld (row_text r) (g, f) = Inr (g\<lparr>nodeNo := int a\<rparr>, False)"
      using Cons.prems(1) read_header Header f by (simp del: row_ok.simps row_text.simps)
    moreover have "\<exists>g' f'. fold_result (read_row bld) (map row_text rs) (g\<lparr>nodeNo := int a\<rparr>, False) = Inr (g', f') \<and>
      reading bld (es @ edge_keys rs) g'"
      using Cons.prems f Header by (intro Cons.IH reading_nodeNo) auto
    ultimately show ?thesis using Header by (auto simp: edge_keys_def)
  next
    case (Edge a b)
    have "reading bld es g" "valid_key (of_nat a)" "valid_key (of_nat b)"
      using Cons.prems Edge small_key_valid by auto
    then obtain g1 where g1: "addEdge bld (of_nat a) (of_nat b) g = Inr g1" "reading bld (es @ [(of_nat a, of_nat b)]) g1"
      using addEdge_built [OF bld, of es g "of_nat a" "of_nat b"] by (auto simp: reading_def)
    have "read_row bld (row_text r) (g, f) = Inr (g1, False)"
      using Cons.prems(1) read_edge g1 Edge by (simp del: row_ok.simps row_text.simps)
    moreover have "\<forall>r \<in> set rs. \<forall>a b d. r \<noteq> Header a b d" using Cons.prems(2,3) Edge by (cases f) auto
    then have "\<exists>g' f'. fold_result (read_row bld) (map row_text rs) (g1, False) = Inr (g', f') \<and>
      reading bld ((es @ [(of_nat a, of_nat b)]) @ edge_keys rs) g'"
      using Cons.prems(1) g1(2) by (intro Cons.IH) auto
    ultimately show ?thesis using Edge by (auto simp: edge_keys_def)
  qed
qed

text \<open>Numbering the vertices.\<close>

lemma mapping_fold:
  assumes "distinct vs" and "n \<le> length vs"
  shows "fold (\<lambda>it m. m(vs ! it := Some it)) [0..<n] (\<lambda>_. None) v =
    (if v \<in> set (take n vs) then Some (first_index v vs) else None)"
  using assms(2)
proof (induction n)
  case (Suc n)
  have n: "n < length vs" using Suc.prems by simp
  have "first_index (vs ! n) vs = n"
    using first_index_nth [of "vs ! n" vs] first_index_less [of "vs ! n" vs] n assms(1) nth_eq_iff_index_eq by fastforce
  then show ?case using Suc n by (auto simp: take_Suc_conv_app_nth)
qed simp

definition placed :: "graph \<Rightarrow> bool" where
  "placed g \<longleftrightarrow> (\<forall>i < length (vertexOrdering g). backwardsMapping g (vertexOrdering g ! i) = Some i)"

lemma placed_positions: "placed g \<Longrightarrow> inj_on (getNodePosition g) (set (vertexOrdering g))"
  by (auto simp: placed_def inj_on_def in_set_conv_nth getNodePosition_def)

lemma numbered_ordered: "numbered g \<Longrightarrow> placed g \<Longrightarrow> ordered c g"
  using placed_positions [of g] by (simp add: numbered_def ordered_def)

lemma number_vertices_correct:
  assumes lib: "library_ok lib" and sim: "simple_adj g" and none: "backwardsMapping g = (\<lambda>_. None)"
  shows "numbered (number_vertices lib g)" and "placed (number_vertices lib g)"
    and "adjList (number_vertices lib g) = adjList g" and "maxdeg (number_vertices lib g) = maxdeg g"
proof -
  let ?g = "number_vertices lib g"
  let ?vs = "map_order lib (map fst (adjList g))"
  have vs: "vertexOrdering ?g = ?vs" "nodeNo ?g = int (length (adjList g))"
    "backwardsMapping ?g = fold (\<lambda>it m. m(?vs ! it := Some it)) [0..<length ?vs] (\<lambda>_. None)"
    by (simp_all add: number_vertices_def Let_def none)
  show adj: "adjList ?g = adjList g" and "maxdeg ?g = maxdeg g" by (simp_all add: number_vertices_def Let_def)
  note m = map_order_verts [OF lib sim]
  show "numbered ?g" using m by (simp add: numbered_def vs verts_def adj)
  have "first_index (?vs ! i) ?vs = i" if "i < length ?vs" for i
    using that first_index_nth [of "?vs ! i" ?vs] first_index_less [of "?vs ! i" ?vs] m(1) nth_eq_iff_index_eq by fastforce
  then show "placed ?g" using m(1) by (simp add: placed_def vs mapping_fold)
qed

text \<open>
  The graph read from a document, whatever follows its last newline: the endpoints of the edges, joined by the edges.
  \<open>maxdeg\<close> bounds the degrees once a vertex has a neighbour.
\<close>

definition graph_of :: "build \<Rightarrow> (key \<times> key) list \<Rightarrow> graph \<Rightarrow> bool" where
  "graph_of bld es g \<longleftrightarrow> graph_ok bld g \<and> numbered g \<and> placed g \<and> verts g = ends_of es \<and> abs_adj g = joined es \<and>
     (\<forall>v \<in> verts g. degree_bound g (card (abs_adj g v)))"

lemma joined_facts: "v \<notin> joined es v" "w \<in> joined es v \<longleftrightarrow> v \<in> joined es w" "joined es v \<subseteq> ends_of es"
  by (force simp: joined_def ends_of_def)+

text \<open>The numbered graph after hashing.\<close>

lemma hashed_graph_of:
  assumes lib: "library_ok lib" and g: "reading bld es g"
    and h: "h = (number_vertices lib g)\<lparr>adjList := A\<rparr>" and keys: "map fst A = map fst (adjList g)"
    and get: "\<And>v s. getAdjacentNodes g v = Some s \<Longrightarrow> \<exists>s'. getAdjacentNodes h v = Some s' \<and>
      hs_inv bld s' \<and> isHashed s' \<and> members s' = contents s"
  shows "graph_of bld es h"
proof -
  have sim: "simple_adj g" and verts: "verts g = ends_of es" and none: "backwardsMapping g = (\<lambda>_. None)"
    using g by (simp_all add: reading_def built_def)
  note num = number_vertices_correct [OF lib sim none]
  have lists: "contents s = joined es v" "degree_bound g (length (iteration s))" if "getAdjacentNodes g v = Some s" for v s
    using g that by (auto simp: reading_def built_def)
  have f: "vertexOrdering h = vertexOrdering (number_vertices lib g)" "nodeNo h = nodeNo (number_vertices lib g)"
    "backwardsMapping h = backwardsMapping (number_vertices lib g)" "maxdeg h = maxdeg g" "adjList h = A" using num(4) by (simp_all add: h)
  have vh: "verts h = ends_of es" "simple_adj h" using keys sim verts by (simp_all add: verts_def simple_adj_def f)
  have vn: "verts (number_vertices lib g) = verts g" using num(3) by (simp add: verts_def)
  have set: "hs_inv bld s' \<and> isHashed s' \<and> members s' = joined es v \<and> degree_bound h (card (joined es v))"
    if s': "getAdjacentNodes h v = Some s'" for v s'
  proof -
    have "v \<in> verts g" using get_Some_verts [OF s'] vh verts by simp
    then obtain s where s: "getAdjacentNodes g v = Some s" by (rule vertsE)
    have "card (joined es v) \<le> length (iteration s)" using card_length [of "iteration s"] lists(1) [OF s] by simp
    moreover have "card (joined es v) = 0 \<longleftrightarrow> length (iteration s) = 0"
      unfolding lists(1) [OF s, symmetric] by simp
    ultimately have "degree_bound h (card (joined es v))" using lists(2) [OF s] by (auto simp: degree_bound_def f)
    with get [OF s] s' lists(1) [OF s] show ?thesis by simp
  qed
  have nb: "neighbours h v = joined es v" for v
  proof (cases "getAdjacentNodes h v")
    case None
    then have "v \<notin> ends_of es" using get_None_iff vh by auto
    with None show ?thesis by (simp add: neighbours_def joined_outside)
  qed (use set in \<open>simp add: neighbours_def\<close>)
  have ok: "graph_ok bld h" using vh set joined_facts [where es = es] by (auto simp: graph_ok_def nb)
  have "abs_adj h = joined es" using nb by (simp add: abs_adj_neighbours [OF ok] fun_eq_iff)
  moreover have "degree_bound h (card (joined es v))" if "v \<in> verts h" for v using that set by (auto elim: vertsE)
  ultimately show ?thesis
    using ok vh num(1,2) vn verts by (simp add: graph_of_def numbered_def placed_def f)
qed

lemma initFromFile_ends:
  assumes lib: "library_ok lib" and bld: "USE_AVX512 bld \<Longrightarrow> USE_HOPSCOTCH bld" and doc: "document_ok rs"
    and tail: "CHR 0x0A \<notin> set tail" and small: "length (edges rs) \<le> 2 ^ 28"
  shows "ends bld e (initFromFile lib bld e (render rs @ tail) (Graph 0)) (graph_of bld (edge_keys rs))"
proof -
  let ?es = "edge_keys rs"
  have rows: "list_all row_ok rs" "header_first rs" using doc by (simp_all add: document_ok_def)
  have "reading bld [] ((Graph 0)\<lparr>nodeNo := -1\<rparr>)"
    using built_new by (intro reading_nodeNo) (simp add: reading_def Graph_def)
  from read_rows [OF bld rows(1) _ _ this, of True] rows(2) obtain g f where
    run: "fold_result (read_row bld) (map row_text rs) ((Graph 0)\<lparr>nodeNo := -1\<rparr>, True) = Inr (g, f)" and g: "reading bld ?es g"
    by auto
  have num: "adjList (number_vertices lib g) = adjList g"
    using g by (intro number_vertices_correct(3) [OF lib]) (simp_all add: reading_def built_def)
  have getn: "getAdjacentNodes (number_vertices lib g) = getAdjacentNodes g" by (rule get_cong) (rule num)
  have simn: "simple_adj (number_vertices lib g)" using g num by (simp add: reading_def built_def simple_adj_def)
  have "length ?es \<le> 2 ^ 28" using small by (simp add: edge_keys_def)
  then have lists: "hs_inv bld s \<and> \<not> isHashed s \<and> length (iteration s) \<le> 2 ^ 28" if "getAdjacentNodes g v = Some s" for v s
    using g that by (auto simp: reading_def built_def intro: order_trans)
  have "ends bld e (hash_lists lib bld e (number_vertices lib g)) (graph_of bld ?es)"
  proof (rule ends_mono [OF hash_lists_ends [OF lib simn]], unfold getn)
    show "hs_inv bld s \<and> \<not> isHashed s \<and> length (iteration s) \<le> 2 ^ 28" if "getAdjacentNodes g v = Some s" for v s
      using that by (rule lists)
    fix h assume h: "h = (number_vertices lib g)\<lparr>adjList := adjList h\<rparr> \<and> map fst (adjList h) = map fst (adjList (number_vertices lib g)) \<and>
      (\<forall>v s. getAdjacentNodes g v = Some s \<longrightarrow> (\<exists>s'. getAdjacentNodes h v = Some s' \<and>
        hs_inv bld s' \<and> isHashed s' \<and> members s' = set (iteration s)))"
    show "graph_of bld ?es h"
      by (rule hashed_graph_of [OF lib g, where A = "adjList h"]) (use h num in auto)
  qed
  then show ?thesis
    unfolding initFromFile_def getlines_render [OF rows(1) tail] run bind_result_simps by simp
qed

end
