(* ===== verification/Degeneracy.thy ===== *)
theory Degeneracy
  imports GraphReader
begin

text \<open>
  The degeneracy ordering of \<^verbatim>\<open>src/Graph.cpp\<close>: it numbers every vertex once, no vertex
  has more later neighbours than the number it answers, and no smaller number would do.
\<close>

section \<open>Degeneracy\<close>

definition is_degeneracy :: "('v \<Rightarrow> 'v set) \<Rightarrow> 'v set \<Rightarrow> nat \<Rightarrow> bool" where
  "is_degeneracy N V d \<longleftrightarrow>
     (\<forall>S \<subseteq> V. S \<noteq> {} \<longrightarrow> (\<exists>v \<in> S. card (N v \<inter> S) \<le> d)) \<and>
     (\<exists>S \<subseteq> V. S \<noteq> {} \<and> (\<forall>v \<in> S. d \<le> card (N v \<inter> S)))"

lemma is_degeneracy_unique:
  assumes "is_degeneracy N V d" and "is_degeneracy N V d'"
  shows "d = d'"
proof -
  have "d' \<le> d" if "is_degeneracy N V d" "is_degeneracy N V d'" for d d'
    using that unfolding is_degeneracy_def by (meson order_trans)
  with assms show ?thesis by (simp add: order_antisym)
qed

text \<open>An ordering with few later neighbours bounds the degeneracy.\<close>

lemma ordering_bounds:
  assumes "distinct vs" and "S \<subseteq> set vs" "S \<noteq> {}" and "finite (set vs)"
    and few: "\<And>j. j < length vs \<Longrightarrow> card (N (vs ! j) \<inter> set (drop (Suc j) vs)) \<le> d"
    and irr: "\<And>v. v \<notin> N v"
  shows "\<exists>v \<in> S. card (N v \<inter> S) \<le> d"
proof -
  let ?j = "LEAST j. j < length vs \<and> vs ! j \<in> S"
  have "\<exists>j. j < length vs \<and> vs ! j \<in> S" using assms(2,3) by (metis all_not_in_conv in_set_conv_nth subsetD)
  then have j: "?j < length vs" "vs ! ?j \<in> S" using LeastI_ex [of "\<lambda>j. j < length vs \<and> vs ! j \<in> S"] by blast+
  have "N (vs ! ?j) \<inter> S \<subseteq> N (vs ! ?j) \<inter> set (drop (Suc ?j) vs)"
  proof
    fix w assume w: "w \<in> N (vs ! ?j) \<inter> S"
    then obtain i where i: "i < length vs" "vs ! i = w" using assms(2) by (metis IntE in_set_conv_nth subsetD)
    have "?j \<le> i" using w i by (intro Least_le) simp
    moreover have "i \<noteq> ?j" using w i irr by auto
    ultimately have "w \<in> set (drop (Suc ?j) vs)" using i by (auto simp: in_set_conv_nth intro!: exI [of _ "i - Suc ?j"])
    with w show "w \<in> N (vs ! ?j) \<inter> set (drop (Suc ?j) vs)" by simp
  qed
  then have "card (N (vs ! ?j) \<inter> S) \<le> d" using few [OF j(1)] card_mono by (meson finite_Int List.finite_set order_trans)
  with j(2) show ?thesis by blast
qed

section \<open>Buckets\<close>

text \<open>
  The vertices of \<open>R\<close> are filed in the bucket of their number; the numbers of all vertices are
  positions of buckets.
\<close>

definition filed :: "nat \<Rightarrow> key set \<Rightarrow> key set \<Rightarrow> (key \<Rightarrow> int) \<Rightarrow> key list list \<Rightarrow> bool" where
  "filed L V R d arr \<longleftrightarrow> length arr = L \<and> (\<forall>v \<in> V. 0 \<le> d v \<and> d v < int L) \<and>
     (\<forall>i < L. set (arr ! i) = {v \<in> R. d v = int i})"

lemma filed_member:
  assumes "filed L V R d arr" and "u \<in> R" and "R \<subseteq> V"
  shows "nat (d u) < L \<and> u \<in> set (arr ! nat (d u))"
proof -
  have "0 \<le> d u" "d u < int L" using assms by (auto simp: filed_def)
  then have "d u = int (nat (d u))" "nat (d u) < L" by simp_all
  with assms show ?thesis by (simp add: filed_def)
qed

lemma lower_filed:
  assumes f: "filed L V R (nodeDegrees st) (degArray st)" and n: "n \<in> V" and pos: "n \<in> R \<Longrightarrow> 1 \<le> nodeDegrees st n"
  shows "\<exists>arr. lower_neighbour n st = Inr (st\<lparr>degArray := arr,
      nodeDegrees := (nodeDegrees st)(n := nodeDegrees st n - (if n \<in> R then 1 else 0))\<rparr>) \<and>
    filed L V R ((nodeDegrees st)(n := nodeDegrees st n - (if n \<in> R then 1 else 0))) arr"
proof -
  let ?d = "nodeDegrees st" and ?arr = "degArray st"
  define i where "i = nat (?d n)"
  have i: "?d n = int i" "i < L" and len: "length ?arr = L" using f n by (auto simp: filed_def i_def)
  have mem: "n \<in> set (?arr ! i) \<longleftrightarrow> n \<in> R" using f i by (auto simp: filed_def)
  show ?thesis
  proof (cases "n \<in> R")
    case False
    have "lower_neighbour n st = Inr st" using False mem i len by (simp add: lower_neighbour_def)
    then have "lower_neighbour n st = Inr (st\<lparr>degArray := ?arr, nodeDegrees := ?d(n := ?d n - (if n \<in> R then 1 else 0))\<rparr>)"
      using False by simp
    moreover have "filed L V R (?d(n := ?d n - (if n \<in> R then 1 else 0))) ?arr" using f False by simp
    ultimately show ?thesis by blast
  next
    case True
    with pos i have i1: "1 \<le> i" by simp
    let ?arr' = "bucket_insert (i - 1) n (bucket_erase i n ?arr)"
    have "lower_neighbour n st = Inr (st\<lparr>degArray := ?arr', nodeDegrees := ?d(n := ?d n - 1)\<rparr>)"
      using True mem i i1 len by (simp add: lower_neighbour_def nat_diff_distrib)
    moreover have "filed L V R (?d(n := ?d n - 1)) ?arr'"
      using f i i1 True len n by (auto simp: filed_def bucket_insert_def bucket_erase_def nth_list_update)
    ultimately show ?thesis using True by auto
  qed
qed

lemma lower_all:
  assumes "filed L V R (nodeDegrees st) (degArray st)" and "distinct xs" and "set xs \<subseteq> V"
    and "\<And>n. n \<in> set xs \<Longrightarrow> n \<in> R \<Longrightarrow> 1 \<le> nodeDegrees st n"
  shows "\<exists>arr. fold_result lower_neighbour xs st = Inr (st\<lparr>degArray := arr,
      nodeDegrees := (\<lambda>n. nodeDegrees st n - (if n \<in> R \<inter> set xs then 1 else 0))\<rparr>) \<and>
    filed L V R (\<lambda>n. nodeDegrees st n - (if n \<in> R \<inter> set xs then 1 else 0)) arr"
  using assms
proof (induction xs arbitrary: st)
  case Nil
  then show ?case by (auto intro!: exI [of _ "degArray st"])
next
  case (Cons x xs)
  from Cons.prems have x: "x \<in> V" "x \<in> R \<Longrightarrow> 1 \<le> nodeDegrees st x" "x \<notin> set xs" by auto
  let ?d = "(nodeDegrees st)(x := nodeDegrees st x - (if x \<in> R then 1 else 0))"
  obtain arr where arr: "lower_neighbour x st = Inr (st\<lparr>degArray := arr, nodeDegrees := ?d\<rparr>)" "filed L V R ?d arr"
    using lower_filed [OF Cons.prems(1) x(1,2)] by blast
  let ?st = "st\<lparr>degArray := arr, nodeDegrees := ?d\<rparr>"
  have "\<exists>arr. fold_result lower_neighbour xs ?st = Inr (?st\<lparr>degArray := arr,
      nodeDegrees := (\<lambda>n. nodeDegrees ?st n - (if n \<in> R \<inter> set xs then 1 else 0))\<rparr>) \<and>
    filed L V R (\<lambda>n. nodeDegrees ?st n - (if n \<in> R \<inter> set xs then 1 else 0)) arr"
  proof (rule Cons.IH)
    show "filed L V R (nodeDegrees ?st) (degArray ?st)" using arr(2) by simp
  qed (use Cons.prems x(3) in auto)
  moreover have "(\<lambda>n. nodeDegrees ?st n - (if n \<in> R \<inter> set xs then 1 else 0)) =
    (\<lambda>n. nodeDegrees st n - (if n \<in> R \<inter> set (x # xs) then 1 else 0))"
    using x(3) by (auto simp: fun_eq_iff)
  ultimately show ?case by (auto simp: arr(1))
qed

lemma first_bucket_Some:
  assumes "i < length arr" and "arr ! i \<noteq> []"
  shows "\<exists>j. first_bucket arr = Some j \<and> j < length arr \<and> arr ! j \<noteq> [] \<and> (\<forall>k < j. arr ! k = [])"
proof -
  have "first_bucket arr \<noteq> None" using assms by (auto simp: first_bucket_def find_None_iff)
  then show ?thesis by (auto simp: first_bucket_def find_Some_iff)
qed


section \<open>Filing the vertices\<close>

lemma file_all:
  assumes ok: "graph_ok bld g" and bound: "\<And>v. v \<in> verts g \<Longrightarrow> int (card (abs_adj g v)) \<le> maxdeg g"
    and "filed (nat (maxdeg g + 1)) (verts g) U (nodeDegrees st) (degArray st)"
    and "\<And>v. v \<in> U \<Longrightarrow> nodeDegrees st v = int (card (abs_adj g v))"
    and "distinct vs" "set vs \<subseteq> verts g" "set vs \<inter> U = {}"
  shows "\<exists>arr d. fold_result (file_vertex g) vs st = Inr (st\<lparr>degArray := arr, nodeDegrees := d\<rparr>) \<and>
    filed (nat (maxdeg g + 1)) (verts g) (U \<union> set vs) d arr \<and> (\<forall>v \<in> U \<union> set vs. d v = int (card (abs_adj g v)))"
  using assms(3-)
proof (induction vs arbitrary: st U)
  case Nil
  then show ?case by (intro exI [of _ "degArray st"] exI [of _ "nodeDegrees st"]) simp
next
  case (Cons x xs)
  then have x: "x \<in> verts g" "x \<notin> U" "x \<notin> set xs" by auto
  then obtain Q where Q: "getAdjacentNodes g x = Some Q" by (elim vertsE)
  let ?n = "card (abs_adj g x)" and ?L = "nat (maxdeg g + 1)"
  have sz: "hs_size Q = ?n" using adjacency_set(4) [OF ok Q] .
  have b: "int ?n < maxdeg g + 1" using bound [OF x(1)] by simp
  then have nL: "?n < ?L" by linarith
  let ?d = "(nodeDegrees st)(x := int ?n)" and ?arr = "bucket_insert ?n x (degArray st)"
  let ?st = "st\<lparr>degArray := ?arr, nodeDegrees := ?d\<rparr>"
  have run: "file_vertex g x st = Inr ?st" using b by (simp add: file_vertex_def Q sz)
  have f: "filed ?L (verts g) (insert x U) ?d ?arr"
    using Cons.prems(1) x nL by (auto simp: filed_def bucket_insert_def nth_list_update)
  have "\<exists>arr d. fold_result (file_vertex g) xs ?st = Inr (?st\<lparr>degArray := arr, nodeDegrees := d\<rparr>) \<and>
    filed ?L (verts g) (insert x U \<union> set xs) d arr \<and> (\<forall>v \<in> insert x U \<union> set xs. d v = int (card (abs_adj g v)))"
  proof (rule Cons.IH)
    show "filed ?L (verts g) (insert x U) (nodeDegrees ?st) (degArray ?st)"
      using f by simp
  qed (use Cons.prems x in auto)
  then show ?case by (simp add: run)
qed

section \<open>Taking the vertices in order\<close>

definition attained :: "('v \<Rightarrow> 'v set) \<Rightarrow> 'v set \<Rightarrow> nat \<Rightarrow> bool" where
  "attained N V d \<longleftrightarrow> (\<exists>S \<subseteq> V. S \<noteq> {} \<and> (\<forall>v \<in> S. d \<le> card (N v \<inter> S)))"

definition ordering_inv :: "graph \<Rightarrow> nat \<Rightarrow> degeneracy_state \<Rightarrow> nat \<Rightarrow> bool" where
  "ordering_inv g L st k \<longleftrightarrow>
     (let os = take k (ordering st); R = verts g - set os in
      length (ordering st) = card (verts g) \<and> distinct os \<and> set os \<subseteq> verts g \<and>
      filed L (verts g) R (nodeDegrees st) (degArray st) \<and>
      (\<forall>v \<in> R. nodeDegrees st v = int (card (abs_adj g v \<inter> R))) \<and>
      (\<forall>j < k. mapping st (os ! j) = Some j \<and> card (abs_adj g (os ! j) \<inter> (verts g - set (take (Suc j) os))) \<le> degen st) \<and>
      attained (abs_adj g) (verts g) (degen st))"

text \<open>The vertex that is taken has the least number of its bucket.\<close>

lemma next_vertex:
  assumes lib: "library_ok lib" and f: "filed L V R d arr" and R: "R \<subseteq> V" "R \<noteq> {}"
  obtains i v where "first_bucket arr = Some i" "i < L" "v = set_begin lib (arr ! i)" "v \<in> R" "d v = int i"
    "\<And>w. w \<in> R \<Longrightarrow> int i \<le> d w"
proof -
  obtain u where u: "u \<in> R" using R(2) by blast
  have "length arr = L" using f by (simp add: filed_def)
  moreover have "nat (d u) < L" "arr ! nat (d u) \<noteq> []" using filed_member [OF f u R(1)] by auto
  ultimately obtain i where i: "first_bucket arr = Some i" "i < L" "arr ! i \<noteq> []" "\<And>k. k < i \<Longrightarrow> arr ! k = []"
    using first_bucket_Some [of "nat (d u)" arr] by auto
  have "set_begin lib (arr ! i) \<in> set (arr ! i)" using lib i(3) by (simp add: library_ok_def)
  then have v: "set_begin lib (arr ! i) \<in> R" "d (set_begin lib (arr ! i)) = int i" using f i(2) by (auto simp: filed_def)
  have "int i \<le> d w" if w: "w \<in> R" for w
  proof (rule ccontr)
    assume "\<not> int i \<le> d w"
    moreover have "0 \<le> d w" using f w R(1) by (auto simp: filed_def)
    ultimately have "nat (d w) < i" by linarith
    with i(4) filed_member [OF f w R(1)] show False by fastforce
  qed
  with that [OF i(1,2) refl v] show thesis .
qed

text \<open>Without a vertex the degrees of its neighbours are one less.\<close>

lemma neighbour_positive:
  assumes "v \<in> R" and "finite R" and "n \<in> abs_adj g v"
  shows "1 \<le> card (abs_adj g n \<inter> R)"
proof -
  have "v \<in> abs_adj g n \<inter> R" using assms(1,3) G.adj_sym [of n g v] by auto
  with assms(2) have "0 < card (abs_adj g n \<inter> R)" by (auto simp: card_gt_0_iff)
  then show ?thesis by simp
qed

lemma degree_without:
  assumes "v \<in> R" and "finite R"
  shows "int (card (abs_adj g w \<inter> (R - {v}))) = int (card (abs_adj g w \<inter> R)) - (if w \<in> abs_adj g v then 1 else 0)"
proof -
  have eq: "abs_adj g w \<inter> (R - {v}) = (abs_adj g w \<inter> R) - {v}" by auto
  show ?thesis
  proof (cases "w \<in> abs_adj g v")
    case True
    then have "v \<in> abs_adj g w \<inter> R" using assms(1) G.adj_sym [of w g v] by auto
    moreover have "finite (abs_adj g w \<inter> R)" using assms(2) by simp
    ultimately show ?thesis using card_Suc_Diff1 [of "abs_adj g w \<inter> R" v] True by (simp add: eq)
  next
    case False
    then have "v \<notin> abs_adj g w" using G.adj_sym [of v g w] by auto
    with False show ?thesis by (simp add: eq)
  qed
qed

text \<open>One more vertex with at most \<open>d\<close> later neighbours.\<close>

lemma few_snoc:
  assumes "length os = k" and "v \<notin> set os"
    and old: "\<forall>j < k. m (os ! j) = Some j \<and> card (N (os ! j) \<inter> (V - set (take (Suc j) os))) \<le> d"
    and last: "card (N v \<inter> (V - set (os @ [v]))) \<le> i"
  shows "\<forall>j < Suc k. (m(v \<mapsto> k)) ((os @ [v]) ! j) = Some j \<and>
    card (N ((os @ [v]) ! j) \<inter> (V - set (take (Suc j) (os @ [v])))) \<le> max d i"
proof (intro allI impI)
  fix j assume j: "j < Suc k"
  show "(m(v \<mapsto> k)) ((os @ [v]) ! j) = Some j \<and>
    card (N ((os @ [v]) ! j) \<inter> (V - set (take (Suc j) (os @ [v])))) \<le> max d i"
  proof (cases "j = k")
    case True
    with last assms(1) show ?thesis by (simp add: nth_append)
  next
    case False
    with j have j': "j < k" by simp
    then have "os ! j \<noteq> v" using assms(1,2) by (metis nth_mem)
    with old j' assms(1) show ?thesis by (simp add: nth_append le_max_iff_disj)
  qed
qed

lemma attained_max:
  assumes "attained N V d" and "R \<subseteq> V" "R \<noteq> {}" and "\<And>w. w \<in> R \<Longrightarrow> i \<le> card (N w \<inter> R)"
  shows "attained N V (max d i)"
proof (cases "i \<le> d")
  case False
  with assms(2-4) show ?thesis unfolding attained_def by (intro exI [of _ R]) simp
qed (use assms(1) in simp)

text \<open>The step, for the vertex that is taken.\<close>

definition taken :: "nat \<Rightarrow> nat \<Rightarrow> key \<Rightarrow> degeneracy_state \<Rightarrow> degeneracy_state" where
  "taken k i v st = st\<lparr>degArray := bucket_erase i v (degArray st), ordering := (ordering st)[k := v],
     mapping := (mapping st)(v := Some k), degen := max (degen st) i\<rparr>"

lemma order_next_run:
  assumes ok: "graph_ok bld g" and f: "filed L (verts g) R (nodeDegrees st) (degArray st)"
    and deg: "\<And>w. w \<in> R \<Longrightarrow> nodeDegrees st w = int (card (abs_adj g w \<inter> R))" and R: "R \<subseteq> verts g"
    and i: "first_bucket (degArray st) = Some i" "i < L" "v = set_begin lib (degArray st ! i)"
    and v: "v \<in> R" "nodeDegrees st v = int i" and k: "k < length (ordering st)"
  obtains arr where
    "order_next lib g k st = Inr ((taken k i v st)\<lparr>degArray := arr, nodeDegrees := \<lambda>w. nodeDegrees st w - (if w \<in> (R - {v}) \<inter> abs_adj g v then 1 else 0)\<rparr>)"
    "filed L (verts g) (R - {v}) (\<lambda>w. nodeDegrees st w - (if w \<in> (R - {v}) \<inter> abs_adj g v then 1 else 0)) arr"
proof -
  let ?st = "taken k i v st"
  have "length (degArray st) = L" using f by (simp add: filed_def)
  then have f1: "filed L (verts g) (R - {v}) (nodeDegrees ?st) (degArray ?st)"
    using f v i(2) by (auto simp: filed_def taken_def bucket_erase_def nth_list_update)
  have finR: "finite R" using finite_subset [OF R finite_verts] .
  have "v \<in> verts g" using v(1) R by auto
  then obtain Q where Q: "getAdjacentNodes g v = Some Q" by (elim vertsE)
  note adj = adjacency_set [OF ok Q]
  have pos: "1 \<le> nodeDegrees ?st n" if "n \<in> set (iteration Q)" "n \<in> R - {v}" for n
    using that adj(2) deg [of n] neighbour_positive [OF v(1) finR, of n g] by (simp add: taken_def)
  have sub: "set (iteration Q) \<subseteq> verts g" using adj(2) G.adj_V by simp
  have d: "nodeDegrees ?st = nodeDegrees st" by (simp add: taken_def)
  from lower_all [OF f1 adj(3) sub pos, unfolded d adj(2)] obtain arr where
    low: "fold_result lower_neighbour (iteration Q) ?st = Inr (?st\<lparr>degArray := arr,
      nodeDegrees := \<lambda>w. nodeDegrees st w - (if w \<in> (R - {v}) \<inter> abs_adj g v then 1 else 0)\<rparr>) \<and>
    filed L (verts g) (R - {v}) (\<lambda>w. nodeDegrees st w - (if w \<in> (R - {v}) \<inter> abs_adj g v then 1 else 0)) arr" ..
  from low have "order_next lib g k st = Inr (?st\<lparr>degArray := arr,
      nodeDegrees := \<lambda>w. nodeDegrees st w - (if w \<in> (R - {v}) \<inter> abs_adj g v then 1 else 0)\<rparr>)"
    using i(1) k Q by (simp add: order_next_def i(3) [symmetric] Let_def hs_for_each_result_fold [OF adj(1)] taken_def)
  with low show thesis by (intro that [of arr]) simp_all
qed

lemma order_next_inv:
  assumes lib: "library_ok lib" and ok: "graph_ok bld g" and inv: "ordering_inv g L st k" and k: "k < card (verts g)"
  shows "\<exists>st'. order_next lib g k st = Inr st' \<and> ordering_inv g L st' (Suc k)"
proof -
  define os where "os = take k (ordering st)"
  define R where "R = verts g - set os"
  let ?N = "abs_adj g" and ?d = "nodeDegrees st"
  from inv have len: "length (ordering st) = card (verts g)" and os: "distinct os" "set os \<subseteq> verts g"
    and f: "filed L (verts g) R ?d (degArray st)" and deg: "\<And>v. v \<in> R \<Longrightarrow> ?d v = int (card (?N v \<inter> R))"
    and few: "\<forall>j < k. mapping st (os ! j) = Some j \<and> card (?N (os ! j) \<inter> (verts g - set (take (Suc j) os))) \<le> degen st"
    and att: "attained ?N (verts g) (degen st)"
    by (simp_all add: ordering_inv_def Let_def os_def R_def)
  have los: "length os = k" using len k by (simp add: os_def)
  have R: "R \<subseteq> verts g" "finite R" by (auto simp: R_def)
  have "card R = card (verts g) - k" using os los by (simp add: R_def card_Diff_subset distinct_card)
  then have ne: "R \<noteq> {}" using k by auto
  obtain i v where i: "first_bucket (degArray st) = Some i" "i < L" "v = set_begin lib (degArray st ! i)"
    and v: "v \<in> R" "?d v = int i" and least: "\<And>w. w \<in> R \<Longrightarrow> int i \<le> ?d w"
    by (rule next_vertex [OF lib f R(1) ne]) blast
  have k': "k < length (ordering st)" using k len by simp
  let ?d' = "\<lambda>w. ?d w - (if w \<in> (R - {v}) \<inter> ?N v then 1 else 0)"
  obtain arr where run: "order_next lib g k st = Inr ((taken k i v st)\<lparr>degArray := arr, nodeDegrees := ?d'\<rparr>)"
    and f2: "filed L (verts g) (R - {v}) ?d' arr"
    by (rule order_next_run [OF ok f deg R(1) i v k']) blast
  have os': "take (Suc k) (ordering (taken k i v st)) = os @ [v]" using k len by (simp add: taken_def os_def take_update_last)
  have R': "verts g - set (os @ [v]) = R - {v}" by (auto simp: R_def)
  have new: "v \<notin> set os" using v(1) by (simp add: R_def)
  have deg': "?d' w = int (card (?N w \<inter> (R - {v})))" if "w \<in> R - {v}" for w
    using that deg [of w] degree_without [OF v(1) R(2), of g w] by simp
  have att': "attained ?N (verts g) (max (degen st) i)"
    by (rule attained_max [OF att R(1) ne]) (use least deg in force)
  have "card (?N v \<inter> (verts g - set (os @ [v]))) \<le> i"
    using degree_without [OF v(1) R(2), of g v] deg [OF v(1)] v(2) G.adj_irrefl [of v g] by (simp only: R') simp
  note nth = few_snoc [OF los new few this]
  have "ordering_inv g L ((taken k i v st)\<lparr>degArray := arr, nodeDegrees := ?d'\<rparr>) (Suc k)"
    unfolding ordering_inv_def Let_def
    using len os os' R' new v(1) R(1) f2 deg' nth att' by (auto simp: taken_def simp del: nth_append take_append)
  with run show ?thesis by blast
qed

lemma order_all_inv:
  assumes lib: "library_ok lib" and ok: "graph_ok bld g" and inv: "ordering_inv g L st 0" and n: "n \<le> card (verts g)"
  shows "\<exists>st'. fold_result (order_next lib g) [0..<n] st = Inr st' \<and> ordering_inv g L st' n"
  using n
proof (induction n)
  case 0
  then show ?case using inv by simp
next
  case (Suc n)
  then obtain st' where "fold_result (order_next lib g) [0..<n] st = Inr st'" "ordering_inv g L st' n" by auto
  with order_next_inv [OF lib ok this(2)] Suc.prems show ?case by (auto simp: fold_result_snoc)
qed

section \<open>The ordering\<close>

lemma degeneracyOrdering_correct:
  assumes lib: "library_ok lib" and ok: "graph_ok bld g" and num: "numbered g"
    and bound: "\<And>v. v \<in> verts g \<Longrightarrow> degree_bound g (card (abs_adj g v))"
    and edge: "abs_adj g x \<noteq> {}"
  shows "\<exists>d vs m. degeneracyOrdering lib g = Inr (d, g\<lparr>vertexOrdering := vs, backwardsMapping := m, degeneracy := int d\<rparr>) \<and>
    distinct vs \<and> set vs = verts g \<and> length vs = length (vertexOrdering g) \<and> (\<forall>j < length vs. m (vs ! j) = Some j) \<and>
    is_degeneracy (abs_adj g) (verts g) d \<and>
    (\<forall>j < length vs. card (abs_adj g (vs ! j) \<inter> set (drop (Suc j) vs)) \<le> d)"
proof -
  let ?L = "nat (maxdeg g + 1)" and ?n = "card (verts g)"
  let ?st = "\<lparr>degArray = replicate ?L [], nodeDegrees = (\<lambda>_. 0), ordering = vertexOrdering g,
    mapping = backwardsMapping g, degen = 0\<rparr>"
  have fin: "finite (abs_adj g v)" for v using finite_subset [OF G.adj_V finite_verts] .
  have x: "x \<in> verts g" using edge G.adj_sym G.adj_V by blast
  then have "0 < card (abs_adj g x)" using edge fin by (simp add: card_gt_0_iff)
  then have m0: "0 < maxdeg g" using bound [OF x] by (simp add: degree_bound_def)
  have b: "int (card (abs_adj g v)) \<le> maxdeg g" if "v \<in> verts g" for v
    using bound [OF that] m0 by (cases "card (abs_adj g v)") (simp_all add: degree_bound_def)
  have sim: "simple_adj g" using ok by (simp add: graph_ok_def)
  note vs = map_order_verts [OF lib sim]
  have "filed ?L (verts g) {} (nodeDegrees ?st) (degArray ?st)" using m0 by (simp add: filed_def)
  from file_all [OF ok b this _ vs(1)] vs(2) obtain arr d where
    files: "fold_result (file_vertex g) (map_order lib (map fst (adjList g))) ?st = Inr (?st\<lparr>degArray := arr, nodeDegrees := d\<rparr>)"
    and f: "filed ?L (verts g) (verts g) d arr" "\<And>v. v \<in> verts g \<Longrightarrow> d v = int (card (abs_adj g v))" by auto
  let ?st1 = "?st\<lparr>degArray := arr, nodeDegrees := d\<rparr>"
  have nn: "length (vertexOrdering g) = ?n" "nat (nodeNo g) = ?n"
    using num distinct_card [of "vertexOrdering g"] by (simp_all add: numbered_def)
  have "abs_adj g v \<inter> verts g = abs_adj g v" for v using G.adj_V by auto
  moreover have "attained (abs_adj g) (verts g) 0" unfolding attained_def using x by auto
  ultimately have "ordering_inv g ?L ?st1 0" using nn f by (simp add: ordering_inv_def)
  from order_all_inv [OF lib ok this order_refl] obtain st' where
    run: "fold_result (order_next lib g) [0..<?n] ?st1 = Inr st'" and inv: "ordering_inv g ?L st' ?n" by blast
  define os where "os = ordering st'"
  from inv have len: "length os = ?n" by (simp add: ordering_inv_def Let_def os_def)
  then have "take ?n (ordering st') = os" by (simp add: os_def)
  with inv have os: "distinct os" "set os \<subseteq> verts g"
    and map: "\<And>j. j < ?n \<Longrightarrow> mapping st' (os ! j) = Some j"
    and few: "\<And>j. j < ?n \<Longrightarrow> card (abs_adj g (os ! j) \<inter> (verts g - set (take (Suc j) os))) \<le> degen st'"
    and att: "attained (abs_adj g) (verts g) (degen st')"
    by (simp_all add: ordering_inv_def Let_def)
  have all: "set os = verts g" using os len distinct_card [OF os(1)] card_subset_eq [OF finite_verts os(2)] by simp
  have "set (drop (Suc j) os) = verts g - set (take (Suc j) os)" for j
    using os(1) all by (metis append_take_drop_id distinct_append Diff_cancel Diff_triv Int_commute Un_Diff set_append sup_bot.left_neutral)
  with few len have few': "\<And>j. j < length os \<Longrightarrow> card (abs_adj g (os ! j) \<inter> set (drop (Suc j) os)) \<le> degen st'" by simp
  have "is_degeneracy (abs_adj g) (verts g) (degen st')"
    using att ordering_bounds [OF os(1) _ _ _ few'] G.adj_irrefl by (auto simp: is_degeneracy_def attained_def all)
  moreover have "degeneracyOrdering lib g = Inr (degen st', g\<lparr>vertexOrdering := os, backwardsMapping := mapping st', degeneracy := int (degen st')\<rparr>)"
    unfolding degeneracyOrdering_def nn files bind_result_simps run by (simp add: os_def)
  ultimately show ?thesis
    using os(1) all len nn map few' by (intro exI [of _ "degen st'"] exI [of _ os] exI [of _ "mapping st'"]) simp
qed

text \<open>A graph without any edge has no bucket to file its vertices in.\<close>

lemma degeneracyOrdering_no_edge:
  assumes lib: "library_ok lib" and sim: "simple_adj g" and "verts g \<noteq> {}" and "maxdeg g = -1"
  shows "degeneracyOrdering lib g = Inl AssertionFailed"
proof -
  obtain v vs where vs: "map_order lib (map fst (adjList g)) = v # vs"
    using map_order_verts [OF lib sim] assms(3) by (cases "map_order lib (map fst (adjList g))") auto
  then have "v \<in> verts g" using map_order_verts(2) [OF lib sim] by auto
  then obtain Q where "getAdjacentNodes g v = Some Q" by (elim vertsE)
  then show ?thesis by (simp add: degeneracyOrdering_def vs file_vertex_def assms(4))
qed

end
