(* ===== verification/Histogram.thy ===== *)
theory Histogram
  imports Degeneracy
begin

text \<open>
  \<open>writeCliqueHist\<close> of \<^verbatim>\<open>src/Graph.cpp\<close>: the histograms of the worker threads are
  added up, in a total that is a \<open>long\<close> and in counts that are \<open>int\<close>s, and printed by size.
\<close>

section \<open>Adding up\<close>

type_synonym histogram = "(nat \<times> 32 word) list"

text \<open>
  The counts of one size: \<open>histogram[clq_size] += clq_num\<close> adds a \<open>long\<close> to an \<open>int\<close> and stores
  the low 32 bits.
\<close>

definition count_of :: "histogram \<Rightarrow> nat \<Rightarrow> 32 word" where
  "count_of h k = (case map_of h k of None \<Rightarrow> 0 | Some n \<Rightarrow> n)"

definition add_entry :: "nat \<times> nat \<Rightarrow> histogram \<times> 64 word \<Rightarrow> histogram \<times> 64 word" where
  "add_entry = (\<lambda>(clq_size, clq_num) (histogram, maxClqNum).
     let maxClqNum = maxClqNum + of_nat clq_num;
         histogram = (if map_of histogram clq_size = None then AList.update clq_size 0 histogram else histogram)
     in (AList.update clq_size (count_of histogram clq_size + of_nat clq_num) histogram, maxClqNum))"

text \<open>
  The entries of the threads, as \<open>combine_each\<close> and the iteration over an \<open>unordered_map\<close> present
  them; and the lines that are printed: the total, and the sizes in ascending order.
\<close>

definition writeCliqueHist :: "(nat \<times> nat) list list \<Rightarrow> int \<times> (nat \<times> int) list" where
  "writeCliqueHist entries =
     (let (histogram, maxClqNum) = fold add_entry (concat entries) ([], 0)
      in (sint maxClqNum, map (\<lambda>(k, n). (k, sint n)) (sort_key fst histogram)))"

section \<open>What is printed\<close>

definition entry_sum :: "(nat \<times> nat) list \<Rightarrow> nat \<Rightarrow> nat" where
  "entry_sum es k = (\<Sum>(i, n) \<leftarrow> es. if i = k then n else 0)"

definition grand_total :: "(nat \<times> nat) list \<Rightarrow> nat" where
  "grand_total es = (\<Sum>(i, n) \<leftarrow> es. n)"

lemma update_key_set: "set (map fst (AList.update k v al)) = insert k (set (map fst al))"
  unfolding update_keys by (simp add: insert_absorb)

lemma fold_add_entry:
  assumes "fold add_entry es (h, m) = (h', m')" and "distinct (map fst h)"
  shows "distinct (map fst h')" and "set (map fst h') = set (map fst h) \<union> fst ` set es"
    and "count_of h' k = count_of h k + of_nat (entry_sum es k)" and "m' = m + of_nat (grand_total es)"
proof -
  have "distinct (map fst h') \<and> set (map fst h') = set (map fst h) \<union> fst ` set es \<and>
    count_of h' k = count_of h k + of_nat (entry_sum es k) \<and> m' = m + of_nat (grand_total es)"
    using assms
  proof (induction es arbitrary: h m)
    case Nil
    then show ?case by (simp add: entry_sum_def grand_total_def)
  next
    case (Cons e es)
    obtain i n where e: "e = (i, n)" by (cases e)
    define h1 where "h1 = (if map_of h i = None then AList.update i 0 h else h)"
    define h2 where "h2 = AList.update i (count_of h1 i + of_nat n) h1"
    have step: "add_entry e (h, m) = (h2, m + of_nat n)" by (simp add: add_entry_def e h1_def h2_def Let_def)
    have d1: "distinct (map fst h1)" using Cons.prems(2) by (simp add: h1_def distinct_update)
    then have d2: "distinct (map fst h2)" by (simp add: h2_def distinct_update)
    have "set (map fst h1) \<subseteq> insert i (set (map fst h))" "set (map fst h) \<subseteq> set (map fst h1)"
      unfolding h1_def by (auto simp only: update_key_set split: if_splits)
    then have s2: "set (map fst h2) = insert i (set (map fst h))" unfolding h2_def update_key_set by blast
    have c1: "count_of h1 x = count_of h x" for x by (simp add: h1_def count_of_def update_conv')
    have c2: "count_of h2 k = count_of h k + (if i = k then of_nat n else 0)"
      using c1 [of k] by (simp add: h2_def count_of_def [of _ k] update_conv')
    from Cons.IH [of h2 "m + of_nat n"] Cons.prems(1) step d2 c2 s2 show ?case
      by (auto simp: entry_sum_def grand_total_def e)
  qed
  then show "distinct (map fst h')" "set (map fst h') = set (map fst h) \<union> fst ` set es"
    "count_of h' k = count_of h k + of_nat (entry_sum es k)" "m' = m + of_nat (grand_total es)" by blast+
qed

text \<open>The entries of all threads present the histograms \<open>H\<close>.\<close>

definition presents :: "nat \<Rightarrow> (nat \<Rightarrow> nat \<Rightarrow> nat option) \<Rightarrow> (nat \<times> nat) list list \<Rightarrow> bool" where
  "presents nthr H ess \<longleftrightarrow> length ess = nthr \<and>
     (\<forall>t < nthr. distinct (map fst (ess ! t)) \<and> (\<forall>k. map_of (ess ! t) k = H t k))"

lemma entry_sum_map_of:
  "distinct (map fst es) \<Longrightarrow> entry_sum es k = (case map_of es k of None \<Rightarrow> 0 | Some n \<Rightarrow> n)"
proof (induction es)
  case (Cons e es)
  obtain i n where e: "e = (i, n)" by (cases e)
  have "map_of es i = None" using Cons.prems by (simp add: e map_of_eq_None_iff)
  with Cons show ?case by (auto simp: entry_sum_def e)
qed (simp add: entry_sum_def)

lemma entry_sum_append: "entry_sum (es @ es') k = entry_sum es k + entry_sum es' k"
  by (simp add: entry_sum_def)

lemma presents_sum:
  assumes "presents nthr H ess"
  shows "entry_sum (concat ess) k = recorded nthr H k"
proof -
  have "entry_sum (concat (take m ess)) k = recorded m H k" if "m \<le> nthr" for m
    using that
  proof (induction m)
    case (Suc m)
    with assms have "take (Suc m) ess = take m ess @ [ess ! m]" by (simp add: presents_def take_Suc_conv_app_nth)
    with Suc assms show ?case
      by (simp add: entry_sum_append entry_sum_map_of presents_def recorded_def)
  qed (simp add: entry_sum_def recorded_def)
  from this [of nthr] assms show ?thesis by (simp add: presents_def)
qed

text \<open>
  Every size some thread has an entry for is printed once, in ascending order, with the number of
  cliques of that size, as long as it fits an \<open>int\<close>.
\<close>

lemma writeCliqueHist_correct:
  assumes pres: "presents nthr H ess" and out: "writeCliqueHist ess = (tot, rows)"
  shows "sorted_wrt (<) (map fst rows)" and "set (map fst rows) = {k. \<exists>t < nthr. H t k \<noteq> None}"
    and "(k, n) \<in> set rows \<Longrightarrow> recorded nthr H k < 2 ^ 31 \<Longrightarrow> n = int (recorded nthr H k)"
    and "grand_total (concat ess) < 2 ^ 63 \<Longrightarrow> tot = int (grand_total (concat ess))"
proof -
  obtain h m where f: "fold add_entry (concat ess) ([], 0) = (h, m)" by (cases "fold add_entry (concat ess) ([], 0)")
  have d: "distinct (map fst h)" "set (map fst h) = fst ` set (concat ess)"
    "count_of h k = of_nat (recorded nthr H k)" "m = of_nat (grand_total (concat ess))" for k
    using fold_add_entry(1,2,4) [OF f] fold_add_entry(3) [OF f, of k] presents_sum [OF pres, of k] by (simp_all add: count_of_def)
  have l: "tot = sint m" "rows = map (\<lambda>(k, n). (k, sint n)) (sort_key fst h)"
    using out by (simp_all add: writeCliqueHist_def f)
  have fst: "map fst rows = map fst (sort_key fst h)" by (simp add: l(2) comp_def case_prod_unfold)
  have "sorted (map fst (sort_key fst h))" by simp
  moreover have "distinct (map fst (sort_key fst h))"
  proof -
    have "mset (map fst (sort_key fst h)) = mset (map fst h)" by simp
    from mset_eq_imp_distinct_iff [OF this] d(1) show ?thesis by simp
  qed
  ultimately show "sorted_wrt (<) (map fst rows)" unfolding fst by (simp add: strict_sorted_iff)
  have some: "k \<in> fst ` set (concat ess) \<longleftrightarrow> (\<exists>t < nthr. H t k \<noteq> None)" for k
  proof -
    have len: "length ess = nthr" using pres by (simp add: presents_def)
    have "k \<in> fst ` set (concat ess) \<longleftrightarrow> (\<exists>es \<in> set ess. k \<in> fst ` set es)" by auto
    also have "\<dots> \<longleftrightarrow> (\<exists>t < nthr. k \<in> fst ` set (ess ! t))"
      unfolding len [symmetric] by (metis in_set_conv_nth)
    also have "\<dots> \<longleftrightarrow> (\<exists>t < nthr. map_of (ess ! t) k \<noteq> None)" by (simp add: map_of_eq_None_iff)
    also have "\<dots> \<longleftrightarrow> (\<exists>t < nthr. H t k \<noteq> None)" using pres unfolding presents_def by metis
    finally show ?thesis .
  qed
  have keys: "set (map fst rows) = fst ` set (concat ess)" unfolding fst using d(2) by simp
  show "set (map fst rows) = {k. \<exists>t < nthr. H t k \<noteq> None}"
    unfolding keys by (rule set_eqI) (simp only: some mem_Collect_eq)
  show "n = int (recorded nthr H k)" if "(k, n) \<in> set rows" "recorded nthr H k < 2 ^ 31"
  proof -
    from that(1) obtain w where w: "(k, w) \<in> set h" "n = sint w" by (auto simp: l(2))
    then have "w = of_nat (recorded nthr H k)" using d(1) d(3) [of k] by (simp add: count_of_def)
    with w(2) that(2) show ?thesis by (simp add: sint_small)
  qed
  show "tot = int (grand_total (concat ess))" if "grand_total (concat ess) < 2 ^ 63"
    using that by (simp add: l(1) d(4) sint_small)
qed

end
