(* ===== verification/Program.thy ===== *)
theory Program
  imports Histogram
begin

text \<open>
  The program of \<^verbatim>\<open>src/main.cpp\<close>: its options, the graph it reads, the ordering,
  the run and the histogram it prints.
\<close>

section \<open>Options\<close>

text \<open>
  \<open>std::find\<close> looks at every argument, the program's name and the values of other options
  included.
\<close>

fun getCmdOption :: "string list \<Rightarrow> string \<Rightarrow> string option" where
  "getCmdOption [] opt = None"
| "getCmdOption (a # as) opt = (if a = opt then (case as of [] \<Rightarrow> None | b # _ \<Rightarrow> Some b) else getCmdOption as opt)"

definition cmdOptionExists :: "string list \<Rightarrow> string \<Rightarrow> bool" where
  "cmdOptionExists as opt \<longleftrightarrow> List.member as opt"

text \<open>\<open>string(char*)\<close> of a null pointer, for an option without its value.\<close>

definition string_of :: "string option \<Rightarrow> string result" where
  "string_of p = (case p of None \<Rightarrow> Inl NullDereference | Some s \<Rightarrow> Inr s)"

text \<open>
  \<open>stoi\<close> and \<open>stol\<close>: white space, a sign, digits; anything may follow.  Without digits, or with a
  number out of range, they throw.
\<close>

definition sto :: "int \<Rightarrow> string \<Rightarrow> int result" where
  "sto limit s =
     (let r = dropWhile isspace s;
          neg = (r \<noteq> [] \<and> hd r = CHR ''-'');
          r = (if r \<noteq> [] \<and> (hd r = CHR ''-'' \<or> hd r = CHR ''+'') then tl r else r);
          ds = takeWhile isdigit r;
          v = (if neg then - digits_value ds else digits_value ds)
      in if ds = [] \<or> v < - limit \<or> v \<ge> limit then Inl UncaughtException else Inr v)"

definition stoi :: "string \<Rightarrow> int result" where
  "stoi = sto (2 ^ 31)"

definition stol :: "string \<Rightarrow> int result" where
  "stol = sto (2 ^ 63)"

text \<open>An option with a number; without the option the default stays.\<close>

definition number_option ::
  "(string \<Rightarrow> int result) \<Rightarrow> string list \<Rightarrow> string \<Rightarrow> int \<Rightarrow> int result" where
  "number_option conv as opt dflt =
     (if cmdOptionExists as opt then bind_result (string_of (getCmdOption as opt)) conv else Inr dflt)"

record options =
  nthr :: int
  setsMempool :: bool
  memBlockSize :: u32
  sampling_int :: int
  CollectMemUsage :: bool
  opt_ord :: "int option"
  opt_thresh :: int
  mem_threshold :: int
  opt_max_clq :: int
  opt_s :: int

text \<open>
  The options in the order in which \<open>main\<close> looks at them.  The \<open>int\<close> of \<open>--ord\<close> keeps the low bits
  of the \<open>long\<close>.  What is done when \<open>-s\<close> is out of range compares instead of assigning, so it
  does nothing.
\<close>

definition read_options :: "string list \<Rightarrow> options result" where
  "read_options as =
     bind_result (number_option stoi as ''-n'' 256) (\<lambda>nthr.
     bind_result (if cmdOptionExists as ''-o'' then number_option stoi as ''-b'' 20480 else Inr 20480) (\<lambda>b.
     bind_result (number_option stol as ''-i'' 100000) (\<lambda>i.
     bind_result (if cmdOptionExists as ''-m'' then bind_result (string_of (getCmdOption as ''-m'')) (\<lambda>_. Inr True)
                  else Inr False) (\<lambda>m.
     bind_result (if cmdOptionExists as ''--ord''
                  then bind_result (number_option stol as ''--ord'' 0) (\<lambda>ord. Inr (Some (sint (word_of_int ord :: 32 word))))
                  else Inr None) (\<lambda>ord.
     bind_result (number_option stoi as ''--thresh'' 30) (\<lambda>thresh.
     bind_result (number_option stoi as ''--mem-thresh'' 20) (\<lambda>mem_thresh.
     bind_result (number_option stoi as ''--max-clq'' (-1)) (\<lambda>max_clq.
     bind_result (number_option stoi as ''-s'' 0) (\<lambda>s.
       Inr \<lparr>nthr = nthr, setsMempool = cmdOptionExists as ''-o'', memBlockSize = word_of_int b, sampling_int = i,
            CollectMemUsage = m, opt_ord = ord, opt_thresh = thresh, mem_threshold = mem_thresh,
            opt_max_clq = max_clq, opt_s = s\<rparr>)))))))))"

text \<open>The options of the enumeration.  Without \<open>--ord\<close> the degeneracy ordering is used.\<close>

definition run_config :: "build \<Rightarrow> env \<Rightarrow> library \<Rightarrow> options \<Rightarrow> config" where
  "run_config bld e lib opts =
     \<lparr>subgraphBased = opt_s opts,
      degeneracyOrd = (case opt_ord opts of None \<Rightarrow> True | Some ord \<Rightarrow> ord = 0),
      degreeOrd = (case opt_ord opts of None \<Rightarrow> False | Some ord \<Rightarrow> ord = 1),
      PX_threshold = opt_thresh opts, max_clq_size = opt_max_clq opts, target = bld, host = e, stdlib = lib\<rparr>"

section \<open>The program\<close>

text \<open>
  The operating system as the program sees it: the variable \<open>PROJECT_ROOT\<close>, and the readable files.
\<close>

record system =
  project_root :: "string option"
  files :: "string \<Rightarrow> string option"

text \<open>
  \<open>path.substr(path.find_last_of("/"), _)\<close> throws when the path has no slash.
\<close>

definition input_path :: "system \<Rightarrow> string list \<Rightarrow> string result" where
  "input_path sys as =
     (let root_path = (case project_root sys of None \<Rightarrow> ''..'' | Some rp \<Rightarrow> rp);
          path = root_path @ ''/'' @ ''data/'' @ ''simple.mtx''
      in bind_result (if cmdOptionExists as ''-f'' then string_of (getCmdOption as ''-f'') else Inr path) (\<lambda>path.
         if List.member path (CHR ''/'') then Inr path else Inl UncaughtException))"

datatype outcome =
    PrintedHelp
  | NoInputFile
  | Enumerates config int graph bool

text \<open>
  \<open>main\<close> up to the enumeration: the options, the number of threads, the graph, and whether the
  histogram is to be printed.
\<close>

definition read_graph :: "config \<Rightarrow> string \<Rightarrow> graph result" where
  "read_graph c content =
     bind_result (initFromFile (stdlib c) (target c) (host c) content (Graph 0)) (\<lambda>g.
       if degeneracyOrd c then bind_result (degeneracyOrdering (stdlib c) g) (\<lambda>(_, g). Inr g) else Inr g)"

definition main_setup :: "build \<Rightarrow> env \<Rightarrow> library \<Rightarrow> system \<Rightarrow> string list \<Rightarrow> outcome result" where
  "main_setup bld e lib sys as =
     (if cmdOptionExists as ''-h'' \<or> cmdOptionExists as ''--help'' then Inr PrintedHelp
      else
        bind_result (input_path sys as) (\<lambda>path.
          case files sys path of None \<Rightarrow> Inr NoInputFile
          | Some content \<Rightarrow>
              bind_result (read_options as) (\<lambda>opts.
                let c = run_config bld e lib opts in
                bind_result (read_graph c content) (\<lambda>g.
                  Inr (Enumerates c (nthr opts) g (cmdOptionExists as ''-p''))))))"

section \<open>The graph of a document\<close>

text \<open>The vertices and the cliques that a document stands for, in its own numbers.\<close>

interpretation D: finite_ugraph "joined es" "ends_of es" for es :: "('v \<times> 'v) list"
  by unfold_locales (auto simp: joined_def ends_of_def intro: rev_image_eqI)

lemma joined_map:
  assumes inj: "inj_on f (ends_of es)" and v: "v \<in> ends_of es"
  shows "joined (map (map_prod f f) es) (f v) = f ` joined es v"
proof -
  have e: "a \<in> ends_of es" "b \<in> ends_of es" if "(a, b) \<in> set es" for a b
    using that by (auto simp: ends_of_def intro: rev_image_eqI)
  have eq: "f a = f b \<longleftrightarrow> a = b" if "a \<in> ends_of es" "b \<in> ends_of es" for a b
    using inj_on_eq_iff [OF inj that] .
  show ?thesis
  proof (intro set_eqI iffI)
    fix w assume "w \<in> joined (map (map_prod f f) es) (f v)"
    then obtain a b where ab: "(a, b) \<in> set es" "w \<noteq> f v" "f v = f a \<and> w = f b \<or> w = f a \<and> f v = f b"
      by (auto simp: joined_def)
    with e [OF ab(1)] v eq show "w \<in> f ` joined es v" by (auto simp: joined_def)
  next
    fix w assume "w \<in> f ` joined es v"
    then show "w \<in> joined (map (map_prod f f) es) (f v)"
      using e v eq by (force simp: joined_def)
  qed
qed

lemma ends_of_map: "ends_of (map (map_prod f f) es) = f ` ends_of es"
  by (auto simp: ends_of_def image_image intro: rev_image_eqI)

lemma clique_map:
  assumes inj: "inj_on f (ends_of es)" and C: "C \<subseteq> ends_of es"
  shows "D.clique (map (map_prod f f) es) (f ` C) \<longleftrightarrow> D.clique es C"
proof -
  have sub: "joined es v \<subseteq> ends_of es" for v by (rule D.adj_V)
  have "f w \<in> joined (map (map_prod f f) es) (f v) \<longleftrightarrow> w \<in> joined es v" if "v \<in> C" "w \<in> C" for v w
    using that C sub inj by (auto simp: joined_map inj_on_image_mem_iff subset_iff)
  moreover have "f v = f w \<longleftrightarrow> v = w" if "v \<in> C" "w \<in> C" for v w
    using that C inj_on_eq_iff [OF inj] by blast
  ultimately show ?thesis by (auto simp: D.clique_def)
qed

lemma maximal_clique_map:
  assumes inj: "inj_on f (ends_of es)" and C: "C \<subseteq> ends_of es"
  shows "D.maximal_clique (map (map_prod f f) es) (f ` C) \<longleftrightarrow> D.maximal_clique es C"
proof -
  have "f ` ends_of es - f ` C = f ` (ends_of es - C)" using C by (subst inj_on_image_set_diff [OF inj]) auto
  moreover have "D.clique (map (map_prod f f) es) (insert (f w) (f ` C)) \<longleftrightarrow> D.clique es (insert w C)"
    if "w \<in> ends_of es" for w
    using clique_map [OF inj, of "insert w C"] C that by simp
  moreover have "f ` C \<subseteq> f ` ends_of es" using C by blast
  ultimately show ?thesis using C clique_map [OF inj C] unfolding D.maximal_clique_def by (auto simp: ends_of_map)
qed

lemma card_maximal_map:
  assumes inj: "inj_on f (ends_of es)"
  shows "card {C. D.maximal_clique (map (map_prod f f) es) C \<and> card C = k} = card {C. D.maximal_clique es C \<and> card C = k}"
proof -
  have sub: "C \<subseteq> ends_of es" if "D.maximal_clique es C" for C using that by (simp add: D.maximal_clique_def)
  have cd: "card (f ` C) = card C" if "C \<subseteq> ends_of es" for C using inj that by (intro card_image) (rule inj_on_subset)
  have "{C. D.maximal_clique (map (map_prod f f) es) C \<and> card C = k} = (`) f ` {C. D.maximal_clique es C \<and> card C = k}"
  proof (intro set_eqI iffI)
    fix C assume C: "C \<in> {C. D.maximal_clique (map (map_prod f f) es) C \<and> card C = k}"
    then have "C \<subseteq> f ` ends_of es" unfolding mem_Collect_eq D.maximal_clique_def by (simp add: ends_of_map)
    then obtain B where "B \<subseteq> ends_of es" "C = f ` B" by (auto simp: subset_image_iff)
    with C maximal_clique_map [OF inj, of B] cd show "C \<in> (`) f ` {C. D.maximal_clique es C \<and> card C = k}" by auto
  next
    fix C assume "C \<in> (`) f ` {C. D.maximal_clique es C \<and> card C = k}"
    then show "C \<in> {C. D.maximal_clique (map (map_prod f f) es) C \<and> card C = k}"
      using maximal_clique_map [OF inj] sub cd by auto
  qed
  moreover have "inj_on ((`) f) {C. D.maximal_clique es C \<and> card C = k}"
    using sub inj by (intro inj_onI) (metis (mono_tags) inj_on_image_eq_iff mem_Collect_eq)
  ultimately show ?thesis by (simp add: card_image)
qed

lemma edge_bounds: "list_all row_ok rs \<Longrightarrow> v \<in> ends_of (edges rs) \<Longrightarrow> v < 2 ^ 31"
proof (induction rs)
  case (Cons r rs)
  then show ?case by (cases r) (auto simp: ends_of_def)
qed (simp add: ends_of_def)

lemma document_inj: "document_ok rs \<Longrightarrow> inj_on (of_nat :: nat \<Rightarrow> key) (ends_of (edges rs))"
proof (rule inj_onI)
  fix v w assume "document_ok rs" "v \<in> ends_of (edges rs)" "w \<in> ends_of (edges rs)" "(of_nat v :: key) = of_nat w"
  then show "v = w"
    using edge_bounds [of rs v] edge_bounds [of rs w] by (metis document_ok_def of_nat_eq_iff sint_small(1))
qed

lemma document_cliques:
  assumes "document_ok rs"
  shows "card {C. D.maximal_clique (edge_keys rs) C \<and> card C = k} = card {C. D.maximal_clique (edges rs) C \<and> card C = k}"
  using card_maximal_map [OF document_inj [OF assms], of k] by (simp add: edge_keys_def map_prod_def)

section \<open>The graph that is enumerated\<close>

definition prepared :: "config \<Rightarrow> row list \<Rightarrow> graph \<Rightarrow> bool" where
  "prepared c rs g \<longleftrightarrow> input_ok c g \<and> numbered g \<and> verts g = ends_of (edge_keys rs) \<and> abs_adj g = joined (edge_keys rs)"

lemma relabelled:
  assumes "adjList h = adjList g"
  shows "verts h = verts g" "neighbours h = neighbours g" "abs_adj h = abs_adj g" "graph_ok bld h = graph_ok bld g"
proof -
  note get = get_cong [OF assms]
  show "verts h = verts g" using assms by (simp add: verts_def)
  show nb: "neighbours h = neighbours g" by (simp add: neighbours_def get fun_eq_iff)
  show "abs_adj h = abs_adj g" by (simp add: abs_adj_def nb fun_eq_iff)
  show "graph_ok bld h = graph_ok bld g" using assms by (simp add: graph_ok_def nb get simple_adj_def)
qed

lemma card_ends: "card (ends_of es) \<le> 2 * length es"
proof -
  have "card (ends_of es) \<le> card (fst ` set es) + card (snd ` set es)" by (simp add: ends_of_def card_Un_le)
  also have "\<dots> \<le> length es + length es"
    using card_image_le [of "set es" fst] card_image_le [of "set es" snd] card_length [of es] by simp
  finally show ?thesis by simp
qed

lemma has_neighbour: "(a, b) \<in> set (edges rs) \<Longrightarrow> a \<noteq> b \<Longrightarrow> document_ok rs \<Longrightarrow> joined (edge_keys rs) (of_nat a) \<noteq> {}"
proof -
  assume ab: "(a, b) \<in> set (edges rs)" "a \<noteq> b" "document_ok rs"
  then have v: "a \<in> ends_of (edges rs)" "b \<in> ends_of (edges rs)" by (auto simp: ends_of_def intro: rev_image_eqI)
  then have "a < 2 ^ 31" "b < 2 ^ 31" using ab(3) edge_bounds by (auto simp: document_ok_def)
  then have "(of_nat a :: key) \<noteq> of_nat b" using ab(2) by (metis of_nat_eq_iff sint_small(1))
  then have "of_nat b \<in> joined (edge_keys rs) (of_nat a)"
    using ab(1) by (force simp: joined_def edge_keys_def)
  then show ?thesis by blast
qed

text \<open>With the degeneracy ordering the document needs an edge between two different vertices.\<close>

lemma read_graph_ends:
  assumes lib: "library_ok (stdlib c)" and bld: "USE_AVX512 (target c) \<Longrightarrow> USE_HOPSCOTCH (target c)"
    and doc: "document_ok rs" and tail: "CHR 0x0A \<notin> set tail" and small: "length (edges rs) \<le> 2 ^ 27"
    and edge: "degeneracyOrd c \<Longrightarrow> \<exists>(a, b) \<in> set (edges rs). a \<noteq> b"
  shows "ends (target c) (host c) (read_graph c (render rs @ tail)) (prepared c rs)"
  unfolding read_graph_def
proof (rule ends_bind [OF initFromFile_ends [OF lib bld doc tail]])
  show "length (edges rs) \<le> 2 ^ 28" using small by simp
next
  fix g assume g: "graph_of (target c) (edge_keys rs) g"
  then have ok: "graph_ok (target c) g" and num: "numbered g" and pl: "placed g"
    and gv: "verts g = ends_of (edge_keys rs)" "abs_adj g = joined (edge_keys rs)"
    and db: "\<And>v. v \<in> verts g \<Longrightarrow> degree_bound g (card (abs_adj g v))"
    unfolding graph_of_def by blast+
  have "length (edge_keys rs) = length (edges rs)" by (simp add: edge_keys_def)
  then have card: "card (ends_of (edge_keys rs)) \<le> 2 ^ 28" using small card_ends [of "edge_keys rs"] by simp
  have prep: "prepared c rs h" if "adjList h = adjList g" "numbered h" "placed h" for h
    using relabelled [OF that(1)] that(2,3) numbered_ordered [OF that(2,3)] lib ok gv card
    by (simp add: prepared_def input_ok_def)
  show "ends (target c) (host c)
      (if degeneracyOrd c then bind_result (degeneracyOrdering (stdlib c) g) (\<lambda>(_, g). Inr g) else Inr g) (prepared c rs)"
  proof (cases "degeneracyOrd c")
    case True
    from edge [OF this] obtain a b where "(a, b) \<in> set (edges rs)" "a \<noteq> b" by blast
    then have "abs_adj g (of_nat a) \<noteq> {}" using has_neighbour [OF _ _ doc] gv by simp
    from degeneracyOrdering_correct [OF lib ok num db this] obtain d vs m where
      run: "degeneracyOrdering (stdlib c) g = Inr (d, g\<lparr>vertexOrdering := vs, backwardsMapping := m, degeneracy := int d\<rparr>)"
      and vs: "distinct vs" "set vs = verts g" "length vs = length (vertexOrdering g)" "\<forall>j < length vs. m (vs ! j) = Some j" by blast
    let ?h = "g\<lparr>vertexOrdering := vs, backwardsMapping := m, degeneracy := int d\<rparr>"
    have "numbered ?h" "placed ?h" using vs num by (simp_all add: numbered_def placed_def verts_def)
    then show ?thesis using run True prep by simp
  next
    case False
    then show ?thesis using prep [of g] num pl by simp
  qed
qed

lemma run_config_fields [simp]:
  "target (run_config bld e lib opts) = bld" "host (run_config bld e lib opts) = e" "stdlib (run_config bld e lib opts) = lib"
  "subgraphBased (run_config bld e lib opts) = opt_s opts" "max_clq_size (run_config bld e lib opts) = opt_max_clq opts"
  by (simp_all add: run_config_def)

text \<open>Asked for a document, the program comes to the enumeration of its graph.\<close>

lemma main_setup_ends:
  assumes "library_ok lib" and "USE_AVX512 bld \<Longrightarrow> USE_HOPSCOTCH bld"
    and "document_ok rs" and "CHR 0x0A \<notin> set tail" and "length (edges rs) \<le> 2 ^ 27"
    and "\<exists>(a, b) \<in> set (edges rs). a \<noteq> b"
    and no_help: "\<not> cmdOptionExists as ''-h''" "\<not> cmdOptionExists as ''--help''"
    and path: "input_path sys as = Inr path" "files sys path = Some (render rs @ tail)"
    and opts: "read_options as = Inr opts"
  shows "ends bld e (main_setup bld e lib sys as) (\<lambda>out. \<exists>g.
    out = Enumerates (run_config bld e lib opts) (nthr opts) g (cmdOptionExists as ''-p'') \<and>
    prepared (run_config bld e lib opts) rs g)"
proof -
  have "ends bld e (read_graph (run_config bld e lib opts) (render rs @ tail)) (prepared (run_config bld e lib opts) rs)"
    using read_graph_ends [of "run_config bld e lib opts" rs tail] assms(1-6) by simp
  then show ?thesis
    unfolding main_setup_def using no_help path opts
    by (cases "read_graph (run_config bld e lib opts) (render rs @ tail)") simp_all
qed

text \<open>A run that the program starts and that comes to its end.\<close>

lemma prepared_run:
  assumes sane: "sane c" and prep: "prepared c rs g" and doc: "document_ok rs" and "edges rs \<noteq> []" and thr: "0 < n"
    and start: "BronKerboschDegeneracy c g = Inr w0" and run: "steps c n w0 w" and stop: "\<nexists>w'. step c n w w'"
  shows "case failure w of
      Some er \<Rightarrow> excused (target c) (host c) er
    | None \<Rightarrow> (\<forall>s \<in> set (slots w). phase_of s = Gone) \<and> root_refs w = 0 \<and>
        (\<forall>k. recorded n (hists w) k = (if within c k then card {C. D.maximal_clique (edges rs) C \<and> card C = k} else 0))"
proof -
  have num: "numbered g" and inp: "input_ok c g" and gv: "verts g = ends_of (edge_keys rs)" "abs_adj g = joined (edge_keys rs)"
    using prep by (simp_all add: prepared_def)
  have "edge_keys rs \<noteq> []" using assms(4) by (simp add: edge_keys_def)
  then have ne: "verts g \<noteq> {}" by (simp add: gv ends_of_def)
  have "steps c n (Runs.start c g) w" using run start start_run [OF num, of c] by simp
  from run_result [OF sane inp num ne thr this stop] show ?thesis
    unfolding gv document_cliques [OF doc] .
qed

end
