(* ===== verification/Failures.thy ===== *)
theory Failures
  imports Program
begin

text \<open>
  Inputs and options with which the program fails: a document without an edge between two
  vertices, a sub-graph mode that does not exist, and a size limit that the root tasks reach.
\<close>

section \<open>What reading leaves alone\<close>

text \<open>No pivot is chosen while a graph is read, and an edge from a vertex to itself does not count.\<close>

lemma adj_add_elem_frame:
  "adj_add_elem bld v w g = Inr g' \<Longrightarrow> pivot_node g' = pivot_node g \<and> maxdeg g' = maxdeg g \<and> edgeNo g' = edgeNo g"
  by (auto simp: adj_add_elem_def split: option.splits)

lemma with_vertex_frame: "pivot_node (with_vertex v g) = pivot_node g \<and> maxdeg (with_vertex v g) = maxdeg g \<and> edgeNo (with_vertex v g) = edgeNo g"
  by (simp add: with_vertex_def)

lemma addEdge_frame:
  assumes "addEdge bld v w g = Inr g'"
  shows "pivot_node g' = pivot_node g" and "v = w \<Longrightarrow> maxdeg g' = maxdeg g"
    and "edgeNo g' = edgeNo g + (if v = w then 0 else 2)"
  using assms adj_add_elem_frame [of bld] with_vertex_frame
  by (auto simp: addEdge_eq Let_def split: if_splits)

text \<open>What holds of the rows read so far and the graph, if the edges keep it.\<close>

lemma read_rows_keep:
  assumes "fold_result (read_row bld) (map row_text rs) (g, f) = Inr (g', f')"
    and "list_all row_ok rs" and "f \<Longrightarrow> header_first rs" and "\<not> f \<Longrightarrow> \<forall>r \<in> set rs. \<forall>a b d. r \<noteq> Header a b d"
    and "I es g" and nodes: "\<And>es g n. I es g \<Longrightarrow> I es (g\<lparr>nodeNo := n\<rparr>)"
    and edge: "\<And>es g g1 a b. I es g \<Longrightarrow> a < 2 ^ 31 \<Longrightarrow> b < 2 ^ 31 \<Longrightarrow> addEdge bld (of_nat a) (of_nat b) g = Inr g1 \<Longrightarrow> I (es @ [(a, b)]) g1"
  shows "I (es @ edges rs) g'"
  using assms(1-5)
proof (induction rs arbitrary: g f es)
  case (Cons r rs)
  show ?case
  proof (cases r)
    case (Comment c s)
    then have "read_row bld (row_text r) (g, f) = Inr (g, f)" using Cons.prems(2) read_comment by simp
    with Comment Cons.prems Cons.IH [of g f es] show ?thesis by (cases f) auto
  next
    case (Header a b d)
    then have f: "f" using Cons.prems(4) by auto
    then have "read_row bld (row_text r) (g, f) = Inr (g\<lparr>nodeNo := int a\<rparr>, False)"
      using Cons.prems(2) read_header Header by (simp del: row_ok.simps row_text.simps)
    with Header f Cons.prems Cons.IH [of "g\<lparr>nodeNo := int a\<rparr>" False es] nodes show ?thesis by auto
  next
    case (Edge a b)
    have r: "read_row bld (row_text r) (g, f) = bind_result (addEdge bld (of_nat a) (of_nat b) g) (\<lambda>g. Inr (g, False))"
      using Cons.prems(2) read_edge Edge by (simp del: row_ok.simps row_text.simps)
    with Cons.prems(1) obtain g1 where g1: "addEdge bld (of_nat a) (of_nat b) g = Inr g1"
      "fold_result (read_row bld) (map row_text rs) (g1, False) = Inr (g', f')" by auto
    have "\<forall>r \<in> set rs. \<forall>a b d. r \<noteq> Header a b d" using Cons.prems(3,4) Edge by (cases f) auto
    moreover have "a < 2 ^ 31" "b < 2 ^ 31" using Cons.prems(2) Edge by simp_all
    note edge [OF Cons.prems(5) this g1(1)]
    ultimately show ?thesis using Cons.IH [of g1 False "es @ [(a, b)]"] Cons.prems(2) g1(2) Edge by auto
  qed
qed simp

lemma read_rows_frame:
  assumes "list_all row_ok rs" and "header_first rs" and "fold_result (read_row bld) (map row_text rs) (g, True) = Inr (g', f')"
  shows "pivot_node g' = pivot_node g" and "\<forall>(a, b) \<in> set (edges rs). a = b \<Longrightarrow> maxdeg g' = maxdeg g"
    and "edgeNo g' = edgeNo g + 2 * int (length (filter (\<lambda>(a, b). a \<noteq> b) (edges rs)))"
proof -
  let ?I = "\<lambda>(es :: (nat \<times> nat) list) g'. pivot_node g' = pivot_node g \<and> ((\<forall>(a, b) \<in> set es. a = b) \<longrightarrow> maxdeg g' = maxdeg g) \<and>
    edgeNo g' = edgeNo g + 2 * int (length (filter (\<lambda>(a, b). a \<noteq> b) es))"
  have "?I ([] @ edges rs) g'"
  proof (rule read_rows_keep [OF assms(3,1), where I = ?I])
    fix es :: "(nat \<times> nat) list" and h h1 and a b :: nat assume I: "?I es h" and ab: "a < 2 ^ 31" "b < 2 ^ 31" and run: "addEdge bld (of_nat a) (of_nat b) h = Inr h1"
    have "(of_nat a :: key) = of_nat b \<longleftrightarrow> a = b"
      using ab by (simp add: word_unat_eq_iff unat_of_nat)
    with I addEdge_frame [OF run] show "?I (es @ [(a, b)]) h1" by auto
  qed (use assms(2) in simp_all)
  then show "pivot_node g' = pivot_node g" and "\<forall>(a, b) \<in> set (edges rs). a = b \<Longrightarrow> maxdeg g' = maxdeg g"
    and "edgeNo g' = edgeNo g + 2 * int (length (filter (\<lambda>(a, b). a \<noteq> b) (edges rs)))" by simp_all
qed

lemma hash_lists_frame:
  "hash_lists lib bld e g = Inr g' \<Longrightarrow> pivot_node g' = pivot_node g \<and> maxdeg g' = maxdeg g \<and> edgeNo g' = edgeNo g"
  unfolding hash_lists_def
  by (erule fold_result_invariant [where I = "\<lambda>g'. pivot_node g' = pivot_node g \<and> maxdeg g' = maxdeg g \<and> edgeNo g' = edgeNo g"])
    (auto split: option.splits)

lemma initFromFile_frame:
  assumes doc: "document_ok rs" and tail: "CHR 0x0A \<notin> set tail" and run: "initFromFile lib bld e (render rs @ tail) (Graph 0) = Inr g"
  shows "pivot_node g = -1" and "\<forall>(a, b) \<in> set (edges rs). a = b \<Longrightarrow> maxdeg g = -1"
    and "edgeNo g = 2 * int (length (filter (\<lambda>(a, b). a \<noteq> b) (edges rs)))"
proof -
  have rows: "list_all row_ok rs" "header_first rs" using doc by (simp_all add: document_ok_def)
  from run obtain g1 f1 where g1: "fold_result (read_row bld) (map row_text rs) ((Graph 0)\<lparr>nodeNo := -1\<rparr>, True) = Inr (g1, f1)"
    "hash_lists lib bld e (number_vertices lib g1) = Inr g"
    by (auto simp: initFromFile_def getlines_render [OF rows(1) tail])
  note r = read_rows_frame [OF rows g1(1)]
  note h = hash_lists_frame [OF g1(2)]
  show "pivot_node g = -1" using r(1) h by (simp add: number_vertices_def Let_def Graph_def)
  show "maxdeg g = -1" if "\<forall>(a, b) \<in> set (edges rs). a = b"
    using r(2) h that by (simp add: number_vertices_def Let_def Graph_def)
  show "edgeNo g = 2 * int (length (filter (\<lambda>(a, b). a \<noteq> b) (edges rs)))"
    using r(3) h by (simp add: number_vertices_def Let_def Graph_def)
qed

text \<open>The degeneracy ordering has no bucket for the vertices of a document without any edge between two of them.\<close>

lemma no_edge_fails:
  assumes lib: "library_ok (stdlib c)" and bld: "USE_AVX512 (target c) \<Longrightarrow> USE_HOPSCOTCH (target c)"
    and doc: "document_ok rs" and tail: "CHR 0x0A \<notin> set tail" and small: "length (edges rs) \<le> 2 ^ 28"
    and loops: "edges rs \<noteq> []" "\<forall>(a, b) \<in> set (edges rs). a = b" and ord: "degeneracyOrd c"
  shows "\<exists>er. read_graph c (render rs @ tail) = Inl er \<and> (er = AssertionFailed \<or> excused (target c) (host c) er)"
proof (cases "initFromFile (stdlib c) (target c) (host c) (render rs @ tail) (Graph 0)")
  case (Inl er)
  with initFromFile_ends [OF lib bld doc tail small, of "host c"] show ?thesis by (simp add: read_graph_def)
next
  case (Inr g)
  with initFromFile_ends [OF lib bld doc tail small, of "host c"] have g: "graph_of (target c) (edge_keys rs) g" by simp
  have "edge_keys rs \<noteq> []" using loops(1) by (simp add: edge_keys_def)
  with g have "simple_adj g" "verts g \<noteq> {}" by (simp_all add: graph_of_def graph_ok_def ends_of_def)
  from degeneracyOrdering_no_edge [OF lib this initFromFile_frame(2) [OF doc tail Inr loops(2)]]
  show ?thesis using Inr ord by (simp add: read_graph_def)
qed

lemma read_graph_pivot:
  assumes "document_ok rs" and "CHR 0x0A \<notin> set tail" and "read_graph c (render rs @ tail) = Inr g"
  shows "pivot_node g = -1"
  using assms initFromFile_frame(1) [OF assms(1,2)]
  by (auto simp: read_graph_def degeneracyOrdering_def split: if_splits)

section \<open>Sub-graph modes that do not exist\<close>

text \<open>
  \<open>-s\<close> with a number outside 0 to 3: a root task believes to have a graph of its own, makes none,
  and finds no pivot in the graph of the whole program.
\<close>

lemma unknown_mode_fails:
  assumes lib: "library_ok (stdlib c)" and ok: "graph_ok (target c) g" and ord: "ordered c g" and v: "v \<in> verts g"
    and pl: "later c g v \<noteq> {}" and pn: "pivot_node g = -1" and w: "within c 2"
    and mode: "subgraphBased c < 0 \<or> 3 < subgraphBased c"
    and st: "this st = root_of c v" and al: "alive (Some 0) g 1 (guards st)"
  shows "execute c thr st = Inl AssertionFailed"
proof -
  obtain P X where PX: "create_root_sets c g v = Inr (P, X)" "list_set (target c) P" "contents P = later c g v"
    using create_root_sets_correct [OF ok refl ord v] by blast
  obtain gd where gd: "deref_guard (Some 0) st = Inr gd" "guarded gd = g" using al by (rule deref_alive)
  let ?R = "push_back v UnrolledList"
  have P: "\<not> hs_empty P" unfolding list_set_empty [OF PX(2)] PX(3) by (rule pl)
  have "ul_size ?R = 1" by (simp add: ul_size_correct push_back_to_list)
  with w have lim: "\<not> size_limit_reached c ?R" by (auto simp: size_limit_reached_def within_def)
  define st1 where "st1 = set_this (\<lambda>t. t\<lparr>R_task := Some ?R, P_task := Some P, X_task := Some X\<rparr>) st"
  have t1: "NewGraph (this st1)" "taskLevel (this st1) = 0" "guards st1 = guards st" "graphg (this st1) = Some 0"
    using mode by (auto simp: st1_def set_this_def st)
  have gd1: "deref_guard (Some 0) st1 = Inr gd" using gd(1) unfolding deref_guard_def t1(3) .
  have "subgraphBased c \<noteq> 1" "subgraphBased c \<noteq> 2" "subgraphBased c \<noteq> 3" using mode by auto
  then have "create_graph c P X (Some 0) st1 = Inr (Some 0, st1)" by (simp add: create_graph_def)
  then have start: "StartTask c thr ?R P X (Some 0) st1 = Inl AssertionFailed"
    using P lim gd1 gd(2) t1 pn by (simp add: StartTask_def choose_pivot_def)
  have e: "R_task (this st1) = Some ?R" "P_task (this st1) = Some P" "X_task (this st1) = Some X" 
    by (simp_all add: st1_def set_this_def)
  have "set_this (\<lambda>t. t\<lparr>R_task := Some (push_back (new_vertex t) UnrolledList), P_task := Some P, X_task := Some X\<rparr>) st = st1"
    by (simp add: st1_def set_this_def st)
  then have "begin_task c thr st = Inl AssertionFailed"
    unfolding begin_task_def using gd PX(1) start e t1(4) by (simp add: st)
  then show ?thesis by (simp add: execute_def SpawnTask_def st)
qed

section \<open>A size limit of one with sub-graphs of the root tasks\<close>

text \<open>
  A root task that the size limit stops at once has made no graph of its own, but its continuation
  drops a reference to a graph: that of the program.  The first such task frees it.
\<close>

lemma limit_one_frees:
  assumes ok: "graph_ok (target c) g" and ord: "ordered c g" and v: "v \<in> verts g" and pl: "later c g v \<noteq> {}"
    and mode: "subgraphBased c = 1" "max_clq_size c = 1"
    and st: "this st = root_of c v" "guards st = [Some \<lparr>guarded = g, ref_count = 1\<rparr>]"
  shows "\<exists>st1 st2. execute c thr st = Inr (SafeContinuation, None, st1) \<and>
    execute c thr st1 = Inr (Finished, None, st2) \<and> guards st2 = [None]"
proof -
  obtain P X where PX: "create_root_sets c g v = Inr (P, X)" "list_set (target c) P" "contents P = later c g v"
    using create_root_sets_correct [OF ok refl ord v] by blast
  let ?R = "push_back v UnrolledList"
  have gd: "deref_guard (Some 0) st = Inr \<lparr>guarded = g, ref_count = 1\<rparr>" by (simp add: deref_guard_def st)
  have P: "\<not> hs_empty P" unfolding list_set_empty [OF PX(2)] PX(3) by (rule pl)
  have "ul_size ?R = 1" by (simp add: ul_size_correct push_back_to_list)
  then have lim: "size_limit_reached c ?R" by (simp add: size_limit_reached_def mode)
  define t where "t = (root_of c v)\<lparr>R_task := Some ?R, P_task := Some P, X_task := Some X\<rparr>"
  have set: "set_this (\<lambda>t. t\<lparr>R_task := Some (push_back (new_vertex t) UnrolledList), P_task := Some P, X_task := Some X\<rparr>) st =
    st\<lparr>this := t\<rparr>" by (simp add: t_def set_this_def st)
  have t: "R_task t = Some ?R" "P_task t = Some P" "X_task t = Some X" "graphg t = Some 0" "NewGraph t"
    by (simp_all add: t_def mode)
  have "StartTask c thr ?R P X (Some 0) (st\<lparr>this := t\<rparr>) = Inr (None, Some 0, st\<lparr>this := t\<rparr>)"
    using P lim by (simp add: StartTask_def)
  then have "begin_task c thr st = Inr (True, st\<lparr>this := t\<lparr>graphg := Some 0, isContinuation := True\<rparr>\<rparr>)"
    unfolding begin_task_def using gd PX(1) set t by (simp add: st) (simp add: set_this_def)
  then have 1: "execute c thr st = Inr (SafeContinuation, None, st\<lparr>this := t\<lparr>graphg := Some 0, isContinuation := True\<rparr>\<rparr>)"
    by (simp add: execute_def SpawnTask_def st)
  have "\<exists>st2. execute c thr (st\<lparr>this := t\<lparr>graphg := Some 0, isContinuation := True\<rparr>\<rparr>) = Inr (Finished, None, st2) \<and> guards st2 = [None]"
    using t(5) by (simp add: execute_def Continuation_def mode dec_graph_ref_count_def deref_guard_def st put_guard_def set_this_def)
  with 1 show ?thesis by blast
qed

end
