(* ===== verification/Containers.thy ===== *)
theory Containers
  imports SimpleHashSet
begin

text \<open>
  The properties of the containers: the unrolled list, the hash table and the hash set.  The
  examples that show the hypotheses to hold use a small set and its hashed form.
\<close>

section \<open>Examples\<close>

definition demo_env :: env where
  "demo_env = \<lparr>rand_r = (\<lambda>s. (3 * s + 5, s + 1)), time_at = (\<lambda>_. 7), shl_overflow = Inl UndefinedShift\<rparr>"

definition scalar_build :: build where
  "scalar_build = \<lparr>USE_AVX512 = False, USE_VECTOR_LOOKUP = False, USE_HOPSCOTCH = False\<rparr>"

definition demo_list :: "key list \<Rightarrow> ulist" where
  "demo_list xs = fold push_back xs UnrolledList"

definition demo_set :: "key list \<Rightarrow> simple_hash_set" where
  "demo_set xs = create_set\<lparr>elems := demo_list xs\<rparr>"

definition demo_hashed :: "build \<Rightarrow> key list \<Rightarrow> simple_hash_set" where
  "demo_hashed bld xs = projr (hashSet bld demo_env (demo_set xs))"

definition demo_table :: "build \<Rightarrow> key list \<Rightarrow> hash_table" where
  "demo_table bld xs = hashed_elems (demo_hashed bld xs)"

lemma demo_list_props [simp]: "ul_inv (demo_list xs)" "to_list (demo_list xs) = xs"
  using ul.push_all [of UnrolledList xs] by (simp_all add: demo_list_def)

lemma demo_set_props:
  assumes "USE_AVX512 bld \<Longrightarrow> USE_HOPSCOTCH bld" and "list_all valid_key xs"
  shows "hs_inv bld (demo_set xs)" "\<not> isHashed (demo_set xs)" "iteration (demo_set xs) = xs"
  using list_set_inv [of bld "demo_list xs"] assms by (simp_all add: demo_set_def create_set_def)

lemma demo_hashed_props:
  assumes bld: "USE_AVX512 bld \<Longrightarrow> USE_HOPSCOTCH bld" and xs: "list_all valid_key xs" "xs \<noteq> []" "length xs \<le> 16"
  shows "hashSet bld demo_env (demo_set xs) = Inr (demo_hashed bld xs)" "hs_inv bld (demo_hashed bld xs)"
    "isHashed (demo_hashed bld xs)" "members (demo_hashed bld xs) = set xs"
proof -
  have it: "to_list (elems (demo_set xs)) = xs" by (simp add: demo_set_def)
  have "card (set xs) \<le> 16" using card_length [of xs] xs(3) by linarith
  with hashSet_correct [OF demo_set_props(1) [OF bld xs(1)] demo_set_props(2) [OF bld xs(1)], of demo_env] it xs
  obtain s where s: "hashSet bld demo_env (demo_set xs) = Inr s" "hs_inv bld s" "isHashed s" "members s = set xs"
    by (auto split: sum.splits)
  then show "hashSet bld demo_env (demo_set xs) = Inr (demo_hashed bld xs)" "hs_inv bld (demo_hashed bld xs)"
    "isHashed (demo_hashed bld xs)" "members (demo_hashed bld xs) = set xs" by (simp_all add: demo_hashed_def)
qed

lemma small_keys [simp]: "valid_key 1" "valid_key 2" "valid_key 3" "valid_key 4" "valid_key 5"
  by (simp_all add: valid_key_def EMPTY_KEY_def INVAL_KEY_def)

lemma default_build_simps [simp]:
  "USE_AVX512 default_build" "USE_VECTOR_LOOKUP default_build" "USE_HOPSCOTCH default_build"
  "\<not> USE_AVX512 scalar_build" "\<not> USE_VECTOR_LOOKUP scalar_build" "\<not> USE_HOPSCOTCH scalar_build"
  by (simp_all add: default_build_def scalar_build_def)

section \<open>The unrolled list\<close>

datatype list_op = Push key | Pop | Remove key

fun run_op :: "build \<Rightarrow> list_op \<Rightarrow> ulist \<Rightarrow> ulist" where
  "run_op bld (Push x) l = push_back x l"
| "run_op bld Pop l = pop_back l"
| "run_op bld (Remove x) l = remove bld x l"

text \<open>The same operations on plain lists: \<open>Remove\<close> overwrites the first occurrence with the last key, and
  leaves a list without the key as it is.\<close>

fun spec_op :: "list_op \<Rightarrow> key list \<Rightarrow> key list" where
  "spec_op (Push x) xs = xs @ [x]"
| "spec_op Pop xs = butlast xs"
| "spec_op (Remove x) xs = (if x \<in> set xs then butlast (xs[first_index x xs := last xs]) else xs)"

text \<open>
  What may be called: \<open>pop_back\<close> only on a nonempty list, which it does not check itself, and in the
  build with AVX-512 \<open>remove\<close> only with a key that is there; for the reason see
  \<open>remove_twice_drops_another\<close> below.
\<close>

fun op_allowed :: "build \<Rightarrow> list_op \<Rightarrow> key list \<Rightarrow> bool" where
  "op_allowed bld (Push x) xs = True"
| "op_allowed bld Pop xs = (xs \<noteq> [])"
| "op_allowed bld (Remove x) xs = (\<not> USE_AVX512 bld \<or> x \<in> set xs)"

fun ops_allowed :: "build \<Rightarrow> list_op list \<Rightarrow> key list \<Rightarrow> bool" where
  "ops_allowed bld [] xs = True"
| "ops_allowed bld (p # ps) xs = (op_allowed bld p xs \<and> ops_allowed bld ps (spec_op p xs))"

lemma run_op_refines:
  assumes "ul_inv l" and "op_allowed bld p (to_list l)"
  shows "ul_inv (run_op bld p l) \<and> to_list (run_op bld p l) = spec_op p (to_list l)"
proof (cases p)
  case (Remove x)
  with assms remove_absent [of l x bld] show ?thesis
    by (cases "x \<in> set (to_list l)") (simp_all add: remove_inv remove_to_list)
qed (use assms in \<open>simp_all add: ul_simps\<close>)

text \<open>C34 (refinement).  Let a sequence of \<open>push_back\<close>, \<open>pop_back\<close> and \<open>remove\<close> be allowed: nothing is popped from
  an empty list, and in the build with AVX-512 no key is removed that is not there.  Run on a list in order, it keeps
  the chain of buckets well formed, and the chain holds what the same operations make of a plain list; the
  counter of the list is the length.\<close>

theorem list_operations_refine:
  assumes "ul_inv l" and "ops_allowed bld ps (to_list l)"
  shows "ul_inv (fold (run_op bld) ps l) \<and> to_list (fold (run_op bld) ps l) = fold spec_op ps (to_list l) \<and>
    ul_size (fold (run_op bld) ps l) = length (fold spec_op ps (to_list l))"
proof -
  have "ul_inv (fold (run_op bld) ps l) \<and> to_list (fold (run_op bld) ps l) = fold spec_op ps (to_list l)"
    using assms
  proof (induction ps arbitrary: l)
    case (Cons p ps)
    then show ?case using run_op_refines [of l bld p] by simp
  qed simp
  then show ?thesis by (metis ul_size_correct)
qed

theorem list_operations_refine_witness:
  "to_list (fold (run_op default_build) [Push 5, Push 6, Push 7, Remove 5, Pop, Push 8] UnrolledList) = [7, 8] \<and>
   to_list (fold (run_op scalar_build) [Push 5, Push 6, Remove 9, Pop] UnrolledList) = [5]"
proof -
  have "ops_allowed default_build [Push 5, Push 6, Push 7, Remove 5, Pop, Push 8] (to_list UnrolledList)"
    "ops_allowed scalar_build [Push 5, Push 6, Remove 9, Pop] (to_list UnrolledList)" by simp_all
  from list_operations_refine [OF ul_inv_new this(1)] list_operations_refine [OF ul_inv_new this(2)] show ?thesis by simp
qed

text \<open>Removing a present key keeps the list in order and removes one occurrence of
  it from the multiset of keys; without repetitions the key is gone and nothing else is.\<close>

theorem remove_present:
  assumes "ul_inv l" and "el \<in> set (to_list l)"
  shows "ul_inv (remove bld el l) \<and> mset (to_list (remove bld el l)) = mset (to_list l) - {#el#} \<and>
    (distinct (to_list l) \<longrightarrow> distinct (to_list (remove bld el l)) \<and>
      set (to_list (remove bld el l)) = set (to_list l) - {el})"
  using remove_inv [OF assms] remove_mset [OF assms] remove_distinct [OF assms] by blast

theorem remove_present_witness:
  "mset (to_list (remove default_build 6 (demo_list [5, 6, 7, 6]))) = {#5, 7, 6#}"
proof -
  have "6 \<in> set (to_list (demo_list [5, 6, 7, 6]))" by simp
  from remove_present [OF demo_list_props(1) this, of default_build] show ?thesis by simp
qed

text \<open>The AVX-512 search compares whole buckets, the scalar one the live keys only;
  both find the same cell, the first occurrence, as long as the key is live or not left over in the
  dead cells of the tail bucket.\<close>

theorem find_element_avx_scalar:
  assumes "ul_inv l" and "el \<in> set (to_list l) \<or> el \<notin> set (dead_cells l)"
  shows "find_element_avx el (buckets l) 0 = find_element_scalar l el 0 0 \<and>
    find_element_scalar l el 0 0 =
      (if el \<in> set (to_list l) then Some (cell_of (first_index el (to_list l))) else None)"
proof -
  let ?avx = "scalar_build\<lparr>USE_AVX512 := True\<rparr>"
  have d: "find_element_avx el (buckets l) 0 = find_element ?avx el l"
    "find_element_scalar l el 0 0 = find_element scalar_build el l" by (simp_all add: find_element_def)
  show ?thesis
  proof (cases "el \<in> set (to_list l)")
    case True
    then show ?thesis unfolding d using find_element_live [OF assms(1) True] by simp
  next
    case False
    then show ?thesis unfolding d using find_element_absent [OF assms(1) False] assms(2) by simp
  qed
qed

theorem find_element_avx_scalar_witness:
  "find_element_avx 6 (buckets (demo_list [5, 6, 7])) 0 = Some (0, 1)"
proof -
  have "6 \<in> set (to_list (demo_list [5, 6, 7])) \<or> 6 \<notin> set (dead_cells (demo_list [5, 6, 7]))" by simp
  from find_element_avx_scalar [OF demo_list_props(1) this] show ?thesis by (simp add: cell_of_def ELEMS_IN_BUCKET_16)
qed

text \<open>The dead cells are the reason for that condition: with AVX-512, removing a key a
  second time finds it in a dead cell and drops a key that was never asked for, here the key 1.
  Without AVX-512 the second removal changes nothing.\<close>

theorem remove_twice_drops_another:
  "to_list (remove default_build 2 (remove default_build 2 (demo_list [1, 2]))) = [] \<and>
   to_list (remove scalar_build 2 (remove scalar_build 2 (demo_list [1, 2]))) = [1]"
proof
  have "to_list (remove default_build 2 (remove default_build 2 (fold push_back [1, 2] UnrolledList))) = []"
    by code_simp
  then show "to_list (remove default_build 2 (remove default_build 2 (demo_list [1, 2]))) = []"
    by (simp only: demo_list_def)
  have "ul_inv (remove scalar_build 2 (demo_list [1, 2]))"
    "to_list (remove scalar_build 2 (demo_list [1, 2])) = [1]" by (simp_all add: remove_inv remove_to_list)
  then show "to_list (remove scalar_build 2 (remove scalar_build 2 (demo_list [1, 2]))) = [1]"
    using remove_absent [of "remove scalar_build 2 (demo_list [1, 2])" 2 scalar_build] by simp
qed

text \<open>\<open>for_each\<close> visits exactly the live keys, in order, whatever the callback does
  with its state.\<close>

lemma for_each_visits_all:
  assumes "ul_inv l"
  shows "ul_for_each f l s = fold f (to_list l) s"
  using assms by (rule ul_for_each_fold)

text \<open>The loop every user of the iterator runs: \<open>get_next\<close> until \<open>end_iter\<close>.\<close>

fun drain :: "nat \<Rightarrow> ulist \<Rightarrow> key list \<times> ulist" where
  "drain 0 l = ([], l)"
| "drain (Suc n) l = (if end_iter l then ([], l)
     else let (x, l) = get_next l; (xs, l) = drain n l in (x # xs, l))"

lemma drain_from:
  "iter_inv l \<Longrightarrow> length (to_list l) - iter_pos l \<le> n \<Longrightarrow> \<exists>l'. drain n l = (drop (iter_pos l) (to_list l), l') \<and>
    end_iter l' \<and> to_list l' = to_list l \<and> iter_inv l'"
proof (induction n arbitrary: l)
  case 0
  have "iter_pos l \<le> length (to_list l)" using "0.prems"(1) by (simp add: iter_inv_def)
  with 0 show ?case using end_iter_correct [of l] by simp
next
  case (Suc n)
  show ?case
  proof (cases "end_iter l")
    case True
    then show ?thesis using Suc.prems(1) end_iter_correct [of l] by simp
  next
    case False
    obtain x l1 where nx: "get_next l = (x, l1)" by (cases "get_next l")
    have "iter_pos l \<le> length (to_list l)" using Suc.prems(1) by (simp add: iter_inv_def)
    then have less: "iter_pos l < length (to_list l)" using False end_iter_correct [OF Suc.prems(1)] by linarith
    note step = get_next_step [OF Suc.prems(1) less nx]
    have "length (to_list l1) - iter_pos l1 \<le> n" using step(3,4) Suc.prems(2) by simp
    from Suc.IH [OF step(2) this] obtain l2 where "drain n l1 = (drop (iter_pos l1) (to_list l1), l2)"
      "end_iter l2" "to_list l2 = to_list l1" "iter_inv l2" by blast
    then show ?thesis using False nx step Cons_nth_drop_Suc [OF less] by simp
  qed
qed

text \<open>C40 (functional, termination).  After a reset the iterator hands out every live key once and in
  order and then reports its end; asking for more answers \<open>-1\<close> and moves nothing.  The loop needs one
  round for each key.\<close>

theorem iterator_complete:
  assumes "ul_inv l"
  shows "\<exists>l'. drain (length (to_list l)) (reset_iterator l) = (to_list l, l') \<and> end_iter l' \<and>
    to_list l' = to_list l \<and> get_next l' = (-1, l')"
proof -
  obtain l' where l': "drain (length (to_list l)) (reset_iterator l) = (to_list l, l')" "end_iter l'"
    "to_list l' = to_list l" "iter_inv l'"
    using drain_from [OF iter_inv_reset [OF assms], of "length (to_list l)"] by auto
  have "get_next l' = (-1, l')"
    using get_next_end [OF l'(4)] l'(2) end_iter_correct [OF l'(4)] by simp
  with l' show ?thesis by blast
qed

theorem iterator_complete_witness: "fst (drain 3 (reset_iterator (demo_list [5, 6, 7]))) = [5, 6, 7]"
  using iterator_complete [OF demo_list_props(1) [of "[5, 6, 7]"]]
  by (auto simp: eval_nat_numeral simp del: drain.simps)

text \<open>The copy constructor rebuilds the chain bucket by bucket: the copy holds the
  same keys, is well formed and has its iterator at the start.\<close>

theorem copy_same_keys:
  assumes "ul_inv l"
  shows "ul_inv (UnrolledList_copy l) \<and> to_list (UnrolledList_copy l) = to_list l \<and>
    buckets (UnrolledList_copy l) = buckets l \<and> iter (UnrolledList_copy l) = None"
  using copy_correct [OF assms] copy_list_correct [of "buckets l"] assms
  by (simp add: UnrolledList_copy_def ul_inv_def)

theorem copy_same_keys_witness: "to_list (UnrolledList_copy (demo_list [5, 6, 7])) = [5, 6, 7]"
  using copy_same_keys [OF demo_list_props(1) [of "[5, 6, 7]"]] by simp

text \<open>\<open>push_back\<close> and \<open>pop_back\<close> keep the promise of the flag \<open>isSorted\<close>, that the keys
  ascend as signed numbers.\<close>

theorem sorted_flag_push_pop:
  assumes "ul_inv l" and "flag_sound l"
  shows "flag_sound (push_back x l) \<and> (to_list l \<noteq> [] \<longrightarrow> flag_sound (pop_back l))"
  using assms push_back_flag_sound pop_back_flag_sound by blast

theorem sorted_flag_push_pop_witness: "flag_sound (push_back 9 UnrolledList)"
proof -
  have "flag_sound UnrolledList" by (simp add: flag_sound_def sorted_keys_def)
  from sorted_flag_push_pop [OF ul_inv_new this] show ?thesis by blast
qed

text \<open>\<open>remove\<close> does not keep it: it moves the last key forward and leaves the flag as it
  was, here on the list 9, 7, in every build.\<close>

theorem sorted_flag_lost_by_remove:
  "flag_sound (demo_list [5, 7, 9]) \<and> isSorted (remove bld 5 (demo_list [5, 7, 9])) \<and>
   to_list (remove bld 5 (demo_list [5, 7, 9])) = [9, 7] \<and> \<not> flag_sound (remove bld 5 (demo_list [5, 7, 9]))"
proof -
  have el: "5 \<in> set (to_list (demo_list [5, 7, 9]))" by simp
  have "isSorted (fold push_back [5, 7, 9] UnrolledList)" by code_simp
  then have "isSorted (remove bld 5 (demo_list [5, 7, 9]))"
    by (simp add: demo_list_def remove_def set_elem_def split: option.split)
  moreover have "to_list (remove bld 5 (demo_list [5, 7, 9])) = [9, 7]" by (simp add: remove_to_list [OF _ el])
  ultimately show ?thesis by (auto simp: flag_sound_def sorted_keys_def)
qed

section \<open>The hash table\<close>

lemma demo_table_props:
  assumes bld: "USE_AVX512 bld \<Longrightarrow> USE_HOPSCOTCH bld" and xs: "list_all valid_key xs" "xs \<noteq> []" "length xs \<le> 16"
  shows "ht_inv bld (demo_table bld xs)" "keys (demo_table bld xs) = set xs"
  using demo_hashed_props [OF bld xs] xs(2) by (auto simp: demo_table_def hs_inv_def table_ok_def members_def)

text \<open>\<open>reserve\<close> for a positive number of elements makes an empty, well-formed table with a
  power of two of slots, at least twice the elements and fewer than four times them, whatever
  the random hash parameters are; when that would be \<open>2 ^ 31\<close> slots the size is negative and the
  allocation fails.\<close>

theorem reserve_sizes:
  assumes "0 < cap" and "cap \<le> 2 ^ 30"
  shows "if index_bits cap \<le> 30
    then \<exists>t'. reserve bld e cap t = Inr t' \<and> ht_inv bld t' \<and> keys t' = {} \<and>
              capacity t' = 2 ^ M_hash t' \<and> 2 * cap \<le> capacity t' \<and> capacity t' < 4 * cap
    else reserve bld e cap t = Inl AllocFailed"
proof (cases "index_bits cap \<le> 30")
  case True
  with reserve_correct [OF assms, of bld e t] obtain t' where t': "reserve bld e cap t = Inr t'" "ht_inv bld t'"
    "keys t' = {}" "M_hash t' = index_bits cap" "2 * cap \<le> capacity t'" by auto
  have "capacity t' = 2 ^ M_hash t'" using t'(2) by (simp add: ht_inv_def ht_frame_def)
  moreover have "2 ^ index_bits cap < 4 * cap" using index_bits_bounds [OF assms(1)] assms(2) by simp
  ultimately show ?thesis using True t' by auto
next
  case False
  with reserve_correct [OF assms, of bld e t] show ?thesis by simp
qed

theorem reserve_sizes_witness:
  "if index_bits 3 \<le> 30
   then \<exists>t'. reserve default_build demo_env 3 SimpleHashTable = Inr t' \<and> ht_inv default_build t' \<and> keys t' = {} \<and>
     capacity t' = 2 ^ M_hash t' \<and> 2 * 3 \<le> capacity t' \<and> capacity t' < 4 * 3
   else reserve default_build demo_env 3 SimpleHashTable = Inl AllocFailed"
  using reserve_sizes [of 3 default_build demo_env SimpleHashTable] by simp

text \<open>Lane by lane, the vector hash is the scalar hash.\<close>

theorem vector_hash_scalar:
  assumes "length els = 16" and "i < 16"
  shows "vectorHashFunction t els ! i = hashFunction t (els ! i)"
  using assms by (rule vectorHash_nth)

theorem vector_hash_scalar_witness:
  "vectorHashFunction (SimpleHashTable\<lparr>a_hash := 5, b_hash := 3, M_hash := 32\<rparr>) (replicate 16 2) ! 2 = 13"
  using vector_hash_scalar [of "replicate 16 2" 2] by (simp add: hashFunction_def)

text \<open>C36 (functional).  On a well-formed table, \<open>contains\<close> says exactly whether the key is in it, in the
  scalar build and with AVX-512 and hopscotch, also when the caller passes the hash; the one
  exception is the vector lookup that reaches the end of the slots, which loads beyond the array.\<close>

theorem contains_exact:
  assumes "ht_inv bld t" and "valid_key el" and "USE_AVX512 bld \<longrightarrow> USE_HOPSCOTCH bld"
    and "pos = None \<or> pos = Some (home t el)"
  shows "contains bld t el pos =
    (if USE_AVX512 bld \<and> load_past_end t el (home t el) then Inl OutOfBounds else Inr (el \<in> keys t))"
  using contains_correct [OF assms(1,2) _ assms(4)] assms(3) by blast

theorem contains_exact_witness:
  "contains scalar_build (demo_table scalar_build [1, 2, 3]) 2 None = Inr True \<and>
   contains scalar_build (demo_table scalar_build [1, 2, 3]) 5 None = Inr False"
proof -
  note t = demo_table_props [of scalar_build "[1, 2, 3]"]
  have "contains scalar_build (demo_table scalar_build [1, 2, 3]) k None = Inr (k \<in> {1, 2, 3})"
    if "valid_key k" for k
    using contains_exact [of scalar_build "demo_table scalar_build [1, 2, 3]" k None] that t small_keys by simp
  then show ?thesis by simp
qed

text \<open>A well-formed table of 32 slots whose upper half is full, with keys that all hash to slot 16.\<close>

definition full_half :: hash_table where
  "full_half = \<lparr>array = replicate 16 EMPTY_KEY @ map (\<lambda>i. 0x80000000 + word_of_nat i) [0..<16] @ replicate 15 INVAL_KEY,
     capacity = 32, phys_capacity = 47, num_of_keys = 16, number_of_attempts = 16,
     a_hash = 1, b_hash = 0, M_hash = 5\<rparr>"

lemma full_half_cells:
  "list_all (\<lambda>i. (array full_half ! i = INVAL_KEY) = (32 \<le> i)) [0..<47]"
  "list_all (\<lambda>i. (array full_half ! i \<noteq> EMPTY_KEY) = (16 \<le> i)) [0..<32]"
  "list_all (well_placed full_half) [16..<32]"
  "distinct (map ((!) (array full_half)) [16..<32])"
  by code_simp+

lemma full_half_inv: "ht_inv default_build full_half"
proof -
  have "(array full_half ! i = INVAL_KEY) = (32 \<le> i)" if "i < 47" for i
    using full_half_cells(1) that by (simp add: list_all_iff)
  then have "ht_frame default_build full_half"
    unfolding ht_frame_def by (simp add: full_half_def VECTOR_SIZE_def HS_BUCKET_SIZE_16)
  moreover have used: "used_slots full_half = {16..<32}"
    using full_half_cells(2) by (auto simp: list_all_iff used_slots_def full_half_def)
  moreover have "inj_on ((!) (array full_half)) {16..<32}" "\<forall>i \<in> {16..<32}. well_placed full_half i"
    using full_half_cells(3,4) by (simp_all only: distinct_map list_all_iff set_upt)
  ultimately show ?thesis by (simp add: ht_inv_def) (simp add: full_half_def)
qed

text \<open>The exception occurs: in this table of 16 keys in 32 slots, which the invariant
  allows, looking up one more key that hashes to slot 16 loads sixteen keys from position 32 of an
  array of 47.  The scalar lookup of the same key in the same cells answers that it is absent.\<close>

theorem contains_loads_past_end:
  "ht_inv default_build full_half \<and> contains default_build full_half 0x80000010 None = Inl OutOfBounds \<and>
   contains_loop full_half 0x80000010 (number_of_attempts full_half) 16 = Inr False"
proof -
  have "contains default_build full_half 0x80000010 None = Inl OutOfBounds" by code_simp
  moreover have "contains_loop full_half 0x80000010 (number_of_attempts full_half) 16 = Inr False" by code_simp
  ultimately show ?thesis using full_half_inv by blast
qed

text \<open>C37 (functional).  The gathering lookup of sixteen lanes answers, for every lane of the mask, what
  the scalar lookup answers, unless some lane's lookup runs past the array.\<close>

theorem vector_lookup_lanes:
  assumes "ht_inv bld t" and "USE_AVX512 bld" and "USE_HOPSCOTCH bld" and "length els = 16"
    and "\<forall>i < 16. bit m i \<longrightarrow> valid_key (els ! i)"
  shows "if \<exists>i < 16. bit m i \<and> load_past_end t (els ! i) (home t (els ! i))
    then vector_lookup bld t els m = Inl OutOfBounds
    else \<exists>r. vector_lookup bld t els m = Inr r \<and> (\<forall>i < 16. bit r i \<longleftrightarrow> bit m i \<and> els ! i \<in> keys t)"
  using vector_lookup_correct [OF assms(1-4), of m] assms(5) by simp

theorem vector_lookup_lanes_witness:
  "if \<exists>i < 16. bit (1 :: mmask16) i \<and> load_past_end full_half (replicate 16 5 ! i) (home full_half (replicate 16 5 ! i))
   then vector_lookup default_build full_half (replicate 16 5) 1 = Inl OutOfBounds
   else \<exists>r. vector_lookup default_build full_half (replicate 16 5) 1 = Inr r \<and>
     (\<forall>i < 16. bit r i \<longleftrightarrow> bit (1 :: mmask16) i \<and> replicate 16 5 ! i \<in> keys full_half)"
proof -
  have "\<forall>i < 16. bit (1 :: mmask16) i \<longrightarrow> valid_key (replicate 16 5 ! i)" by simp
  from vector_lookup_lanes [OF full_half_inv _ _ _ this] show ?thesis by simp
qed

text \<open>C35 (invariant).  Hopscotch insertion of a key into a table with room: it ends with a well-formed
  table that holds the key and all keys it held before, displaced or rebuilt larger as needed, and
  each of them within sixteen slots of its home; or it stops by the explicit exit or because the larger
  array cannot be allocated, never for another reason and never by recursing for ever.\<close>

theorem hopscotch_insert_keeps:
  assumes "USE_HOPSCOTCH bld" and "valid_key el" and "ht_inv bld t" and "2 * card (insert el (keys t)) \<le> capacity t"
  shows "case hopscotchInsert bld e el t of
      Inl er \<Rightarrow> er = AllocFailed \<or> er = HopscotchFailed
    | Inr t' \<Rightarrow> ht_inv bld t' \<and> keys t' = insert el (keys t) \<and> M_hash t \<le> M_hash t' \<and>
        num_of_keys t' = card (insert el (keys t)) \<and>
        (\<forall>i \<in> used_slots t'. distance i (home t' (array t' ! i)) (capacity t') < 16)"
proof -
  have "outcome (hopscotchInsert bld e el t)
    (\<lambda>t'. ht_inv bld t' \<and> keys t' = insert el (keys t) \<and> M_hash t \<le> M_hash t')"
    by (rule hopscotchInsert_correct [OF assms])
  moreover have "distance i (home t' (array t' ! i)) (capacity t') < 16"
    if "ht_inv bld t'" "i \<in> used_slots t'" for t' i
    using that assms(1) by (auto simp: ht_inv_def ht_frame_def well_placed_def Let_def HS_BUCKET_SIZE_16)
  ultimately show ?thesis
    by (cases "hopscotchInsert bld e el t") (auto simp: outcome_def give_up_def num_of_keys_card)
qed

definition fresh_table :: "build \<Rightarrow> hash_table" where
  "fresh_table bld = projr (reserve bld demo_env 3 SimpleHashTable)"

lemma fresh_table_props:
  "ht_inv bld (fresh_table bld)" "keys (fresh_table bld) = {}" "6 \<le> capacity (fresh_table bld)"
proof -
  have "index_bits 3 = 3" by code_simp
  with reserve_correct [of 3 bld demo_env SimpleHashTable] obtain t where
    "reserve bld demo_env 3 SimpleHashTable = Inr t" "ht_inv bld t" "keys t = {}" "6 \<le> capacity t" by auto
  then show "ht_inv bld (fresh_table bld)" "keys (fresh_table bld) = {}" "6 \<le> capacity (fresh_table bld)"
    by (simp_all add: fresh_table_def)
qed

theorem hopscotch_insert_keeps_witness:
  "case hopscotchInsert default_build demo_env 5 (fresh_table default_build) of
      Inl er \<Rightarrow> er = AllocFailed \<or> er = HopscotchFailed
    | Inr t' \<Rightarrow> keys t' = {5}"
proof -
  have "2 * card (insert 5 (keys (fresh_table default_build))) \<le> capacity (fresh_table default_build)"
    using fresh_table_props [of default_build] by simp
  from hopscotch_insert_keeps [OF _ small_keys(5) fresh_table_props(1) this, of demo_env]
    fresh_table_props(2) [of default_build]
  show ?thesis by (cases "hopscotchInsert default_build demo_env 5 (fresh_table default_build)") auto
qed

text \<open>While a table holds fewer than sixteen keys, hopscotch insertion succeeds outright:
  no displacement can fail, nothing is rebuilt, the capacity stays.\<close>

theorem hopscotch_insert_small_succeeds:
  assumes "USE_HOPSCOTCH bld" and "valid_key el" and "ht_inv bld t" and "2 * card (insert el (keys t)) \<le> capacity t"
    and "el \<in> keys t \<or> num_of_keys t < HS_BUCKET_SIZE"
  shows "\<exists>t'. hopscotchInsert bld e el t = Inr t' \<and> ht_inv bld t' \<and> keys t' = insert el (keys t) \<and>
    capacity t' = capacity t"
  using hopscotchInsert_small [OF assms] by blast

theorem hopscotch_insert_small_succeeds_witness:
  "\<exists>t'. hopscotchInsert default_build demo_env 5 (fresh_table default_build) = Inr t' \<and> keys t' = {5}"
proof -
  have "2 * card (insert 5 (keys (fresh_table default_build))) \<le> capacity (fresh_table default_build)"
    "5 \<in> keys (fresh_table default_build) \<or> num_of_keys (fresh_table default_build) < HS_BUCKET_SIZE"
    using fresh_table_props [of default_build] num_of_keys_card [OF fresh_table_props(1), of default_build]
    by (simp_all add: HS_BUCKET_SIZE_16)
  from hopscotch_insert_small_succeeds [OF _ small_keys(5) fresh_table_props(1) this, of demo_env] fresh_table_props(2)
  show ?thesis by auto
qed

text \<open>Without hopscotch and AVX-512, insertion into a table with a free slot always
  succeeds: it adds a new key, keeps a present one and never runs out of slots to probe.\<close>

theorem linear_insert_succeeds:
  assumes "ht_inv bld t" and "valid_key el" and "num_of_keys t < capacity t"
    and "\<not> USE_AVX512 bld" and "\<not> USE_HOPSCOTCH bld"
  shows "\<exists>t'. ht_insert bld el t = Inr t' \<and> ht_inv bld t' \<and> keys t' = insert el (keys t) \<and> capacity t' = capacity t"
  using ht_insert_correct [OF assms] by blast

theorem linear_insert_succeeds_witness:
  "\<exists>t'. ht_insert scalar_build 5 (fresh_table scalar_build) = Inr t' \<and> keys t' = {5}"
proof -
  have "num_of_keys (fresh_table scalar_build) < capacity (fresh_table scalar_build)"
    using fresh_table_props [of scalar_build] num_of_keys_card [OF fresh_table_props(1), of scalar_build] by simp
  from linear_insert_succeeds [OF fresh_table_props(1) small_keys(5) this] fresh_table_props(2)
  show ?thesis by auto
qed

section \<open>The hash set\<close>

text \<open>C39 (functional).  Hashing a set in list mode moves every key from the list to the table and
  drops repeated keys.  It ends otherwise only for an empty list, where the result of the
  undefined \<open>1 << 32\<close> decides, or with more than sixteen different keys in the hopscotch build.\<close>

theorem hash_set_moves_keys:
  assumes "hs_inv bld s" and "\<not> isHashed s" and "length (iteration s) \<le> 2 ^ 28"
  shows "case hashSet bld e s of
      Inl er \<Rightarrow> (if iteration s = [] then shl_overflow e = Inl er
                 else (er = AllocFailed \<or> er = HopscotchFailed) \<and> USE_HOPSCOTCH bld \<and> 16 < card (set (iteration s)))
    | Inr s' \<Rightarrow> hs_inv bld s' \<and> isHashed s' \<and> to_list (elems s') = [] \<and> members s' = set (iteration s) \<and>
        distinct (iteration s') \<and> set (iteration s') = set (iteration s) \<and> hs_size s' = card (set (iteration s))"
proof -
  have it: "iteration s = to_list (elems s)" using assms(2) by (simp add: iteration_def)
  have t: "distinct (iteration s')" "set (iteration s') = members s'" "to_list (elems s') = []"
    if "hs_inv bld s'" "isHashed s'" for s'
  proof -
    have ok: "table_ok bld (hashed_elems s')" using that by (simp add: hs_inv_def)
    note k = table_keys_set [OF ok]
    have "distinct (table_keys (hashed_elems s'))"
      using ok table_keys_distinct [of bld "hashed_elems s'"] k by (auto simp: table_ok_def)
    then show "distinct (iteration s')" "set (iteration s') = members s'" "to_list (elems s') = []"
      using that k by (simp_all add: iteration_def members_def hs_inv_def)
  qed
  show ?thesis
    using hashSet_correct [OF assms(1,2), of e] assms(3) t
    by (cases "hashSet bld e s") (auto simp: it give_up_def split: if_splits)
qed

theorem hash_set_moves_keys_witness:
  "hashSet default_build demo_env (demo_set [1, 2, 3]) = Inr (demo_hashed default_build [1, 2, 3]) \<and>
   members (demo_hashed default_build [1, 2, 3]) = {1, 2, 3} \<and> hs_size (demo_hashed default_build [1, 2, 3]) = 3"
proof -
  note d = demo_set_props [of default_build "[1, 2, 3]"]
  have "hashSet default_build demo_env (demo_set [1, 2, 3]) = Inr (demo_hashed default_build [1, 2, 3])"
    by (rule demo_hashed_props) simp_all
  moreover have "length (iteration (demo_set [1, 2, 3])) \<le> 2 ^ 28" using d by simp
  moreover have card: "card {1, 2, 3 :: key} = 3" by code_simp
  ultimately show ?thesis
    using hash_set_moves_keys [of default_build "demo_set [1, 2, 3]" demo_env] d card by simp
qed

text \<open>C38 (functional, equivalence).  The intersection of a list-mode set with any set keeps, in order, the
  keys that are also in the other.  The scalar loop and the loop over vectors of sixteen lanes with
  its mask at the tail give the same result, except where a vector lookup runs past the array.\<close>

theorem intersect_is_intersection:
  assumes "hs_inv bld this" and "\<not> isHashed this" and "hs_inv bld other"
  shows "\<exists>novi. intersect bld this (Some other) = (if all_safe bld this other then Inr (Some novi) else Inl OutOfBounds) \<and>
    hs_inv bld novi \<and> \<not> isHashed novi \<and> iteration novi = filter (\<lambda>x. x \<in> members other) (iteration this)"
  using assms by (rule intersect_correct)

theorem intersect_is_intersection_witness:
  "\<exists>novi. intersect scalar_build (demo_set [2, 3, 4]) (Some (demo_hashed scalar_build [1, 2, 3])) = Inr (Some novi) \<and>
    iteration novi = [2, 3]"
proof -
  note d = demo_set_props [of scalar_build "[2, 3, 4]"] and h = demo_hashed_props [of scalar_build "[1, 2, 3]"]
  show ?thesis
    using intersect_is_intersection [of scalar_build "demo_set [2, 3, 4]" "demo_hashed scalar_build [1, 2, 3]"] d h
    by (auto simp: all_safe_scalar)
qed

text \<open>The size of the intersection is counted without building it, by the
  same two loops, the vector one with population counts, and agrees with the intersection.\<close>

theorem intersection_size_counts:
  assumes "hs_inv bld this" and "\<not> isHashed this" and "hs_inv bld other"
  shows "intersection_size bld this (Some other) = (if all_safe bld this other
    then Inr (length (filter (\<lambda>x. x \<in> members other) (iteration this))) else Inl OutOfBounds)"
  using assms by (rule intersection_size_correct)

theorem intersection_size_counts_witness:
  "intersection_size scalar_build (demo_set [2, 3, 4]) (Some (demo_hashed scalar_build [1, 2, 3])) = Inr 2"
proof -
  note d = demo_set_props [of scalar_build "[2, 3, 4]"] and h = demo_hashed_props [of scalar_build "[1, 2, 3]"]
  show ?thesis
    using intersection_size_counts [of scalar_build "demo_set [2, 3, 4]" "demo_hashed scalar_build [1, 2, 3]"] d h
    by (auto simp: all_safe_scalar)
qed

text \<open>\<open>exclude\<close> keeps, in order, the keys that are not in the other set.\<close>

theorem exclude_is_difference:
  assumes "hs_inv bld this" and "hs_inv bld other"
  shows "\<exists>novi. exclude bld this (Some other) = (if all_safe bld this other then Inr (Some novi) else Inl OutOfBounds) \<and>
    hs_inv bld novi \<and> \<not> isHashed novi \<and> iteration novi = filter (\<lambda>x. x \<notin> members other) (iteration this)"
  using assms by (rule exclude_correct)

theorem exclude_is_difference_witness:
  "\<exists>novi. exclude scalar_build (demo_set [2, 3, 4]) (Some (demo_hashed scalar_build [1, 2, 3])) = Inr (Some novi) \<and>
    iteration novi = [4]"
proof -
  note d = demo_set_props [of scalar_build "[2, 3, 4]"] and h = demo_hashed_props [of scalar_build "[1, 2, 3]"]
  show ?thesis
    using exclude_is_difference [of scalar_build "demo_set [2, 3, 4]" "demo_hashed scalar_build [1, 2, 3]"] d h
    by (auto simp: all_safe_scalar)
qed

text \<open>\<open>include\<close>, called the union in the header, lists the keys of both sets one after the
  other: a key of both appears twice, so the result is a set only if they have none in common.\<close>

theorem include_appends:
  assumes "hs_inv bld this" and "hs_inv bld other"
  shows "\<exists>novi. set_include this (Some other) = Some novi \<and> hs_inv bld novi \<and> iteration novi = iteration this @ iteration other \<and>
    (distinct (iteration novi) \<longleftrightarrow> distinct (iteration this) \<and> distinct (iteration other) \<and>
      set (iteration this) \<inter> set (iteration other) = {})"
  using set_include_correct [OF assms] by auto

theorem include_appends_witness:
  "\<exists>novi. set_include (demo_set [1, 2]) (Some (demo_set [2, 3])) = Some novi \<and> iteration novi = [1, 2, 2, 3]"
  using include_appends [of scalar_build "demo_set [1, 2]" "demo_set [2, 3]"]
    demo_set_props [of scalar_build "[1, 2]"] demo_set_props [of scalar_build "[2, 3]"] by auto

end
