(* ===== verification/Examples.thy ===== *)
theory Examples
  imports Failures Containers
begin

text \<open>
  A small document, the program asked to enumerate it, and the graph, the guard table and the task
  it works on: the inputs at which the properties are shown to apply.
\<close>

section \<open>The program's input\<close>

definition demo_library :: library where
  "demo_library = \<lparr>map_order = (\<lambda>xs. xs), set_begin = hd\<rparr>"

definition total_env :: env where
  "total_env = demo_env\<lparr>shl_overflow := Inr 0\<rparr>"

text \<open>A triangle 2, 3, 4 with an edge to 5.\<close>

definition demo_rows :: "row list" where
  "demo_rows = [Comment CHR ''%'' ''demo'', Header 4 4 4, Edge 2 3, Edge 3 4, Edge 2 4, Edge 4 5]"

definition demo_args :: "string list" where
  "demo_args = [''bk'', ''-f'', ''data/demo.mtx'', ''-n'', ''2'', ''-p'']"

definition demo_system :: system where
  "demo_system = \<lparr>project_root = None,
     files = (\<lambda>path. if path = ''data/demo.mtx'' then Some (render demo_rows @ ''5 2'') else None)\<rparr>"

definition demo_options :: options where
  "demo_options = \<lparr>nthr = 2, setsMempool = False, memBlockSize = 20480, sampling_int = 100000, CollectMemUsage = False,
     opt_ord = None, opt_thresh = 30, mem_threshold = 20, opt_max_clq = -1, opt_s = 0\<rparr>"

definition demo_config :: config where
  "demo_config = run_config scalar_build total_env demo_library demo_options"

lemma demo_library_ok: "library_ok demo_library"
  by (simp add: library_ok_def demo_library_def)

lemma demo_document: "document_ok demo_rows" "CHR 0x0A \<notin> set ''5 2''"
  "edges demo_rows = [(2, 3), (3, 4), (2, 4), (4, 5)]"
  by (simp_all add: demo_rows_def document_ok_def)

lemma demo_reads: "read_options demo_args = Inr demo_options"
  by (simp add: read_options_def demo_args_def number_option_def cmdOptionExists_def string_of_def stoi_def sto_def
      isspace_def isdigit_def digits_value_def demo_options_def Let_def)

lemma demo_path: "input_path demo_system demo_args = Inr ''data/demo.mtx''"
  "files demo_system ''data/demo.mtx'' = Some (render demo_rows @ ''5 2'')"
  by (simp_all add: input_path_def demo_system_def demo_args_def cmdOptionExists_def string_of_def)

lemma demo_config_fields [simp]:
  "target demo_config = scalar_build" "host demo_config = total_env" "stdlib demo_config = demo_library"
  "subgraphBased demo_config = 0" "max_clq_size demo_config = -1" "PX_threshold demo_config = 30"
  "degeneracyOrd demo_config" 
  by (simp_all add: demo_config_def run_config_def demo_options_def)

lemma demo_sane: "sane demo_config" "within demo_config k"
  by (simp_all add: sane_def within_def)

section \<open>The graph\<close>

text \<open>On a build without vector instructions and hopscotch hashing nothing fails.\<close>

lemma demo_total: "ends scalar_build total_env r Q \<Longrightarrow> \<exists>x. r = Inr x \<and> Q x"
  by (erule ends_total) (simp_all add: total_env_def)

lemma not_excused: "\<not> excused scalar_build total_env er"
  by (simp add: excused_def total_env_def)

definition demo_graph :: graph where
  "demo_graph = projr (read_graph demo_config (render demo_rows @ ''5 2''))"

lemma demo_graph: "read_graph demo_config (render demo_rows @ ''5 2'') = Inr demo_graph" "prepared demo_config demo_rows demo_graph"
proof -
  have "ends scalar_build total_env (read_graph demo_config (render demo_rows @ ''5 2'')) (prepared demo_config demo_rows)"
    using read_graph_ends [of demo_config demo_rows "''5 2''"] demo_library_ok demo_document by simp
  from demo_total [OF this] show "read_graph demo_config (render demo_rows @ ''5 2'') = Inr demo_graph"
    "prepared demo_config demo_rows demo_graph" by (auto simp: demo_graph_def)
qed

lemma demo_graph_facts:
  "input_ok demo_config demo_graph" "numbered demo_graph" "graph_ok scalar_build demo_graph" "ordered demo_config demo_graph"
  "verts demo_graph = {2, 3, 4, 5}" "abs_adj demo_graph = joined [(2, 3), (3, 4), (2, 4), (4, 5)]"
proof -
  note p = demo_graph(2)
  show i: "input_ok demo_config demo_graph" and "numbered demo_graph" using p by (simp_all add: prepared_def)
  from i show "graph_ok scalar_build demo_graph" "ordered demo_config demo_graph" by (simp_all add: input_ok_def)
  have "edge_keys demo_rows = [(2, 3), (3, 4), (2, 4), (4, 5)]" by (simp add: edge_keys_def demo_document)
  with p show "verts demo_graph = {2, 3, 4, 5}" "abs_adj demo_graph = joined [(2, 3), (3, 4), (2, 4), (4, 5)]"
    by (auto simp: prepared_def ends_of_def)
qed

lemma demo_start: "BronKerboschDegeneracy demo_config demo_graph = Inr (Runs.start demo_config demo_graph)"
  by (rule start_run [OF demo_graph_facts(2)])

text \<open>Of the vertices 4 and 5, which are joined, one comes first in any order.\<close>

lemma demo_later:
  assumes "ordered c demo_graph"
  shows "\<exists>v \<in> {4, 5}. v \<in> verts demo_graph \<and> later c demo_graph v \<noteq> {}"
proof -
  have "(4 :: key) \<noteq> 5" by (simp del: minus_1_EMPTY)
  then have "root_key c demo_graph 4 \<noteq> root_key c demo_graph 5"
    using inj_on_eq_iff [OF root_key_inj [OF assms], of 4 5] by (simp add: demo_graph_facts(5) del: minus_1_EMPTY)
  moreover have "5 \<in> abs_adj demo_graph 4" "4 \<in> abs_adj demo_graph 5"
    unfolding demo_graph_facts(6) by (simp_all add: joined_def del: minus_1_EMPTY)
  ultimately have "later c demo_graph 4 \<noteq> {} \<or> later c demo_graph 5 \<noteq> {}"
    unfolding later_def by (auto simp: linorder_neq_iff)
  then show ?thesis by (auto simp: demo_graph_facts(5))
qed

text \<open>The maximal cliques of the document.\<close>

lemma maximal_within:
  assumes "D.maximal_clique es C" and K: "D.clique es K" "K \<subseteq> ends_of es" and "C \<subseteq> K"
  shows "C = K"
proof (rule ccontr)
  assume "C \<noteq> K"
  then obtain w where w: "w \<in> K" "w \<notin> C" using assms(4) by blast
  have "D.clique es (insert w C)" using K(1) w(1) assms(4) unfolding D.clique_def by blast
  with assms(1) w K(2) show False unfolding D.maximal_clique_def by blast
qed

lemma demo_cliques: "D.maximal_clique (edges demo_rows) C \<longleftrightarrow> C = {2, 3, 4} \<or> C = {4, 5}"
proof -
  let ?es = "[(2, 3), (3, 4), (2, 4), (4, 5)] :: (nat \<times> nat) list"
  have j: "joined ?es 2 = {3, 4}" "joined ?es 3 = {2, 4}" "joined ?es 4 = {2, 3, 5}" "joined ?es 5 = {4}"
    by (auto simp: joined_def)
  have e: "ends_of ?es = {2, 3, 4, 5}" by (auto simp: ends_of_def)
  have m: "D.maximal_clique ?es K \<longleftrightarrow> K \<subseteq> {2, 3, 4, 5} \<and> D.clique ?es K \<and>
    (\<forall>w \<in> {2, 3, 4, 5} - K. \<not> D.clique ?es (insert w K))" for K
    unfolding D.maximal_clique_def by (simp only: e)
  have c3: "D.clique ?es {2, 3, 4}" and c2: "D.clique ?es {4, 5}" by (auto simp: D.clique_def j)
  have "C = {2, 3, 4} \<or> C = {4, 5}" if C: "D.maximal_clique ?es C"
  proof -
    have sub: "C \<subseteq> {2, 3, 4, 5}" and cl: "D.clique ?es C" using C unfolding m by blast+
    show ?thesis
    proof (cases "5 \<in> C")
      case True
      have "v \<in> {5, 4}" if "v \<in> C" for v
      proof (cases "v = 5")
        case False
        with cl True that have "v \<in> joined ?es 5" by (simp only: D.clique_def)
        then show ?thesis unfolding j(4) by simp
      qed simp
      then have "C \<subseteq> {4, 5}" by blast
      from maximal_within [OF C c2 _ this] show ?thesis by (simp add: e)
    next
      case False
      then have "C \<subseteq> {2, 3, 4}" using sub by blast
      from maximal_within [OF C c3 _ this] show ?thesis by (simp add: e)
    qed
  qed
  moreover have "\<not> D.clique ?es (insert 5 {2, 3, 4})"
  proof
    assume "D.clique ?es (insert 5 {2, 3, 4})"
    then have "2 \<in> joined ?es 5" by (simp add: D.clique_def)
    with j(4) show False by simp
  qed
  moreover have "\<not> D.clique ?es (insert w {4, 5})" if "w = 2 \<or> w = 3" for w
  proof
    assume "D.clique ?es (insert w {4, 5})"
    then have "w \<in> joined ?es 5" using that by (auto simp: D.clique_def)
    with j(4) that show False by auto
  qed
  ultimately show ?thesis
    unfolding demo_document(3) using c3 c2 by (auto simp: m)
qed

lemma demo_counts:
  "card {C. D.maximal_clique (edges demo_rows) C \<and> card C = 3} = 1"
  "card {C. D.maximal_clique (edges demo_rows) C \<and> card C = 2} = 1"
proof -
  have "{C. D.maximal_clique (edges demo_rows) C \<and> card C = 3} = {{2, 3, 4}}"
    "{C. D.maximal_clique (edges demo_rows) C \<and> card C = 2} = {{4, 5}}"
    by (auto simp: demo_cliques)
  then show "card {C. D.maximal_clique (edges demo_rows) C \<and> card C = 3} = 1"
    "card {C. D.maximal_clique (edges demo_rows) C \<and> card C = 2} = 1" by simp_all
qed

end
