(* ===== verification/Results.thy ===== *)
theory Results
  imports Examples
begin

text \<open>
  The properties of the enumeration: whole runs, single calls of \<open>execute\<close>, and the steps a call is
  made of.
\<close>

section \<open>Whole runs\<close>

text \<open>C2 (functional).  A document, in a file that may go on after its last newline, is read, and the tasks for
  its vertices are executed by \<open>n\<close> worker threads, in any order a scheduler may choose.  When no task is left to
  execute, then either the run was cut short by one of the errors the build is excused for (none in a build without
  the vector instructions and hopscotch hashing), or every task is gone, the root iteration may go on, and the
  histograms of the threads together hold, for every size within the limit, the number of maximal cliques of the
  document that have this size.\<close>

theorem document_enumerated:
  assumes "sane c" and "library_ok (stdlib c)" and "USE_AVX512 (target c) \<Longrightarrow> USE_HOPSCOTCH (target c)"
    and "document_ok rs" and "CHR 0x0A \<notin> set tail" and "edges rs \<noteq> []" and "length (edges rs) \<le> 2 ^ 27"
    and "degeneracyOrd c \<Longrightarrow> \<exists>(a, b) \<in> set (edges rs). a \<noteq> b" and "0 < n"
    and "read_graph c (render rs @ tail) = Inr g" and "BronKerboschDegeneracy c g = Inr w0"
    and "steps c n w0 w" and "\<nexists>w'. step c n w w'"
  shows "case failure w of
      Some er \<Rightarrow> excused (target c) (host c) er
    | None \<Rightarrow> (\<forall>s \<in> set (slots w). phase_of s = Gone) \<and> root_refs w = 0 \<and>
        (\<forall>k. recorded n (hists w) k = (if within c k then card {C. D.maximal_clique (edges rs) C \<and> card C = k} else 0))"
proof -
  from read_graph_ends [of c rs tail] assms(2-5,7,8,10) have "prepared c rs g" by simp
  from prepared_run [OF assms(1) this assms(4,6,9,11-13)] show ?thesis .
qed

theorem document_enumerated_witness:
  "\<exists>w. steps demo_config 2 (Runs.start demo_config demo_graph) w \<and> failure w = None \<and>
    recorded 2 (hists w) 3 = 1 \<and> recorded 2 (hists w) 2 = 1"
proof -
  note f = demo_graph_facts
  have "on_course demo_config demo_graph 2 (Runs.start demo_config demo_graph)" by (rule start_on_course [OF f(2)])
  from runs_stop [OF demo_sane(1) f(1) this] obtain w where
    w: "steps demo_config 2 (Runs.start demo_config demo_graph) w" "\<nexists>w'. step demo_config 2 w w'" by blast
  from document_enumerated [OF demo_sane(1) _ _ demo_document(1,2) _ _ _ _ demo_graph(1) demo_start w] demo_library_ok
  have "failure w = None \<and> (\<forall>k. recorded 2 (hists w) k = card {C. D.maximal_clique (edges demo_rows) C \<and> card C = k})"
    by (auto simp: demo_document(3) not_excused demo_sane split: option.splits)
  with w(1) demo_counts show ?thesis by auto
qed

text \<open>C3 (termination).  Every run ends: it has at most as many steps as the bound on how often tasks are executed,
  \<open>2 * 3 ^ d + 1\<close> for a vertex with \<open>d\<close> later neighbours, and a step for a failure; and from the start some
  run comes to a world where no step is left.\<close>

theorem run_terminates:
  assumes "sane c" and "input_ok c g" and "numbered g" and "BronKerboschDegeneracy c g = Inr w0"
  shows "((step c n ^^ m) w0 w \<longrightarrow> int m \<le> (\<Sum>v \<in> verts g. 2 * 3 ^ card (later c g v) + 1) + 1) \<and>
    (\<exists>w. steps c n w0 w \<and> (\<nexists>w'. step c n w w'))"
proof -
  have w0: "w0 = Runs.start c g" using assms(4) start_run [OF assms(3), of c] by simp
  note on = start_on_course [OF assms(3), of c n]
  have "load c g (slots w0) = (\<Sum>v \<leftarrow> vertexOrdering g. 2 * 3 ^ card (later c g v) + 1)"
    by (simp add: w0 load_def total_start weight_def add.commute)
  also have "\<dots> = (\<Sum>v \<in> verts g. 2 * 3 ^ card (later c g v) + 1)"
    using assms(3) by (simp add: numbered_def sum_list_distinct_conv_sum_set)
  finally have "load c g (slots w0) = (\<Sum>v \<in> verts g. 2 * 3 ^ card (later c g v) + 1)" .
  then show ?thesis using steps_bounded [OF assms(1,2) on, of m w] runs_stop [OF assms(1,2) on] by (auto simp: w0)
qed

theorem run_terminates_witness:
  "\<exists>w. steps demo_config 2 (Runs.start demo_config demo_graph) w \<and> (\<nexists>w'. step demo_config 2 w w')"
  using run_terminates [OF demo_sane(1) demo_graph_facts(1,2) demo_start, of 2] by blast

text \<open>C4 (liveness).  No run gets stuck: in every world of a run that has not failed a step is possible exactly
  if some task is left.  So no task waits for children that are gone, and every count of references comes down.\<close>

theorem run_not_stuck:
  assumes "sane c" and "input_ok c g" and "numbered g" and "0 < n" and "BronKerboschDegeneracy c g = Inr w0"
    and "steps c n w0 w" and "failure w = None"
  shows "(\<exists>w'. step c n w w') \<longleftrightarrow> (\<exists>s \<in> set (slots w). phase_of s \<noteq> Gone)"
proof -
  have w0: "w0 = Runs.start c g" using assms(5) start_run [OF assms(3), of c] by simp
  from steps_on_course [OF assms(1-3)] assms(6,7) have ok: "world_ok c g w" by (fastforce simp: on_course_def w0)
  have "\<exists>s \<in> set (slots w). phase_of s \<noteq> Gone" if "step c n w w'" for w'
    using that by cases (metis nth_mem phase.distinct(3))+
  moreover have "\<exists>w'. step c n w w'" if "s \<in> set (slots w)" "phase_of s \<noteq> Gone" for s
    using some_step [OF ok _ assms(7,4)] that by (auto simp: in_set_conv_nth live_def)
  ultimately show ?thesis by blast
qed

theorem run_not_stuck_witness: "\<exists>w'. step demo_config 2 (Runs.start demo_config demo_graph) w'"
proof -
  let ?w = "Runs.start demo_config demo_graph"
  have "vertexOrdering demo_graph \<noteq> []" using demo_graph_facts(2,5) by (auto simp: numbered_def)
  then have "\<exists>s \<in> set (slots ?w). phase_of s \<noteq> Gone"
    by (cases "vertexOrdering demo_graph") (simp_all add: Runs.start_def new_slot_def)
  moreover have "failure ?w = None" by (simp add: Runs.start_def)
  ultimately show ?thesis
    using run_not_stuck [OF demo_sane(1) demo_graph_facts(1,2) _ demo_start, of 2 ?w] by simp
qed

text \<open>C5 (invariant).  In every world of a run that has not failed: every task is in order, knows its parent, and
  its count of references is that of its children (and one until it has become a continuation); the guards have the
  references the tasks hold; and what is recorded, with what the tasks have still to count, is the number of maximal
  cliques of every size.\<close>

theorem run_keeps_count:
  assumes "sane c" and "input_ok c g" and "numbered g" and "verts g \<noteq> {}" and "BronKerboschDegeneracy c g = Inr w0"
    and "steps c n w0 w" and "failure w = None"
  shows "world_ok c g w \<and> (\<forall>k. int (recorded n (hists w) k) + outstanding c g (slots w) k =
    (if within c k then int (card {C. G.maximal_clique g C \<and> card C = k}) else 0))"
proof -
  have w0: "w0 = Runs.start c g" using assms(5) start_run [OF assms(3), of c] by simp
  from steps_on_course [OF assms(1-3) assms(6) [unfolded w0]] assms(7) show ?thesis
    unfolding start_outstanding [OF assms(3,2,4), symmetric] by (simp add: on_course_def)
qed

theorem run_keeps_count_witness:
  "outstanding demo_config demo_graph (slots (Runs.start demo_config demo_graph)) 3 =
    int (card {C. G.maximal_clique demo_graph C \<and> card C = 3})"
proof -
  have "failure (Runs.start demo_config demo_graph) = None" "recorded 2 (hists (Runs.start demo_config demo_graph)) 3 = 0"
    by (simp_all add: Runs.start_def recorded_def)
  note z = this
  have ne: "verts demo_graph \<noteq> {}" by (simp add: demo_graph_facts(5))
  from run_keeps_count [OF demo_sane(1) demo_graph_facts(1,2) ne demo_start rtranclp.rtrancl_refl z(1), of 2]
  have "int (recorded 2 (hists (Runs.start demo_config demo_graph)) 3) +
      outstanding demo_config demo_graph (slots (Runs.start demo_config demo_graph)) 3 =
    int (card {C. G.maximal_clique demo_graph C \<and> card C = 3})" unfolding if_P [OF demo_sane(2)] by blast
  then show ?thesis unfolding z(2) by simp
qed

section \<open>One call of execute\<close>

definition demo_call :: state where
  "demo_call = call 0 (Runs.start demo_config demo_graph)"

lemma demo_call_ok: "task_ok demo_config demo_graph (guards demo_call) (this demo_call)" "\<not> isContinuation (this demo_call)"
proof -
  have "vertexOrdering demo_graph \<noteq> []" using demo_graph_facts(2,5) by (auto simp: numbered_def)
  then have l: "0 < length (slots (Runs.start demo_config demo_graph))" by (simp add: Runs.start_def)
  then have "slots (Runs.start demo_config demo_graph) ! 0 = new_slot (root_of demo_config (vertexOrdering demo_graph ! 0))"
    by (simp add: Runs.start_def)
  then show "\<not> isContinuation (this demo_call)" by (simp add: demo_call_def call_def new_slot_def)
  have "live (slots (Runs.start demo_config demo_graph) ! 0)"
    using l by (simp add: Runs.start_def new_slot_def live_def)
  with l start_ok [OF demo_graph_facts(2), of demo_config]
  show "task_ok demo_config demo_graph (guards demo_call) (this demo_call)"
    by (simp add: world_ok_def slot_ok_def demo_call_def call_def)
qed

text \<open>C6 (refinement).  In every sub-graph mode, one call of \<open>execute\<close> on a task in order is a step of the abstract
  recursion.  A task that is no continuation comes back to be executed again, or as a continuation, in order, with at most
  one child in order; what was recorded by the call, what the task has still to count and what the child has to count
  add up to what the task had to count; references to guards are only moved between the task and its child, taken or given up;
  and the work left is less.  A continuation is finished and gives up its reference, if it has one.\<close>

theorem execute_refines:
  assumes "sane c" and "input_ok c g" and "task_ok c g (guards st) (this st)"
  shows "ends (target c) (host c) (execute c thr st)
    (if isContinuation (this st) then retired c st else advanced c g thr st)"
  by (rule execute_ends [OF assms])

theorem execute_refines_witness:
  "\<exists>r a st'. execute demo_config 0 demo_call = Inr (r, a, st') \<and> conserves demo_config demo_graph 0 demo_call a st' \<and>
    weight demo_config demo_graph (this st') + given_weight demo_config demo_graph a < weight demo_config demo_graph (this demo_call)"
proof -
  have "ends scalar_build total_env (execute demo_config 0 demo_call) (advanced demo_config demo_graph 0 demo_call)"
    using execute_refines [OF demo_sane(1) demo_graph_facts(1) demo_call_ok(1), of 0] demo_call_ok(2) by simp
  from demo_total [OF this] show ?thesis by (auto simp: advanced_def)
qed

text \<open>C11 (functional).  The sequential recursion, called as \<open>LoopIteration\<close> calls it, keeps the clique \<open>R\<close>, spawns nothing,
  and adds to the histogram of its thread, for every size within the limit, the number of maximal cliques that extend \<open>R\<close>
  by vertices of \<open>P\<close> and cannot be extended by one of \<open>P\<close> or \<open>X\<close>.  The fuel given by the size of \<open>P\<close> is enough.\<close>

theorem SequentialRun_counts:
  assumes "KG.node g c gg R P X (guards st)" and "0 < taskSpawnCnt (this st)" and "0 < taskLevel (this st)"
    and "int (card (contents P)) + int (card (contents X)) < PX_threshold c"
  shows "ends (target c) (host c) (SequentialRun c thr (sequential_fuel P) R P X gg st) (\<lambda>(R', st').
    to_list R' = to_list R \<and> spawned st' = spawned st \<and>
    (\<forall>t k. hist_count st' t k = hist_count st t k + (if t = thr \<and> within c k
      then card {C \<in> G.extensions g (contents P) (contents X). length (to_list R) + card C = k} else 0)))"
proof -
  have "list_set (target c) P" using assms(1) by (simp add: KG.node_def)
  then have "card (contents P) < sequential_fuel P" using hs_size_list [of "target c" P]
    by (simp add: sequential_fuel_def list_set_def distinct_card)
  from KG.SequentialRun_ends [OF assms(1) _ this assms(4), of thr] assms(2,3)
  have "KG.runs_node g c thr (SequentialRun c thr (sequential_fuel P)) R P X gg st" by (simp add: plain_def)
  then show ?thesis
    unfolding KG.runs_node_def
  proof (rule ends_mono)
    fix x assume "case x of (R', st') \<Rightarrow> ul_inv R' \<and> to_list R' = to_list R \<and>
      KG.ran c thr 1 gg (KG.counted g c (length (to_list R)) (contents P) (contents X)) st st'"
    then obtain R' st' where x: "x = (R', st')" "to_list R' = to_list R"
      and r: "KG.ran c thr 1 gg (KG.counted g c (length (to_list R)) (contents P) (contents X)) st st'" by auto
    from r obtain n G H where "st' = st\<lparr>this := (this st)\<lparr>taskSpawnCnt := n\<rparr>, guards := G, pt_hist := H\<rparr>"
      by (auto simp: KG.ran_def)
    then have "spawned st' = spawned st" by simp
    with x KG.ran_fields(8) [OF r] show "case x of (R', st') \<Rightarrow> to_list R' = to_list R \<and> spawned st' = spawned st \<and>
      (\<forall>t k. hist_count st' t k = hist_count st t k + (if t = thr \<and> within c k
        then card {C \<in> G.extensions g (contents P) (contents X). length (to_list R) + card C = k} else 0))"
      by (simp add: adds_def KG.counted_def G.report_def)
  qed
qed

definition demo_state :: state where
  "demo_state = \<lparr>this = (MainBKTask_root 4 (Some 0) False)\<lparr>taskSpawnCnt := 1, taskLevel := 1\<rparr>, self = 0,
     guards = [Some \<lparr>guarded = demo_graph, ref_count = 1\<rparr>], pt_hist = (\<lambda>_ _. None), spawned = []\<rparr>"

lemma demo_node: "KG.node demo_graph demo_config (Some 0) (demo_list [4]) (demo_set [2, 3]) (demo_set [5]) (guards demo_state)"
proof -
  have l: "list_set scalar_build (demo_set xs)" "contents (demo_set xs) = set xs"
    if "list_all valid_key xs" "distinct xs" for xs
    using demo_set_props [of scalar_build xs] that by (simp_all add: list_set_def)
  have P: "list_set scalar_build (demo_set [2, 3])" "contents (demo_set [2, 3]) = {2, 3}"
    "list_set scalar_build (demo_set [5])" "contents (demo_set [5]) = {5}" using l [of "[2, 3]"] l [of "[5]"] by (simp_all del: minus_1_EMPTY)
  have "shows_adj scalar_build (abs_adj demo_graph) demo_graph {2, 3} {5}"
    by (rule shows_adj_graph [OF demo_graph_facts(3)]) (simp_all add: demo_graph_facts(5))
  then show ?thesis
    using P card_length [of "[2, 3 :: key]"] by (simp add: KG.node_def demo_library_ok demo_sane demo_state_def alive_def)
qed

theorem SequentialRun_counts_witness:
  "\<exists>R st. SequentialRun demo_config 1 3 (demo_list [4]) (demo_set [2, 3]) (demo_set [5]) (Some 0) demo_state = Inr (R, st) \<and>
    to_list R = [4] \<and>
    hist_count st 1 3 = card {C \<in> G.extensions demo_graph {2, 3} {5}. 1 + card C = 3}"
proof -
  have c: "contents (demo_set [2, 3]) = {2, 3}" "contents (demo_set [5]) = {5}"
    using demo_set_props [of scalar_build "[2, 3]"] demo_set_props [of scalar_build "[5]"] by simp_all
  have f: "sequential_fuel (demo_set [2, 3]) = 3"
    using demo_set_props [of scalar_build "[2, 3]"] hs_size_list [of scalar_build "demo_set [2, 3]"] by (simp add: sequential_fuel_def)
  have "0 < taskSpawnCnt (this demo_state)" "0 < taskLevel (this demo_state)" by (simp_all add: demo_state_def)
  moreover have "int (card {2, 3 :: key}) + int (card {5 :: key}) < PX_threshold demo_config"
    using card_length [of "[2, 3 :: key]"] by simp
  ultimately have "ends scalar_build total_env
    (SequentialRun demo_config 1 3 (demo_list [4]) (demo_set [2, 3]) (demo_set [5]) (Some 0) demo_state) (\<lambda>(R', st').
      to_list R' = to_list (demo_list [4]) \<and> spawned st' = spawned demo_state \<and>
      (\<forall>t k. hist_count st' t k = hist_count demo_state t k + (if t = 1 \<and> within demo_config k
        then card {C \<in> G.extensions demo_graph {2, 3} {5}. length (to_list (demo_list [4])) + card C = k} else 0)))"
    using SequentialRun_counts [OF demo_node, of 1] unfolding f c demo_config_fields by blast
  from demo_total [OF this] obtain R st where
    "SequentialRun demo_config 1 3 (demo_list [4]) (demo_set [2, 3]) (demo_set [5]) (Some 0) demo_state = Inr (R, st)"
    "to_list R = [4]" "hist_count st 1 3 = hist_count demo_state 1 3 + card {C \<in> G.extensions demo_graph {2, 3} {5}. 1 + card C = 3}"
    by (auto simp: demo_sane)
  moreover have "hist_count demo_state 1 3 = 0" by (simp add: hist_count_def demo_state_def)
  ultimately show ?thesis by auto
qed

end
