(* ===== verification/RootTask.thy ===== *)
theory RootTask
  imports Results
begin

text \<open>
  The task that iterates over the roots, from its first execution to its last: \<^verbatim>\<open>BKTask\<close> and
  \<^verbatim>\<open>RootIterBKTask\<close> of \<^verbatim>\<open>include/BKTask.h\<close> and \<^verbatim>\<open>src/BKTask.cpp\<close>.
\<close>

section \<open>The task\<close>

text \<open>
  \<open>BKTask::taskIdCnt\<close> counts the tasks that were made; the constructor takes its value as \<open>taskId\<close>, an \<open>int\<close>,
  which has its low bits.
\<close>

record bk_task =
  taskId :: "32 word"
  bk_graphg :: guard_ptr

definition BKTask_new :: "guard_ptr \<Rightarrow> nat \<Rightarrow> bk_task \<times> nat" where
  "BKTask_new g cnt = (\<lparr>taskId = of_nat cnt, bk_graphg = g\<rparr>, cnt + 1)"

text \<open>
  \<open>RootIterBKTask::execute\<close>: the first time the roots are spawned and the task becomes a continuation,
  the second time, when its count of references is zero, it prints the number of tasks.
\<close>

record root_task =
  base :: bk_task
  root_continuation :: bool

definition RootIterBKTask :: "guard_ptr \<Rightarrow> nat \<Rightarrow> root_task \<times> nat" where
  "RootIterBKTask g cnt = (case BKTask_new g cnt of (b, cnt) \<Rightarrow> (\<lparr>base = b, root_continuation = False\<rparr>, cnt))"

definition RootIterBKTask_execute ::
  "config \<Rightarrow> graph \<Rightarrow> nat \<Rightarrow> root_task \<Rightarrow> (root_task \<times> (int \<times> main_task list) option \<times> string) result" where
  "RootIterBKTask_execute c g taskIdCnt t =
     (if \<not> root_continuation t
      then bind_result (RootIter_SpawnTask c g (bk_graphg (base t))) (\<lambda>new. Inr (t\<lparr>root_continuation := True\<rparr>, Some new, []))
      else Inr (t, None, ''Number of tasks: '' @ decimal taskIdCnt @ [CHR 0x0A]))"

text \<open>Every task of a run has a slot, and the root iteration is a task as well.\<close>

definition tasks_made :: "world \<Rightarrow> nat" where
  "tasks_made w = snd (fold (\<lambda>s (_, cnt). BKTask_new (graphg (job s)) cnt) (slots w) (BKTask_new (Some 0) 0))"

lemma tasks_made: "tasks_made w = Suc (length (slots w))"
proof -
  have "snd (fold (\<lambda>s (_, cnt). BKTask_new (graphg (job s)) cnt) ss (b, n)) = n + length ss" for ss b n
    by (induction ss arbitrary: b n) (simp_all add: BKTask_new_def)
  note made = this
  show ?thesis unfolding tasks_made_def BKTask_new_def [of "Some 0" 0] made by simp
qed

section \<open>Its continuation\<close>

lemma live_orphan:
  assumes "\<forall>p < length ss. live (ss ! p) \<longrightarrow> linked c ss p" and "p < length ss" and "live (ss ! p)"
  shows "\<exists>q < length ss. live (ss ! q) \<and> parent (job (ss ! q)) = None"
  using assms(2,3)
proof (induction p rule: less_induct)
  case (less p)
  show ?case
  proof (cases "parent (job (ss ! p))")
    case (Some q)
    with assms(1) less.prems have "q < p" "live (ss ! q)" by (auto simp: linked_def)
    with less show ?thesis by auto
  qed (use less.prems in auto)
qed

lemma orphans_0_iff:
  assumes "\<forall>p < length ss. live (ss ! p) \<longrightarrow> linked c ss p"
  shows "0 \<le> orphans ss" and "orphans ss = 0 \<longleftrightarrow> (\<forall>s \<in> set ss. phase_of s = Gone)"
proof -
  show "0 \<le> orphans ss" unfolding orphans_def by (intro total_nonneg) simp
  show "orphans ss = 0 \<longleftrightarrow> (\<forall>s \<in> set ss. phase_of s = Gone)"
  proof
    assume z: "orphans ss = 0"
    show "\<forall>s \<in> set ss. phase_of s = Gone"
    proof (rule ccontr)
      assume "\<not> (\<forall>s \<in> set ss. phase_of s = Gone)"
      then obtain p where "p < length ss" "live (ss ! p)" by (auto simp: live_def in_set_conv_nth)
      from live_orphan [OF assms this] obtain q where "q < length ss" "live (ss ! q)" "parent (job (ss ! q)) = None" by blast
      with total_member [of q ss "\<lambda>t. of_bool (parent t = None)"] z show False by (simp add: orphans_def)
    qed
  next
    assume "\<forall>s \<in> set ss. phase_of s = Gone"
    then have "\<forall>s \<in> set ss. \<not> live s" by (simp add: live_def)
    from all_gone_total [OF this] show "orphans ss = 0" by (simp add: orphans_def)
  qed
qed

lemma steps_slots_grow: "steps c n w0 w \<Longrightarrow> length (slots w0) \<le> length (slots w)"
proof (induction rule: rtranclp_induct)
  case (step w w')
  from step.hyps(2) have "length (slots w) \<le> length (slots w')"
    by (cases rule: stepE) (auto simp: settle_def release_def Let_def split: prod.split option.split)
  with step.IH show ?case by simp
qed simp

text \<open>C7 (functional).  The task that iterates over the roots becomes ready again exactly when the last task of the run is
  gone, and not before; it then prints the number of all tasks that were made, itself included, which is more than the number of vertices.\<close>

theorem number_of_tasks:
  assumes "sane c" and "input_ok c g" and "numbered g" and "BronKerboschDegeneracy c g = Inr w0"
    and "steps c n w0 w" and "failure w = None"
  shows "0 \<le> root_refs w \<and> (root_refs w = 0 \<longleftrightarrow> (\<forall>s \<in> set (slots w). phase_of s = Gone)) \<and>
    RootIterBKTask_execute c g (tasks_made w) ((fst (RootIterBKTask (Some 0) 0))\<lparr>root_continuation := True\<rparr>) =
      Inr ((fst (RootIterBKTask (Some 0) 0))\<lparr>root_continuation := True\<rparr>, None,
        ''Number of tasks: '' @ decimal (1 + length (slots w)) @ [CHR 0x0A]) \<and>
    nodeNo g \<le> int (length (slots w))"
proof -
  have w0: "w0 = Runs.start c g" using assms(4) start_run [OF assms(3), of c] by simp
  have "world_ok c g w"
    using steps_on_course [OF assms(1-3) assms(5) [unfolded w0]] assms(6) by (simp add: on_course_def)
  then have ok: "\<forall>p < length (slots w). live (slots w ! p) \<longrightarrow> linked c (slots w) p" "root_refs w = orphans (slots w)"
    by (simp_all add: world_ok_def slot_ok_def)
  have "nodeNo g \<le> int (length (slots w0))"
    using assms(3) by (simp add: w0 Runs.start_def numbered_def)
  with steps_slots_grow [OF assms(5)] have "nodeNo g \<le> int (length (slots w))" by simp
  with orphans_0_iff [OF ok(1)] ok(2) show ?thesis by (simp add: RootIterBKTask_execute_def tasks_made)
qed

theorem number_of_tasks_witness:
  "0 < root_refs (Runs.start demo_config demo_graph) \<and> (\<exists>s \<in> set (slots (Runs.start demo_config demo_graph)). phase_of s \<noteq> Gone) \<and>
   nodeNo demo_graph < int (tasks_made (Runs.start demo_config demo_graph))"
proof -
  have "failure (Runs.start demo_config demo_graph) = None" by (simp add: Runs.start_def)
  from number_of_tasks [OF demo_sane(1) demo_graph_facts(1,2) demo_start rtranclp.rtrancl_refl this]
  show ?thesis using demo_graph_facts(2,5) by (auto simp: tasks_made Runs.start_def numbered_def new_slot_def)
qed

end
