(* ===== verification/HelpText.thy ===== *)
theory HelpText
  imports Program
begin

text \<open>
  The help of \<^verbatim>\<open>include/utils.h\<close>, which \<open>-h\<close> and \<open>--help\<close> print, and the defaults it names.
\<close>

definition printHelp :: "string list" where
  "printHelp =
    ['' Maximal clique enumeration algorithm '',
     ''    -f                Path to the input file graph'',
     ''    -p                Prints the resulting clique histogram, no argument'',
     ''    -n                Number of threads, default 256'',
     ''    -o                Turns on memory allocation grouping, no argument'',
     ''    -b                Memory block size in bytes used for memory allocation grouping, default 20 MB'',
     ''    --thresh          Threshold tt for P+X for task grouping, default 30'',
     ''    --mem-thresh      Threshold tm for P+X for memory allocation grouping, default 20'',
     ''    --max-clq         Size of the maximum clique to be explored'',
     ''    -s,               Defines subgraph based approach for BK algorithm,'',
     ''                          0 - don'' @ [CHR 0x27] @ ''t create subgraphs'',
     ''                          1 - create subgraphs in the outer level of the algorithm'',
     ''                          2 - create subgraphs per task'',
     ''    --ord             Defines which ordering is used, default degeneracy'',
     ''                          0 - degeneracy ordering'',
     ''                          1 - degree ordering'',
     ''                          2 - inverse degree ordering'',
     ''    -m                Turns memory profiling on and defines path to the output csv file'',
     ''    -i                Defines sampling interval for memory profiling, default 10000'',
     ''    -h, --help        Shows this message'']"

text \<open>The words of a line, at spaces and commas.\<close>

fun words_from :: "string \<Rightarrow> string \<Rightarrow> string list" where
  "words_from w [] = (if w = [] then [] else [rev w])"
| "words_from w (x # xs) =
     (if isspace x \<or> x = CHR '','' then (if w = [] then [] else [rev w]) @ words_from [] xs else words_from (x # w) xs)"

definition is_option :: "string \<Rightarrow> bool" where
  "is_option w \<longleftrightarrow> w \<noteq> [] \<and> hd w = CHR ''-''"

text \<open>The options of a line are the words with a dash that it begins with; those of the help are those of all lines.\<close>

definition line_options :: "string \<Rightarrow> string list" where
  "line_options l = takeWhile is_option (words_from [] l)"

definition help_options :: "string list" where
  "help_options = concat (map line_options printHelp)"

text \<open>
  What the help says is used without an option: what follows the word default in its line.  Where that
  is a name, as it is for \<^verbatim>\<open>--ord\<close>, the argument is the number that the help gives this ordering.
\<close>

fun text_after :: "string \<Rightarrow> string \<Rightarrow> string option" where
  "text_after w [] = None"
| "text_after w (x # xs) = (if take (length w) (x # xs) = w then Some (drop (length w) (x # xs)) else text_after w xs)"

definition help_default :: "string \<Rightarrow> string option" where
  "help_default opt =
     (case find (\<lambda>l. List.member (line_options l) opt) printHelp of None \<Rightarrow> None
      | Some l \<Rightarrow> (case text_after ''default '' l of None \<Rightarrow> None
         | Some d \<Rightarrow> (case find (\<lambda>l. tl (words_from [] l) = [''-'', d, ''ordering'']) printHelp of
             None \<Rightarrow> Some d
           | Some l \<Rightarrow> Some (hd (words_from [] l)))))"

lemma help_options_are:
  "help_options = [''-f'', ''-p'', ''-n'', ''-o'', ''-b'', ''--thresh'', ''--mem-thresh'', ''--max-clq'', ''-s'', ''--ord'', ''-m'', ''-i'',
     ''-h'', ''--help'']"
  by code_simp

lemma help_defaults_are:
  "help_default ''-n'' = Some ''256''" "help_default ''--thresh'' = Some ''30''" "help_default ''--mem-thresh'' = Some ''20''"
  "help_default ''--ord'' = Some ''0''" "help_default ''-i'' = Some ''10000''" "help_default ''-b'' = Some ''20 MB''"
  by code_simp+

end
