(* ===== verification/MemUsageLogger.thy ===== *)
theory MemUsageLogger
  imports Prelude "HOL-Library.AList" "HOL-Library.Signed_Division"
begin

text \<open>
  The memory log of \<^verbatim>\<open>include/MemUsageLogger.h\<close>: every thread adds to its own
  counters, in total and by type, and some calls take a sample of the sums and keep the largest.
\<close>

section \<open>State and operations\<close>

datatype mem_type = SET | SUBGRAPH | GRAPH | CLIQUE | TASK | ROOT_SET | ROOT_SUBGRAPH | ROOT_CLIQUE | ROOT_TASK | OTHER

definition mem_types :: "mem_type list" where
  "mem_types = [SET, SUBGRAPH, GRAPH, CLIQUE, TASK, ROOT_SET, ROOT_SUBGRAPH, ROOT_CLIQUE, ROOT_TASK, OTHER]"

text \<open>The numbers of the types in the C++ enumeration, and the order they give.\<close>

fun type_code :: "mem_type \<Rightarrow> nat" where
  "type_code SET = 0"
| "type_code SUBGRAPH = 1"
| "type_code GRAPH = 2"
| "type_code CLIQUE = 3"
| "type_code TASK = 4"
| "type_code ROOT_SET = 5"
| "type_code ROOT_SUBGRAPH = 6"
| "type_code ROOT_CLIQUE = 7"
| "type_code ROOT_TASK = 8"
| "type_code OTHER = 9"

instantiation mem_type :: linorder
begin

definition less_eq_mem_type :: "mem_type \<Rightarrow> mem_type \<Rightarrow> bool" where
  "less_eq_mem_type t u \<longleftrightarrow> type_code t \<le> type_code u"

definition less_mem_type :: "mem_type \<Rightarrow> mem_type \<Rightarrow> bool" where
  "less_mem_type t u \<longleftrightarrow> type_code t < type_code u"

instance
proof
  fix t u :: mem_type
  show "t \<le> u \<Longrightarrow> u \<le> t \<Longrightarrow> t = u"
    by (cases t; cases u) (simp_all add: less_eq_mem_type_def)
qed (auto simp: less_eq_mem_type_def less_mem_type_def)

end

lemma mem_types_in_order: "sorted_wrt (<) mem_types" "set mem_types = UNIV" "mem_types ! type_code t = t"
proof -
  show "sorted_wrt (<) mem_types" by (simp add: mem_types_def less_mem_type_def)
  show "mem_types ! type_code t = t" by (cases t) (simp_all add: mem_types_def)
  show "set mem_types = UNIV"
  proof (intro set_eqI iffI UNIV_I)
    fix t show "t \<in> set mem_types" by (cases t) (simp_all add: mem_types_def)
  qed
qed

definition TYPE_NAMES :: "string list" where
  "TYPE_NAMES = [''Sets'', ''Subgraphs'', ''Graph'', ''Cliques'', ''Tasks'', ''RootSets'', ''RootSubgraphs'',
     ''RootCliques'', ''RootTasks'', ''Other'']"

text \<open>
  A \<open>combinable<long>\<close> is a list of what the threads that have used it hold, by thread.  A sample of
  the log is the total with one number for each type.
\<close>

type_synonym combinable = "(nat \<times> int) list"

record logger =
  tmp_usage_pt :: combinable
  tmp_type_usage_pt :: "mem_type \<Rightarrow> combinable"
  allocation_num_pt :: combinable
  peak_usage :: int
  peak_type_usage :: "mem_type \<Rightarrow> int"
  sampling_interval :: int
  mem_log_stream :: "(int \<times> int list) list"

definition MemUsageLogger :: "int \<Rightarrow> logger" where
  "MemUsageLogger si = \<lparr>tmp_usage_pt = [], tmp_type_usage_pt = (\<lambda>_. []), allocation_num_pt = [],
     peak_usage = 0, peak_type_usage = (\<lambda>_. 0), sampling_interval = si, mem_log_stream = []\<rparr>"

text \<open>\<open>local\<close> with the flag \<open>exists\<close>: a thread's first use finds 0.\<close>

definition local_value :: "nat \<Rightarrow> combinable \<Rightarrow> int" where
  "local_value thr pt = (case map_of pt thr of None \<Rightarrow> 0 | Some n \<Rightarrow> n)"

definition add_memory_usage :: "nat \<Rightarrow> int \<Rightarrow> combinable \<Rightarrow> combinable" where
  "add_memory_usage thr mem pt = AList.update thr (local_value thr pt + mem) pt"

definition del_memory_usage :: "nat \<Rightarrow> int \<Rightarrow> combinable \<Rightarrow> combinable" where
  "del_memory_usage thr mem pt = AList.update thr (local_value thr pt - mem) pt"

definition combine_mem_usage_data :: "combinable \<Rightarrow> int" where
  "combine_mem_usage_data pt = fold (\<lambda>(_, s) total. total + s) pt 0"

text \<open>
  A sample is taken when the interval is positive and the random number \<open>r\<close> of the thread says so.
  Here it is taken in one step.  The code only makes other samples wait, and calls that have not begun; a call of another
  thread that is past its wait may still change a counter while the counters are added up, so that the parts of
  such a sample need not add up to its total.  That overlap is not modelled.
\<close>

definition update_peak_usage :: "int \<Rightarrow> logger \<Rightarrow> logger" where
  "update_peak_usage r lg =
     (if sampling_interval lg > 0 \<and> r mod sampling_interval lg = sampling_interval lg - 1 then
        let tmp_usage = combine_mem_usage_data (tmp_usage_pt lg);
            by_type = (\<lambda>t. combine_mem_usage_data (tmp_type_usage_pt lg t));
            lg = (if tmp_usage > peak_usage lg then lg\<lparr>peak_usage := tmp_usage, peak_type_usage := by_type\<rparr> else lg)
        in lg\<lparr>mem_log_stream := mem_log_stream lg @ [(tmp_usage, map by_type mem_types)]\<rparr>
      else lg)"

definition addTmpMem :: "nat \<Rightarrow> int \<Rightarrow> int \<Rightarrow> mem_type \<Rightarrow> logger \<Rightarrow> logger" where
  "addTmpMem thr r mem type lg =
     (let lg = lg\<lparr>tmp_usage_pt := add_memory_usage thr mem (tmp_usage_pt lg),
                  tmp_type_usage_pt := (tmp_type_usage_pt lg)(type := add_memory_usage thr mem (tmp_type_usage_pt lg type))\<rparr>;
          lg = update_peak_usage r lg
      in lg\<lparr>allocation_num_pt := add_memory_usage thr 1 (allocation_num_pt lg)\<rparr>)"

definition delTmpMem :: "nat \<Rightarrow> int \<Rightarrow> int \<Rightarrow> mem_type \<Rightarrow> logger \<Rightarrow> logger" where
  "delTmpMem thr r mem type lg =
     update_peak_usage r
       (lg\<lparr>tmp_usage_pt := del_memory_usage thr mem (tmp_usage_pt lg),
           tmp_type_usage_pt := (tmp_type_usage_pt lg)(type := del_memory_usage thr mem (tmp_type_usage_pt lg type))\<rparr>)"

text \<open>What \<open>printData\<close> prints: the peak and its parts in KB, and the number of allocations.\<close>

definition printData :: "logger \<Rightarrow> int \<times> (string \<times> int) list \<times> int" where
  "printData lg = (peak_usage lg sdiv 1024,
     zip TYPE_NAMES (map (\<lambda>t. peak_type_usage lg t sdiv 1024) mem_types),
     combine_mem_usage_data (allocation_num_pt lg))"


text \<open>Every type is printed under its own name.\<close>

lemma printData_names:
  "fst (snd (printData lg)) ! type_code t = (TYPE_NAMES ! type_code t, peak_type_usage lg t sdiv 1024)"
  by (cases t) (simp_all add: printData_def mem_types_def TYPE_NAMES_def)

section \<open>Sums over the threads\<close>

lemma fold_plus: "fold (\<lambda>(_, s) total. total + s) pt n = n + (\<Sum>(_, s) \<leftarrow> pt. s :: int)"
  by (induction pt arbitrary: n) auto

lemma combine_sum: "combine_mem_usage_data pt = (\<Sum>(_, s) \<leftarrow> pt. s)"
  by (simp add: combine_mem_usage_data_def fold_plus)

lemma sum_update:
  "distinct (map fst pt) \<Longrightarrow> (\<Sum>(_, s) \<leftarrow> AList.update thr v pt. s) = (\<Sum>(_, s) \<leftarrow> pt. s) - local_value thr pt + (v :: int)"
proof (induction pt)
  case (Cons e pt)
  obtain t s where e: "e = (t, s)" by (cases e)
  show ?case
  proof (cases "t = thr")
    case False
    with Cons show ?thesis by (simp add: e local_value_def)
  qed (simp add: e local_value_def)
qed (simp add: local_value_def)

lemma combine_add:
  assumes "distinct (map fst pt)"
  shows "combine_mem_usage_data (add_memory_usage thr mem pt) = combine_mem_usage_data pt + mem"
    and "distinct (map fst (add_memory_usage thr mem pt))"
  using assms by (simp_all add: combine_sum add_memory_usage_def sum_update distinct_update)

lemma del_add: "del_memory_usage thr mem pt = add_memory_usage thr (- mem) pt"
  by (simp add: del_memory_usage_def add_memory_usage_def)

section \<open>Sequences of calls\<close>

datatype event = Add nat int int mem_type | Del nat int int mem_type

fun perform :: "event \<Rightarrow> logger \<Rightarrow> logger" where
  "perform (Add thr r mem type) = addTmpMem thr r mem type"
| "perform (Del thr r mem type) = delTmpMem thr r mem type"

fun change :: "event \<Rightarrow> int" where
  "change (Add _ _ mem _) = mem"
| "change (Del _ _ mem _) = - mem"

fun type_of :: "event \<Rightarrow> mem_type" where
  "type_of (Add _ _ _ t) = t"
| "type_of (Del _ _ _ t) = t"

fun is_add :: "event \<Rightarrow> bool" where
  "is_add (Add _ _ _ _) = True"
| "is_add (Del _ _ _ _) = False"

text \<open>
  What a logger has seen: the sums of the changes, in total and by type, the number of additions,
  and the largest total of a sample, with the parts it had then.
\<close>

definition usage_ok :: "event list \<Rightarrow> logger \<Rightarrow> bool" where
  "usage_ok es lg \<longleftrightarrow>
     distinct (map fst (tmp_usage_pt lg)) \<and> (\<forall>t. distinct (map fst (tmp_type_usage_pt lg t))) \<and>
     combine_mem_usage_data (tmp_usage_pt lg) = (\<Sum>e \<leftarrow> es. change e) \<and>
     (\<forall>t. combine_mem_usage_data (tmp_type_usage_pt lg t) = (\<Sum>e \<leftarrow> filter (\<lambda>e. type_of e = t) es. change e))"

definition allocations_ok :: "event list \<Rightarrow> logger \<Rightarrow> bool" where
  "allocations_ok es lg \<longleftrightarrow> distinct (map fst (allocation_num_pt lg)) \<and>
     combine_mem_usage_data (allocation_num_pt lg) = int (length (filter is_add es))"

definition samples_ok :: "logger \<Rightarrow> bool" where
  "samples_ok lg \<longleftrightarrow>
     peak_usage lg = Max (insert 0 (fst ` set (mem_log_stream lg))) \<and>
     (\<Sum>t \<leftarrow> mem_types. peak_type_usage lg t) = peak_usage lg \<and>
     (\<forall>(total, parts) \<in> set (mem_log_stream lg). sum_list parts = total)"

definition logged :: "event list \<Rightarrow> logger \<Rightarrow> bool" where
  "logged es lg \<longleftrightarrow> usage_ok es lg \<and> allocations_ok es lg \<and> samples_ok lg"

lemma sum_by_type: "(\<Sum>t \<leftarrow> mem_types. \<Sum>e \<leftarrow> filter (\<lambda>e. type_of e = t) es. change e) = (\<Sum>e \<leftarrow> es. change e)"
proof (induction es)
  case (Cons e es)
  have "(\<Sum>t \<leftarrow> mem_types. (if type_of e = t then x else 0) + f t) = x + (\<Sum>t \<leftarrow> mem_types. f t)" for x :: int and f
    by (cases "type_of e") (simp_all add: mem_types_def)
  note one = this [of "change e" "\<lambda>t. \<Sum>e \<leftarrow> filter (\<lambda>e. type_of e = t) es. change e"]
  have "(\<Sum>e' \<leftarrow> filter (\<lambda>e. type_of e = t) (e # es). change e') =
    (if type_of e = t then change e else 0) + (\<Sum>e \<leftarrow> filter (\<lambda>e. type_of e = t) es. change e)" for t by simp
  then show ?case using one Cons.IH by simp
qed (simp add: mem_types_def)

text \<open>A sample is consistent: its parts add up to its total, and the peak keeps up with it.\<close>

lemma update_peak_fields:
  "tmp_usage_pt (update_peak_usage r lg) = tmp_usage_pt lg"
  "tmp_type_usage_pt (update_peak_usage r lg) = tmp_type_usage_pt lg"
  "allocation_num_pt (update_peak_usage r lg) = allocation_num_pt lg"
  by (simp_all add: update_peak_usage_def Let_def)

lemma update_peak_samples:
  assumes us: "usage_ok es lg" and sm: "samples_ok lg"
  shows "samples_ok (update_peak_usage r lg)"
proof -
  let ?by = "\<lambda>t. combine_mem_usage_data (tmp_type_usage_pt lg t)" and ?u = "combine_mem_usage_data (tmp_usage_pt lg)"
  have parts: "(\<Sum>t \<leftarrow> mem_types. ?by t) = ?u"
    using us sum_by_type [of es] by (simp add: usage_ok_def)
  have mx: "Max (insert 0 (fst ` set (mem_log_stream lg @ [(?u, map ?by mem_types)]))) = max ?u (peak_usage lg)"
    using Max_insert [of "insert 0 (fst ` set (mem_log_stream lg))" ?u] sm by (simp add: samples_ok_def insert_commute)
  have old: "(\<Sum>t \<leftarrow> mem_types. peak_type_usage lg t) = peak_usage lg"
    "\<forall>(total, parts) \<in> set (mem_log_stream lg). sum_list parts = total" using sm by (simp_all add: samples_ok_def)
  show ?thesis
  proof (cases "sampling_interval lg > 0 \<and> r mod sampling_interval lg = sampling_interval lg - 1")
    case True
    define lg1 where "lg1 = (if ?u > peak_usage lg then lg\<lparr>peak_usage := ?u, peak_type_usage := ?by\<rparr> else lg)"
    have f: "peak_usage lg1 = max ?u (peak_usage lg)" "mem_log_stream lg1 = mem_log_stream lg"
      "(\<Sum>t \<leftarrow> mem_types. peak_type_usage lg1 t) = peak_usage lg1"
      using parts old(1) by (simp_all add: lg1_def max_def)
    have "update_peak_usage r lg = lg1\<lparr>mem_log_stream := mem_log_stream lg1 @ [(?u, map ?by mem_types)]\<rparr>"
      unfolding update_peak_usage_def if_P [OF True] Let_def lg1_def ..
    then show ?thesis using f mx old(2) parts by (simp add: samples_ok_def)
  next
    case False
    then have "update_peak_usage r lg = lg" unfolding update_peak_usage_def by (rule if_not_P)
    with sm show ?thesis by simp
  qed
qed

lemma usage_add:
  assumes "usage_ok es lg" and "type_of e = type"
  shows "usage_ok (es @ [e]) (lg\<lparr>tmp_usage_pt := add_memory_usage thr (change e) (tmp_usage_pt lg),
     tmp_type_usage_pt := (tmp_type_usage_pt lg)(type := add_memory_usage thr (change e) (tmp_type_usage_pt lg type))\<rparr>)"
  using assms by (auto simp: usage_ok_def combine_add)

lemma perform_logged:
  assumes "logged es lg"
  shows "logged (es @ [e]) (perform e lg)"
proof -
  from assms have us: "usage_ok es lg" and al: "allocations_ok es lg" and sm: "samples_ok lg" by (simp_all add: logged_def)
  define lg1 where "lg1 thr = lg\<lparr>tmp_usage_pt := add_memory_usage thr (change e) (tmp_usage_pt lg),
     tmp_type_usage_pt := (tmp_type_usage_pt lg)(type_of e := add_memory_usage thr (change e) (tmp_type_usage_pt lg (type_of e)))\<rparr>" for thr
  have u1: "usage_ok (es @ [e]) (lg1 thr)" for thr unfolding lg1_def by (rule usage_add [OF us refl])
  have "samples_ok (lg1 thr)" for thr using sm by (simp add: lg1_def samples_ok_def)
  note s2 = update_peak_samples [OF u1 this]
  have u2: "usage_ok (es @ [e]) (update_peak_usage r (lg1 thr))" for r thr
    using u1 by (simp add: usage_ok_def update_peak_fields)
  have a2: "allocation_num_pt (update_peak_usage r (lg1 thr)) = allocation_num_pt lg" for r thr
    by (simp add: update_peak_fields lg1_def)
  show ?thesis
  proof (cases e)
    case (Add thr r mem type)
    let ?lg2 = "update_peak_usage r (lg1 thr)"
    have run: "perform e lg = ?lg2\<lparr>allocation_num_pt := add_memory_usage thr 1 (allocation_num_pt ?lg2)\<rparr>"
      by (simp add: Add addTmpMem_def Let_def lg1_def)
    show ?thesis
      using u2 [of r thr] s2 [of r thr] al
      unfolding run by (simp add: logged_def usage_ok_def samples_ok_def allocations_ok_def a2 combine_add Add)
  next
    case (Del thr r mem type)
    have run: "perform e lg = update_peak_usage r (lg1 thr)"
      by (simp add: Del delTmpMem_def lg1_def del_add)
    show ?thesis
      using u2 [of r thr] s2 [of r thr] al
      unfolding run by (simp add: logged_def allocations_ok_def a2 Del)
  qed
qed

lemma new_logged: "logged [] (MemUsageLogger si)"
proof -
  have "(\<Sum>t \<leftarrow> mem_types. 0 :: int) = 0" by (simp add: mem_types_def)
  then show ?thesis
    by (simp add: logged_def usage_ok_def allocations_ok_def samples_ok_def MemUsageLogger_def combine_sum)
qed

lemma fold_logged: "logged es lg \<Longrightarrow> logged (es @ es') (fold perform es' lg)"
proof (induction es' arbitrary: es lg)
  case (Cons e es')
  from Cons.IH [OF perform_logged [OF Cons.prems, of e]] show ?case by simp
qed simp

end
