(* ===== verification/WholeProgram.thy ===== *)
theory WholeProgram
  imports HistEntries RootTask HelpText MemUsageLogger
begin

text \<open>
  The program from its arguments to what it prints: \<open>main\<close> of \<^verbatim>\<open>src/main.cpp\<close>, with the
  lines of the reader, of the root task, of the log and of the histogram.
\<close>

section \<open>Lines\<close>

definition histogram_lines :: "int \<times> (nat \<times> int) list \<Rightarrow> string list" where
  "histogram_lines = (\<lambda>(maxClqNum, histogram).
     [''# Number of maximal cliques: '' @ decimal_int maxClqNum, ''# Clique histogram:'', ''# clique_size, num_of_cliques''] @
     map (\<lambda>(k, n). decimal k @ '', '' @ decimal_int n) histogram)"

definition memory_lines :: "int \<times> (string \<times> int) list \<times> int \<Rightarrow> string list" where
  "memory_lines = (\<lambda>(peak, types, allocation_num).
     [''Peak memory usage: '' @ decimal_int peak @ '' KB''] @
     map (\<lambda>(name, kb). ''   '' @ name @ '' :       '' @ decimal_int kb @ '' KB'') types @
     [''Number of allocations: '' @ decimal_int allocation_num])"

text \<open>The times that are printed, as text.\<close>

record timings =
  read_time :: string
  order_time :: string
  run_time :: string

definition graph_line :: "graph \<Rightarrow> string" where
  "graph_line g = ''#Vertex = '' @ decimal_int (nodeNo g) @ ''; #Edge = '' @ decimal_int (edgeNo g sdiv 2)"

definition setup_lines :: "config \<Rightarrow> timings \<Rightarrow> string \<Rightarrow> graph \<Rightarrow> string list" where
  "setup_lines c tm path g =
     [graph_line g, ''Graph read time: '' @ read_time tm @ ''s'', ''Bron Kerbosch for '' @ path] @
     (if degeneracyOrd c then [''Degeneracy = '' @ decimal_int (degeneracy g) @ '' Ordering in: '' @ order_time tm @ ''s''] else [])"

definition final_lines :: "options \<Rightarrow> bool \<Rightarrow> timings \<Rightarrow> nat \<Rightarrow> logger \<Rightarrow> (nat \<times> nat) list list \<Rightarrow> string list" where
  "final_lines opts hist tm tasks lg entries =
     [''Number of tasks: '' @ decimal tasks] @
     (if CollectMemUsage opts then memory_lines (printData lg) else []) @
     [''Maximal clique enumeration time: '' @ run_time tm @ ''s''] @
     (if hist then histogram_lines (writeCliqueHist entries) else [])"

section \<open>The program\<close>

text \<open>
  It stops with an error, or prints its lines and exits.  Any number of worker threads, at least
  one, may take part, in any order of tasks; the times and what the log has seen may be anything.
\<close>

datatype exit = Stopped error | Exits "string list"

inductive program :: "build \<Rightarrow> env \<Rightarrow> library \<Rightarrow> system \<Rightarrow> string list \<Rightarrow> exit \<Rightarrow> bool" for bld e lib sys as where
  help_wanted: "main_setup bld e lib sys as = Inr PrintedHelp \<Longrightarrow> program bld e lib sys as (Exits printHelp)"
| no_file: "main_setup bld e lib sys as = Inr NoInputFile \<Longrightarrow>
    program bld e lib sys as (Exits [''The input file doesn'' @ [CHR 0x27] @ ''t exist''])"
| setup_error: "main_setup bld e lib sys as = Inl er \<Longrightarrow> program bld e lib sys as (Stopped er)"
| root_error: "\<lbrakk>main_setup bld e lib sys as = Inr (Enumerates c n g hist); BronKerboschDegeneracy c g = Inl er\<rbrakk> \<Longrightarrow>
    program bld e lib sys as (Stopped er)"
| task_error: "\<lbrakk>main_setup bld e lib sys as = Inr (Enumerates c n g hist); BronKerboschDegeneracy c g = Inr w0; 0 < m;
      steps c m w0 w; failure w = Some er\<rbrakk> \<Longrightarrow>
    program bld e lib sys as (Stopped er)"
| enumerated: "\<lbrakk>main_setup bld e lib sys as = Inr (Enumerates c n g hist); input_path sys as = Inr path; read_options as = Inr opts;
      BronKerboschDegeneracy c g = Inr w0; 0 < m; steps c m w0 w; \<nexists>w'. step c m w w'; failure w = None;
      presents m (hists w) entries\<rbrakk> \<Longrightarrow>
    program bld e lib sys as (Exits (setup_lines c tm path g @ final_lines opts hist tm (tasks_made w) lg entries))"

inductive_cases programE: "program bld e lib sys as x"

section \<open>The printed histogram\<close>

text \<open>The histogram of the counts \<open>N\<close>: their sum, and every size that has one, in ascending order.\<close>

definition counts_of :: "(nat \<Rightarrow> nat) \<Rightarrow> int \<times> (nat \<times> int) list" where
  "counts_of N = (int (\<Sum>k | N k \<noteq> 0. N k), map (\<lambda>k. (k, int (N k))) (sorted_list_of_set {k. N k \<noteq> 0}))"

lemma grand_total_sum:
  "finite K \<Longrightarrow> fst ` set es \<subseteq> K \<Longrightarrow> grand_total es = (\<Sum>k \<in> K. entry_sum es k)"
proof (induction es)
  case (Cons e es)
  obtain i n where e: "e = (i, n)" by (cases e)
  have "(\<Sum>k \<in> K. entry_sum (e # es) k) = (\<Sum>k \<in> K. (if i = k then n else 0) + entry_sum es k)"
    by (simp add: entry_sum_def e)
  also have "\<dots> = n + (\<Sum>k \<in> K. entry_sum es k)" using Cons.prems by (simp add: sum.distrib e)
  finally show ?case using Cons by (simp add: grand_total_def e)
qed (simp add: grand_total_def entry_sum_def)

lemma entries_sizes:
  assumes "\<forall>t k. H t k \<noteq> Some 0"
  shows "(\<exists>t < m. H t k \<noteq> None) \<longleftrightarrow> recorded m H k \<noteq> 0"
proof
  assume "\<exists>t < m. H t k \<noteq> None"
  then obtain t x where "t < m" "H t k = Some x" by auto
  moreover have "x \<noteq> 0" using \<open>H t k = Some x\<close> assms by metis
  ultimately have "\<exists>t \<in> {..<m}. (case H t k of None \<Rightarrow> 0 | Some n \<Rightarrow> n) \<noteq> 0" by (intro bexI [of _ t]) auto
  then show "recorded m H k \<noteq> 0" unfolding recorded_def by simp
qed (auto simp: recorded_def split: option.splits)

lemma histogram_of_counts:
  assumes pres: "presents m H ess" and nz: "\<forall>t k. H t k \<noteq> Some 0" and N: "\<forall>k. recorded m H k = N k"
    and fin: "finite {k. N k \<noteq> 0}" and small: "\<forall>k. N k < 2 ^ 31" "(\<Sum>k | N k \<noteq> 0. N k) < 2 ^ 63"
  shows "writeCliqueHist ess = counts_of N"
proof -
  obtain tot rows where out: "writeCliqueHist ess = (tot, rows)" by fastforce
  note w = writeCliqueHist_correct [OF pres out]
  have keys: "set (map fst rows) = {k. N k \<noteq> 0}" unfolding w(2) using entries_sizes [OF nz, of m] N by simp
  then have fst: "map fst rows = sorted_list_of_set {k. N k \<noteq> 0}"
    using w(1) by (metis sorted_list_of_set.idem_if_sorted_distinct strict_sorted_iff)
  have "rows = map (\<lambda>r. (fst r, int (N (fst r)))) rows"
    by (rule map_idI [symmetric]) (use w(3) N small(1) in \<open>auto simp: prod_eq_iff\<close>)
  then have "rows = map (\<lambda>k. (k, int (N k))) (map fst rows)" by (simp add: comp_def)
  moreover have "tot = int (\<Sum>k | N k \<noteq> 0. N k)"
  proof -
    have "fst ` set (concat ess) \<subseteq> {k. N k \<noteq> 0}"
    proof
      fix k assume "k \<in> fst ` set (concat ess)"
      then obtain es where "es \<in> set ess" "k \<in> fst ` set es" by auto
      then obtain t where "t < m" "k \<in> fst ` set (ess ! t)" using pres by (metis in_set_conv_nth presents_def)
      then have "map_of (ess ! t) k \<noteq> None" by (simp add: map_of_eq_None_iff)
      then have "H t k \<noteq> None" using pres \<open>t < m\<close> by (simp add: presents_def)
      with \<open>t < m\<close> entries_sizes [OF nz, of m k] N show "k \<in> {k. N k \<noteq> 0}" by auto
    qed
    from grand_total_sum [OF fin this] presents_sum [OF pres] N have "grand_total (concat ess) = (\<Sum>k | N k \<noteq> 0. N k)" by simp
    with w(4) small(2) show ?thesis by simp
  qed
  ultimately show ?thesis by (simp add: out counts_of_def fst)
qed

section \<open>From the arguments to the output\<close>

text \<open>The maximal cliques of a document, by size, within the limit of the options.\<close>

definition clique_count :: "config \<Rightarrow> row list \<Rightarrow> nat \<Rightarrow> nat" where
  "clique_count c rs k = (if within c k then card {C. D.maximal_clique (edges rs) C \<and> card C = k} else 0)"

lemma clique_count_finite: "finite {k. clique_count c rs k \<noteq> 0}"
proof (rule finite_subset)
  have fin: "finite (ends_of (edges rs))" by (simp add: ends_of_def)
  show "{k. clique_count c rs k \<noteq> 0} \<subseteq> {..card (ends_of (edges rs))}"
  proof
    fix k assume "k \<in> {k. clique_count c rs k \<noteq> 0}"
    then have "card {C. D.maximal_clique (edges rs) C \<and> card C = k} \<noteq> 0" by (auto simp: clique_count_def split: if_splits)
    then obtain C where "D.maximal_clique (edges rs) C" "card C = k" by (metis (mono_tags, lifting) card_eq_0_iff empty_Collect_eq)
    then have "C \<subseteq> ends_of (edges rs)" by (simp add: D.maximal_clique_def)
    with card_mono [OF fin this] \<open>card C = k\<close> show "k \<in> {..card (ends_of (edges rs))}" by simp
  qed
qed simp

lemma listed:
  "finite {k. h k \<noteq> None} \<Longrightarrow> map_of (map (\<lambda>k. (k, the (h k))) (sorted_list_of_set {k. h k \<noteq> None})) k = h k"
  by (auto simp: map_of_map_restrict restrict_map_def)

text \<open>
  The program is asked to enumerate the document \<open>rs\<close>: the file it is told holds it, the options can
  be read, and no help is wanted.
\<close>

definition asked :: "build \<Rightarrow> env \<Rightarrow> library \<Rightarrow> system \<Rightarrow> string list \<Rightarrow> row list \<Rightarrow> options \<Rightarrow> bool" where
  "asked bld e lib sys as rs opts \<longleftrightarrow> library_ok lib \<and> (USE_AVX512 bld \<longrightarrow> USE_HOPSCOTCH bld) \<and>
     document_ok rs \<and> length (edges rs) \<le> 2 ^ 27 \<and> (\<exists>(a, b) \<in> set (edges rs). a \<noteq> b) \<and>
     \<not> cmdOptionExists as ''-h'' \<and> \<not> cmdOptionExists as ''--help'' \<and>
     (\<exists>path rest. input_path sys as = Inr path \<and> files sys path = Some (render rs @ rest) \<and> CHR 0x0A \<notin> set rest) \<and>
     read_options as = Inr opts \<and> sane (run_config bld e lib opts)"

lemma asked_setup:
  assumes "asked bld e lib sys as rs opts"
  shows "ends bld e (main_setup bld e lib sys as) (\<lambda>out. \<exists>g.
    out = Enumerates (run_config bld e lib opts) (nthr opts) g (cmdOptionExists as ''-p'') \<and>
    prepared (run_config bld e lib opts) rs g)"
proof -
  obtain path tl where f: "input_path sys as = Inr path" "files sys path = Some (render rs @ tl)" "CHR 0x0A \<notin> set tl"
    using assms by (auto simp: asked_def)
  show ?thesis by (rule main_setup_ends [OF _ _ _ f(3) _ _ _ _ f(1,2)]) (use assms in \<open>simp_all add: asked_def\<close>)
qed

lemma asked_run:
  assumes ask: "asked bld e lib sys as rs opts"
  defines "c \<equiv> run_config bld e lib opts"
  assumes "prepared c rs g" and "BronKerboschDegeneracy c g = Inr w0" and "0 < m" and "steps c m w0 w" and "\<nexists>w'. step c m w w'"
  shows "case failure w of Some er \<Rightarrow> excused bld e er
    | None \<Rightarrow> (\<forall>t k. hists w t k \<noteq> Some 0) \<and> (\<forall>k. recorded m (hists w) k = clique_count c rs k)"
proof -
  have "edges rs \<noteq> []" "sane c" "document_ok rs" using ask by (auto simp: asked_def c_def)
  note r = prepared_run [OF this(2) assms(3) this(3,1) assms(5,4,6,7)]
  have "hists w0 = (\<lambda>_ _. None)" using assms(4) by (auto simp: BronKerboschDegeneracy_def)
  with steps_entries [OF assms(6)] have "\<forall>t k. hists w t k \<noteq> Some 0" by simp
  with r show ?thesis by (auto simp: clique_count_def c_def split: option.splits)
qed

text \<open>The line about the graph: every vertex once, every edge between two vertices as often as it is in the document.\<close>

definition document_line :: "row list \<Rightarrow> string" where
  "document_line rs = ''#Vertex = '' @ decimal (card (ends_of (edges rs))) @ ''; #Edge = '' @
     decimal (length (filter (\<lambda>(a, b). a \<noteq> b) (edges rs)))"

lemma degeneracyOrdering_edges: "degeneracyOrdering lib g = Inr (d, g') \<Longrightarrow> edgeNo g' = edgeNo g"
  by (auto simp: degeneracyOrdering_def Let_def split: if_splits)

lemma asked_edges:
  assumes ask: "asked bld e lib sys as rs opts" and run: "main_setup bld e lib sys as = Inr (Enumerates c n g hist)"
  shows "edgeNo g = 2 * int (length (filter (\<lambda>(a, b). a \<noteq> b) (edges rs)))"
proof -
  obtain path tl where f: "input_path sys as = Inr path" "files sys path = Some (render rs @ tl)" "CHR 0x0A \<notin> set tl"
    and doc: "document_ok rs" and opts: "read_options as = Inr opts" using ask by (auto simp: asked_def)
  then have "read_graph (run_config bld e lib opts) (render rs @ tl) = Inr g"
    using run ask by (auto simp: main_setup_def asked_def Let_def)
  then obtain g0 where g0: "initFromFile lib bld e (render rs @ tl) (Graph 0) = Inr g0" and "edgeNo g = edgeNo g0"
    by (auto simp: read_graph_def split: if_splits dest!: degeneracyOrdering_edges)
  with initFromFile_frame(3) [OF doc f(3) g0] show ?thesis by simp
qed

lemma graph_line_document:
  assumes "prepared c rs g" and "document_ok rs" and "edgeNo g = 2 * int (length (filter (\<lambda>(a, b). a \<noteq> b) (edges rs)))"
  shows "graph_line g = document_line rs"
proof -
  have k: "edge_keys rs = map (map_prod of_nat of_nat) (edges rs)" by (simp add: edge_keys_def map_prod_def)
  have "nodeNo g = int (card (verts g))" using assms(1) by (simp add: prepared_def numbered_def) (metis distinct_card)
  also have "verts g = of_nat ` ends_of (edges rs)" using assms(1) by (simp add: prepared_def k ends_of_map)
  also have "card \<dots> = card (ends_of (edges rs))" by (rule card_image [OF document_inj [OF assms(2)]])
  finally have n: "nodeNo g = int (card (ends_of (edges rs)))" .
  have "(2 * int m) sdiv 2 = int m" for m by (simp add: signed_divide_int_def sgn_if)
  with n show ?thesis by (simp add: graph_line_def document_line_def decimal_int_def assms(3))
qed

text \<open>What the program may answer.\<close>

definition answer :: "build \<Rightarrow> env \<Rightarrow> config \<Rightarrow> row list \<Rightarrow> bool \<Rightarrow> exit \<Rightarrow> bool" where
  "answer bld e c rs hist x \<longleftrightarrow> (case x of Stopped er \<Rightarrow> excused bld e er
    | Exits out \<Rightarrow> \<exists>rest. out = document_line rs # rest @
        (if hist then histogram_lines (counts_of (clique_count c rs)) else []))"

lemma program_answers:
  assumes ask: "asked bld e lib sys as rs opts"
  defines "c \<equiv> run_config bld e lib opts"
  assumes fits: "\<forall>k. clique_count c rs k < 2 ^ 31" "(\<Sum>k | clique_count c rs k \<noteq> 0. clique_count c rs k) < 2 ^ 63"
    and x: "program bld e lib sys as x"
  shows "answer bld e c rs (cmdOptionExists as ''-p'') x"
  using x
proof cases
  case (task_error c' n g hist w0 m w er)
  from asked_setup [OF ask] task_error(2) have g: "prepared c rs g" and c': "c' = c" by (auto simp: c_def)
  have w: "BronKerboschDegeneracy c g = Inr w0" "0 < m" "steps c m w0 w" "failure w = Some er" and x: "x = Stopped er"
    using task_error by (simp_all add: c')
  from w(4) have "\<nexists>w'. step c m w w'" by (auto elim: stepE)
  from asked_run [OF ask g [unfolded c_def], folded c_def, OF w(1-3) this] w(4) x show ?thesis by (simp add: answer_def)
next
  case (enumerated c' n g' hist path' opts' w0 m w entries tm lg)
  from asked_setup [OF ask] enumerated(2) have g: "prepared c rs g'" and c': "c' = c" and h: "hist = cmdOptionExists as ''-p''"
    by (auto simp: c_def)
  have w: "BronKerboschDegeneracy c g' = Inr w0" "0 < m" "steps c m w0 w" "\<nexists>w'. step c m w w'" "failure w = None"
    "presents m (hists w) entries" using enumerated by (simp_all add: c')
  from asked_run [OF ask g [unfolded c_def], folded c_def, OF w(1-4)] w(5)
  have r: "\<forall>t k. hists w t k \<noteq> Some 0" "\<forall>k. recorded m (hists w) k = clique_count c rs k" by simp_all
  have "document_ok rs" using ask by (simp add: asked_def)
  note line = graph_line_document [OF g this asked_edges [OF ask enumerated(2)]]
  from histogram_of_counts [OF w(6) r clique_count_finite fits] show ?thesis
    by (simp add: enumerated(1) answer_def setup_lines_def final_lines_def line h)
qed (use asked_setup [OF ask] start_run in \<open>auto simp: answer_def prepared_def\<close>)

lemma program_exists:
  assumes ask: "asked bld e lib sys as rs opts"
  shows "\<exists>x. program bld e lib sys as x"
proof (cases "main_setup bld e lib sys as")
  case (Inr out)
  let ?c = "run_config bld e lib opts"
  from asked_setup [OF ask] Inr obtain g where out: "main_setup bld e lib sys as = Inr (Enumerates ?c (nthr opts) g (cmdOptionExists as ''-p''))"
    and g: "prepared ?c rs g" by auto
  obtain path where p: "input_path sys as = Inr path" "read_options as = Inr opts" "sane ?c" using ask by (auto simp: asked_def)
  have num: "numbered g" and inp: "input_ok ?c g" using g by (simp_all add: prepared_def)
  note s = start_run [OF num, of ?c]
  from runs_stop [OF p(3) inp start_on_course [OF num, of ?c 1]] obtain w where
    w: "steps ?c 1 (Runs.start ?c g) w" "\<nexists>w'. step ?c 1 w w'" by blast
  show ?thesis
  proof (cases "failure w")
    case None
    with asked_run [OF ask g s _ w] have "\<forall>t k. hists w t k \<noteq> Some 0" "\<forall>k. recorded 1 (hists w) k = clique_count ?c rs k" by simp_all
    then have "{k. hists w 0 k \<noteq> None} = {k. clique_count ?c rs k \<noteq> 0}" using entries_sizes [of "hists w" 1] by auto
    with clique_count_finite [of ?c rs] have "finite {k. hists w 0 k \<noteq> None}" by simp
    from listed [OF this] have "presents 1 (hists w) [map (\<lambda>k. (k, the (hists w 0 k))) (sorted_list_of_set {k. hists w 0 k \<noteq> None})]"
      by (simp add: presents_def comp_def)
    from program.enumerated [OF out p(1,2) s _ w None this] show ?thesis by auto
  qed (use program.task_error [OF out s zero_less_one w(1)] in blast)
qed (use program.setup_error in blast)

text \<open>C1 (functional).  Asked for a document, the program comes to an end, whatever the number of threads and the order
  of the tasks.  Either it stops with an error the build is excused for (a scalar build without hopscotch tables is excused for
  nothing), or it first prints the number of vertices of the document and, with \<open>-p\<close>, last of all the number of its maximal
  cliques within the size limit, and for every size there is the number of those of that size, in ascending order, provided the
  counts fit the integers they are kept in.\<close>

theorem program_prints:
  assumes "asked bld e lib sys as rs opts" and "\<forall>k. clique_count (run_config bld e lib opts) rs k < 2 ^ 31"
    and "(\<Sum>k | clique_count (run_config bld e lib opts) rs k \<noteq> 0. clique_count (run_config bld e lib opts) rs k) < 2 ^ 63"
  shows "(\<exists>x. program bld e lib sys as x) \<and>
    (\<forall>x. program bld e lib sys as x \<longrightarrow> (case x of
       Stopped er \<Rightarrow> excused bld e er
     | Exits out \<Rightarrow> \<exists>rest. out = document_line rs # rest @
         (if cmdOptionExists as ''-p'' then histogram_lines (counts_of (clique_count (run_config bld e lib opts) rs)) else [])))"
  using program_exists [OF assms(1)] program_answers [OF assms] by (simp only: answer_def) blast

lemma demo_asked: "asked scalar_build total_env demo_library demo_system demo_args demo_rows demo_options"
  using demo_library_ok demo_document demo_reads demo_path demo_sane(1)
  by (auto simp: asked_def demo_config_def demo_args_def cmdOptionExists_def)

lemma demo_clique_count: "clique_count demo_config demo_rows k = (if k = 2 \<or> k = 3 then 1 else 0)"
proof -
  have none: "card {C. D.maximal_clique (edges demo_rows) C \<and> card C = k} = 0" if "k \<noteq> 2" "k \<noteq> 3"
  proof -
    have "{C. D.maximal_clique (edges demo_rows) C \<and> card C = k} = {}" using that by (auto simp: demo_cliques)
    then show ?thesis by (simp only: card.empty)
  qed
  show ?thesis unfolding clique_count_def if_P [OF demo_sane(2)] using none demo_counts by auto
qed

theorem program_prints_witness:
  "\<exists>rest. program scalar_build total_env demo_library demo_system demo_args (Exits (''#Vertex = 4; #Edge = 4'' # rest @
    [''# Number of maximal cliques: 2'', ''# Clique histogram:'', ''# clique_size, num_of_cliques'', ''2, 1'', ''3, 1'']))"
proof -
  have K: "{k. clique_count demo_config demo_rows k \<noteq> 0} = {2, 3}" by (auto simp: demo_clique_count)
  have fits: "\<forall>k. clique_count demo_config demo_rows k < 2 ^ 31"
    "(\<Sum>k | clique_count demo_config demo_rows k \<noteq> 0. clique_count demo_config demo_rows k) < 2 ^ 63"
    unfolding K by (simp_all add: demo_clique_count)
  have digits: "decimal 1 = ''1''" "decimal (Suc 0) = ''1''" "decimal 2 = ''2''" "decimal 3 = ''3''" "decimal 4 = ''4''" by code_simp+
  note p = program_prints [OF demo_asked, folded demo_config_def, OF fits]
  have v: "document_line demo_rows = ''#Vertex = 4; #Edge = 4''" unfolding document_line_def demo_document(3) by code_simp
  have l: "histogram_lines (counts_of (clique_count demo_config demo_rows)) =
    [''# Number of maximal cliques: 2'', ''# Clique histogram:'', ''# clique_size, num_of_cliques'', ''2, 1'', ''3, 1'']"
    unfolding counts_of_def K by (simp add: demo_clique_count histogram_lines_def decimal_int_def digits)
  have h: "cmdOptionExists demo_args ''-p''" by (simp add: demo_args_def cmdOptionExists_def)
  from p obtain x where x: "program scalar_build total_env demo_library demo_system demo_args x" by blast
  with p have "case x of Stopped er \<Rightarrow> excused scalar_build total_env er
     | Exits out \<Rightarrow> \<exists>rest. out = ''#Vertex = 4; #Edge = 4'' # rest @
         [''# Number of maximal cliques: 2'', ''# Clique histogram:'', ''# clique_size, num_of_cliques'', ''2, 1'', ''3, 1'']"
    unfolding v l if_P [OF h] by blast
  with x show ?thesis by (auto simp: not_excused digits split: exit.splits)
qed

end
