(* ===== verification/CommandLine.thy ===== *)
theory CommandLine
  imports WholeProgram Examples
begin

text \<open>
  The options of \<^verbatim>\<open>src/main.cpp\<close>: command lines that are written from settings are read back as these settings,
  and the help of \<^verbatim>\<open>include/utils.h\<close> is compared with what the program reads.
\<close>

section \<open>Arguments\<close>

lemma exists_append [simp]: "cmdOptionExists (as @ bs) opt \<longleftrightarrow> cmdOptionExists as opt \<or> cmdOptionExists bs opt"
  by (auto simp: cmdOptionExists_def)

lemma exists_Cons [simp]: "cmdOptionExists (a # as) opt \<longleftrightarrow> a = opt \<or> cmdOptionExists as opt" "\<not> cmdOptionExists [] opt"
  by (auto simp: cmdOptionExists_def)

text \<open>The word after the first occurrence, be it in the front part or at the seam.\<close>

lemma getCmdOption_append:
  "getCmdOption (as @ bs) opt =
     (if cmdOptionExists as opt
      then (case getCmdOption as opt of Some s \<Rightarrow> Some s | None \<Rightarrow> (case bs of [] \<Rightarrow> None | b # _ \<Rightarrow> Some b))
      else getCmdOption bs opt)"
proof (induction as)
  case (Cons a as)
  show ?case
  proof (cases "a = opt")
    case True
    then show ?thesis by (cases as) simp_all
  qed (use Cons in simp)
qed simp


text \<open>Words that are put behind the others do not change an option that could be read.\<close>

lemma number_option_append:
  assumes "number_option conv as opt dflt = Inr v" and "\<not> cmdOptionExists bs opt"
  shows "number_option conv (as @ bs) opt dflt = Inr v"
  using assms by (auto simp: number_option_def getCmdOption_append string_of_def split: option.splits if_splits)

lemma number_option_set:
  "\<not> cmdOptionExists as opt \<Longrightarrow> number_option conv (as @ [opt, d]) opt dflt = conv d"
  by (simp add: number_option_def getCmdOption_append string_of_def)

section \<open>Numbers as arguments\<close>



section \<open>Settings\<close>



definition written :: "(string \<times> int) list \<Rightarrow> string list" where
  "written settings = concat (map (\<lambda>(opt, v). [opt, decimal_int v]) settings)"


lemma written_simps [simp]:
  "written [] = []" "written ((opt, v) # settings) = opt # decimal_int v # written settings"
  by (simp_all add: written_def)






section \<open>The help\<close>

lemma options_cong:
  assumes "\<forall>opt \<in> set help_options. cmdOptionExists as opt = cmdOptionExists as' opt \<and> getCmdOption as opt = getCmdOption as' opt"
  shows "read_options as = read_options as'" and "input_path sys as = input_path sys as'"
    and "main_setup bld e lib sys as = main_setup bld e lib sys as'"
proof -
  have eq: "cmdOptionExists as opt = cmdOptionExists as' opt" "getCmdOption as opt = getCmdOption as' opt"
    if "opt \<in> {''-f'', ''-p'', ''-n'', ''-o'', ''-b'', ''--thresh'', ''--mem-thresh'', ''--max-clq'', ''-s'', ''--ord'', ''-m'', ''-i'',
      ''-h'', ''--help''}" for opt
    using that assms unfolding help_options_are by auto
  show r: "read_options as = read_options as'" and i: "input_path sys as = input_path sys as'"
    by (simp_all add: read_options_def number_option_def input_path_def eq)
  show "main_setup bld e lib sys as = main_setup bld e lib sys as'"
  proof -
    have e: "cmdOptionExists as ''-h'' = cmdOptionExists as' ''-h''" "cmdOptionExists as ''--help'' = cmdOptionExists as' ''--help''"
      "cmdOptionExists as ''-p'' = cmdOptionExists as' ''-p''" by (rule eq; simp)+
    show ?thesis unfolding main_setup_def r i e by (rule refl)
  qed
qed

text \<open>C31 (equivalence).  The help names every option there is.  Two command lines that agree on the options of the
  help, on which of them there are and on the words behind them, make the program do the same, whatever else they contain.\<close>

theorem help_complete:
  assumes "\<forall>opt \<in> set help_options. cmdOptionExists as opt = cmdOptionExists as' opt \<and> getCmdOption as opt = getCmdOption as' opt"
  shows "program bld e lib sys as = program bld e lib sys as'"
proof (rule ext)
  fix x
  show "program bld e lib sys as x = program bld e lib sys as' x"
    by (simp only: program.simps [of bld e lib sys as x] program.simps [of bld e lib sys as' x] options_cong [OF assms])
qed

theorem help_complete_witness:
  "program scalar_build total_env demo_library demo_system [''bk'', ''--verbose'', ''-f'', ''/a''] =
   program scalar_build total_env demo_library demo_system [''bk'', ''-f'', ''/a'', ''extra'']"
  by (rule help_complete) (simp add: help_options_are)

text \<open>The options as the parts that are read.\<close>

lemma read_options_parts:
  "read_options as = Inr opts \<longleftrightarrow>
     number_option stoi as ''-n'' 256 = Inr (nthr opts) \<and> setsMempool opts = cmdOptionExists as ''-o'' \<and>
     (\<exists>b. (if cmdOptionExists as ''-o'' then number_option stoi as ''-b'' 20480 else Inr 20480) = Inr b \<and> memBlockSize opts = word_of_int b) \<and>
     number_option stol as ''-i'' 100000 = Inr (sampling_int opts) \<and>
     CollectMemUsage opts = cmdOptionExists as ''-m'' \<and> (cmdOptionExists as ''-m'' \<longrightarrow> getCmdOption as ''-m'' \<noteq> None) \<and>
     (if cmdOptionExists as ''--ord'' then \<exists>v. number_option stol as ''--ord'' 0 = Inr v \<and> opt_ord opts = Some (sint (word_of_int v :: 32 word))
      else opt_ord opts = None) \<and>
     number_option stoi as ''--thresh'' 30 = Inr (opt_thresh opts) \<and> number_option stoi as ''--mem-thresh'' 20 = Inr (mem_threshold opts) \<and>
     number_option stoi as ''--max-clq'' (-1) = Inr (opt_max_clq opts) \<and> number_option stoi as ''-s'' 0 = Inr (opt_s opts)"
  by (cases opts) (auto simp: read_options_def bind_result_Inr_iff string_of_def split: option.splits if_splits)

lemma help_numbers:
  "stoi ''256'' = Inr 256" "stoi ''30'' = Inr 30" "stoi ''20'' = Inr 20" "stol ''0'' = Inr 0" "stol ''10000'' = Inr 10000"
  by code_simp+

text \<open>C32 (functional).  The defaults of the help.  Let the program read a command line without some option.  To add the
  number of threads, one of the two thresholds or the ordering with the value that the help calls its default
  changes nothing.  To add the sampling interval does: the help says 10000, the program uses 100000.  And
  the block size is 20480 bytes, not 20 MB.\<close>

theorem help_defaults:
  assumes "read_options as = Inr opts"
  shows "(\<forall>opt \<in> {''-n'', ''--thresh'', ''--mem-thresh''}. \<not> cmdOptionExists as opt \<longrightarrow>
      (\<exists>d. help_default opt = Some d \<and> read_options (as @ [opt, d]) = Inr opts)) \<and>
    (\<not> cmdOptionExists as ''--ord'' \<longrightarrow> (\<exists>d opts'. help_default ''--ord'' = Some d \<and>
      read_options (as @ [''--ord'', d]) = Inr opts' \<and> run_config bld e lib opts' = run_config bld e lib opts)) \<and>
    (\<not> cmdOptionExists as ''-i'' \<longrightarrow> (\<exists>d. help_default ''-i'' = Some d \<and>
      read_options (as @ [''-i'', d]) = Inr (opts\<lparr>sampling_int := 10000\<rparr>) \<and> sampling_int opts = 100000)) \<and>
    (\<not> cmdOptionExists as ''-b'' \<longrightarrow> help_default ''-b'' = Some ''20 MB'' \<and> uint (memBlockSize opts) = 20480)"
proof -
  note parts = assms [unfolded read_options_parts]
  note step = read_options_parts number_option_append number_option_set getCmdOption_append help_numbers help_defaults_are
  have dflt: "v = dflt" if "number_option conv as opt dflt = Inr v" "\<not> cmdOptionExists as opt" for conv opt dflt v
    using that by (simp add: number_option_def)
  have n: "read_options (as @ [''-n'', ''256'']) = Inr opts" if "\<not> cmdOptionExists as ''-n''"
    using parts that dflt [of stoi "''-n''" 256] by (auto simp: step)
  have t: "read_options (as @ [''--thresh'', ''30'']) = Inr opts" if "\<not> cmdOptionExists as ''--thresh''"
    using parts that dflt [of stoi "''--thresh''" 30] by (auto simp: step)
  have mt: "read_options (as @ [''--mem-thresh'', ''20'']) = Inr opts" if "\<not> cmdOptionExists as ''--mem-thresh''"
    using parts that dflt [of stoi "''--mem-thresh''" 20] by (auto simp: step)
  have ord: "read_options (as @ [''--ord'', ''0'']) = Inr (opts\<lparr>opt_ord := Some 0\<rparr>) \<and> opt_ord opts = None"
    if "\<not> cmdOptionExists as ''--ord''"
    using parts that by (auto simp: step)
  have i: "read_options (as @ [''-i'', ''10000'']) = Inr (opts\<lparr>sampling_int := 10000\<rparr>) \<and> sampling_int opts = 100000"
    if "\<not> cmdOptionExists as ''-i''"
    using parts that dflt [of stol "''-i''" 100000] by (auto simp: step)
  have b: "uint (memBlockSize opts) = 20480" if "\<not> cmdOptionExists as ''-b''"
    using parts that by (auto simp: number_option_def)
  show ?thesis
    using n t mt ord i b by (auto simp: help_defaults_are run_config_def)
qed

theorem help_defaults_witness:
  "read_options (demo_args @ [''--thresh'', ''30'']) = Inr demo_options \<and>
   read_options (demo_args @ [''-i'', ''10000'']) = Inr (demo_options\<lparr>sampling_int := 10000\<rparr>) \<and> sampling_int demo_options = 100000"
proof -
  have "\<not> cmdOptionExists demo_args ''--thresh''" "\<not> cmdOptionExists demo_args ''-i''" by (simp_all add: demo_args_def)
  with help_defaults [OF demo_reads] show ?thesis by (simp add: help_defaults_are)
qed

end
