(* ===== verification/Services.thy ===== *)
theory Services
  imports Examples MemChunk MemUsageLogger
begin

text \<open>
  The properties of what surrounds the tasks: the steps a call is made of, the program's options and
  its reader, the vertex ordering, the histogram, the memory pool and the memory log.
\<close>

section \<open>Sets, pivots and sub-graphs\<close>

lemma demo_P: "list_set scalar_build (demo_set [2, 3])" "contents (demo_set [2, 3]) = {2, 3}"
  "list_set scalar_build (demo_set [5])" "contents (demo_set [5]) = {5}"
  using demo_set_props [of scalar_build "[2, 3]"] demo_set_props [of scalar_build "[5]"]
  by (simp_all add: list_set_def del: minus_1_EMPTY)

lemma demo_shows: "shows_adj scalar_build (abs_adj demo_graph) demo_graph (contents (demo_set [2, 3])) (contents (demo_set [5]))"
  by (rule shows_adj_graph [OF demo_graph_facts(3)]) (simp_all add: demo_graph_facts(5) demo_P)

text \<open>C12 (functional).  The sub-graph of \<open>P\<close> and \<open>X\<close> has exactly their vertices, hashed adjacency sets that are those
  of the graph on \<open>P\<close>, and on \<open>X\<close> for the vertices of \<open>P\<close>; and its pivot is a vertex of \<open>P \<union> X\<close> with the most
  neighbours in \<open>P\<close>.\<close>

theorem createHpxSubgraph_correct:
  assumes "library_ok lib" and "list_set bld P" and "list_set bld X" and "contents P \<noteq> {}"
    and "contents P \<inter> contents X = {}" and "shows_adj bld (abs_adj g) g (contents P) (contents X)"
    and "card (contents P) + card (contents X) \<le> 2 ^ 28"
  shows "ends bld e (createHpxSubgraph lib bld e g P X) (\<lambda>S.
    shows_adj bld (abs_adj g) S (contents P) (contents X) \<and> verts S = contents P \<union> contents X \<and>
    pivot_node S \<in> contents P \<union> contents X \<and>
    (\<forall>w \<in> contents P \<union> contents X. card (contents P \<inter> abs_adj g w) \<le> card (contents P \<inter> abs_adj g (pivot_node S))))"
  using assms G.adj_sym by (intro createHpxSubgraph_ends) auto

theorem createHpxSubgraph_correct_witness:
  "\<exists>S. createHpxSubgraph demo_library scalar_build total_env demo_graph (demo_set [2, 3]) (demo_set [5]) = Inr S \<and>
    verts S = {2, 3, 5} \<and> pivot_node S \<in> {2, 3, 5}"
proof -
  have "card (contents (demo_set [2, 3])) + card (contents (demo_set [5])) \<le> 2 ^ 28"
    using card_length [of "[2, 3 :: key]"] by (simp add: demo_P)
  from createHpxSubgraph_correct [OF demo_library_ok demo_P(1,3) _ _ demo_shows this, of total_env]
  have "ends scalar_build total_env (createHpxSubgraph demo_library scalar_build total_env demo_graph (demo_set [2, 3]) (demo_set [5]))
    (\<lambda>S. verts S = {2, 3, 5} \<and> pivot_node S \<in> {2, 3, 5})"
    by (simp add: demo_P insert_commute del: minus_1_EMPTY) (erule ends_mono, auto)
  from demo_total [OF this] show ?thesis .
qed

text \<open>C13 (functional).  \<open>getPivot\<close> answers a vertex of \<open>P \<union> X\<close> with the most neighbours in \<open>P\<close>, of a graph that
  shows the adjacency the two sets need.\<close>

theorem getPivot_maximal:
  assumes "list_set bld P" and "list_set bld X" and "contents P \<noteq> {}"
    and "shows_adj bld adj g (contents P) (contents X)"
  shows "ends bld e (getPivot bld g P X) (\<lambda>u. u \<in> contents P \<union> contents X \<and>
    (\<forall>w \<in> contents P \<union> contents X. card (contents P \<inter> adj w) \<le> card (contents P \<inter> adj u)))"
  by (rule getPivot_ends [OF assms])

theorem getPivot_maximal_witness: "\<exists>u. getPivot scalar_build demo_graph (demo_set [2, 3]) (demo_set [5]) = Inr u \<and> u \<in> {2, 3, 5}"
proof -
  from getPivot_maximal [OF demo_P(1,3) _ demo_shows, of total_env]
  have "ends scalar_build total_env (getPivot scalar_build demo_graph (demo_set [2, 3]) (demo_set [5])) (\<lambda>u. u \<in> {2, 3, 5})"
    by (simp add: demo_P del: minus_1_EMPTY) (erule ends_mono, auto)
  from demo_total [OF this] show ?thesis .
qed

text \<open>C14 (functional).  The sets of a root task are, without repetition, the neighbours of its vertex: those later in
  the order that the options choose in \<open>P\<close>, the earlier ones in \<open>X\<close>.\<close>

theorem create_root_sets_split:
  assumes "graph_ok (target c) g" and "ordered c g" and "v \<in> verts g"
  shows "\<exists>P X. create_root_sets c g v = Inr (P, X) \<and> list_set (target c) P \<and> list_set (target c) X \<and>
    contents P = {w \<in> abs_adj g v. root_key c g v < root_key c g w} \<and>
    contents X = {w \<in> abs_adj g v. root_key c g w < root_key c g v} \<and> contents P \<union> contents X = abs_adj g v"
proof -
  obtain P X where PX: "create_root_sets c g v = Inr (P, X)" "list_set (target c) P" "list_set (target c) X"
    "contents P = later c g v" "contents X = earlier c g v"
    using create_root_sets_correct [OF assms(1) refl assms(2,3)] by blast
  have "root_key c g w \<noteq> root_key c g v" if "w \<in> abs_adj g v" for w
    using that inj_on_eq_iff [OF root_key_inj [OF assms(2)] _ assms(3), of w] G.adj_V G.adj_irrefl by blast
  then have "later c g v \<union> earlier c g v = abs_adj g v" by (auto simp: later_def earlier_def linorder_neq_iff)
  with PX show ?thesis by (auto simp: later_def earlier_def)
qed

theorem create_root_sets_split_witness:
  "\<exists>P X. create_root_sets demo_config demo_graph 4 = Inr (P, X) \<and> contents P \<union> contents X = {2, 3, 5}"
proof -
  have "graph_ok (target demo_config) demo_graph" "4 \<in> verts demo_graph" by (simp_all add: demo_graph_facts)
  moreover have "abs_adj demo_graph 4 = {2, 3, 5}" unfolding demo_graph_facts(6) by (auto simp: joined_def simp del: minus_1_EMPTY)
  ultimately show ?thesis using create_root_sets_split [OF _ demo_graph_facts(4), of 4] by (simp del: minus_1_EMPTY) blast
qed

section \<open>Options and input\<close>

text \<open>Asked for a readable file that holds a document with an edge, with options that can be read and without
  a call for help, the program comes to the enumeration: with the options as given, the number of threads, and the
  graph of the document, numbered for the enumeration.\<close>

theorem main_comes_to_enumeration:
  assumes "library_ok lib" and "USE_AVX512 bld \<Longrightarrow> USE_HOPSCOTCH bld"
    and "document_ok rs" and "CHR 0x0A \<notin> set tail" and "length (edges rs) \<le> 2 ^ 27"
    and "\<exists>(a, b) \<in> set (edges rs). a \<noteq> b"
    and "\<not> cmdOptionExists as ''-h''" and "\<not> cmdOptionExists as ''--help''"
    and "input_path sys as = Inr path" and "files sys path = Some (render rs @ tail)" and "read_options as = Inr opts"
  shows "ends bld e (main_setup bld e lib sys as) (\<lambda>out. \<exists>g.
    out = Enumerates (run_config bld e lib opts) (nthr opts) g (cmdOptionExists as ''-p'') \<and>
    prepared (run_config bld e lib opts) rs g)"
  by (rule main_setup_ends [OF assms])

theorem main_comes_to_enumeration_witness:
  "\<exists>g. main_setup scalar_build total_env demo_library demo_system demo_args = Inr (Enumerates demo_config 2 g True)"
proof -
  have a: "\<not> cmdOptionExists demo_args ''-h''" "\<not> cmdOptionExists demo_args ''--help''" "cmdOptionExists demo_args ''-p''"
    by (simp_all add: demo_args_def cmdOptionExists_def)
  have "\<not> USE_AVX512 scalar_build" "\<exists>(a, b) \<in> set (edges demo_rows). a \<noteq> b" "length (edges demo_rows) \<le> 2 ^ 27"
    by (simp_all add: demo_document(3))
  with main_comes_to_enumeration [OF demo_library_ok _ demo_document(1,2) _ _ a(1,2) demo_path demo_reads, of scalar_build total_env]
  have "ends scalar_build total_env (main_setup scalar_build total_env demo_library demo_system demo_args)
    (\<lambda>out. \<exists>g. out = Enumerates (run_config scalar_build total_env demo_library demo_options) (nthr demo_options) g True)"
    unfolding if_P [OF a(3)] by (auto intro: ends_mono simp: a(3))
  from demo_total [OF this] show ?thesis by (auto simp: demo_config_def demo_options_def)
qed

text \<open>C15 (roundtrip).  A document written by \<open>render\<close> and read back by \<open>initFromFile\<close>, whatever follows its last newline,
  gives a graph with the vertices and the adjacency of the document; loops and repeated edges leave no trace.  Every
  vertex is listed once in the vertex ordering, and its position is that of the list.\<close>

theorem render_read_back:
  assumes "library_ok lib" and "USE_AVX512 bld \<Longrightarrow> USE_HOPSCOTCH bld" and doc: "document_ok rs"
    and "CHR 0x0A \<notin> set tail" and "length (edges rs) \<le> 2 ^ 28"
  shows "ends bld e (initFromFile lib bld e (render rs @ tail) (Graph 0)) (\<lambda>g. graph_ok bld g \<and>
    verts g = of_nat ` ends_of (edges rs) \<and>
    (\<forall>v \<in> ends_of (edges rs). abs_adj g (of_nat v) = of_nat ` joined (edges rs) v) \<and>
    distinct (vertexOrdering g) \<and> set (vertexOrdering g) = verts g \<and>
    (\<forall>i < length (vertexOrdering g). getNodePosition g (vertexOrdering g ! i) = i))"
proof (rule ends_mono [OF initFromFile_ends [OF assms]])
  fix g assume g: "graph_of bld (edge_keys rs) g"
  have k: "edge_keys rs = map (map_prod of_nat of_nat) (edges rs)" by (simp add: edge_keys_def map_prod_def)
  note j = joined_map [OF document_inj [OF doc]]
  show "graph_ok bld g \<and> verts g = of_nat ` ends_of (edges rs) \<and>
    (\<forall>v \<in> ends_of (edges rs). abs_adj g (of_nat v) = of_nat ` joined (edges rs) v) \<and>
    distinct (vertexOrdering g) \<and> set (vertexOrdering g) = verts g \<and>
    (\<forall>i < length (vertexOrdering g). getNodePosition g (vertexOrdering g ! i) = i)"
    using g j unfolding graph_of_def k ends_of_map numbered_def placed_def by (simp add: getNodePosition_def)
qed

theorem render_read_back_witness:
  "\<exists>g. initFromFile demo_library scalar_build total_env (render demo_rows @ ''5 2'') (Graph 0) = Inr g \<and> abs_adj g 4 = {2, 3, 5}"
proof -
  have e: "4 \<in> ends_of (edges demo_rows)" "joined (edges demo_rows) 4 = {2, 3, 5}"
    by (auto simp: ends_of_def joined_def demo_document(3))
  have small: "length (edges demo_rows) \<le> 2 ^ 28" by (simp add: demo_document(3))
  have "USE_AVX512 scalar_build \<Longrightarrow> USE_HOPSCOTCH scalar_build" by simp
  from demo_total [OF render_read_back [OF demo_library_ok this demo_document(1,2) small, of total_env]] obtain g where
    g: "initFromFile demo_library scalar_build total_env (render demo_rows @ ''5 2'') (Graph 0) = Inr g"
    "\<forall>v \<in> ends_of (edges demo_rows). abs_adj g (of_nat v) = of_nat ` joined (edges demo_rows) v" by blast
  have "abs_adj g (of_nat 4) = of_nat ` joined (edges demo_rows) 4" using g(2) e(1) by blast
  with g(1) e(2) show ?thesis by (simp del: minus_1_EMPTY)
qed

section \<open>The vertex ordering\<close>

lemma degeneracy_read:
  assumes "library_ok (stdlib c)" and "USE_AVX512 (target c) \<Longrightarrow> USE_HOPSCOTCH (target c)"
    and doc: "document_ok rs" and "CHR 0x0A \<notin> set tail" and "length (edges rs) \<le> 2 ^ 27"
    and edge: "(a, b) \<in> set (edges rs)" "a \<noteq> b" and ord: "degeneracyOrd c" and run: "read_graph c (render rs @ tail) = Inr g"
  shows "\<exists>d. degeneracy g = int d \<and> is_degeneracy (abs_adj g) (verts g) d \<and>
    (\<forall>j < length (vertexOrdering g). card (abs_adj g (vertexOrdering g ! j) \<inter> set (drop (Suc j) (vertexOrdering g))) \<le> d)"
proof -
  from run ord obtain h where h: "initFromFile (stdlib c) (target c) (host c) (render rs @ tail) (Graph 0) = Inr h"
    "\<exists>d. degeneracyOrdering (stdlib c) h = Inr (d, g)" by (auto simp: read_graph_def)
  have "length (edges rs) \<le> 2 ^ 28" using assms(5) by simp
  from initFromFile_ends [OF assms(1-4) this, of "host c"] h(1)
  have g: "graph_of (target c) (edge_keys rs) h" by simp
  then have "abs_adj h (of_nat a) \<noteq> {}" using has_neighbour [OF edge doc] by (simp add: graph_of_def)
  with g degeneracyOrdering_correct [OF assms(1), of "target c" h "of_nat a"] obtain d vs m where
    d: "degeneracyOrdering (stdlib c) h = Inr (d, h\<lparr>vertexOrdering := vs, backwardsMapping := m, degeneracy := int d\<rparr>)"
    "is_degeneracy (abs_adj h) (verts h) d" "\<forall>j < length vs. card (abs_adj h (vs ! j) \<inter> set (drop (Suc j) vs)) \<le> d"
    unfolding graph_of_def by blast
  with h(2) have e: "g = h\<lparr>vertexOrdering := vs, backwardsMapping := m, degeneracy := int d\<rparr>" by simp
  then have "adjList g = adjList h" by simp
  from relabelled(1,3) [OF this] d(2,3) show ?thesis by (simp add: e)
qed

text \<open>C16 (functional).  With the degeneracy ordering, the number the program prints is the degeneracy of the graph: every
  nonempty set of vertices has a vertex with at most so many neighbours in the set, and in some set every vertex
  has that many.  In the ordering no vertex has more later neighbours than that.\<close>

theorem ordering_by_degeneracy:
  assumes "library_ok (stdlib c)" and "USE_AVX512 (target c) \<Longrightarrow> USE_HOPSCOTCH (target c)"
    and "document_ok rs" and "CHR 0x0A \<notin> set tail" and "length (edges rs) \<le> 2 ^ 27"
    and "(a, b) \<in> set (edges rs)" and "a \<noteq> b" and "degeneracyOrd c" and "read_graph c (render rs @ tail) = Inr g"
  shows "\<exists>d. degeneracy g = int d \<and> is_degeneracy (abs_adj g) (verts g) d \<and>
    (\<forall>j < length (vertexOrdering g). card (abs_adj g (vertexOrdering g ! j) \<inter> set (drop (Suc j) (vertexOrdering g))) \<le> d)"
  by (rule degeneracy_read [OF assms])

theorem ordering_by_degeneracy_witness:
  "\<exists>d. degeneracy demo_graph = int d \<and> is_degeneracy (abs_adj demo_graph) {2, 3, 4, 5} d"
proof -
  have "(4, 5) \<in> set (edges demo_rows)" "(4 :: nat) \<noteq> 5" "length (edges demo_rows) \<le> 2 ^ 27" by (simp_all add: demo_document(3))
  with ordering_by_degeneracy [OF _ _ demo_document(1,2) _ _ _ _ demo_graph(1), of 4 5] demo_library_ok
  show ?thesis by (auto simp: demo_graph_facts(5))
qed

text \<open>C17 (error).  A document whose edges all join a vertex to itself is read, but cannot be ordered by degeneracy: the
  program ends with a failed assertion.\<close>

theorem loops_only_fail:
  assumes "library_ok (stdlib c)" and "USE_AVX512 (target c) \<Longrightarrow> USE_HOPSCOTCH (target c)"
    and "document_ok rs" and "CHR 0x0A \<notin> set tail" and "length (edges rs) \<le> 2 ^ 28"
    and "edges rs \<noteq> []" and "\<forall>(a, b) \<in> set (edges rs). a = b" and "degeneracyOrd c"
  shows "\<exists>er. read_graph c (render rs @ tail) = Inl er \<and> (er = AssertionFailed \<or> excused (target c) (host c) er)"
  by (rule no_edge_fails [OF assms])

theorem loops_only_fail_witness: "read_graph demo_config (render [Edge 7 7] @ '' '') = Inl AssertionFailed"
  using loops_only_fail [of demo_config "[Edge 7 7]" "'' ''"] demo_library_ok
  by (auto simp: document_ok_def not_excused)

section \<open>The histogram\<close>

text \<open>C18 (bounds).  The histogram that is printed lists every size some thread has an entry for, once and in
  ascending order, with the sum of the entries of all threads as long as the sum fits an \<open>int\<close>; the total is right
  as long as it fits a \<open>long\<close>.\<close>

theorem histogram_printed:
  assumes "presents m H ess" and "writeCliqueHist ess = (tot, rows)"
  shows "sorted_wrt (<) (map fst rows) \<and> set (map fst rows) = {k. \<exists>t < m. H t k \<noteq> None} \<and>
    (\<forall>(k, n) \<in> set rows. recorded m H k < 2 ^ 31 \<longrightarrow> n = int (recorded m H k)) \<and>
    (grand_total (concat ess) < 2 ^ 63 \<longrightarrow> tot = int (grand_total (concat ess)))"
  using writeCliqueHist_correct [OF assms] by blast

definition demo_hists :: "(nat \<times> nat) list list" where
  "demo_hists = [[(3, 1), (2, 5)], [(3, 4)]]"

theorem histogram_printed_witness:
  "fst (writeCliqueHist demo_hists) = 10 \<and> set (map fst (snd (writeCliqueHist demo_hists))) = {2, 3}"
proof -
  define H where "H = (\<lambda>t. map_of (demo_hists ! t))"
  have p: "presents 2 H demo_hists"
    by (auto simp: presents_def demo_hists_def H_def less_Suc_eq numeral_2_eq_2)
  have g: "grand_total (concat demo_hists) = 10" by (simp add: grand_total_def demo_hists_def)
  have "{k. \<exists>t < 2. H t k \<noteq> None} = {2, 3}"
    by (auto simp: H_def demo_hists_def less_Suc_eq numeral_2_eq_2 split: if_splits)
  with histogram_printed [OF p, of "fst (writeCliqueHist demo_hists)" "snd (writeCliqueHist demo_hists)"] g
  show ?thesis by simp
qed

section \<open>Memory\<close>

lemma get_address_frame: "get_address n ch = (r, ch') \<Longrightarrow> allocations ch' = allocations ch \<and> freed ch' = freed ch"
  by (auto simp: get_address_def Let_def split: if_splits)

lemma serve_frame: "serve ns ch = (r, ch') \<Longrightarrow> allocations ch' = allocations ch \<and> freed ch' = freed ch"
proof (induction ns arbitrary: ch r ch')
  case (Cons n ns)
  obtain x ch1 where g: "get_address n ch = (x, ch1)" by (cases "get_address n ch")
  obtain rs ch2 where s: "serve ns ch1 = (rs, ch2)" by (cases "serve ns ch1")
  from Cons.prems g s get_address_frame [OF g] Cons.IH [OF s] show ?case
    by (cases x) auto
qed simp

text \<open>C19 (safety).  The regions that a new pool hands out, for requests of at most a gigabyte, have the sizes asked
  for, start on a cache line, lie inside a block, and do not overlap.  The blocks stay while an allocation is left, and
  all of them, and nothing else, are freed with the last one.\<close>

theorem pool_regions:
  assumes "unat dbsize < 2 ^ 31" and "\<forall>n \<in> set ns. unat n \<le> 2 ^ 30"
  shows "\<exists>rs ch. serve ns (MemChunk dbsize) = (Inr rs, ch) \<and> map (\<lambda>(b, off, n). n) rs = map unat ns \<and>
    list_all (placed_in (dynamic_block_list ch)) rs \<and> sorted_wrt MemChunk.disjoint rs \<and>
    (let ch' = (increment_allocations ^^ Suc k) ch in
      (\<forall>j \<le> k. dynamic_block_list ((decrement_allocations ^^ j) ch') = dynamic_block_list ch \<and>
        freed ((decrement_allocations ^^ j) ch') = []) \<and>
      freed ((decrement_allocations ^^ Suc k) ch') = map fst (dynamic_block_list ch) \<and>
      dynamic_block_list ((decrement_allocations ^^ Suc k) ch') = [])"
proof -
  have "chunk_ok (MemChunk dbsize)" using assms(1) by (simp add: chunk_ok_def MemChunk_def)
  from serve_ok [OF this, of ns] assms(2) obtain rs ch where
    s: "serve ns (MemChunk dbsize) = (Inr rs, ch)" "map (\<lambda>(b, off, n). n) rs = map unat ns"
      "list_all (placed_in (dynamic_block_list ch)) rs" "sorted_wrt MemChunk.disjoint rs" by auto
  from serve_frame [OF s(1)] have a: "allocations ch = 0" "freed ch = []" by (simp_all add: MemChunk_def)
  define ch' where "ch' = ch\<lparr>allocations := int (Suc k)\<rparr>"
  have f: "allocations ch' = int (Suc k)" "dynamic_block_list ch' = dynamic_block_list ch" "freed ch' = []"
    by (simp_all add: ch'_def a(2))
  have i: "(increment_allocations ^^ Suc k) ch = ch'" unfolding increment_steps a(1) by (simp add: ch'_def)
  have d: "(decrement_allocations ^^ j) ch' = ch'\<lparr>allocations := allocations ch' - int j\<rparr>" if "j \<le> k" for j
    using that f(1) by (intro decrement_steps) simp
  have "let ch' = (increment_allocations ^^ Suc k) ch in
      (\<forall>j \<le> k. dynamic_block_list ((decrement_allocations ^^ j) ch') = dynamic_block_list ch \<and>
        freed ((decrement_allocations ^^ j) ch') = []) \<and>
      freed ((decrement_allocations ^^ Suc k) ch') = map fst (dynamic_block_list ch) \<and>
      dynamic_block_list ((decrement_allocations ^^ Suc k) ch') = []"
    unfolding i Let_def decrement_all [OF f(1)] by (simp add: d f)
  with s show ?thesis by blast
qed

theorem pool_regions_witness:
  "\<exists>rs ch. serve [100, 30000, 7] (MemChunk 20480) = (Inr rs, ch) \<and> map (\<lambda>(b, off, n). n) rs = [100, 30000, 7]"
  using pool_regions [of 20480 "[100, 30000, 7]" 0] by auto

text \<open>C20 (invariant).  After any calls of any threads the log's counters hold, in total and by type, what has been
  added less what has been given back, and the number of additions; the parts of every sample add up to its total, and
  the peak is the largest total of a sample, with parts that add up to it.\<close>

theorem log_adds_up:
  "let lg = fold perform es (MemUsageLogger si) in
    combine_mem_usage_data (tmp_usage_pt lg) = (\<Sum>e \<leftarrow> es. change e) \<and>
    (\<forall>t. combine_mem_usage_data (tmp_type_usage_pt lg t) = (\<Sum>e \<leftarrow> filter (\<lambda>e. type_of e = t) es. change e)) \<and>
    combine_mem_usage_data (allocation_num_pt lg) = int (length (filter is_add es)) \<and>
    (\<forall>(total, parts) \<in> set (mem_log_stream lg). sum_list parts = total) \<and>
    peak_usage lg = Max (insert 0 (fst ` set (mem_log_stream lg))) \<and>
    (\<Sum>t \<leftarrow> mem_types. peak_type_usage lg t) = peak_usage lg"
  using fold_logged [OF new_logged [of si], of es]
  by (simp add: logged_def usage_ok_def allocations_ok_def samples_ok_def Let_def)

theorem log_adds_up_witness:
  "combine_mem_usage_data (tmp_usage_pt (fold perform [Add 0 0 100 SET, Add 1 0 50 TASK, Del 1 0 30 SET] (MemUsageLogger 1))) = 120"
  using log_adds_up [of "[Add 0 0 100 SET, Add 1 0 50 TASK, Del 1 0 30 SET]" 1] by (simp only: Let_def) simp

section \<open>Options that fail and options in range\<close>

text \<open>C26 (error).  With a sub-graph mode outside 0 to 3, which the program accepts, every root task whose vertex has
  a later neighbour fails with an assertion: it looks for the pivot of a sub-graph that no mode has made.\<close>

theorem unknown_mode_asserts:
  assumes "library_ok (stdlib c)" and "graph_ok (target c) g" and "ordered c g" and "v \<in> verts g"
    and "later c g v \<noteq> {}" and "pivot_node g = -1" and "within c 2" and "subgraphBased c < 0 \<or> 3 < subgraphBased c"
    and "this st = root_of c v" and "alive (Some 0) g 1 (guards st)"
  shows "execute c thr st = Inl AssertionFailed"
  by (rule unknown_mode_fails [OF assms])

theorem unknown_mode_asserts_witness:
  "\<exists>v \<in> {4, 5}. execute (demo_config\<lparr>subgraphBased := 5\<rparr>) 0
    \<lparr>this = root_of (demo_config\<lparr>subgraphBased := 5\<rparr>) v, self = 0,
     guards = [Some \<lparr>guarded = demo_graph, ref_count = 1\<rparr>], pt_hist = (\<lambda>_ _. None), spawned = []\<rparr> = Inl AssertionFailed"
proof -
  let ?c = "demo_config\<lparr>subgraphBased := 5\<rparr>"
  have ord: "ordered ?c demo_graph" using demo_graph_facts(4) by (simp add: ordered_def)
  from demo_later [OF ord] obtain v where v: "v \<in> {4, 5}" "later ?c demo_graph v \<noteq> {}" "v \<in> verts demo_graph" by blast
  from unknown_mode_asserts [OF _ _ ord v(3,2) read_graph_pivot [OF demo_document(1,2) demo_graph(1)]]
    demo_library_ok demo_graph_facts(3)
  have "execute ?c 0 \<lparr>this = root_of ?c v, self = 0, guards = [Some \<lparr>guarded = demo_graph, ref_count = 1\<rparr>],
    pt_hist = (\<lambda>_ _. None), spawned = []\<rparr> = Inl AssertionFailed"
    by (simp add: within_def alive_def)
  with v(1) show ?thesis by blast
qed

text \<open>C27 (error).  With the sub-graphs of mode 1 and a size limit of 1, the first root task whose vertex has a later
  neighbour is stopped by the limit before it has made a sub-graph, and its continuation then drops the only reference
  to the graph of the program: the graph is freed while the other root tasks use it.\<close>

theorem limit_one_frees_graph:
  assumes "graph_ok (target c) g" and "ordered c g" and "v \<in> verts g" and "later c g v \<noteq> {}"
    and "subgraphBased c = 1" and "max_clq_size c = 1"
    and "this st = root_of c v" and "guards st = [Some \<lparr>guarded = g, ref_count = 1\<rparr>]"
  shows "\<exists>st1 st2. execute c thr st = Inr (SafeContinuation, None, st1) \<and>
    execute c thr st1 = Inr (Finished, None, st2) \<and> guards st2 = [None]"
  by (rule limit_one_frees [OF assms])

theorem limit_one_frees_graph_witness:
  "\<exists>v st1 st2. v \<in> {4, 5} \<and> execute (demo_config\<lparr>subgraphBased := 1, max_clq_size := 1\<rparr>) 0
    \<lparr>this = root_of (demo_config\<lparr>subgraphBased := 1, max_clq_size := 1\<rparr>) v, self = 0,
     guards = [Some \<lparr>guarded = demo_graph, ref_count = 1\<rparr>], pt_hist = (\<lambda>_ _. None), spawned = []\<rparr> =
      Inr (SafeContinuation, None, st1) \<and>
    execute (demo_config\<lparr>subgraphBased := 1, max_clq_size := 1\<rparr>) 0 st1 = Inr (Finished, None, st2) \<and> guards st2 = [None]"
proof -
  let ?c = "demo_config\<lparr>subgraphBased := 1, max_clq_size := 1\<rparr>"
  have ord: "ordered ?c demo_graph" using demo_graph_facts(4) by (simp add: ordered_def)
  from demo_later [OF ord] obtain v where v: "v \<in> {4, 5}" "later ?c demo_graph v \<noteq> {}" "v \<in> verts demo_graph" by blast
  have "graph_ok (target ?c) demo_graph" "subgraphBased ?c = 1" "max_clq_size ?c = 1" using demo_graph_facts(3) by simp_all
  from limit_one_frees_graph [OF this(1) ord v(3,2) this(2,3), of "\<lparr>this = root_of ?c v, self = 0,
     guards = [Some \<lparr>guarded = demo_graph, ref_count = 1\<rparr>], pt_hist = (\<lambda>_ _. None), spawned = []\<rparr>" 0] v(1)
  show ?thesis by (simp only: state.simps) blast
qed

end
