(* ===== verification/MemoryResults.thy ===== *)
theory MemoryResults
  imports Results PoolPrivacy
begin

text \<open>
  The properties of the memory of the sets: whole runs with the places of the sets, and one node that is cut
  off by the size limit.
\<close>

section \<open>Whole runs\<close>

text \<open>The pools as the options ask for them, for sets of 48 bytes and buckets of 72.\<close>

definition run_pool :: "64 word \<Rightarrow> 64 word \<Rightarrow> options \<Rightarrow> pool_config" where
  "run_pool set_size bucket_size opt = \<lparr>use_pool = setsMempool opt, pool_limit = mem_threshold opt,
     pool_block = memBlockSize opt, set_bytes = set_size, bucket_bytes = bucket_size\<rparr>"

definition demo_pool :: pool_config where
  "demo_pool = run_pool 48 72 (demo_options\<lparr>setsMempool := True\<rparr>)"

text \<open>A run in which the tasks are executed in a given order.\<close>

definition task_run :: "config \<Rightarrow> nat \<Rightarrow> world \<times> places \<Rightarrow> (world \<times> places) result" where
  "task_run c p = (\<lambda>(w, pl).
     if failure w = None \<and> p < length (slots w) \<and> phase_of (slots w ! p) = Ready then
       bind_result (execute_mem c demo_pool 0 (spots pl ! p) (call p w, mem_call p pl)) (\<lambda>(r, a, sp, st, me).
         Inr (settle p (r, map_option fst a, st) w, settle_mem p (a, sp, me) pl))
     else Inl OutOfFuel)"

definition start_run_of :: "config \<Rightarrow> graph \<Rightarrow> world \<times> places" where
  "start_run_of c g = (Runs.start c g, start_places g)"

definition run_tasks :: "config \<Rightarrow> graph \<Rightarrow> nat list \<Rightarrow> (world \<times> places) result" where
  "run_tasks c g ps = fold_result (task_run c) ps (start_run_of c g)"

lemma task_run_step: "task_run c p s = Inr s' \<Longrightarrow> mem_step c demo_pool 2 s s'"
  by (cases s) (auto simp: task_run_def intro: mem_step.run [where thr = 0] split: if_splits)

lemma run_tasks_steps: "run_tasks c g ps = Inr s \<Longrightarrow> mem_steps c demo_pool 2 (Runs.start c g, start_places g) s"
proof (induction ps arbitrary: s rule: rev_induct)
  case (snoc p ps)
  then obtain s' where "run_tasks c g ps = Inr s'" "task_run c p s' = Inr s"
    by (auto simp: run_tasks_def fold_result_snoc)
  with snoc.IH task_run_step show ?case by (meson rtranclp.rtrancl_into_rtrancl)
qed (simp add: run_tasks_def start_run_of_def)

text \<open>A ring of four vertices, with a task for every branch; and the first step of its run.\<close>

definition ring_rows :: "row list" where
  "ring_rows = [Header 4 4 4, Edge 2 3, Edge 3 4, Edge 4 5, Edge 5 2]"

definition ring_config :: config where
  "ring_config = run_config scalar_build total_env demo_library (demo_options\<lparr>opt_thresh := 0\<rparr>)"

definition ring_graph :: graph where
  "ring_graph = projr (read_graph ring_config (render ring_rows))"

definition ring_first :: "world \<times> places" where
  "ring_first = projr (run_tasks ring_config ring_graph [0])"

lemma ring_reads: "read_graph ring_config (render ring_rows) = Inr ring_graph"
proof -
  have "\<not> isl (read_graph ring_config (render ring_rows))" by code_simp
  then show ?thesis by (simp add: ring_graph_def)
qed

lemma ring_sane: "sane ring_config" "USE_AVX512 (target ring_config) = False" "library_ok (stdlib ring_config)"
  by (simp_all add: ring_config_def run_config_def demo_options_def sane_def demo_library_ok)

lemma ring_facts: "input_ok ring_config ring_graph" "numbered ring_graph" "input_ok demo_config ring_graph"
proof -
  have doc: "document_ok ring_rows" by (simp add: ring_rows_def document_ok_def)
  have es: "edges ring_rows = [(2, 3), (3, 4), (4, 5), (5, 2)]" by (simp add: ring_rows_def)
  from doc es have "prepared ring_config ring_rows ring_graph"
    using read_graph_ends [of ring_config ring_rows "[]"] ring_sane ring_reads by simp
  then show "input_ok ring_config ring_graph" "numbered ring_graph" by (simp_all add: prepared_def)
  have "read_graph demo_config (render ring_rows) = Inr ring_graph"
    using ring_reads by (simp add: read_graph_def ring_config_def demo_config_def run_config_def demo_options_def)
  with doc es have "prepared demo_config ring_rows ring_graph"
    using read_graph_ends [of demo_config ring_rows "[]"] demo_library_ok by simp
  then show "input_ok demo_config ring_graph" by (simp add: prepared_def)
qed

lemma ring_begins: "BronKerboschDegeneracy ring_config ring_graph = Inr (Runs.start ring_config ring_graph)"
  by (rule start_run [OF ring_facts(2)])

lemma ring_first_facts:
  "run_tasks ring_config ring_graph [0] = Inr ring_first"
  "failure (fst ring_first) = None" "length (slots (fst ring_first)) = 5"
  "phase_of (slots (fst ring_first) ! 0) = Ready" "phase_of (slots (fst ring_first) ! 4) = Ready"
  "spot_sets (spots (snd ring_first) ! 4) = [3, 4]" 
  "map_option allocations (chunks (heap_at (snd ring_first)) ! 0) = Some 3"
proof -
  let ?Q = "\<lambda>(w, pl). failure w = None \<and> length (slots w) = 5 \<and> phase_of (slots w ! 0) = Ready \<and>
      phase_of (slots w ! 4) = Ready \<and> spot_sets (spots pl ! 4) = [3, 4] \<and>
      map_option allocations (chunks (heap_at pl) ! 0) = Some 3"
  have "case run_tasks ring_config ring_graph [0] of Inl er \<Rightarrow> False | Inr s \<Rightarrow> ?Q s" by code_simp
  then show "run_tasks ring_config ring_graph [0] = Inr ring_first"
    "failure (fst ring_first) = None" "length (slots (fst ring_first)) = 5"
    "phase_of (slots (fst ring_first) ! 0) = Ready" "phase_of (slots (fst ring_first) ! 4) = Ready"
    "spot_sets (spots (snd ring_first) ! 4) = [3, 4]" 
    "map_option allocations (chunks (heap_at (snd ring_first)) ! 0) = Some 3"
    by (cases "run_tasks ring_config ring_graph [0]"; auto simp: ring_first_def)+
qed

text \<open>C8 (safety).  A set is never used after it has been freed, nor freed twice, nor a null pointer to one followed: with
  the places of all sets and pools, in which each of these is an error, the runs are those without them, step for step
  and with the same errors.  So every run is safe, with and without the option for pools, for every threshold and block
  size, and in every order of the tasks.\<close>

theorem memory_safe:
  assumes "sane c" and "input_ok c g" and "numbered g" and "BronKerboschDegeneracy c g = Inr w0"
  shows "(\<exists>pl. mem_steps c m n (w0, start_places g) (w, pl)) \<longleftrightarrow> steps c n w0 w"
proof -
  have "w0 = Runs.start c g" using assms(4) start_run [OF assms(3), of c] by simp
  with placed_runs(1) [OF assms(1-3)] show ?thesis by simp
qed

theorem memory_safe_witness:
  "\<exists>w pl. mem_steps demo_config demo_pool 2 (Runs.start demo_config demo_graph, start_places demo_graph) (w, pl) \<and>
    (\<nexists>w'. step demo_config 2 w w')"
proof -
  note f = demo_graph_facts
  have "on_course demo_config demo_graph 2 (Runs.start demo_config demo_graph)" by (rule start_on_course [OF f(2)])
  from runs_stop [OF demo_sane(1) f(1) this] obtain w where
    w: "steps demo_config 2 (Runs.start demo_config demo_graph) w" "\<nexists>w'. step demo_config 2 w w'" by blast
  with memory_safe [OF demo_sane(1) f(1,2) demo_start, of demo_pool 2 w] show ?thesis by blast
qed

text \<open>C10 (invariant).  In every world of a run that has not failed, a set that a task holds can be used: it has not
  been freed, nor has the memory it lies in.  It lies in memory of its own, in the pool of the task, or in that of the
  task's parent, which is not gone yet; and no two tasks hold the same set, or own the same pool.\<close>

theorem held_sets_usable:
  assumes "sane c" and "input_ok c g" and "numbered g" and "BronKerboschDegeneracy c g = Inr w0"
    and "mem_steps c m n (w0, start_places g) (w, pl)" and "failure w = None"
    and "p < length (slots w)" and "phase_of (slots w ! p) \<noteq> Gone" and "h \<in> set (spot_sets (spots pl ! p))"
  shows "(\<exists>s. deref_set h (heap_at pl) = Inr s) \<and>
    (owner (heap_at pl) h \<in> {None, chunk_at (spots pl ! p)} \<or>
      (\<exists>q < length (slots w). phase_of (slots w ! q) \<noteq> Gone \<and> parent (job (slots w ! p)) = Some q \<and>
        owner (heap_at pl) h = chunk_at (spots pl ! q))) \<and>
    (\<forall>q < length (slots w). q \<noteq> p \<and> phase_of (slots w ! q) \<noteq> Gone \<longrightarrow> h \<notin> set (spot_sets (spots pl ! q)) \<and>
      (chunk_at (spots pl ! q) = chunk_at (spots pl ! p) \<longrightarrow> chunk_at (spots pl ! p) = None))"
proof -
  have "w0 = Runs.start c g" using assms(4) start_run [OF assms(3), of c] by simp
  with placed_runs(2) [OF assms(1-3)] assms(5,6) have m: "slots_mem (unlimited c) {} (alive_slots (slots w))
      (\<lambda>q. job (slots w ! q)) (\<lambda>q. spots pl ! q) (heap_at pl)" by (auto simp: in_order_def places_ok_def)
  have L: "q \<in> alive_slots (slots w) \<longleftrightarrow> q < length (slots w) \<and> phase_of (slots w ! q) \<noteq> Gone" for q
    by (simp add: alive_slots_def live_def)
  then have p: "p \<in> alive_slots (slots w)" using assms(7,8) by simp
  have "\<exists>s. deref_set h (heap_at pl) = Inr s"
    using slots_memD(1) [OF m p] assms(9) by (simp add: heap_ok_def)
  moreover note slots_memD(3) [OF m p, unfolded owners_ok_def, rule_format, OF assms(9)]
  moreover have "separate (\<lambda>q. spots pl ! q) p q" if "q \<in> alive_slots (slots w)" "q \<noteq> p" for q
    using slots_mem_separate [OF m p that(1)] that(2) by simp
  ultimately show ?thesis using assms(9) unfolding separate_def Bex_def L by fastforce
qed

theorem held_sets_usable_witness: "\<exists>s. deref_set 3 (heap_at (snd ring_first)) = Inr s"
  using held_sets_usable [OF ring_sane(1) ring_facts(1,2) ring_begins, of demo_pool 2 "fst ring_first" "snd ring_first" 4 3]
    run_tasks_steps [OF ring_first_facts(1)] ring_first_facts by simp

text \<open>C9 (safety).  Nothing is leaked: when a run without a size limit has come to an end without an error, and so all
  tasks are gone, then every set that was ever made has been deleted, and so has every pool, and all its blocks had
  been freed before.\<close>

theorem nothing_leaked:
  assumes "sane c" and "input_ok c g" and "numbered g" and "0 < n" and "BronKerboschDegeneracy c g = Inr w0"
    and "mem_steps c m n (w0, start_places g) (w, pl)" and "\<nexists>w'. step c n w w'" and "failure w = None" and "max_clq_size c = -1"
  shows "(\<forall>s \<in> set (sets (heap_at pl)). s = None) \<and> (\<forall>ch \<in> set (chunks (heap_at pl)). ch = None) \<and>
    (\<forall>ch \<in> set (deleted_chunks (heap_at pl)). dynamic_block_list ch = [])"
proof -
  have w0: "w0 = Runs.start c g" using assms(5) start_run [OF assms(3), of c] by simp
  from placed_runs(2) [OF assms(1-3) assms(6) [unfolded w0]] assms(8) have "world_ok c g w" and
    ok: "places_ok (unlimited c) (slots w) pl" by (auto simp: in_order_def well_run_def on_course_def)
  with some_step [of c g w n] assms(4,7,8) have "\<not> (\<exists>p < length (slots w). live (slots w ! p))" by blast
  then have "\<forall>s \<in> set (slots w). phase_of s = Gone" by (auto simp: in_set_conv_nth live_def)
  with nothing_held [OF ok] assms(9) show ?thesis by (simp add: unlimited_def)
qed

theorem nothing_leaked_witness:
  "\<exists>w pl. mem_steps demo_config demo_pool 2 (Runs.start demo_config demo_graph, start_places demo_graph) (w, pl) \<and>
    failure w = None \<and> (\<forall>s \<in> set (sets (heap_at pl)). s = None)"
proof -
  note f = demo_graph_facts
  have on: "on_course demo_config demo_graph 2 (Runs.start demo_config demo_graph)" by (rule start_on_course [OF f(2)])
  from runs_stop [OF demo_sane(1) f(1) on] obtain w where
    w: "steps demo_config 2 (Runs.start demo_config demo_graph) w" "\<nexists>w'. step demo_config 2 w w'" by blast
  then obtain pl where pl: "mem_steps demo_config demo_pool 2 (Runs.start demo_config demo_graph, start_places demo_graph) (w, pl)"
    using placed_runs(1) [OF demo_sane(1) f(1,2)] by blast
  have "failure w = None"
    using steps_on_course [OF demo_sane(1) f(1,2) w(1)] not_excused by (auto simp: on_course_def split: option.splits)
  with nothing_leaked [OF demo_sane(1) f(1,2) _ demo_start pl w(2)] pl show ?thesis by auto
qed

section \<open>Pools that two tasks use\<close>

text \<open>Executing a task changes the count of a pool.\<close>

definition writes_pool :: "config \<Rightarrow> nat \<Rightarrow> nat \<Rightarrow> world \<times> places \<Rightarrow> bool" where
  "writes_pool c d p s \<longleftrightarrow> (case task_run c p s of Inl er \<Rightarrow> False | Inr s' \<Rightarrow>
     map_option allocations (chunks (heap_at (snd s')) ! d) \<noteq> map_option allocations (chunks (heap_at (snd s)) ! d))"

text \<open>How many vertices are in \<open>P\<close> and \<open>X\<close> of a task: what both thresholds are compared with.\<close>

definition sets_size :: "main_task \<Rightarrow> int" where
  "sets_size t = (case (P_task t, X_task t) of (Some P, Some X) \<Rightarrow> int (hs_size P + hs_size X) | _ \<Rightarrow> 0)"

lemma ring_first_child:
  "case ring_first of (w, pl) \<Rightarrow> parent (job (slots w ! 4)) = Some 0 \<and> chunk_at (spots pl ! 0) = Some 0 \<and>
     owner (heap_at pl) 3 = Some 0 \<and> owner (heap_at pl) 4 = Some 0 \<and>
     sets_size (job (slots w ! 0)) = 2 \<and> sets_size (job (slots w ! 4)) = 0"
  by code_simp

text \<open>C30 (safety).  With \<^verbatim>\<open>--mem-thresh\<close> above \<^verbatim>\<open>--thresh\<close>, a run comes to a world in which a task \<open>p\<close> and its child
  \<open>q\<close> are both ready, \<open>p\<close> because it has candidates left and \<open>q\<close> because it is new, and all sets of the child lie in the
  pool \<open>d\<close> of \<open>p\<close>: there are fewer vertices in the sets of either task than \<^verbatim>\<open>--mem-thresh\<close>, and in those of the child
  not fewer than \<^verbatim>\<open>--thresh\<close>, so that it is a task at all.  Either of the two tasks,
  executed next, changes the count of the pool, and nothing keeps two threads from executing them at the same time: the pool
  has no lock, and its count is a plain \<open>long\<close>.\<close>

theorem pool_used_by_two_tasks:
  "PX_threshold ring_config < pool_limit demo_pool \<and>
   (\<exists>w pl p q d. mem_steps ring_config demo_pool 2 (Runs.start ring_config ring_graph, start_places ring_graph) (w, pl) \<and>
      failure w = None \<and> p < length (slots w) \<and> q < length (slots w) \<and>
      phase_of (slots w ! p) = Ready \<and> phase_of (slots w ! q) = Ready \<and>
      parent (job (slots w ! q)) = Some p \<and> chunk_at (spots pl ! p) = Some d \<and>
      owner (heap_at pl) ` set (spot_sets (spots pl ! q)) = {Some d} \<and>
      sets_size (job (slots w ! p)) < pool_limit demo_pool \<and>
      PX_threshold ring_config \<le> sets_size (job (slots w ! q)) \<and> sets_size (job (slots w ! q)) < pool_limit demo_pool \<and>
      writes_pool ring_config d p (w, pl) \<and> writes_pool ring_config d q (w, pl))"
proof -
  let ?Q = "\<lambda>x. case x of Inl er \<Rightarrow> False | Inr s' \<Rightarrow> map_option allocations (chunks (heap_at (snd s')) ! 0) \<noteq> Some 3"
  have "?Q (task_run ring_config 0 ring_first)" by code_simp
  moreover have "?Q (task_run ring_config 4 ring_first)" by code_simp
  ultimately have "writes_pool ring_config 0 0 ring_first" "writes_pool ring_config 0 4 ring_first"
    unfolding writes_pool_def ring_first_facts(7) .
  moreover have "PX_threshold ring_config = 0" "pool_limit demo_pool = 20"
    by (simp_all add: ring_config_def run_config_def demo_pool_def run_pool_def demo_options_def)
  ultimately show ?thesis
    using run_tasks_steps [OF ring_first_facts(1)] ring_first_facts(2-6) ring_first_child [unfolded case_prod_unfold]
    by (intro conjI exI [of _ "fst ring_first"] exI [of _ "snd ring_first"] exI [of _ 0] exI [of _ 4] exI [of _ 0]) simp_all
qed

text \<open>C29 (safety).  With \<^verbatim>\<open>--mem-thresh\<close> not above \<^verbatim>\<open>--thresh\<close>, as by default, every task has its pool to itself:
  in every world of a run that has not failed, a set that a task holds lies in memory of its own or in the
  pool of this task, and in no other task's pool.\<close>

theorem pools_private:
  assumes "sane c" and "input_ok c g" and "numbered g" and "BronKerboschDegeneracy c g = Inr w0"
    and "pool_limit m \<le> PX_threshold c" and "mem_steps c m n (w0, start_places g) (w, pl)" and "failure w = None"
    and "p < length (slots w)" and "phase_of (slots w ! p) \<noteq> Gone" and "h \<in> set (spot_sets (spots pl ! p))"
  shows "owner (heap_at pl) h \<in> {None, chunk_at (spots pl ! p)} \<and>
    (\<forall>q < length (slots w). q \<noteq> p \<and> phase_of (slots w ! q) \<noteq> Gone \<longrightarrow>
      owner (heap_at pl) h = chunk_at (spots pl ! q) \<longrightarrow> owner (heap_at pl) h = None)"
proof -
  have w0: "w0 = Runs.start c g" using assms(4) start_run [OF assms(3), of c] by simp
  from placed_runs(2) [OF assms(1-3) assms(6) [unfolded w0]] assms(7) have m: "slots_mem (unlimited c) {} (alive_slots (slots w))
      (\<lambda>q. job (slots w ! q)) (\<lambda>q. spots pl ! q) (heap_at pl)" by (simp add: in_order_def places_ok_def)
  have L: "q \<in> alive_slots (slots w) \<longleftrightarrow> q < length (slots w) \<and> phase_of (slots w ! q) \<noteq> Gone" for q
    by (simp add: alive_slots_def live_def)
  have own: "owner (heap_at pl) h \<in> {None, chunk_at (spots pl ! p)}"
    using private_runs [OF assms(5,1-3) assms(6) [unfolded w0]] L assms(8-10) by (auto simp: private_pools_def)
  moreover have "separate (\<lambda>q. spots pl ! q) p q" if "q < length (slots w)" "phase_of (slots w ! q) \<noteq> Gone" "q \<noteq> p" for q
    using slots_mem_separate [OF m, of p q] L that assms(8,9) by simp
  ultimately show ?thesis by (auto simp: separate_def)
qed

theorem pools_private_witness:
  "\<exists>w pl. mem_steps demo_config demo_pool 2 (Runs.start demo_config ring_graph, start_places ring_graph) (w, pl) \<and>
    2 \<in> set (spot_sets (spots pl ! 0)) \<and> owner (heap_at pl) 2 \<in> {None, chunk_at (spots pl ! 0)}"
proof -
  let ?Q = "\<lambda>(w, pl). failure w = None \<and> 0 < length (slots w) \<and> phase_of (slots w ! 0) = Ready \<and> list_ex (\<lambda>h. h = 2) (spot_sets (spots pl ! 0))"
  have "case run_tasks demo_config ring_graph [0] of Inl er \<Rightarrow> False | Inr s \<Rightarrow> ?Q s" by code_simp
  then obtain w pl where r: "run_tasks demo_config ring_graph [0] = Inr (w, pl)" and "?Q (w, pl)"
    by (cases "run_tasks demo_config ring_graph [0]") auto
  then have s: "failure w = None" "0 < length (slots w)" "phase_of (slots w ! 0) \<noteq> Gone" "2 \<in> set (spot_sets (spots pl ! 0))"
    by (auto simp: list_ex_iff)
  have "pool_limit demo_pool \<le> PX_threshold demo_config" by (simp add: demo_pool_def run_pool_def demo_options_def)
  from pools_private [OF demo_sane(1) ring_facts(3,2) start_run [OF ring_facts(2)] this run_tasks_steps [OF r] s]
    run_tasks_steps [OF r] s(4) show ?thesis by blast
qed

section \<open>Nodes cut off by the size limit\<close>

text \<open>
  A node of the sequential recursion whose clique has reached the limit, and that has candidates left, returns before
  it has deleted its sets, which the caller has made for it and has no other pointer to.
\<close>

lemma size_limit_keeps_memory:
  assumes "size_limit_reached c R" and "\<not> hs_empty P"
    and "deref_set p (memory me) = Inr sp" and "deref_set x (memory me) = Inr sx"
  shows "SequentialRun_mem c m thr (Suc k) R (p, P) (x, X) gg (st, me) = Inr (R, st, me)"
  using assms by (simp add: StartTask_mem_def StartTask_def use_set_def)

text \<open>The document, with a limit of two vertices.\<close>

definition limit_config :: config where
  "limit_config = run_config scalar_build total_env demo_library (demo_options\<lparr>opt_max_clq := 2\<rparr>)"

definition limit_graph :: graph where
  "limit_graph = projr (read_graph limit_config (render demo_rows))"

text \<open>C28 (safety).  With \<^verbatim>\<open>--max-clq\<close> memory is leaked: on the document with a triangle a run with the limit 2 ends
  without an error, all tasks are gone, but there are sets left, and a pool was deleted that had not freed its blocks.\<close>

theorem size_limit_leaks:
  "\<exists>w pl. mem_steps limit_config demo_pool 2 (Runs.start limit_config limit_graph, start_places limit_graph) (w, pl) \<and>
    failure w = None \<and> map phase_of (slots w) = [Gone, Gone, Gone, Gone] \<and>
    (\<exists>s \<in> set (sets (heap_at pl)). s \<noteq> None) \<and> (\<exists>ch \<in> set (deleted_chunks (heap_at pl)). dynamic_block_list ch \<noteq> [])"
proof -
  let ?Q = "\<lambda>(w, pl). failure w = None \<and> map phase_of (slots w) = [Gone, Gone, Gone, Gone] \<and>
    list_ex (\<lambda>s. s \<noteq> None) (sets (heap_at pl)) \<and> list_ex (\<lambda>ch. dynamic_block_list ch \<noteq> []) (deleted_chunks (heap_at pl))"
  let ?r = "run_tasks limit_config limit_graph [0, 1, 2, 3, 0, 1, 2, 3]"
  have "case ?r of Inl er \<Rightarrow> False | Inr s \<Rightarrow> ?Q s" by code_simp
  then obtain s where "?r = Inr s" "?Q s" by (cases ?r) simp_all
  with run_tasks_steps [OF this(1)] show ?thesis
    by (intro exI [of _ "fst s"] exI [of _ "snd s"]) (simp add: case_prod_beta list_ex_iff)
qed

end
