(* ===== verification/MemAccount.thy ===== *)
theory MemAccount
  imports SetSizes BKTask Matches MemUsageLogger MemChunk
begin

text \<open>
  What the objects of the program tell the logger: every constructor, destructor and operation that
  allocates or frees, with the calls of \<open>addTmpMem\<close> and \<open>delTmpMem\<close> it makes while \<open>memLogger\<close> is set
  (\<^verbatim>\<open>include/UnrolledList.h\<close>, \<^verbatim>\<open>src/UnrolledList.cpp\<close>,
  \<^verbatim>\<open>include/SimpleHashTable.h\<close>, \<^verbatim>\<open>include/SimpleHashSet.h\<close>,
  \<^verbatim>\<open>include/Graph.h\<close>, \<^verbatim>\<open>include/MemChunk.h\<close>,
  \<^verbatim>\<open>include/BKTask.h\<close>).  Does the log show the memory in use?
\<close>

section \<open>Entries\<close>

datatype entry = AddTmp int mem_type | DelTmp int mem_type

fun amount :: "mem_type \<Rightarrow> entry \<Rightarrow> int" where
  "amount t (AddTmp n ty) = (if ty = t then n else 0)"
| "amount t (DelTmp n ty) = (if ty = t then - n else 0)"

definition balance :: "mem_type \<Rightarrow> entry list \<Rightarrow> int" where
  "balance t es = (\<Sum>e \<leftarrow> es. amount t e)"

lemma balance_simps [simp]:
  "balance t [] = 0" "balance t (e # es) = amount t e + balance t es" "balance t (es @ es') = balance t es + balance t es'"
  by (simp_all add: balance_def)

text \<open>The sizes of the objects, which the compiler fixes; keys have four bytes.\<close>

record sizes =
  sizeof_list :: int
  sizeof_bucket :: int
  sizeof_table :: int
  sizeof_set :: int
  sizeof_graph :: int
  sizeof_task :: int

text \<open>\<open>my_chunk\<close>, if it is not null, and \<open>mem_type\<close> of an object.  Objects in a pool tell the logger nothing.\<close>

record place =
  pooled :: bool
  mem_type :: mem_type

text \<open>An object with memory of its own.\<close>

definition own_place :: "mem_type \<Rightarrow> place" where
  "own_place ty = \<lparr>pooled = False, mem_type = ty\<rparr>"

definition told :: "place \<Rightarrow> entry \<Rightarrow> entry list" where
  "told pc e = (if pooled pc then [] else [e])"

lemma balance_told [simp]: "balance t (told pc e) = (if pooled pc then 0 else amount t e)"
  by (simp add: told_def)

section \<open>Lists\<close>

definition UnrolledList_log :: "sizes \<Rightarrow> place \<Rightarrow> ulist \<times> entry list" where
  "UnrolledList_log z pc = (UnrolledList, told pc (AddTmp (sizeof_list z) (mem_type pc)))"

definition create_bucket_log :: "sizes \<Rightarrow> place \<Rightarrow> entry list" where
  "create_bucket_log z pc = told pc (AddTmp (sizeof_bucket z) (mem_type pc))"

definition delete_bucket :: "sizes \<Rightarrow> place \<Rightarrow> entry list" where
  "delete_bucket z pc = told pc (DelTmp (sizeof_bucket z) (mem_type pc))"

definition push_back_log :: "sizes \<Rightarrow> place \<Rightarrow> key \<Rightarrow> ulist \<Rightarrow> ulist \<times> entry list" where
  "push_back_log z pc el l =
     (push_back el l, if buckets l = [] \<or> offset l = ELEMS_IN_BUCKET - 1 then create_bucket_log z pc else [])"

definition pop_back_log :: "sizes \<Rightarrow> place \<Rightarrow> ulist \<Rightarrow> ulist \<times> entry list" where
  "pop_back_log z pc l = (pop_back l, if offset l = 0 then delete_bucket z pc else [])"

definition remove_log :: "build \<Rightarrow> sizes \<Rightarrow> place \<Rightarrow> key \<Rightarrow> ulist \<Rightarrow> ulist \<times> entry list" where
  "remove_log bld z pc el l =
     (case find_element bld el l of
        None \<Rightarrow> (l, [])
      | Some (b, j) \<Rightarrow> pop_back_log z pc (set_elem b j (elem_at l (tail_ix l) (offset l)) l))"

definition kill_list_log :: "sizes \<Rightarrow> place \<Rightarrow> ulist \<Rightarrow> ulist \<times> entry list" where
  "kill_list_log z pc l = (kill_list l, concat (map (\<lambda>_. delete_bucket z pc) (buckets l)))"

definition delete_list :: "sizes \<Rightarrow> place \<Rightarrow> ulist \<Rightarrow> entry list" where
  "delete_list z pc l = told pc (DelTmp (sizeof_list z) (mem_type pc)) @ snd (kill_list_log z pc l)"

definition UnrolledList_copy_log :: "sizes \<Rightarrow> place \<Rightarrow> ulist \<Rightarrow> ulist \<times> entry list" where
  "UnrolledList_copy_log z pc other =
     (UnrolledList_copy other,
      concat (map (\<lambda>_. create_bucket_log z pc) (buckets other)) @ told pc (AddTmp (sizeof_list z) (mem_type pc)))"

text \<open>\<open>create_list\<close>: in a pool the type is the default one.\<close>

definition create_list_log :: "sizes \<Rightarrow> bool \<Rightarrow> mem_type \<Rightarrow> ulist \<times> entry list" where
  "create_list_log z chunk ty = UnrolledList_log z \<lparr>pooled = chunk, mem_type = (if chunk then OTHER else ty)\<rparr>"

section \<open>Tables\<close>

definition SimpleHashTable_log :: "sizes \<Rightarrow> place \<Rightarrow> hash_table \<times> entry list" where
  "SimpleHashTable_log z pc = (SimpleHashTable, told pc (AddTmp (sizeof_table z) (mem_type pc)))"

definition reserve_log :: "build \<Rightarrow> env \<Rightarrow> place \<Rightarrow> nat \<Rightarrow> hash_table \<Rightarrow> (hash_table \<times> entry list) result" where
  "reserve_log bld e pc cap t =
     bind_result (reserve bld e cap t) (\<lambda>t. Inr (t, told pc (AddTmp (4 * int (phys_capacity t)) (mem_type pc))))"

definition delete_table :: "sizes \<Rightarrow> place \<Rightarrow> hash_table \<Rightarrow> entry list" where
  "delete_table z pc t = told pc (DelTmp (4 * int (phys_capacity t) + sizeof_table z) (mem_type pc))"

definition hopscotchTryInsert_log ::
  "(hash_table \<Rightarrow> (hash_table \<times> entry list) result) \<Rightarrow> key \<Rightarrow> hash_table \<Rightarrow> (bool \<times> hash_table \<times> entry list) result" where
  "hopscotchTryInsert_log reconstruct el t =
     (let init_pos = home t el in
      case hopscotch_probe t el (capacity t) init_pos of
        None \<Rightarrow> Inr (True, t, [])
      | Some pos \<Rightarrow>
          bind_result (displace (Suc (capacity t)) init_pos pos t) (\<lambda>(found, pos, t).
            if found
            then Inr (True, t\<lparr>array := (array t)[pos := el], num_of_keys := Suc (num_of_keys t)\<rparr>, [])
            else bind_result (reconstruct t) (\<lambda>(t, es). Inr (False, t, es))))"

fun hopscotchInsert_loop_log ::
  "(hash_table \<Rightarrow> (hash_table \<times> entry list) result) \<Rightarrow> key \<Rightarrow> nat \<Rightarrow> hash_table \<Rightarrow> (hash_table \<times> entry list) result" where
  "hopscotchInsert_loop_log reconstruct el 0 t = Inl HopscotchFailed"
| "hopscotchInsert_loop_log reconstruct el (Suc cnt) t =
     bind_result (hopscotchTryInsert_log reconstruct el t) (\<lambda>(success, t, es).
       if success then Inr (t, es)
       else bind_result (reconstruct t) (\<lambda>(t, es').
            bind_result (hopscotchInsert_loop_log reconstruct el cnt t) (\<lambda>(t, es''). Inr (t, es @ es' @ es''))))"

text \<open>The last statement of the reconstruction takes the size of the new array from the log.\<close>

primrec hopscotchReconstruct_log :: "build \<Rightarrow> env \<Rightarrow> place \<Rightarrow> nat \<Rightarrow> hash_table \<Rightarrow> (hash_table \<times> entry list) result" where
  "hopscotchReconstruct_log bld e pc 0 t = Inl OutOfFuel"
| "hopscotchReconstruct_log bld e pc (Suc n) t =
     (let oldArray = array t; old_capac = phys_capacity t in
      bind_result (reserve_log bld e pc (capacity t) t) (\<lambda>(t, es).
      bind_result (fold_result (\<lambda>i (t, es).
          if oldArray ! i \<noteq> EMPTY_KEY \<and> oldArray ! i \<noteq> INVAL_KEY
          then bind_result (hopscotchInsert_loop_log (hopscotchReconstruct_log bld e pc n) (oldArray ! i) 10 t) (\<lambda>(t, es').
               Inr (t, es @ es'))
          else Inr (t, es)) [0..<old_capac] (t, es)) (\<lambda>(t, es).
      Inr (t, es @ told pc (DelTmp (4 * int (phys_capacity t)) (mem_type pc))))))"

definition hopscotchInsert_log :: "build \<Rightarrow> env \<Rightarrow> place \<Rightarrow> key \<Rightarrow> hash_table \<Rightarrow> (hash_table \<times> entry list) result" where
  "hopscotchInsert_log bld e pc el t = hopscotchInsert_loop_log (hopscotchReconstruct_log bld e pc 32) el 10 t"

section \<open>Sets\<close>

text \<open>A set and its two members have the same \<open>my_chunk\<close> and type; the members come first.\<close>

definition SimpleHashSet_log :: "sizes \<Rightarrow> place \<Rightarrow> simple_hash_set \<times> entry list" where
  "SimpleHashSet_log z pc = (create_set, snd (UnrolledList_log z pc) @ snd (SimpleHashTable_log z pc))"

definition create_set_log :: "sizes \<Rightarrow> place \<Rightarrow> simple_hash_set \<times> entry list" where
  "create_set_log z pc = (case SimpleHashSet_log z pc of (s, es) \<Rightarrow> (s, es @ told pc (AddTmp (sizeof_set z) (mem_type pc))))"

definition add_elem_log :: "build \<Rightarrow> sizes \<Rightarrow> place \<Rightarrow> key \<Rightarrow> simple_hash_set \<Rightarrow> (simple_hash_set \<times> entry list) result" where
  "add_elem_log bld z pc el s =
     (if isHashed s
      then bind_result (ht_insert bld el (hashed_elems s)) (\<lambda>t. Inr (s\<lparr>hashed_elems := t\<rparr>, []))
      else case push_back_log z pc el (elems s) of (l, es) \<Rightarrow> Inr (s\<lparr>elems := l\<rparr>, es))"

definition del_elem_log :: "build \<Rightarrow> sizes \<Rightarrow> place \<Rightarrow> key \<Rightarrow> simple_hash_set \<Rightarrow> simple_hash_set \<times> entry list" where
  "del_elem_log bld z pc el s =
     (if isHashed s then (s, []) else case remove_log bld z pc el (elems s) of (l, es) \<Rightarrow> (s\<lparr>elems := l\<rparr>, es))"

definition hash_step_log ::
  "build \<Rightarrow> env \<Rightarrow> sizes \<Rightarrow> place \<Rightarrow> ulist \<times> hash_table \<times> entry list \<Rightarrow> (ulist \<times> hash_table \<times> entry list) result" where
  "hash_step_log bld e z pc = (\<lambda>(l, t, es).
     bind_result (if USE_HOPSCOTCH bld then hopscotchInsert_log bld e pc (ul_back l) t
                  else bind_result (ht_insert bld (ul_back l) t) (\<lambda>t. Inr (t, []))) (\<lambda>(t, es').
     case pop_back_log z pc l of (l, es'') \<Rightarrow> Inr (l, t, es @ es' @ es'')))"

definition hashSet_log :: "build \<Rightarrow> env \<Rightarrow> sizes \<Rightarrow> place \<Rightarrow> simple_hash_set \<Rightarrow> (simple_hash_set \<times> entry list) result" where
  "hashSet_log bld e z pc s =
     (if isHashed s then Inr (s, [])
      else let size = ul_size (elems s) in
        bind_result (reserve_log bld e pc size (hashed_elems s)) (\<lambda>(t, es).
        bind_result (fold_result (\<lambda>i. hash_step_log bld e z pc) [0..<size] (elems s, t, es)) (\<lambda>(l, t, es).
        Inr (s\<lparr>isHashed := True, elems := l, hashed_elems := t\<rparr>, es))))"

text \<open>\<open>~SimpleHashSet\<close>, then those of its members, the last first.  It does not ask for a pool.\<close>

definition delete_simple_hash_set :: "sizes \<Rightarrow> place \<Rightarrow> simple_hash_set \<Rightarrow> entry list" where
  "delete_simple_hash_set z pc s =
     DelTmp (sizeof_set z) (mem_type pc) # delete_table z pc (hashed_elems s) @ delete_list z pc (elems s)"


text \<open>
  The copy of a set has no pool, but its list has that of the original's list; its table is of the
  default type.  Nothing is told of the set itself.
\<close>

definition clone_log :: "bool \<Rightarrow> sizes \<Rightarrow> place \<Rightarrow> simple_hash_set \<Rightarrow> simple_hash_set \<times> entry list" where
  "clone_log garbage z pc s =
     (clone garbage s, snd (UnrolledList_copy_log z pc (elems s)) @ snd (SimpleHashTable_log z (own_place OTHER)))"

definition delete_clone :: "sizes \<Rightarrow> place \<Rightarrow> simple_hash_set \<Rightarrow> entry list" where
  "delete_clone z pc s =
     DelTmp (sizeof_set z) (mem_type pc) # delete_table z (own_place OTHER) (hashed_elems s) @ delete_list z pc (elems s)"

section \<open>Graphs, tasks and pools\<close>

text \<open>The lists of a graph that is not in a pool have memory of their own, and its type.\<close>

definition Graph_log :: "sizes \<Rightarrow> mem_type \<Rightarrow> int \<Rightarrow> graph \<times> entry list" where
  "Graph_log z ty V = (Graph V, [AddTmp (sizeof_graph z) ty])"

definition adj_add_elem_log :: "build \<Rightarrow> sizes \<Rightarrow> mem_type \<Rightarrow> key \<Rightarrow> key \<Rightarrow> graph \<Rightarrow> (graph \<times> entry list) result" where
  "adj_add_elem_log bld z ty v w g =
     (case map_of (adjList g) v of None \<Rightarrow> Inl NullDereference
      | Some s \<Rightarrow> bind_result (add_elem_log bld z (own_place ty) w s) (\<lambda>(s, es).
          Inr (g\<lparr>adjList := AList.update v s (adjList g)\<rparr>, es)))"

definition new_vertex_log :: "sizes \<Rightarrow> mem_type \<Rightarrow> key \<Rightarrow> graph \<Rightarrow> graph \<times> entry list" where
  "new_vertex_log z ty v g =
     (if getAdjacentNodes g v = None
      then case create_set_log z (own_place ty) of (s, es) \<Rightarrow> (g\<lparr>adjList := AList.update v s (adjList g)\<rparr>, es)
      else (g, []))"

definition addEdge_log :: "build \<Rightarrow> sizes \<Rightarrow> mem_type \<Rightarrow> key \<Rightarrow> key \<Rightarrow> graph \<Rightarrow> (graph \<times> entry list) result" where
  "addEdge_log bld z ty v w g =
     (case new_vertex_log z ty v g of (g, es1) \<Rightarrow>
      case new_vertex_log z ty w g of (g, es2) \<Rightarrow>
      if v = w then Inr (g, es1 @ es2)
      else bind_result (adj_add_elem_log bld z ty v w g) (\<lambda>(g, es3).
           bind_result (adj_add_elem_log bld z ty w v g) (\<lambda>(g, es4).
             let g = g\<lparr>edgeNo := edgeNo g + 2\<rparr>;
                 g = (if adj_size g v > maxdeg g then g\<lparr>maxdeg := adj_size g v\<rparr> else g);
                 g = (if adj_size g w > maxdeg g then g\<lparr>maxdeg := adj_size g w\<rparr> else g)
             in Inr (g, es1 @ es2 @ es3 @ es4))))"

definition hash_lists_log :: "library \<Rightarrow> build \<Rightarrow> env \<Rightarrow> sizes \<Rightarrow> mem_type \<Rightarrow> graph \<times> entry list \<Rightarrow> (graph \<times> entry list) result" where
  "hash_lists_log lib bld e z ty = (\<lambda>(g, es).
     fold_result (\<lambda>v (g, es). case getAdjacentNodes g v of None \<Rightarrow> Inr (g, es)
       | Some s \<Rightarrow> bind_result (hashSet_log bld e z (own_place ty) s) (\<lambda>(s, es').
           Inr (g\<lparr>adjList := AList.update v s (adjList g)\<rparr>, es @ es')))
       (map_order lib (map fst (adjList g))) (g, es))"

definition delete_graph :: "sizes \<Rightarrow> mem_type \<Rightarrow> graph \<Rightarrow> entry list" where
  "delete_graph z ty g =
     DelTmp (sizeof_graph z) ty # concat (map (\<lambda>(v, s). delete_simple_hash_set z (own_place ty) s) (adjList g))"

definition task_type :: "main_task \<Rightarrow> mem_type" where
  "task_type t = (if parent t = None then ROOT_TASK else TASK)"

definition MainBKTask_log :: "sizes \<Rightarrow> main_task \<Rightarrow> entry list" where
  "MainBKTask_log z t = [AddTmp (sizeof_task z) (task_type t)]"

definition delete_task :: "sizes \<Rightarrow> main_task \<Rightarrow> entry list" where
  "delete_task z t =
     (case R_task t of None \<Rightarrow> []
      | Some R \<Rightarrow> delete_list z (own_place (if parent t = None then ROOT_CLIQUE else CLIQUE)) R) @
     [DelTmp (sizeof_task z) (task_type t)]"

definition get_address_log :: "64 word \<Rightarrow> mem_chunk \<Rightarrow> ((nat \<times> u32) result \<times> mem_chunk) \<times> entry list" where
  "get_address_log n ch =
     (let inc = index_increment n in
      (get_address n ch,
       if number_of_blocks ch = 0 \<or> free_index ch + inc \<ge> dynamic_block_size ch
       then [AddTmp (sint (if inc > dynamic_block_size ch then inc else dynamic_block_size ch)) OTHER] else []))"

definition delete_dynamic_blocks_log :: "mem_chunk \<Rightarrow> mem_chunk \<times> entry list" where
  "delete_dynamic_blocks_log ch =
     (delete_dynamic_blocks ch, map (\<lambda>(_, n). DelTmp n OTHER) (dynamic_block_list ch))"

section \<open>Entries that match the memory\<close>

definition accounts :: "place \<Rightarrow> int \<Rightarrow> entry list \<Rightarrow> bool" where
  "accounts pc n es \<longleftrightarrow> (\<forall>t. balance t es = (if pooled pc \<or> mem_type pc \<noteq> t then 0 else n))"

lemma accounts_Nil [simp]: "accounts pc 0 []"
  by (simp add: accounts_def)

lemma accounts_append: "accounts pc n es \<Longrightarrow> accounts pc m es' \<Longrightarrow> accounts pc (n + m) (es @ es')"
  by (simp add: accounts_def)

lemma accounts_told: "accounts pc n (told pc (AddTmp n (mem_type pc)))" "accounts pc (- n) (told pc (DelTmp n (mem_type pc)))"
  by (simp_all add: accounts_def)

lemma accounts_concat: "(\<And>x. x \<in> set xs \<Longrightarrow> accounts pc (f x) (g x)) \<Longrightarrow> accounts pc (\<Sum>x \<leftarrow> xs. f x) (concat (map g xs))"
  by (induction xs) (simp_all add: accounts_append)

text \<open>The buckets of a list.\<close>

definition list_memory :: "sizes \<Rightarrow> ulist \<Rightarrow> int" where
  "list_memory z l = sizeof_list z + sizeof_bucket z * int (length (buckets l))"

lemma set_elem_length [simp]: "length (buckets (set_elem b j x l)) = length (buckets l)" "offset (set_elem b j x l) = offset l"
  by (simp_all add: set_elem_def)

lemma push_back_accounts: "accounts pc (list_memory z (push_back el l) - list_memory z l) (snd (push_back_log z pc el l))"
  by (simp add: push_back_log_def push_back_def create_bucket_log_def accounts_def list_memory_def Let_def algebra_simps)

lemma pop_back_accounts:
  "buckets l \<noteq> [] \<Longrightarrow> accounts pc (list_memory z (pop_back l) - list_memory z l) (snd (pop_back_log z pc l))"
  by (cases "buckets l") (auto simp: pop_back_log_def pop_back_def delete_bucket_def accounts_def list_memory_def Let_def algebra_simps)

lemma find_element_buckets: "find_element bld el l = Some p \<Longrightarrow> buckets l \<noteq> []"
  by (cases "USE_AVX512 bld") (auto simp: find_element_def find_element_scalar.simps [of l])

lemma remove_accounts: "accounts pc (list_memory z (remove bld el l) - list_memory z l) (snd (remove_log bld z pc el l))"
proof (cases "find_element bld el l")
  case (Some p)
  obtain b j where p: "p = (b, j)" by (cases p)
  let ?l = "set_elem b j (elem_at l (tail_ix l) (offset l)) l"
  have "buckets ?l \<noteq> []" using find_element_buckets [OF Some] by (simp add: set_elem_def)
  from pop_back_accounts [OF this, of pc z] Some p show ?thesis
    by (simp add: remove_log_def remove_def pop_back_log_def list_memory_def)
qed (simp add: remove_log_def remove_def)

lemma delete_list_accounts: "accounts pc (- list_memory z l) (delete_list z pc l)"
proof -
  have "accounts pc (\<Sum>b \<leftarrow> buckets l. - sizeof_bucket z) (concat (map (\<lambda>_. delete_bucket z pc) (buckets l)))"
    by (rule accounts_concat) (simp add: delete_bucket_def accounts_told)
  from accounts_append [OF accounts_told(2) this, of "sizeof_list z"] show ?thesis
    by (simp add: delete_list_def kill_list_log_def list_memory_def sum_list_triv algebra_simps)
qed

lemma UnrolledList_accounts: "accounts pc (list_memory z UnrolledList) (snd (UnrolledList_log z pc))"
  by (simp add: UnrolledList_log_def list_memory_def UnrolledList_def accounts_told)

lemma UnrolledList_copy_accounts: "accounts pc (list_memory z (UnrolledList_copy l)) (snd (UnrolledList_copy_log z pc l))"
proof -
  have "length (copy_list bs) = length bs" for bs by (induction bs) simp_all
  note len = this
  have "accounts pc (\<Sum>b \<leftarrow> buckets l. sizeof_bucket z) (concat (map (\<lambda>_. create_bucket_log z pc) (buckets l)))"
    by (rule accounts_concat) (simp add: create_bucket_log_def accounts_told)
  from accounts_append [OF this accounts_told(1), of "sizeof_list z"] show ?thesis
    by (simp add: UnrolledList_copy_log_def UnrolledList_copy_def list_memory_def len sum_list_triv algebra_simps)
qed


section \<open>Tables and sets\<close>

text \<open>The memory of a set: the object, which contains the list and the table by value, the buckets of the list,
  and the array of the table.\<close>

definition set_memory :: "sizes \<Rightarrow> simple_hash_set \<Rightarrow> int" where
  "set_memory z s = sizeof_set z + sizeof_bucket z * int (length (buckets (elems s))) + 4 * int (phys_capacity (hashed_elems s))"

text \<open>What the entries come to: the constructors of the list and of the table have told their own sizes when
  \<open>create_set\<close> tells that of the whole object.\<close>

definition set_logged :: "sizes \<Rightarrow> simple_hash_set \<Rightarrow> int" where
  "set_logged z s = sizeof_set z + list_memory z (elems s) + sizeof_table z + 4 * int (phys_capacity (hashed_elems s))"

lemma set_logged_memory: "set_logged z s = set_memory z s + (sizeof_list z + sizeof_table z)"
  by (simp add: set_logged_def set_memory_def list_memory_def)

text \<open>A set that has not been hashed has no array.\<close>

definition set_ok :: "simple_hash_set \<Rightarrow> bool" where
  "set_ok s \<longleftrightarrow> ul_inv (elems s) \<and> (\<not> isHashed s \<longrightarrow> phys_capacity (hashed_elems s) = 0)"

lemma ht_insert_phys: "ht_insert bld el t = Inr t' \<Longrightarrow> phys_capacity t' = phys_capacity t"
  by (auto simp: ht_insert_def split: option.splits if_splits)

lemma create_set_accounts: "accounts pc (set_logged z create_set) (snd (create_set_log z pc))" "set_ok create_set"
proof -
  have t: "accounts pc (sizeof_table z) (snd (SimpleHashTable_log z pc))"
    by (simp add: SimpleHashTable_log_def accounts_told)
  from accounts_append [OF UnrolledList_accounts accounts_append [OF t accounts_told(1)], of z "sizeof_set z"]
  show "accounts pc (set_logged z create_set) (snd (create_set_log z pc))"
    by (simp add: create_set_log_def SimpleHashSet_log_def set_logged_def create_set_def SimpleHashTable_def algebra_simps)
  show "set_ok create_set" by (simp add: set_ok_def create_set_def SimpleHashTable_def)
qed

lemma add_elem_accounts:
  assumes "set_ok s" and "add_elem_log bld z pc el s = Inr (s', es)"
  shows "accounts pc (set_logged z s' - set_logged z s) es" and "set_ok s'" and "add_elem bld el s = Inr s'"
proof -
  show "accounts pc (set_logged z s' - set_logged z s) es"
    using assms push_back_accounts [of pc z el "elems s"]
    by (auto simp: add_elem_log_def push_back_log_def set_logged_def ht_insert_phys split: if_splits)
  show "set_ok s'" using assms by (auto simp: add_elem_log_def push_back_log_def set_ok_def split: if_splits)
  show "add_elem bld el s = Inr s'" using assms by (auto simp: add_elem_log_def push_back_log_def add_elem_def split: if_splits)
qed

lemma del_elem_accounts:
  assumes "set_ok s" and "del_elem_log bld z pc el s = (s', es)"
  shows "accounts pc (set_logged z s' - set_logged z s) es" and "set_ok s'" and "del_elem bld el s = s'"
proof -
  have r: "fst (remove_log bld z pc el l) = remove bld el l" for l
    by (auto simp: remove_log_def remove_def pop_back_log_def split: option.splits)
  show s': "del_elem bld el s = s'"
    using assms(2) r [of "elems s"] by (auto simp: del_elem_log_def del_elem_def split: if_splits prod.splits)
  show "set_ok s'" using assms(1) remove_keeps_inv by (auto simp: s' [symmetric] set_ok_def del_elem_def)
  show "accounts pc (set_logged z s' - set_logged z s) es"
    using assms(2) r [of "elems s"] remove_accounts [of pc z bld el "elems s"]
    by (auto simp: del_elem_log_def set_logged_def split: if_splits prod.splits)
qed

lemma hash_loop_accounts:
  assumes "\<not> USE_HOPSCOTCH bld"
    and "fold_result (\<lambda>i. hash_step_log bld e z pc) is (l, t, es) = Inr (l', t', es')"
    and "ul_inv l" and "num_of_elems l = length is" and "accounts pc n es"
  shows "accounts pc (n + (list_memory z l' - list_memory z l)) es' \<and> phys_capacity t' = phys_capacity t \<and> ul_inv l'"
  using assms(2-)
proof (induction "is" arbitrary: l t es n)
  case (Cons i js)
  have ne: "to_list l \<noteq> []" "buckets l \<noteq> []"
    using Cons.prems(2,3) num_of_elems_0_iff [OF Cons.prems(2)] to_list_Nil_iff [OF Cons.prems(2)] by auto
  from Cons.prems(1) obtain t1 where t1: "ht_insert bld (ul_back l) t = Inr t1"
    and rest: "fold_result (\<lambda>i. hash_step_log bld e z pc) js (pop_back l, t1, es @ snd (pop_back_log z pc l)) = Inr (l', t', es')"
    using assms(1) by (auto simp: hash_step_log_def pop_back_log_def)
  have "num_of_elems (pop_back l) = length js"
    using Cons.prems(3) by (simp add: pop_back_def Let_def)
  from Cons.IH [OF rest pop_back_inv [OF Cons.prems(2) ne(1)] this accounts_append [OF Cons.prems(4) pop_back_accounts [OF ne(2)]]]
  show ?case using ht_insert_phys [OF t1] by simp
qed simp

lemma hashSet_accounts:
  assumes "\<not> USE_HOPSCOTCH bld" and "set_ok s" and "hashSet_log bld e z pc s = Inr (s', es)"
  shows "accounts pc (set_logged z s' - set_logged z s) es" and "set_ok s'"
proof -
  have "accounts pc (set_logged z s' - set_logged z s) es \<and> set_ok s'"
  proof (cases "isHashed s")
    case False
    with assms(3) obtain t l t' where t: "reserve bld e (ul_size (elems s)) (hashed_elems s) = Inr t"
      and loop: "fold_result (\<lambda>i. hash_step_log bld e z pc) [0..<ul_size (elems s)]
        (elems s, t, told pc (AddTmp (4 * int (phys_capacity t)) (mem_type pc))) = Inr (l, t', es)"
      and s': "s' = s\<lparr>isHashed := True, elems := l, hashed_elems := t'\<rparr>"
      by (auto simp: hashSet_log_def reserve_log_def Let_def)
    have "ul_inv (elems s)" "num_of_elems (elems s) = length [0..<ul_size (elems s)]" "phys_capacity (hashed_elems s) = 0"
      using assms(2) False by (simp_all add: set_ok_def ul_size_def)
    with hash_loop_accounts [OF assms(1) loop this(1,2) accounts_told(1)] show ?thesis
      by (simp add: s' set_logged_def set_ok_def algebra_simps)
  qed (use assms in \<open>simp add: hashSet_log_def\<close>)
  then show "accounts pc (set_logged z s' - set_logged z s) es" "set_ok s'" by simp_all
qed

lemma delete_set_accounts:
  "\<not> pooled pc \<Longrightarrow> accounts pc (- set_logged z s) (delete_simple_hash_set z pc s)"
proof -
  assume pc: "\<not> pooled pc"
  then have "accounts pc (- (4 * int (phys_capacity (hashed_elems s)) + sizeof_table z)) (delete_table z pc (hashed_elems s))"
    unfolding delete_table_def by (intro accounts_told)
  from accounts_append [OF this delete_list_accounts, of z "elems s"]
  have "accounts pc (- (4 * int (phys_capacity (hashed_elems s)) + sizeof_table z) + - list_memory z (elems s))
    (delete_table z pc (hashed_elems s) @ delete_list z pc (elems s))" .
  with accounts_append [OF accounts_told(2) this, of "sizeof_set z"] pc show ?thesis
    by (simp add: delete_simple_hash_set_def told_def set_logged_def algebra_simps)
qed

end
