(* ===== verification/LogGrowth.thy ===== *)
theory LogGrowth
  imports MemAccount
begin

text \<open>
  Tables that grow: a hopscotch table that is rebuilt takes the size of its new array from the log
  instead of that of the old one, so that the log can only fall behind the memory.
\<close>

section \<open>Entries that do not exceed the memory\<close>

definition at_most :: "place \<Rightarrow> int \<Rightarrow> entry list \<Rightarrow> bool" where
  "at_most pc n es \<longleftrightarrow> (\<forall>t. balance t es \<le> (if pooled pc \<or> mem_type pc \<noteq> t then 0 else n))"

lemma at_mostD: "at_most pc n es \<Longrightarrow> balance t es \<le> (if pooled pc \<or> mem_type pc \<noteq> t then 0 else n)"
  unfolding at_most_def by (rule spec)

lemma at_most_accounts: "accounts pc n es \<Longrightarrow> at_most pc n es"
  by (simp add: accounts_def at_most_def)

lemma at_most_append: "at_most pc n es \<Longrightarrow> at_most pc m es' \<Longrightarrow> at_most pc (n + m) (es @ es')"
proof -
  assume w: "at_most pc n es" "at_most pc m es'"
  have "balance t es + balance t es' \<le> (if pooled pc \<or> mem_type pc \<noteq> t then 0 else n + m)" for t
  proof -
    have "balance t es \<le> (if pooled pc \<or> mem_type pc \<noteq> t then 0 else n)"
      "balance t es' \<le> (if pooled pc \<or> mem_type pc \<noteq> t then 0 else m)"
      using w unfolding at_most_def by blast+
    then show ?thesis by (cases "pooled pc \<or> mem_type pc \<noteq> t") auto
  qed
  then show ?thesis by (simp add: at_most_def)
qed

lemma at_most_mono: "at_most pc n es \<Longrightarrow> n \<le> m \<Longrightarrow> at_most pc m es"
  by (auto simp: at_most_def split: if_splits intro: order_trans)

section \<open>Sizes only grow\<close>

definition sized :: "build \<Rightarrow> hash_table \<Rightarrow> bool" where
  "sized bld t \<longleftrightarrow> phys_capacity t = capacity t + VECTOR_SIZE bld - 1 \<and> 0 < capacity t \<and> capacity t \<le> 2 ^ 30"

definition grown :: "build \<Rightarrow> place \<Rightarrow> hash_table \<Rightarrow> hash_table \<times> entry list \<Rightarrow> bool" where
  "grown bld pc t = (\<lambda>(t', es). sized bld t' \<and> phys_capacity t \<le> phys_capacity t' \<and>
     at_most pc (4 * (int (phys_capacity t') - int (phys_capacity t))) es)"

lemma grown_refl: "sized bld t \<Longrightarrow> phys_capacity t' = phys_capacity t \<Longrightarrow> capacity t' = capacity t \<Longrightarrow> grown bld pc t (t', [])"
  by (simp add: grown_def at_most_accounts sized_def)

lemma grown_trans: "grown bld pc t (t1, es1) \<Longrightarrow> grown bld pc t1 (t2, es2) \<Longrightarrow> grown bld pc t (t2, es1 @ es2)"
  using at_most_append [of pc "4 * (int (phys_capacity t1) - int (phys_capacity t))" es1]
  by (fastforce simp: grown_def)

lemma reserve_sized:
  assumes "reserve bld e cap t = Inr t'" and "0 < cap" and "cap \<le> 2 ^ 30"
  shows "sized bld t'" and "2 * cap \<le> capacity t'"
proof -
  have ib: "index_bits cap \<le> 30" "ht_inv bld t'" "M_hash t' = index_bits cap" "2 * cap \<le> capacity t'"
    using reserve_correct [OF assms(2,3), of bld e t] assms(1) by (auto split: if_splits)
  have fr: "ht_frame bld t'" using ib(2) by (simp add: ht_inv_def)
  have "(2 :: nat) ^ index_bits cap \<le> 2 ^ 30" by (rule power_increasing [OF ib(1)]) simp
  then show "sized bld t'" "2 * cap \<le> capacity t'" using fr ib by (auto simp: ht_frame_def sized_def)
qed

lemma displace_sizes:
  "displace n p q t = Inr (f, q', t') \<Longrightarrow> capacity t' = capacity t \<and> phys_capacity t' = phys_capacity t"
  by (induction n p q t rule: displace.induct) (fastforce simp: Let_def split: if_splits option.splits)+

definition growing :: "build \<Rightarrow> place \<Rightarrow> (hash_table \<Rightarrow> (hash_table \<times> entry list) result) \<Rightarrow> bool" where
  "growing bld pc r \<longleftrightarrow> (\<forall>t p. sized bld t \<longrightarrow> r t = Inr p \<longrightarrow> grown bld pc t p)"

lemma growingD: "growing bld pc r \<Longrightarrow> sized bld t \<Longrightarrow> r t = Inr p \<Longrightarrow> grown bld pc t p"
  unfolding growing_def by blast

lemma grown_sized: "grown bld pc t (t', es) \<Longrightarrow> sized bld t'"
  by (simp add: grown_def)

lemma try_grown:
  assumes "growing bld pc r" and "sized bld t" and "hopscotchTryInsert_log r el t = Inr (b, p)"
  shows "grown bld pc t p"
proof (cases "hopscotch_probe t el (capacity t) (home t el)")
  case None
  with assms(2,3) show ?thesis by (auto simp: hopscotchTryInsert_log_def intro: grown_refl)
next
  case (Some pos)
  obtain f q t1 where d: "displace (Suc (capacity t)) (home t el) pos t = Inr (f, q, t1)"
    using assms(3) Some by (auto simp: hopscotchTryInsert_log_def Let_def)
  note sz = displace_sizes [OF d]
  have "sized bld t1" using assms(2) sz by (simp add: sized_def)
  show ?thesis
  proof (cases f)
    case True
    with assms(2,3) Some d sz show ?thesis by (auto simp: hopscotchTryInsert_log_def Let_def intro!: grown_refl)
  next
    case False
    with assms(3) Some d have "r t1 = Inr p" by (auto simp: hopscotchTryInsert_log_def Let_def)
    with assms(1) \<open>sized bld t1\<close> have "grown bld pc t1 p" by (rule growingD)
    then show ?thesis using sz by (simp add: grown_def)
  qed
qed

lemma insert_loop_grown:
  assumes "growing bld pc r" and "sized bld t" and "hopscotchInsert_loop_log r el n t = Inr p"
  shows "grown bld pc t p"
  using assms(2,3)
proof (induction n arbitrary: t p)
  case (Suc n)
  from Suc.prems(2) obtain b t1 es1 where attempt: "hopscotchTryInsert_log r el t = Inr (b, t1, es1)"
    and rest: "(if b then Inr (t1, es1) else bind_result (r t1) (\<lambda>(t, es'). bind_result (hopscotchInsert_loop_log r el n t)
      (\<lambda>(t, es''). Inr (t, es1 @ es' @ es'')))) = Inr p"
    by auto
  note g1 = try_grown [OF assms(1) Suc.prems(1) attempt]
  show ?case
  proof (cases b)
    case False
    with rest obtain t2 es2 t3 es3 where 2: "r t1 = Inr (t2, es2)" and 3: "hopscotchInsert_loop_log r el n t2 = Inr (t3, es3)"
      and p: "p = (t3, es1 @ es2 @ es3)"
      by auto
    have g2: "grown bld pc t1 (t2, es2)" by (rule growingD [OF assms(1) grown_sized [OF g1] 2])
    then have "grown bld pc t2 (t3, es3)" using Suc.IH [OF _ 3] by (simp add: grown_def)
    from grown_trans [OF g1 grown_trans [OF g2 this]] show ?thesis by (simp add: p)
  qed (use g1 rest in simp)
qed simp

text \<open>A rebuilt table has at least twice the slots, and the log never shows more than before.\<close>

lemma rebuilt:
  assumes IH: "growing bld pc (hopscotchReconstruct_log bld e pc n)" and sz: "sized bld t"
    and run: "hopscotchReconstruct_log bld e pc (Suc n) t = Inr (t', es)"
  shows "sized bld t'" and "2 * capacity t \<le> capacity t'" and "at_most pc 0 es"
proof -
  let ?f = "\<lambda>i (t', es). if array t ! i \<noteq> EMPTY_KEY \<and> array t ! i \<noteq> INVAL_KEY
    then bind_result (hopscotchInsert_loop_log (hopscotchReconstruct_log bld e pc n) (array t ! i) 10 t') (\<lambda>(t, es'). Inr (t, es @ es'))
    else Inr (t', es)"
  let ?I = "\<lambda>(t', es). sized bld t' \<and> 2 * capacity t \<le> capacity t' \<and> at_most pc (4 * int (phys_capacity t')) es"
  from run obtain t1 es2 where 1: "reserve bld e (capacity t) t = Inr t1"
    and 2: "fold_result ?f [0..<phys_capacity t] (t1, told pc (AddTmp (4 * int (phys_capacity t1)) (mem_type pc))) = Inr (t', es2)"
    and es: "es = es2 @ told pc (DelTmp (4 * int (phys_capacity t')) (mem_type pc))"
    by (auto simp: Let_def reserve_log_def)
  have c: "0 < capacity t" "capacity t \<le> 2 ^ 30" using sz by (simp_all add: sized_def)
  have "?I (t', es2)"
  proof (rule fold_result_invariant [OF 2, where I = ?I])
    show "?I (t1, told pc (AddTmp (4 * int (phys_capacity t1)) (mem_type pc)))"
      using reserve_sized [OF 1 c] by (simp add: at_most_accounts accounts_told)
    fix i u v assume I: "?I u" and step: "?f i u = Inr v"
    obtain t3 es3 where u: "u = (t3, es3)" by (cases u)
    show "?I v"
    proof (cases "array t ! i \<noteq> EMPTY_KEY \<and> array t ! i \<noteq> INVAL_KEY")
      case True
      with step u obtain t4 es4 where 4: "hopscotchInsert_loop_log (hopscotchReconstruct_log bld e pc n) (array t ! i) 10 t3 = Inr (t4, es4)"
        and v: "v = (t4, es3 @ es4)"
        by auto
      have "grown bld pc t3 (t4, es4)" by (rule insert_loop_grown [OF IH _ 4]) (use I u in simp)
      then show ?thesis
        using I u v at_most_append [of pc "4 * int (phys_capacity t3)" es3 "4 * (int (phys_capacity t4) - int (phys_capacity t3))" es4]
        by (auto simp: grown_def sized_def algebra_simps)
    qed (use I step u in auto)
  qed
  then have t': "sized bld t'" "2 * capacity t \<le> capacity t'" "at_most pc (4 * int (phys_capacity t')) es2" by simp_all
  then show "sized bld t'" "2 * capacity t \<le> capacity t'" by simp_all
  have "at_most pc (4 * int (phys_capacity t') + - (4 * int (phys_capacity t'))) es"
    unfolding es by (intro at_most_append t' at_most_accounts accounts_told)
  then show "at_most pc 0 es" by simp
qed

lemma reconstruct_grown: "growing bld pc (hopscotchReconstruct_log bld e pc n)"
proof (induction n)
  case (Suc n)
  have "grown bld pc t (t', es)" if "sized bld t" and "hopscotchReconstruct_log bld e pc (Suc n) t = Inr (t', es)" for t t' es
    using rebuilt [OF Suc.IH that] that(1) at_most_mono [of pc 0 es] by (auto simp: grown_def sized_def)
  then show ?case unfolding growing_def by auto
qed (simp add: growing_def)

section \<open>Sets\<close>

lemma hash_step_grown:
  assumes "USE_HOPSCOTCH bld" and "sized bld t" and "ul_inv l" and "num_of_elems l \<noteq> 0"
    and "hash_step_log bld e z pc (l, t, es) = Inr (l', t', es')"
  shows "\<exists>es1. es' = es @ es1 \<and> sized bld t' \<and> ul_inv l' \<and> num_of_elems l' = num_of_elems l - 1 \<and>
    at_most pc (list_memory z l' - list_memory z l + 4 * (int (phys_capacity t') - int (phys_capacity t))) es1"
proof -
  have ne: "to_list l \<noteq> []" "buckets l \<noteq> []"
    using assms(3,4) num_of_elems_0_iff [OF assms(3)] to_list_Nil_iff [OF assms(3)] by auto
  obtain es1 where ins: "hopscotchInsert_log bld e pc (ul_back l) t = Inr (t', es1)" and l': "l' = pop_back l"
    and es': "es' = es @ es1 @ snd (pop_back_log z pc l)"
    using assms(1,5) by (auto simp: hash_step_log_def pop_back_log_def)
  from insert_loop_grown [OF reconstruct_grown assms(2) ins [unfolded hopscotchInsert_log_def]]
  have g: "sized bld t'" "at_most pc (4 * (int (phys_capacity t') - int (phys_capacity t))) es1" by (simp_all add: grown_def)
  have "num_of_elems l' = num_of_elems l - 1"
    using assms(4) by (cases "num_of_elems l") (simp_all add: l' pop_back_def Let_def)
  moreover from at_most_append [OF g(2) at_most_accounts [OF pop_back_accounts [OF ne(2)]]]
  have "at_most pc (list_memory z l' - list_memory z l + 4 * (int (phys_capacity t') - int (phys_capacity t))) (es1 @ snd (pop_back_log z pc l))"
    by (simp add: l' add.commute)
  ultimately show ?thesis using g(1) pop_back_inv [OF assms(3) ne(1)] by (auto simp: es' l')
qed

lemma hash_loop_grown:
  assumes "USE_HOPSCOTCH bld"
    and "fold_result (\<lambda>i. hash_step_log bld e z pc) is (l, t, es) = Inr (l', t', es')"
    and "ul_inv l" and "num_of_elems l = length is" and "sized bld t" and "at_most pc n es"
  shows "at_most pc (n + (list_memory z l' - list_memory z l) + 4 * (int (phys_capacity t') - int (phys_capacity t))) es' \<and> ul_inv l'"
  using assms(2-)
proof (induction "is" arbitrary: l t es n)
  case (Cons i js)
  from Cons.prems(1) obtain l1 t1 es1 where 1: "hash_step_log bld e z pc (l, t, es) = Inr (l1, t1, es1)"
    and rest: "fold_result (\<lambda>i. hash_step_log bld e z pc) js (l1, t1, es1) = Inr (l', t', es')"
    by auto
  from hash_step_grown [OF assms(1) Cons.prems(4,2) _ 1] Cons.prems(3) obtain es2 where 2: "es1 = es @ es2" "sized bld t1" "ul_inv l1"
    "num_of_elems l1 = length js"
    "at_most pc (list_memory z l1 - list_memory z l + 4 * (int (phys_capacity t1) - int (phys_capacity t))) es2"
    by auto
  from Cons.IH [OF rest 2(3,4,2) at_most_append [OF Cons.prems(5) 2(5), folded 2(1)]] show ?case
    by (simp add: algebra_simps)
qed simp

lemma hashSet_at_most:
  assumes "set_ok s" and "isHashed s \<or> ul_size (elems s) \<le> 2 ^ 30" and "hashSet_log bld e z pc s = Inr (s', es)"
  shows "at_most pc (set_logged z s' - set_logged z s) es \<and> set_ok s'"
proof (cases "USE_HOPSCOTCH bld \<and> \<not> isHashed s \<and> 0 < ul_size (elems s)")
  case True
  with assms(3) obtain t l t' where t: "reserve bld e (ul_size (elems s)) (hashed_elems s) = Inr t"
    and loop: "fold_result (\<lambda>i. hash_step_log bld e z pc) [0..<ul_size (elems s)]
      (elems s, t, told pc (AddTmp (4 * int (phys_capacity t)) (mem_type pc))) = Inr (l, t', es)"
    and s': "s' = s\<lparr>isHashed := True, elems := l, hashed_elems := t'\<rparr>"
    by (auto simp: hashSet_log_def reserve_log_def Let_def)
  have i: "ul_inv (elems s)" "num_of_elems (elems s) = length [0..<ul_size (elems s)]" "phys_capacity (hashed_elems s) = 0"
    using assms(1) True by (simp_all add: set_ok_def ul_size_def)
  have "sized bld t" using reserve_sized(1) [OF t] assms(2) True by simp
  from hash_loop_grown [OF _ loop i(1,2) this at_most_accounts [OF accounts_told(1)]] True i(3) show ?thesis
    by (simp add: s' set_logged_def set_ok_def algebra_simps)
next
  case False
  consider "\<not> USE_HOPSCOTCH bld" | "isHashed s" | "\<not> isHashed s" "ul_size (elems s) = 0" using False by auto
  then show ?thesis
  proof cases
    case 1
    then show ?thesis using hashSet_accounts [OF 1 assms(1,3)] at_most_accounts by blast
  next
    case 2
    then show ?thesis using assms(1,3) by (simp add: hashSet_log_def at_most_accounts)
  next
    case 3
    with assms(3) obtain t where "s' = s\<lparr>isHashed := True, hashed_elems := t\<rparr>"
      "es = told pc (AddTmp (4 * int (phys_capacity t)) (mem_type pc))"
      by (auto simp: hashSet_log_def reserve_log_def)
    then show ?thesis
      using assms(1) 3 by (simp add: set_logged_def set_ok_def at_most_accounts accounts_told)
  qed
qed

end
