(* ===== verification/MemLife.thy ===== *)
theory MemLife
  imports LogGrowth GraphReader
begin

text \<open>
  The log over the life of the objects: sets, graphs, the cliques of the tasks, and pools.  Without
  the entries the operations are those of the other theories, so the log only observes.
\<close>

section \<open>Sets\<close>

text \<open>The life of a set: it is created, used and deleted.\<close>

datatype set_op = AddElem key | DelElem key | HashSet

fun set_op_log :: "build \<Rightarrow> env \<Rightarrow> sizes \<Rightarrow> place \<Rightarrow> set_op \<Rightarrow> simple_hash_set \<Rightarrow> (simple_hash_set \<times> entry list) result" where
  "set_op_log bld e z pc (AddElem x) s = add_elem_log bld z pc x s"
| "set_op_log bld e z pc (DelElem x) s = Inr (del_elem_log bld z pc x s)"
| "set_op_log bld e z pc HashSet s = hashSet_log bld e z pc s"

definition set_ops_log ::
  "build \<Rightarrow> env \<Rightarrow> sizes \<Rightarrow> place \<Rightarrow> set_op list \<Rightarrow> (simple_hash_set \<times> entry list) result" where
  "set_ops_log bld e z pc ops =
     fold_result (\<lambda>x (s, es). bind_result (set_op_log bld e z pc x s) (\<lambda>(s, es'). Inr (s, es @ es'))) ops (create_set_log z pc)"

lemma set_op_accounts:
  assumes "\<not> USE_HOPSCOTCH bld" and "set_ok s" and "set_op_log bld e z pc x s = Inr (s', es)"
  shows "accounts pc (set_logged z s' - set_logged z s) es \<and> set_ok s'"
proof (cases x)
  case (AddElem k)
  with assms show ?thesis using add_elem_accounts [of s bld z pc k s' es] by simp
next
  case (DelElem k)
  with assms show ?thesis using del_elem_accounts [of s bld z pc k s' es] by simp
next
  case HashSet
  with assms show ?thesis using hashSet_accounts [of bld s e z pc s' es] by simp
qed

lemma set_ops_accounts:
  assumes "\<not> USE_HOPSCOTCH bld" and "set_ops_log bld e z pc ops = Inr (s, es)"
  shows "accounts pc (set_logged z s) es \<and> set_ok s"
proof -
  let ?I = "\<lambda>(s, es). accounts pc (set_logged z s) es \<and> set_ok s"
  have "?I (s, es)"
  proof (rule fold_result_invariant [OF assms(2) [unfolded set_ops_log_def], where I = ?I])
    show "?I (create_set_log z pc)"
      using create_set_accounts(1) [of pc z] create_set_accounts(2) by (simp add: create_set_log_def SimpleHashSet_log_def)
    fix x u v assume "?I u" and step: "(\<lambda>(s, es). bind_result (set_op_log bld e z pc x s) (\<lambda>(s, es'). Inr (s, es @ es'))) u = Inr v"
    then obtain s1 es1 s2 es2 where u: "u = (s1, es1)" "v = (s2, es1 @ es2)" "set_op_log bld e z pc x s1 = Inr (s2, es2)"
      by (cases u) auto
    with \<open>?I u\<close> set_op_accounts [OF assms(1) _ u(3)] accounts_append [of pc "set_logged z s1" es1 "set_logged z s2 - set_logged z s1" es2]
    show "?I v" by simp
  qed
  then show ?thesis by simp
qed

lemma remove_size: "ul_inv l \<Longrightarrow> ul_size (remove bld el l) \<le> ul_size l"
proof (cases "find_element bld el l")
  case (Some p)
  assume inv: "ul_inv l"
  obtain b j where p: "p = (b, j)" by (cases p)
  have "num_of_elems l \<noteq> 0" using find_element_buckets [OF Some] num_of_elems_0_iff [OF inv] by simp
  then show ?thesis
    using Some p by (cases "num_of_elems l") (simp_all add: remove_def pop_back_def set_elem_def ul_size_def Let_def)
qed (simp add: remove_def)

lemma set_op_at_most:
  assumes "set_ok s" and "isHashed s \<or> ul_size (elems s) \<le> n" and "n \<le> 2 ^ 30" and "set_op_log bld e z pc x s = Inr (s', es)"
  shows "at_most pc (set_logged z s' - set_logged z s) es \<and> set_ok s' \<and> (isHashed s' \<or> ul_size (elems s') \<le> Suc n)"
proof (cases x)
  case (AddElem k)
  with assms add_elem_accounts(1,2) [of s bld z pc k s' es] show ?thesis
    by (auto simp: add_elem_log_def push_back_log_def push_back_def ul_size_def Let_def intro: at_most_accounts split: if_splits)
next
  case (DelElem k)
  with assms have run: "del_elem_log bld z pc k s = (s', es)" by simp
  note acc = del_elem_accounts [OF assms(1) run]
  have "isHashed s' \<or> ul_size (elems s') \<le> Suc n"
    using assms(1,2) remove_size [of "elems s" bld k]
    by (auto simp: acc(3) [symmetric] del_elem_def set_ok_def intro: le_SucI order_trans)
  then show ?thesis using at_most_accounts [OF acc(1)] acc(2) by simp
next
  case HashSet
  with assms have run: "hashSet_log bld e z pc s = Inr (s', es)" by simp
  have "isHashed s'" using run by (auto simp: hashSet_log_def Let_def split: if_splits)
  with hashSet_at_most [OF assms(1) _ run] assms(2,3) show ?thesis by auto
qed

lemma set_ops_at_most:
  assumes "length ops \<le> 2 ^ 30" and "set_ops_log bld e z pc ops = Inr (s, es)"
  shows "at_most pc (set_logged z s) es"
proof -
  let ?f = "\<lambda>x (s, es). bind_result (set_op_log bld e z pc x s) (\<lambda>(s, es'). Inr (s, es @ es'))"
  have "at_most pc (set_logged z s) es"
    if "fold_result ?f ops (s0, es0) = Inr (s, es)" and "at_most pc (set_logged z s0) es0" and "set_ok s0"
      and "isHashed s0 \<or> ul_size (elems s0) \<le> n" and "n + length ops \<le> 2 ^ 30" for s0 es0 n
    using that
  proof (induction ops arbitrary: s0 es0 n)
    case (Cons x ops)
    from Cons.prems(1) obtain s1 es1 where 1: "set_op_log bld e z pc x s0 = Inr (s1, es1)"
      and rest: "fold_result ?f ops (s1, es0 @ es1) = Inr (s, es)"
      by auto
    have "n \<le> 2 ^ 30" using Cons.prems(5) by simp
    note w = set_op_at_most [OF Cons.prems(3,4) this 1]
    have "at_most pc (set_logged z s1) (es0 @ es1)"
      using at_most_append [OF Cons.prems(2) conjunct1 [OF w]] by simp
    then show ?case by (rule Cons.IH [OF rest, where n = "Suc n"]) (use w Cons.prems(5) in simp_all)
  qed simp
  note ops = this
  obtain es0 where c: "create_set_log z pc = (create_set, es0)" by (simp add: create_set_log_def SimpleHashSet_log_def)
  show ?thesis
    using ops [OF assms(2) [unfolded set_ops_log_def c], of 0] at_most_accounts [OF create_set_accounts(1), of pc z]
      create_set_accounts(2) assms(1)
    by (simp add: c create_set_def UnrolledList_def ul_size_def)
qed

section \<open>The entries and the code\<close>

text \<open>Without the entries, the operations above are those of the other theories.\<close>

definition strip :: "('a \<times> entry list) result \<Rightarrow> 'a result" where
  "strip r = bind_result r (\<lambda>(x, es). Inr x)"

lemma strip_simps [simp]: "strip (Inl er) = Inl er" "strip (Inr p) = Inr (fst p)"
  by (simp_all add: strip_def split_beta)

lemma strip_bind:
  "(\<And>x es. r = Inr (x, es) \<Longrightarrow> strip (g (x, es)) = h x) \<Longrightarrow> strip (bind_result r g) = bind_result (strip r) h"
  by (cases r) auto

lemma strip_fold:
  "(\<And>i x es. strip (F i (x, es)) = G i x) \<Longrightarrow> strip (fold_result F is (x, es)) = fold_result G is x"
proof (induction "is" arbitrary: x es)
  case (Cons i js)
  show ?case unfolding fold_result.simps Cons.prems [symmetric, of i x es]
    by (rule strip_bind) (rule Cons.IH [OF Cons.prems])
qed simp

lemma reserve_log_strip: "strip (reserve_log bld e pc cap t) = reserve bld e cap t"
  by (cases "reserve bld e cap t") (simp_all add: reserve_log_def)

lemma try_log_strip:
  assumes "\<And>t. strip (rl t) = r t"
  shows "bind_result (hopscotchTryInsert_log rl el t) (\<lambda>(b, t, es). Inr (b, t)) = hopscotchTryInsert r el t"
proof -
  have "bind_result (bind_result (rl t) (\<lambda>(t, es). Inr (False, t, es))) (\<lambda>(b, t, es). Inr (b, t)) =
    bind_result (r t) (\<lambda>t. Inr (False, t))" for t
    unfolding assms [symmetric] by (cases "rl t") auto
  note rec = this
  show ?thesis
    unfolding hopscotchTryInsert_log_def hopscotchTryInsert_def Let_def
    by (cases "displace (Suc (capacity t)) (home t el) (the (hopscotch_probe t el (capacity t) (home t el))) t")
      (auto simp: rec split: option.split)
qed

lemma strip_map [simp]: "strip (bind_result r (\<lambda>(t, es). Inr (t, f t es))) = strip r"
  by (cases r) auto

lemma insert_loop_log_strip:
  assumes "\<And>t. strip (rl t) = r t"
  shows "strip (hopscotchInsert_loop_log rl el n t) = hopscotchInsert_loop r el n t"
proof (induction n arbitrary: t)
  case (Suc n)
  have "strip (bind_result (rl t) (\<lambda>(t, es'). bind_result (hopscotchInsert_loop_log rl el n t) (\<lambda>(t, es''). Inr (t, f es' es'')))) =
    bind_result (r t) (hopscotchInsert_loop r el n)" for t f
    unfolding assms [of t, symmetric] by (rule strip_bind) (simp add: Suc.IH)
  note rec = this
  show ?case
    unfolding hopscotchInsert_loop_log.simps hopscotchInsert_loop.simps try_log_strip [OF assms, symmetric]
    by (cases "hopscotchTryInsert_log rl el t") (auto simp: rec)
qed simp

lemma reconstruct_log_strip: "strip (hopscotchReconstruct_log bld e pc n t) = hopscotchReconstruct bld e n t"
proof (induction n arbitrary: t)
  case (Suc n)
  have step: "strip (if P then bind_result (hopscotchInsert_loop_log (hopscotchReconstruct_log bld e pc n) el 10 t) (\<lambda>(t, es'). Inr (t, es @ es'))
      else Inr (t, es)) =
    (if P then hopscotchInsert_loop (hopscotchReconstruct bld e n) el 10 t else Inr t)" for P el t es
    by (simp add: insert_loop_log_strip [OF Suc.IH])
  show ?case
    unfolding hopscotchReconstruct_log.simps hopscotchReconstruct.simps Let_def reserve_log_strip [of bld e pc, symmetric]
    apply (rule strip_bind)
    unfolding case_prod_conv strip_map
    by (rule strip_fold) (unfold case_prod_conv, rule step)
qed simp

lemma add_elem_log_strip: "strip (add_elem_log bld z pc el s) = add_elem bld el s"
  by (cases "ht_insert bld el (hashed_elems s)") (simp_all add: add_elem_log_def add_elem_def push_back_log_def)

lemma hashSet_log_strip: "strip (hashSet_log bld e z pc s) = hashSet bld e s"
proof -
  have ins: "strip (if USE_HOPSCOTCH bld then hopscotchInsert_log bld e pc el t else bind_result (ht_insert bld el t) (\<lambda>t. Inr (t, []))) =
    (if USE_HOPSCOTCH bld then hopscotchInsert bld e el t else ht_insert bld el t)" for el t
    by (cases "ht_insert bld el t")
      (simp_all add: hopscotchInsert_log_def hopscotchInsert_def insert_loop_log_strip [OF reconstruct_log_strip])
  define drop where "drop = (\<lambda>r :: (ulist \<times> hash_table \<times> entry list) result. bind_result r (\<lambda>(l, t, es). Inr (l, t)))"
  have step: "drop (hash_step_log bld e z pc (l, t, es)) = hash_step bld e (l, t)" for l t es
    unfolding hash_step_log_def hash_step_def case_prod_conv ins [symmetric] drop_def
    by (cases "if USE_HOPSCOTCH bld then hopscotchInsert_log bld e pc (ul_back l) t
          else bind_result (ht_insert bld (ul_back l) t) (\<lambda>t. Inr (t, []))") (auto simp: pop_back_log_def)
  have loop: "drop (fold_result (\<lambda>i. hash_step_log bld e z pc) is (l, t, es)) = fold_result (\<lambda>i. hash_step bld e) is (l, t)" for l t es "is"
  proof (induction "is" arbitrary: l t es)
    case (Cons i js)
    show ?case unfolding fold_result.simps step [of l t es, symmetric]
      by (cases "hash_step_log bld e z pc (l, t, es)") (auto simp: drop_def Cons.IH [unfolded drop_def])
  qed (simp add: drop_def)
  have rest: "strip (bind_result r (\<lambda>(l, t, es). Inr (f l t, es))) = bind_result (drop r) (\<lambda>(l, t). Inr (f l t))" for r f
    by (cases r) (auto simp: drop_def)
  show ?thesis
  proof (cases "isHashed s")
    case False
    then show ?thesis
      unfolding hashSet_log_def hashSet_def Let_def if_not_P [OF False] reserve_log_strip [of bld e pc, symmetric]
      by (intro strip_bind) (simp only: case_prod_conv rest loop)
  qed (simp add: hashSet_log_def hashSet_def)
qed


section \<open>Graphs\<close>

text \<open>The memory of a graph object and of the sets of its vertices; the nodes of its maps and vectors are the
  library's, and nothing is told of them.  The entries again have the lists and tables of the sets twice.\<close>

definition graph_memory :: "sizes \<Rightarrow> graph \<Rightarrow> int" where
  "graph_memory z g = sizeof_graph z + (\<Sum>(v, s) \<leftarrow> adjList g. set_memory z s)"

definition graph_logged :: "sizes \<Rightarrow> graph \<Rightarrow> int" where
  "graph_logged z g = sizeof_graph z + (\<Sum>(v, s) \<leftarrow> adjList g. set_logged z s)"

lemma graph_logged_memory:
  "graph_logged z g = graph_memory z g + int (length (adjList g)) * (sizeof_list z + sizeof_table z)"
proof -
  have "(\<Sum>(v, s) \<leftarrow> al. set_logged z s) = (\<Sum>(v, s) \<leftarrow> al. set_memory z s) + int (length al) * (sizeof_list z + sizeof_table z)" for al :: "(key \<times> simple_hash_set) list"
    by (induction al) (auto simp: set_logged_memory algebra_simps)
  then show ?thesis by (simp add: graph_logged_def graph_memory_def)
qed

definition lists_ok :: "graph \<Rightarrow> bool" where
  "lists_ok g \<longleftrightarrow> (\<forall>(v, s) \<in> set (adjList g). set_ok s)"

lemma sum_list_put:
  "(\<Sum>(v, s) \<leftarrow> AList.update k s' al. f s) = (\<Sum>(v, s) \<leftarrow> al. f s) - (case map_of al k of None \<Rightarrow> 0 | Some s \<Rightarrow> f s) + (f s' :: int)"
  by (induction al) (auto split: option.splits)

lemma update_ok: "(\<forall>(v, s) \<in> set al. P s) \<Longrightarrow> P s' \<Longrightarrow> \<forall>(v, s) \<in> set (AList.update k s' al). P s"
  by (induction al) auto

definition account_step :: "sizes \<Rightarrow> mem_type \<Rightarrow> graph \<Rightarrow> graph \<times> entry list \<Rightarrow> bool" where
  "account_step z ty g = (\<lambda>(g', es). accounts (own_place ty) (graph_logged z g' - graph_logged z g) es \<and> lists_ok g')"

lemma account_step_trans:
  "account_step z ty g (g1, es1) \<Longrightarrow> account_step z ty g1 (g2, es2) \<Longrightarrow> account_step z ty g (g2, es1 @ es2)"
  using accounts_append [of "own_place ty" "graph_logged z g1 - graph_logged z g" es1]
  by (fastforce simp: account_step_def)

lemma put_set_accounts:
  assumes "lists_ok g" and "set_ok s'" and "getAdjacentNodes g v = Some s" and "accounts (own_place ty) (set_logged z s' - set_logged z s) es"
  shows "account_step z ty g (g\<lparr>adjList := AList.update v s' (adjList g)\<rparr>, es)"
  using assms update_ok [of "adjList g" set_ok s' v]
  by (simp add: account_step_def graph_logged_def sum_list_put getAdjacentNodes_def lists_ok_def)

lemma new_vertex_accounts:
  assumes "lists_ok g" and "new_vertex_log z ty v g = (g', es)"
  shows "account_step z ty g (g', es)" and "g' = (if getAdjacentNodes g v = None
      then g\<lparr>adjList := AList.update v create_set (adjList g)\<rparr> else g)"
  using assms create_set_accounts(1) [of "own_place ty" z] create_set_accounts(2) update_ok [of "adjList g" set_ok create_set v]
  by (auto simp: new_vertex_log_def create_set_log_def SimpleHashSet_log_def account_step_def graph_logged_def sum_list_put getAdjacentNodes_def
      lists_ok_def split: if_splits)

lemma found_ok: "lists_ok g \<Longrightarrow> getAdjacentNodes g v = Some s \<Longrightarrow> set_ok s"
  by (auto simp: lists_ok_def getAdjacentNodes_def dest: map_of_SomeD)

lemma adj_add_elem_accounts:
  assumes "lists_ok g" and "adj_add_elem_log bld z ty v w g = Inr (g', es)"
  shows "account_step z ty g (g', es)" and "adj_add_elem bld v w g = Inr g'"
proof -
  obtain s s' where s: "getAdjacentNodes g v = Some s" and a: "add_elem_log bld z (own_place ty) w s = Inr (s', es)"
    and g': "g' = g\<lparr>adjList := AList.update v s' (adjList g)\<rparr>"
    using assms(2) by (auto simp: adj_add_elem_log_def getAdjacentNodes_def split: option.splits)
  note acc = add_elem_accounts [OF found_ok [OF assms(1) s] a]
  show "account_step z ty g (g', es)" unfolding g' by (rule put_set_accounts [OF assms(1) acc(2) s acc(1)])
  show "adj_add_elem bld v w g = Inr g'" using s acc(3) by (simp add: adj_add_elem_def g')
qed

text \<open>What a run of \<open>addEdge\<close> comes to.\<close>

lemma addEdge_logE:
  assumes "addEdge_log bld z ty v w g = Inr (g', es)"
  obtains g1 es1 es2 where "new_vertex_log z ty v g = (g1, es1)" and "new_vertex_log z ty w g1 = (g', es2)" and "es = es1 @ es2"
  | g1 es1 g2 es2 g3 es3 g4 es4 where "new_vertex_log z ty v g = (g1, es1)" and "new_vertex_log z ty w g1 = (g2, es2)"
      and "adj_add_elem_log bld z ty v w g2 = Inr (g3, es3)" and "adj_add_elem_log bld z ty w v g3 = Inr (g4, es4)"
      and "adjList g' = adjList g4" and "es = (es1 @ es2) @ es3 @ es4"
proof -
  obtain g1 es1 where 1: "new_vertex_log z ty v g = (g1, es1)" by fastforce
  obtain g2 es2 where 2: "new_vertex_log z ty w g1 = (g2, es2)" by fastforce
  let ?last = "\<lambda>g. let g = g\<lparr>edgeNo := edgeNo g + 2\<rparr>;
                    g = (if adj_size g v > maxdeg g then g\<lparr>maxdeg := adj_size g v\<rparr> else g)
                in if adj_size g w > maxdeg g then g\<lparr>maxdeg := adj_size g w\<rparr> else g"
  have run: "(if v = w then Inr (g2, es1 @ es2) else bind_result (adj_add_elem_log bld z ty v w g2) (\<lambda>(g, es3).
           bind_result (adj_add_elem_log bld z ty w v g) (\<lambda>(g, es4). Inr (?last g, es1 @ es2 @ es3 @ es4)))) = Inr (g', es)"
    using assms unfolding addEdge_log_def 1 2 prod.case Let_def .
  show ?thesis
  proof (cases "v = w")
    case True
    with run have "g2 = g'" "es = es1 @ es2" by simp_all
    with that(1) 1 2 show ?thesis by blast
  next
    case False
    with run obtain g3 es3 g4 es4 where "adj_add_elem_log bld z ty v w g2 = Inr (g3, es3)"
      "adj_add_elem_log bld z ty w v g3 = Inr (g4, es4)" "es = (es1 @ es2) @ es3 @ es4" and g': "g' = ?last g4"
      unfolding if_not_P [OF False] by (elim bind_resultE case_pairE) simp
    moreover have "adjList g' = adjList g4" by (simp add: g' Let_def)
    ultimately show ?thesis using that(2) 1 2 by blast
  qed
qed

lemma account_step_ok: "account_step z ty g (g', es) \<Longrightarrow> lists_ok g'"
  by (simp add: account_step_def)

lemma addEdge_accounts:
  assumes ok: "lists_ok g" and "addEdge_log bld z ty v w g = Inr (g', es)"
  shows "account_step z ty g (g', es)"
  using assms(2)
proof (cases rule: addEdge_logE)
  case (1 g1 es1 es2)
  note a1 = new_vertex_accounts(1) [OF ok 1(1)]
  from account_step_trans [OF a1 new_vertex_accounts(1) [OF account_step_ok [OF a1] 1(2)]] show ?thesis by (simp add: 1(3))
next
  case (2 g1 es1 g2 es2 g3 es3 g4 es4)
  note a1 = new_vertex_accounts(1) [OF ok 2(1)]
  note a2 = account_step_trans [OF a1 new_vertex_accounts(1) [OF account_step_ok [OF a1] 2(2)]]
  note a3 = adj_add_elem_accounts(1) [OF account_step_ok [OF a2] 2(3)]
  note a4 = adj_add_elem_accounts(1) [OF account_step_ok [OF a3] 2(4)]
  from account_step_trans [OF a2 account_step_trans [OF a3 a4]] show ?thesis
    by (simp add: account_step_def graph_logged_def lists_ok_def 2(5,6))
qed

lemma adj_add_elem_log_strip: "strip (adj_add_elem_log bld z ty v w g) = adj_add_elem bld v w g"
proof (cases "map_of (adjList g) v")
  case (Some s)
  show ?thesis
    unfolding adj_add_elem_log_def adj_add_elem_def getAdjacentNodes_def Some option.case
      add_elem_log_strip [of bld z "own_place ty" w s, symmetric]
    by (rule strip_bind) simp
qed (simp add: adj_add_elem_log_def adj_add_elem_def getAdjacentNodes_def)

lemma new_vertex_log_fst:
  "fst (new_vertex_log z ty v g) = (if getAdjacentNodes g v = None
     then g\<lparr>adjList := AList.update v create_set (adjList g)\<rparr> else g)"
  by (simp add: new_vertex_log_def create_set_log_def SimpleHashSet_log_def)

lemma addEdge_log_strip: "strip (addEdge_log bld z ty v w g) = addEdge bld v w g"
proof -
  obtain g1 es1 where 1: "new_vertex_log z ty v g = (g1, es1)" by fastforce
  obtain g2 es2 where 2: "new_vertex_log z ty w g1 = (g2, es2)" by fastforce
  note f1 = new_vertex_log_fst [of z ty v g, unfolded 1 fst_conv]
  note f2 = new_vertex_log_fst [of z ty w g1, unfolded 2 fst_conv]
  show ?thesis
  proof (cases "v = w")
    case True
    then show ?thesis unfolding addEdge_log_def addEdge_def Let_def 1 2 prod.case f1 [symmetric] f2 [symmetric] by simp
  next
    case False
    show ?thesis
      unfolding addEdge_log_def addEdge_def Let_def 1 2 prod.case f1 [symmetric] f2 [symmetric] if_not_P [OF False]
        adj_add_elem_log_strip [of bld z ty, symmetric]
      by (intro strip_bind) (simp add: strip_bind)
  qed
qed

lemma hash_lists_log_strip: "strip (hash_lists_log lib bld e z ty (g, es)) = hash_lists lib bld e g"
  unfolding hash_lists_log_def hash_lists_def case_prod_conv
proof (rule strip_fold)
  fix v g es
  show "strip ((\<lambda>(g, es). case getAdjacentNodes g v of None \<Rightarrow> Inr (g, es)
       | Some s \<Rightarrow> bind_result (hashSet_log bld e z (own_place ty) s) (\<lambda>(s, es').
           Inr (g\<lparr>adjList := AList.update v s (adjList g)\<rparr>, es @ es'))) (g, es)) =
    (case getAdjacentNodes g v of None \<Rightarrow> Inr g
       | Some s \<Rightarrow> bind_result (hashSet bld e s) (\<lambda>s. Inr (g\<lparr>adjList := AList.update v s (adjList g)\<rparr>)))"
    unfolding hashSet_log_strip [of bld e z "own_place ty", symmetric] case_prod_conv
    by (cases "getAdjacentNodes g v") (auto intro!: strip_bind)
qed

lemma hash_lists_accounts:
  assumes "\<not> USE_HOPSCOTCH bld" and "lists_ok g" and "hash_lists_log lib bld e z ty (g, es) = Inr (g', es')"
    and "accounts (own_place ty) n es"
  shows "accounts (own_place ty) (n + (graph_logged z g' - graph_logged z g)) es'"
proof -
  let ?f = "\<lambda>v (g, es). case getAdjacentNodes g v of None \<Rightarrow> Inr (g, es)
       | Some s \<Rightarrow> bind_result (hashSet_log bld e z (own_place ty) s) (\<lambda>(s, es').
           Inr (g\<lparr>adjList := AList.update v s (adjList g)\<rparr>, es @ es'))"
  let ?I = "\<lambda>(g1, es1). lists_ok g1 \<and> accounts (own_place ty) (n + (graph_logged z g1 - graph_logged z g)) es1"
  have "?I (g', es')"
  proof (rule fold_result_invariant [OF assms(3) [unfolded hash_lists_log_def case_prod_conv], where I = ?I])
    show "?I (g, es)" using assms(2,4) by simp
    fix v x y assume I: "?I x" and step: "?f v x = Inr y"
    obtain g1 es1 where x: "x = (g1, es1)" by (cases x)
    show "?I y"
    proof (cases "getAdjacentNodes g1 v")
      case (Some s)
      with step x obtain s' es2 where s': "hashSet_log bld e z (own_place ty) s = Inr (s', es2)"
        and y: "y = (g1\<lparr>adjList := AList.update v s' (adjList g1)\<rparr>, es1 @ es2)"
        by auto
      have ok: "lists_ok g1" using I x by simp
      note h = hashSet_accounts [OF assms(1) found_ok [OF ok Some] s']
      from put_set_accounts [OF ok h(2) Some h(1)] show ?thesis
        using I accounts_append [of "own_place ty" "n + (graph_logged z g1 - graph_logged z g)" es1]
        by (fastforce simp: x y account_step_def)
    qed (use I step x in auto)
  qed
  then show ?thesis by simp
qed

lemma delete_graph_accounts: "accounts (own_place ty) (- graph_logged z g) (delete_graph z ty g)"
proof -
  have "accounts (own_place ty) (case p of (v, s) \<Rightarrow> - set_logged z s) (case p of (v, s) \<Rightarrow> delete_simple_hash_set z (own_place ty) s)" for p
    by (cases p) (simp add: delete_set_accounts own_place_def)
  then have "accounts (own_place ty) (\<Sum>(v, s) \<leftarrow> adjList g. - set_logged z s)
    (concat (map (\<lambda>(v, s). delete_simple_hash_set z (own_place ty) s) (adjList g)))"
    by (rule accounts_concat)
  moreover have "(\<Sum>(v, s) \<leftarrow> al. - set_logged z s) = - (\<Sum>(v, s) \<leftarrow> al. set_logged z s)" for al :: "(key \<times> simple_hash_set) list"
    by (induction al) auto
  ultimately show ?thesis
    by (simp add: accounts_def delete_graph_def graph_logged_def own_place_def)
qed

text \<open>Hashing the sets of a graph, in any build, if no set has too many keys.\<close>

definition lists_small :: "nat \<Rightarrow> graph \<Rightarrow> bool" where
  "lists_small N g \<longleftrightarrow> (\<forall>(v, s) \<in> set (adjList g). isHashed s \<or> ul_size (elems s) \<le> N)"

lemma found_small: "lists_small N g \<Longrightarrow> getAdjacentNodes g v = Some s \<Longrightarrow> isHashed s \<or> ul_size (elems s) \<le> N"
  by (auto simp: lists_small_def getAdjacentNodes_def dest: map_of_SomeD)

lemma lists_small_put:
  "lists_small N g \<Longrightarrow> N \<le> M \<Longrightarrow> isHashed s \<or> ul_size (elems s) \<le> M \<Longrightarrow> lists_small M (g\<lparr>adjList := AList.update v s (adjList g)\<rparr>)"
  unfolding lists_small_def using update_ok [of "adjList g" "\<lambda>s. isHashed s \<or> ul_size (elems s) \<le> M" s v] by fastforce

lemma graph_logged_put:
  "getAdjacentNodes g v = Some s \<Longrightarrow>
   graph_logged z (g\<lparr>adjList := AList.update v s' (adjList g)\<rparr>) = graph_logged z g - set_logged z s + set_logged z s'"
  by (simp add: graph_logged_def sum_list_put getAdjacentNodes_def)

lemma hash_lists_at_most:
  assumes "lists_ok g" and "lists_small N g" and "N \<le> 2 ^ 30" and "hash_lists_log lib bld e z ty (g, es) = Inr (g', es')"
    and "at_most (own_place ty) n es"
  shows "at_most (own_place ty) (n + (graph_logged z g' - graph_logged z g)) es'"
proof -
  let ?f = "\<lambda>v (g, es). case getAdjacentNodes g v of None \<Rightarrow> Inr (g, es)
       | Some s \<Rightarrow> bind_result (hashSet_log bld e z (own_place ty) s) (\<lambda>(s, es').
           Inr (g\<lparr>adjList := AList.update v s (adjList g)\<rparr>, es @ es'))"
  let ?I = "\<lambda>(g1, es1). lists_ok g1 \<and> lists_small N g1 \<and> at_most (own_place ty) (n + (graph_logged z g1 - graph_logged z g)) es1"
  have "?I (g', es')"
  proof (rule fold_result_invariant [OF assms(4) [unfolded hash_lists_log_def case_prod_conv], where I = ?I])
    show "?I (g, es)" using assms(1,2,5) by simp
    fix v x y assume I: "?I x" and step: "?f v x = Inr y"
    obtain g1 es1 where x: "x = (g1, es1)" by (cases x)
    show "?I y"
    proof (cases "getAdjacentNodes g1 v")
      case (Some s)
      with step x obtain s' es2 where s': "hashSet_log bld e z (own_place ty) s = Inr (s', es2)"
        and y: "y = (g1\<lparr>adjList := AList.update v s' (adjList g1)\<rparr>, es1 @ es2)"
        by auto
      have ok: "lists_ok g1" "lists_small N g1" using I x by simp_all
      have "isHashed s \<or> ul_size (elems s) \<le> 2 ^ 30" using found_small [OF ok(2) Some] assms(3) by auto
      note h = hashSet_at_most [OF found_ok [OF ok(1) Some] this s']
      have "isHashed s'" using s' by (auto simp: hashSet_log_def Let_def split: if_splits)
      then have "lists_small N (g1\<lparr>adjList := AList.update v s' (adjList g1)\<rparr>)" using lists_small_put [OF ok(2)] by blast
      moreover have "lists_ok (g1\<lparr>adjList := AList.update v s' (adjList g1)\<rparr>)"
        using update_ok [of "adjList g1" set_ok s' v] ok(1) h by (simp add: lists_ok_def)
      moreover have "at_most (own_place ty) (n + (graph_logged z g1 - graph_logged z g) + (set_logged z s' - set_logged z s)) (es1 @ es2)"
        using at_most_append [OF _ conjunct1 [OF h]] I x by simp
      ultimately show ?thesis by (simp add: y graph_logged_put [OF Some] algebra_simps)
    qed (use I step x in auto)
  qed
  then show ?thesis by simp
qed

lemma new_vertex_small: "lists_small N g \<Longrightarrow> lists_small N (fst (new_vertex_log z ty v g))"
  using lists_small_put [of N g N create_set v]
  by (simp add: new_vertex_log_fst create_set_def UnrolledList_def ul_size_def)

lemma adj_add_elem_small:
  assumes "lists_ok g" and "lists_small N g" and "adj_add_elem_log bld z ty v w g = Inr (g', es)"
  shows "lists_small (Suc N) g'"
proof -
  obtain s s' where s: "getAdjacentNodes g v = Some s" and a: "add_elem_log bld z (own_place ty) w s = Inr (s', es)"
    and g': "g' = g\<lparr>adjList := AList.update v s' (adjList g)\<rparr>"
    using assms(3) by (auto simp: adj_add_elem_log_def getAdjacentNodes_def split: option.splits)
  have "isHashed s' \<or> ul_size (elems s') \<le> Suc N"
    using a found_small [OF assms(2) s] by (auto simp: add_elem_log_def push_back_log_def push_back_def ul_size_def Let_def split: if_splits)
  with lists_small_put [OF assms(2)] show ?thesis by (simp add: g')
qed

lemma addEdge_small:
  assumes "lists_ok g" and "lists_small N g" and "addEdge_log bld z ty v w g = Inr (g', es)"
  shows "lists_small (N + 2) g'"
  using assms(3)
proof (cases rule: addEdge_logE)
  case (1 g1 es1 es2)
  have "lists_small N g'" using new_vertex_small [OF new_vertex_small [OF assms(2), of z ty v], of z ty w] 1 by simp
  then show ?thesis by (auto simp: lists_small_def)
next
  case (2 g1 es1 g2 es2 g3 es3 g4 es4)
  have "lists_small N g2" using new_vertex_small [OF new_vertex_small [OF assms(2), of z ty v], of z ty w] 2 by simp
  moreover have ok2: "lists_ok g2"
    using account_step_ok [OF new_vertex_accounts(1) [OF account_step_ok [OF new_vertex_accounts(1) [OF assms(1) 2(1)]] 2(2)]] .
  moreover have "lists_ok g3" using account_step_ok [OF adj_add_elem_accounts(1) [OF ok2 2(3)]] .
  ultimately show ?thesis
    using adj_add_elem_small [OF _ adj_add_elem_small [OF ok2 _ 2(3)] 2(4)] 2(5) by (simp add: lists_small_def)
qed

section \<open>A graph from a file\<close>

definition read_row_log :: "build \<Rightarrow> sizes \<Rightarrow> mem_type \<Rightarrow> string \<Rightarrow> (graph \<times> bool) \<times> entry list \<Rightarrow> ((graph \<times> bool) \<times> entry list) result" where
  "read_row_log bld z ty line = (\<lambda>((g, firstRow), es).
     if line \<noteq> [] \<and> (hd line = CHR ''%'' \<or> hd line = CHR ''#'') then Inr ((g, firstRow), es)
     else
       let ss = \<lparr>rest = line, eofbit = False, failbit = False\<rparr>;
           (first, ss) = extract_int ss;
           (second, ss) = extract_int ss;
           third = (if firstRow \<and> \<not> eofbit ss
                    then (case fst (extract_int ss) of None \<Rightarrow> -1 | Some t \<Rightarrow> t) else -1)
       in if third \<noteq> -1
          then bind_result (use_var first) (\<lambda>first.
            if first < 0 then Inl AllocFailed else Inr ((g\<lparr>nodeNo := first\<rparr>, False), es))
          else bind_result (use_var first) (\<lambda>first. bind_result (use_var second) (\<lambda>second.
            bind_result (addEdge_log bld z ty (word_of_int first) (word_of_int second) g) (\<lambda>(g, es'). Inr ((g, False), es @ es')))))"

definition initFromFile_log ::
  "library \<Rightarrow> build \<Rightarrow> env \<Rightarrow> sizes \<Rightarrow> mem_type \<Rightarrow> string \<Rightarrow> graph \<times> entry list \<Rightarrow> (graph \<times> entry list) result" where
  "initFromFile_log lib bld e z ty content = (\<lambda>(g, es).
     bind_result (fold_result (read_row_log bld z ty) (getlines [] content) ((g\<lparr>nodeNo := -1\<rparr>, True), es)) (\<lambda>((g, _), es).
       hash_lists_log lib bld e z ty (number_vertices lib g, es)))"

definition Graph_file_log :: "library \<Rightarrow> build \<Rightarrow> env \<Rightarrow> sizes \<Rightarrow> string \<Rightarrow> (graph \<times> entry list) result" where
  "Graph_file_log lib bld e z path_content = initFromFile_log lib bld e z GRAPH path_content (Graph_log z GRAPH 0)"

lemma read_row_log_strip: "strip (read_row_log bld z ty line ((g, f), es)) = read_row bld line (g, f)"
proof -
  obtain a ss1 where 1: "extract_int \<lparr>rest = line, eofbit = False, failbit = False\<rparr> = (a, ss1)" by fastforce
  obtain b ss2 where 2: "extract_int ss1 = (b, ss2)" by fastforce
  have "strip (bind_result r h) = bind_result r (\<lambda>x. strip (h x))" for r :: "int result" and h :: "int \<Rightarrow> ((graph \<times> bool) \<times> entry list) result"
    by (cases r) simp_all
  note push = this
  have edge: "strip (bind_result (addEdge_log bld z ty v w g) (\<lambda>(g, es'). Inr ((g, False), es @ es'))) =
    bind_result (addEdge bld v w g) (\<lambda>g. Inr (g, False))" for v w
    unfolding addEdge_log_strip [of bld z ty, symmetric] by (rule strip_bind) simp
  show ?thesis
    unfolding read_row_log_def read_row_def case_prod_conv Let_def 1 2
    by (simp add: push edge if_distrib [of strip] cong: if_cong)
qed

lemma initFromFile_log_strip: "strip (initFromFile_log lib bld e z ty content (g, es)) = initFromFile lib bld e content g"
proof -
  have "strip (fold_result (read_row_log bld z ty) rs ((g, True), es)) = fold_result (read_row bld) rs (g, True)" for rs g es
    by (rule strip_fold) (metis read_row_log_strip surj_pair)
  note rows = this
  show ?thesis
    unfolding initFromFile_log_def initFromFile_def case_prod_conv rows [of _ _ es, symmetric]
    by (rule strip_bind) (auto simp: hash_lists_log_strip)
qed

lemma read_row_log_Inr:
  assumes "read_row_log bld z ty line ((g, f), es) = Inr ((g', f'), es')"
  shows "(adjList g' = adjList g \<and> es' = es) \<or>
    (\<exists>v w es1. addEdge_log bld z ty v w g = Inr (g', es1) \<and> es' = es @ es1)"
  using assms unfolding read_row_log_def case_prod_conv Let_def
  by (auto split: if_splits prod.splits)

lemma rows_accounts:
  assumes "fold_result (read_row_log bld z ty) rs ((g, f), es) = Inr ((g', f'), es')"
    and "accounts (own_place ty) (graph_logged z g) es" and "lists_ok g" and "lists_small N g"
  shows "accounts (own_place ty) (graph_logged z g') es' \<and> lists_ok g' \<and> lists_small (N + 2 * length rs) g'"
  using assms
proof (induction rs arbitrary: g f es N)
  case (Cons r rs)
  from Cons.prems(1) obtain g1 f1 es1 where 1: "read_row_log bld z ty r ((g, f), es) = Inr ((g1, f1), es1)"
    and rest: "fold_result (read_row_log bld z ty) rs ((g1, f1), es1) = Inr ((g', f'), es')"
    unfolding fold_result.simps by (elim bind_resultE) auto
  have "accounts (own_place ty) (graph_logged z g1) es1 \<and> lists_ok g1 \<and> lists_small (N + 2) g1"
    using read_row_log_Inr [OF 1]
  proof (elim disjE exE conjE)
    assume "adjList g1 = adjList g" "es1 = es"
    with Cons.prems(2-) show ?thesis by (auto simp: graph_logged_def lists_ok_def lists_small_def)
  next
    fix v w es2 assume a: "addEdge_log bld z ty v w g = Inr (g1, es2)" "es1 = es @ es2"
    from addEdge_accounts [OF Cons.prems(3) a(1)] addEdge_small [OF Cons.prems(3,4) a(1)] Cons.prems(2) show ?thesis
      using accounts_append [of "own_place ty" "graph_logged z g" es "graph_logged z g1 - graph_logged z g" es2]
      by (simp add: account_step_def a(2))
  qed
  with Cons.IH [OF rest, of "N + 2"] show ?case by (simp add: add.assoc)
qed simp

text \<open>The whole constructor: exact until the sets are hashed, and then as exact as that is.\<close>

lemma Graph_file_rows:
  assumes "Graph_file_log lib bld e z content = Inr (g, es)"
  obtains g1 es1 where "accounts (own_place GRAPH) (graph_logged z g1) es1" and "lists_ok g1"
    and "lists_small (2 * length (getlines [] content)) g1" and "hash_lists_log lib bld e z GRAPH (g1, es1) = Inr (g, es)"
proof -
  let ?g = "(Graph 0)\<lparr>nodeNo := -1\<rparr>"
  obtain g1 f es1 where rows: "fold_result (read_row_log bld z GRAPH) (getlines [] content) ((?g, True), [AddTmp (sizeof_graph z) GRAPH]) = Inr ((g1, f), es1)"
    and hash: "hash_lists_log lib bld e z GRAPH (number_vertices lib g1, es1) = Inr (g, es)"
    using assms unfolding Graph_file_log_def Graph_log_def initFromFile_log_def case_prod_conv
    by (elim bind_resultE case_pairE) auto
  have "accounts (own_place GRAPH) (graph_logged z ?g) [AddTmp (sizeof_graph z) GRAPH]" "lists_ok ?g" "lists_small 0 ?g"
    by (simp_all add: Graph_def graph_logged_def lists_ok_def lists_small_def accounts_def own_place_def)
  note r = rows_accounts [OF rows this]
  have "adjList (number_vertices lib g1) = adjList g1" by (simp add: number_vertices_def Let_def)
  with r show ?thesis by (intro that [OF _ _ _ hash]) (simp_all add: graph_logged_def lists_ok_def lists_small_def)
qed

section \<open>Cliques, tasks and pools\<close>

text \<open>
  The clique of a task: new for a root task, a copy of the parent's for the others.  While the task
  runs, vertices are pushed and popped.
\<close>

definition Clique_log :: "sizes \<Rightarrow> main_task \<Rightarrow> ulist \<Rightarrow> ulist \<times> entry list" where
  "Clique_log z t R = (if parent t = None then UnrolledList_log z (own_place ROOT_CLIQUE)
     else UnrolledList_copy_log z (own_place CLIQUE) R)"

datatype clique_op = PushVertex key | PopVertex

fun clique_op_log :: "sizes \<Rightarrow> place \<Rightarrow> clique_op \<Rightarrow> ulist \<times> entry list \<Rightarrow> ulist \<times> entry list" where
  "clique_op_log z pc (PushVertex v) (R, es) = (case push_back_log z pc v R of (R, es') \<Rightarrow> (R, es @ es'))"
| "clique_op_log z pc PopVertex (R, es) = (case pop_back_log z pc R of (R, es') \<Rightarrow> (R, es @ es'))"

text \<open>Nothing is popped from an empty clique.\<close>

fun pops_ok :: "nat \<Rightarrow> clique_op list \<Rightarrow> bool" where
  "pops_ok n [] = True"
| "pops_ok n (PushVertex v # ops) = pops_ok (Suc n) ops"
| "pops_ok 0 (PopVertex # ops) = False"
| "pops_ok (Suc n) (PopVertex # ops) = pops_ok n ops"

lemma clique_ops_accounts:
  assumes "fold (clique_op_log z pc) ops (R, es) = (R', es')" and "ul_inv R" and "pops_ok (ul_size R) ops"
    and "accounts pc (list_memory z R) es"
  shows "accounts pc (list_memory z R') es'"
  using assms
proof (induction ops arbitrary: R es)
  case (Cons x ops)
  show ?case
  proof (cases x)
    case (PushVertex v)
    have "accounts pc (list_memory z (push_back v R)) (es @ snd (push_back_log z pc v R))"
      using accounts_append [OF Cons.prems(4) push_back_accounts [of pc z v R]] by simp
    moreover have "ul_size (push_back v R) = Suc (ul_size R)" by (simp add: push_back_def ul_size_def Let_def)
    ultimately show ?thesis using Cons.prems PushVertex
      by (intro Cons.IH [of "push_back v R" "es @ snd (push_back_log z pc v R)"]) (simp_all add: push_back_log_def)
  next
    case PopVertex
    obtain m where m: "ul_size R = Suc m" and ok: "pops_ok m ops"
      using Cons.prems(3) PopVertex by (cases "ul_size R") auto
    have ne: "to_list R \<noteq> []" "buckets R \<noteq> []"
      using m num_of_elems_0_iff [OF Cons.prems(2)] to_list_Nil_iff [OF Cons.prems(2)] by (auto simp: ul_size_def)
    have "accounts pc (list_memory z (pop_back R)) (es @ snd (pop_back_log z pc R))"
      using accounts_append [OF Cons.prems(4) pop_back_accounts [OF ne(2), of pc z]] by simp
    moreover have "ul_size (pop_back R) = m" using m by (simp add: pop_back_def ul_size_def Let_def)
    ultimately show ?thesis using Cons.prems(1) PopVertex ok pop_back_inv [OF Cons.prems(2) ne(1)]
      by (intro Cons.IH [of "pop_back R" "es @ snd (pop_back_log z pc R)"]) (simp_all add: pop_back_log_def)
  qed
qed simp

definition get_addresses_log :: "64 word list \<Rightarrow> u32 \<Rightarrow> mem_chunk \<times> entry list" where
  "get_addresses_log ns dbsize =
     fold (\<lambda>n (ch, es). case get_address_log n ch of ((_, ch), es') \<Rightarrow> (ch, es @ es')) ns (MemChunk dbsize, [])"

definition pool_memory :: "mem_chunk \<Rightarrow> int" where
  "pool_memory ch = (\<Sum>(_, n) \<leftarrow> dynamic_block_list ch. n)"

lemma get_addresses_accounts:
  "get_addresses_log ns dbsize = (ch, es) \<Longrightarrow> accounts (own_place OTHER) (pool_memory ch) es"
proof (induction ns arbitrary: ch es rule: rev_induct)
  case (snoc n ns)
  obtain ch1 es1 where 1: "get_addresses_log ns dbsize = (ch1, es1)" by fastforce
  have "accounts (own_place OTHER) (pool_memory ch - pool_memory ch1) (snd (get_address_log n ch1))" "es = es1 @ snd (get_address_log n ch1)"
    using snoc.prems 1
    by (auto simp: get_addresses_log_def get_address_log_def get_address_def Let_def pool_memory_def accounts_def own_place_def)
  with accounts_append [OF snoc.IH [OF 1] this(1)] show ?case by simp
qed (simp add: get_addresses_log_def MemChunk_def pool_memory_def)

lemma delete_blocks_accounts: "accounts (own_place OTHER) (- pool_memory ch) (snd (delete_dynamic_blocks_log ch))"
proof -
  have "balance t (map (\<lambda>(_, n). DelTmp n OTHER) bs) = (if t = OTHER then - (\<Sum>(_, n) \<leftarrow> bs. n) else 0)" for t and bs :: "(nat \<times> int) list"
    by (induction bs) auto
  then show ?thesis by (auto simp: delete_dynamic_blocks_log_def pool_memory_def accounts_def own_place_def)
qed

end
