(* ===== verification/LogResults.thy ===== *)
theory LogResults
  imports MemLife Containers Hopscotch Examples
begin

text \<open>
  Does the log show the memory in use?  The life of sets, graphs, tasks and pools, from the first
  entry to the last.
\<close>

section \<open>Examples\<close>

definition demo_sizes :: sizes where
  "demo_sizes = \<lparr>sizeof_list = 80, sizeof_bucket = 64, sizeof_table = 72, sizeof_set = 176, sizeof_graph = 192, sizeof_task = 160\<rparr>"

definition demo_ops :: "set_op list" where
  "demo_ops = [AddElem 5, AddElem 3, DelElem 5, HashSet, AddElem 8]"

definition demo_text :: string where
  "demo_text = ''1 2'' @ [CHR 0x0A] @ ''2 3'' @ [CHR 0x0A]"

section \<open>The log observes\<close>

text \<open>The entries of the log are all that is added: without them, hashing a set, adding an edge and
  reading a graph are the operations of the other theories, failures included.\<close>

lemma log_only_observes:
  "strip (hashSet_log bld e z pc s) = hashSet bld e s"
  "strip (addEdge_log bld z ty v w g) = addEdge bld v w g"
  "strip (Graph_file_log lib bld e z content) = initFromFile lib bld e content (Graph 0)"
  by (simp_all add: hashSet_log_strip addEdge_log_strip Graph_file_log_def Graph_log_def initFromFile_log_strip)

text \<open>C22 (safety).  The log counts the list and the table of a set twice.  Both are members of the set, by value, and so in
  its size already; but each is told to the log when it is constructed.  Whatever is done to a set from its creation on,
  without hopscotch tables the log shows its memory and once more the sizes of the two members; with hopscotch
  tables it shows that or less.  It shows nothing of a set in a pool.  Deleting the set takes the
  sizes of the members away twice as well, so that nothing is left of it, or with hopscotch tables nothing or less.\<close>

theorem members_logged_twice:
  assumes "length ops \<le> 2 ^ 30" and "set_ops_log bld e z pc ops = Inr (s, es)"
  shows "(pooled pc \<or> mem_type pc \<noteq> ty \<longrightarrow> balance ty es \<le> 0 \<and> (\<not> USE_HOPSCOTCH bld \<longrightarrow> balance ty es = 0)) \<and>
    (\<not> pooled pc \<and> mem_type pc = ty \<longrightarrow>
       balance ty es \<le> set_memory z s + (sizeof_list z + sizeof_table z) \<and>
       (\<not> USE_HOPSCOTCH bld \<longrightarrow> balance ty es = set_memory z s + (sizeof_list z + sizeof_table z))) \<and>
    (\<not> pooled pc \<longrightarrow> balance ty (es @ delete_simple_hash_set z pc s) \<le> 0 \<and>
       (\<not> USE_HOPSCOTCH bld \<longrightarrow> balance ty (es @ delete_simple_hash_set z pc s) = 0))"
proof -
  let ?m = "if pooled pc \<or> mem_type pc \<noteq> ty then 0 else set_memory z s + (sizeof_list z + sizeof_table z)"
  have "balance ty es \<le> ?m"
    using set_ops_at_most [OF assms] by (simp add: at_most_def set_logged_memory)
  moreover have "balance ty es = ?m" if "\<not> USE_HOPSCOTCH bld"
    using set_ops_accounts [OF that assms(2)] by (simp add: accounts_def set_logged_memory)
  moreover have "balance ty (delete_simple_hash_set z pc s) = - ?m" if "\<not> pooled pc"
    using delete_set_accounts [OF that, of z s] that by (simp add: accounts_def set_logged_memory)
  ultimately show ?thesis by (auto split: if_splits)
qed

theorem members_logged_twice_witness:
  "case set_ops_log scalar_build demo_env demo_sizes (own_place SET) demo_ops of
     Inl er \<Rightarrow> False
   | Inr (s, es) \<Rightarrow> balance SET es = 336 \<and> set_memory demo_sizes s = 184 \<and>
       balance SET (es @ delete_simple_hash_set demo_sizes (own_place SET) s) = 0"
proof -
  have "case set_ops_log scalar_build demo_env demo_sizes (own_place SET) demo_ops of Inl er \<Rightarrow> False | Inr (s, es) \<Rightarrow> set_memory demo_sizes s = 184"
    by code_simp
  then obtain s es where run: "set_ops_log scalar_build demo_env demo_sizes (own_place SET) demo_ops = Inr (s, es)" "set_memory demo_sizes s = 184"
    by (auto split: sum.splits)
  have "length demo_ops \<le> 2 ^ 30" by (simp add: demo_ops_def)
  note b = members_logged_twice [OF this run(1)]
  have pc: "\<not> pooled (own_place SET)" "mem_type (own_place SET) = SET" by (simp_all add: own_place_def)
  show ?thesis using b [of SET] pc run by (simp add: scalar_build_def demo_sizes_def)
qed

text \<open>C23 (bounds).  With hopscotch tables the log falls behind: a table that is rebuilt has at least twice the slots, but the
  entries of the rebuilding, with those of the rebuildings inside it, add up to at most nothing, because the size of
  the new array is taken away in place of that of the old one.\<close>

theorem rebuild_not_logged:
  assumes "0 < capacity t" and "capacity t \<le> 2 ^ 30" and "phys_capacity t = capacity t + VECTOR_SIZE bld - 1"
    and "hopscotchReconstruct_log bld e pc n t = Inr (t', es)"
  shows "2 * capacity t \<le> capacity t' \<and> phys_capacity t < phys_capacity t' \<and> (\<forall>ty. balance ty es \<le> 0)"
proof (cases n)
  case (Suc m)
  have "sized bld t" using assms(1-3) by (simp add: sized_def)
  note r = rebuilt [OF reconstruct_grown this assms(4) [unfolded Suc]]
  have "balance ty es \<le> 0" for ty using r(3) by (auto simp: at_most_def split: if_splits)
  with r(1,2) assms(1,3) show ?thesis by (simp add: sized_def)
qed (use assms(4) in simp)

definition small_table :: hash_table where
  "small_table = \<lparr>array = [7, -1], capacity = 2, phys_capacity = 2, num_of_keys = 1, number_of_attempts = 16,
     a_hash = 1, b_hash = 0, M_hash = 1\<rparr>"

theorem rebuild_not_logged_witness:
  "case hopscotchReconstruct_log (scalar_build\<lparr>USE_HOPSCOTCH := True\<rparr>) demo_env (own_place SET) 32 small_table of
     Inl er \<Rightarrow> False | Inr (t, es) \<Rightarrow> phys_capacity small_table < phys_capacity t \<and> balance SET es \<le> 0"
proof -
  let ?bld = "scalar_build\<lparr>USE_HOPSCOTCH := True\<rparr>"
  have "case hopscotchReconstruct_log ?bld demo_env (own_place SET) 32 small_table of Inl er \<Rightarrow> False | Inr r \<Rightarrow> True"
    by code_simp
  then obtain t es where run: "hopscotchReconstruct_log ?bld demo_env (own_place SET) 32 small_table = Inr (t, es)"
    by (auto split: sum.splits)
  show ?thesis using rebuild_not_logged [OF _ _ _ run] run by (simp add: small_table_def VECTOR_SIZE_def scalar_build_def)
qed

text \<open>C24 (invariant).  The log of a graph that is read from a file and deleted.  Without hopscotch tables it shows
  the memory of the graph and its sets, and for every vertex once more the sizes of the list and the table that
  are members of its set; after the deletion it shows nothing.  With hopscotch tables it shows that or less.\<close>

theorem graph_log_balanced:
  assumes "length (getlines [] content) \<le> 2 ^ 29" and "Graph_file_log lib bld e z content = Inr (g, es)"
    and "over = (if t = GRAPH then graph_memory z g + int (length (adjList g)) * (sizeof_list z + sizeof_table z) else 0)"
  shows "balance t es \<le> over \<and> balance t (es @ delete_graph z GRAPH g) \<le> 0 \<and>
    (\<not> USE_HOPSCOTCH bld \<longrightarrow> balance t es = over \<and> balance t (es @ delete_graph z GRAPH g) = 0)"
proof -
  obtain g1 es1 where acc: "accounts (own_place GRAPH) (graph_logged z g1) es1" and ok: "lists_ok g1"
    and small: "lists_small (2 * length (getlines [] content)) g1" and hash: "hash_lists_log lib bld e z GRAPH (g1, es1) = Inr (g, es)"
    using assms(2) by (rule Graph_file_rows)
  have over: "over = (if t = GRAPH then graph_logged z g else 0)" by (simp add: assms(3) graph_logged_memory)
  have "at_most (own_place GRAPH) (graph_logged z g) es"
    using hash_lists_at_most [OF ok small _ hash at_most_accounts [OF acc]] assms(1) by simp
  from at_mostD [OF this, of t] have "balance t es \<le> over" by (auto simp: over own_place_def split: if_splits)
  moreover have "balance t es = over" if "\<not> USE_HOPSCOTCH bld"
    using hash_lists_accounts [OF that ok hash acc] by (auto simp: over accounts_def own_place_def)
  moreover have "balance t (delete_graph z GRAPH g) = - over"
    using delete_graph_accounts [of GRAPH z g] by (auto simp: over accounts_def own_place_def)
  ultimately show ?thesis by auto
qed

theorem graph_log_balanced_witness:
  "case Graph_file_log demo_library scalar_build demo_env demo_sizes demo_text of Inl er \<Rightarrow> False
   | Inr (g, es) \<Rightarrow> graph_memory demo_sizes g = 752 \<and> balance GRAPH es = 1208 \<and> balance GRAPH (es @ delete_graph demo_sizes GRAPH g) = 0"
proof -
  have "case Graph_file_log demo_library scalar_build demo_env demo_sizes demo_text of Inl er \<Rightarrow> False
   | Inr (g, es) \<Rightarrow> graph_memory demo_sizes g = 752 \<and> length (adjList g) = 3"
    by code_simp
  then obtain g es where run: "Graph_file_log demo_library scalar_build demo_env demo_sizes demo_text = Inr (g, es)"
    and mem: "graph_memory demo_sizes g = 752" "length (adjList g) = 3"
    by (auto split: sum.splits)
  have "length (getlines [] demo_text) = 2" by code_simp
  then have "length (getlines [] demo_text) \<le> 2 ^ 29" by simp
  moreover have "\<not> USE_HOPSCOTCH scalar_build" by (simp add: scalar_build_def)
  ultimately show ?thesis
    using graph_log_balanced [OF _ run refl, of GRAPH] mem unfolding run sum.case prod.case by (simp add: demo_sizes_def)
qed

text \<open>C25 (invariant).  The log of a task and its clique, new for a root and a copy for a child, is even when the task is deleted,
  whatever it pushed and popped, as long as nothing is popped from an empty clique.\<close>

theorem task_log_balanced:
  assumes "parent t = None \<or> ul_inv R" and "pops_ok (if parent t = None then 0 else ul_size R) ops"
    and "fold (clique_op_log z (own_place (if parent t = None then ROOT_CLIQUE else CLIQUE))) ops (Clique_log z t R) = (R', es)"
  shows "balance ty (es @ MainBKTask_log z t @ delete_task z (t\<lparr>R_task := Some R'\<rparr>)) = 0"
proof -
  let ?pc = "own_place (if parent t = None then ROOT_CLIQUE else CLIQUE)"
  obtain R0 es0 where R0: "Clique_log z t R = (R0, es0)" by fastforce
  have "ul_size UnrolledList = 0" "ul_size (UnrolledList_copy R) = ul_size R"
    by (simp_all add: UnrolledList_copy_def UnrolledList_def ul_size_def)
  then have "accounts ?pc (list_memory z R0) es0" "ul_inv R0" "ul_size R0 = (if parent t = None then 0 else ul_size R)"
    using R0 assms(1) UnrolledList_accounts [of "own_place ROOT_CLIQUE" z] UnrolledList_copy_accounts [of "own_place CLIQUE" z R]
      copy_correct(1) [of R]
    by (auto simp: Clique_log_def UnrolledList_log_def UnrolledList_copy_log_def split: if_splits)
  with clique_ops_accounts [OF assms(3) [unfolded R0]] assms(2) have "accounts ?pc (list_memory z R') es" by simp
  from accounts_append [OF this delete_list_accounts, of z R'] show ?thesis
    by (simp add: accounts_def MainBKTask_log_def delete_task_def task_type_def)
qed

theorem task_log_balanced_witness:
  "let t = MainBKTask_child (demo_list [1, 2]) create_set create_set (Some 0) True 0;
       (R, es) = fold (clique_op_log demo_sizes (own_place CLIQUE)) [PushVertex 4, PopVertex] (Clique_log demo_sizes t (demo_list [1, 2]))
   in balance CLIQUE es = 144 \<and>
      balance CLIQUE (es @ MainBKTask_log demo_sizes t @ delete_task demo_sizes (t\<lparr>R_task := Some R\<rparr>)) = 0"
proof -
  let ?t = "MainBKTask_child (demo_list [1, 2]) create_set create_set (Some 0) True 0"
  let ?run = "fold (clique_op_log demo_sizes (own_place CLIQUE)) [PushVertex 4, PopVertex] (Clique_log demo_sizes ?t (demo_list [1, 2]))"
  have "balance CLIQUE (snd ?run) = 144" by code_simp
  moreover obtain R es where run: "?run = (R, es)" by fastforce
  moreover have "ul_inv (demo_list [1, 2])" "ul_size (demo_list [1, 2]) = 2" "parent ?t = Some 0" by (code_simp+)
  ultimately show ?thesis
    using task_log_balanced [of ?t "demo_list [1, 2]" "[PushVertex 4, PopVertex]" demo_sizes R es CLIQUE] by (simp add: numeral_2_eq_2)
qed

text \<open>A pool tells the log the sizes of the blocks it has, all of the default type, and nothing is left when
  the blocks are freed.\<close>

theorem pool_log_balanced:
  assumes "get_addresses_log ns dbsize = (ch, es)"
  shows "balance ty es = (if ty = OTHER then pool_memory ch else 0) \<and>
    balance ty (es @ snd (delete_dynamic_blocks_log ch)) = 0 \<and> pool_memory (fst (delete_dynamic_blocks_log ch)) = 0"
  using get_addresses_accounts [OF assms] delete_blocks_accounts [of ch]
  by (auto simp: accounts_def own_place_def delete_dynamic_blocks_log_def delete_dynamic_blocks_def pool_memory_def)


theorem pool_log_balanced_witness:
  "balance OTHER (snd (get_addresses_log [100, 200, 20000] 20480)) = 20480 \<and>
   (case get_addresses_log [100, 200, 20000] 20480 of (ch, es) \<Rightarrow> balance OTHER (es @ snd (delete_dynamic_blocks_log ch)) = 0)"
proof -
  have m: "pool_memory (fst (get_addresses_log [100, 200, 20000] 20480)) = 20480" by code_simp
  obtain ch es where run: "get_addresses_log [100, 200, 20000] 20480 = (ch, es)" by fastforce
  show ?thesis using pool_log_balanced [OF run, of OTHER] m by (simp add: run)
qed

text \<open>A set that was copied by \<open>clone\<close> takes its own size from the log when it is deleted, but was never added to it.\<close>

theorem clone_log_short:
  "balance ty (snd (clone_log garbage z pc s) @ delete_clone z pc (fst (clone_log garbage z pc s))) =
    (if mem_type pc = ty then - sizeof_set z else 0)"
proof -
  have "balance ty (snd (UnrolledList_copy_log z pc l)) + balance ty (delete_list z pc (UnrolledList_copy l)) = 0" for l
    using UnrolledList_copy_accounts [of pc z l] delete_list_accounts [of pc z "UnrolledList_copy l"] by (simp add: accounts_def)
  then show ?thesis
    by (simp add: clone_log_def clone_def delete_clone_def SimpleHashTable_log_def delete_table_def SimpleHashTable_def own_place_def add.left_commute)
qed

end
