(* ===== verification/Bytes.thy ===== *)
theory Bytes
  imports Containers
begin

text \<open>
  The bytes behind the keys: arrays of keys are filled by \<open>memset\<close>, with the bytes of
  \<^verbatim>\<open>include/utils.h\<close>, in the constructor of a bucket and in \<open>reserve\<close>.
\<close>

unbundle bit_operations_syntax

type_synonym byte = "8 word"

definition EMPTY_BYTE :: byte where
  "EMPTY_BYTE = 0xFF"

definition INVAL_BYTE :: byte where
  "INVAL_BYTE = 0xEE"

definition memset :: "byte \<Rightarrow> nat \<Rightarrow> byte list" where
  "memset b n = replicate n b"

text \<open>Four bytes are a key, the lowest first.\<close>

definition key_of_bytes :: "byte \<Rightarrow> byte \<Rightarrow> byte \<Rightarrow> byte \<Rightarrow> key" where
  "key_of_bytes b0 b1 b2 b3 =
     ucast b0 OR push_bit 8 (ucast b1) OR push_bit 16 (ucast b2) OR push_bit 24 (ucast b3)"

fun keys_of_bytes :: "byte list \<Rightarrow> key list" where
  "keys_of_bytes (b0 # b1 # b2 # b3 # bs) = key_of_bytes b0 b1 b2 b3 # keys_of_bytes bs"
| "keys_of_bytes bs = []"

lemma keys_of_memset: "keys_of_bytes (memset b (4 * n) @ bs) = replicate n (key_of_bytes b b b b) @ keys_of_bytes bs"
proof (induction n)
  case (Suc n)
  have "memset b (4 * Suc n) = b # b # b # b # memset b (4 * n)" by (simp add: memset_def numeral_eq_Suc)
  with Suc show ?case by simp
qed (simp add: memset_def)

lemma markers: "key_of_bytes EMPTY_BYTE EMPTY_BYTE EMPTY_BYTE EMPTY_BYTE = EMPTY_KEY"
  "key_of_bytes INVAL_BYTE INVAL_BYTE INVAL_BYTE INVAL_BYTE = INVAL_KEY"
  by code_simp+

text \<open>The constructor of a bucket, and the arrays of a table that is sized.\<close>

definition Bucket :: "byte list" where
  "Bucket = memset INVAL_BYTE (4 * ELEMS_IN_BUCKET)"

definition clear_array :: "nat \<Rightarrow> nat \<Rightarrow> byte list" where
  "clear_array cap phys = memset EMPTY_BYTE (4 * cap) @ memset INVAL_BYTE (4 * (phys - cap))"

text \<open>C33 (equivalence).  Read as keys, the bytes of a new bucket are the marker for no key in every cell, and those of the array of a
  table after \<open>reserve\<close> the marker for a free slot up to the capacity and the marker for no key beyond it.\<close>

theorem memset_markers:
  assumes "reserve bld e cap t = Inr t'"
  shows "keys_of_bytes Bucket = create_bucket \<and>
    keys_of_bytes (clear_array (capacity t') (phys_capacity t')) = array t'"
proof -
  have two: "keys_of_bytes (memset b (4 * n)) = replicate n (key_of_bytes b b b b)" for b n
    using keys_of_memset [of b n "[]"] by simp
  have "phys_capacity t' = capacity t' + VECTOR_SIZE bld - 1 \<and>
    array t' = replicate (capacity t') EMPTY_KEY @ replicate (phys_capacity t' - capacity t') INVAL_KEY"
  proof (cases "shift_one_left e (index_bits cap)")
    case (Inr c)
    from reserve_fields [OF assms Inr] show ?thesis by simp
  qed (use assms in \<open>simp add: reserve_def\<close>)
  then show ?thesis
    by (simp add: Bucket_def clear_array_def keys_of_memset two markers create_bucket_def)
qed

theorem memset_markers_witness:
  "case reserve default_build demo_env 3 SimpleHashTable of Inl er \<Rightarrow> False
   | Inr t \<Rightarrow> keys_of_bytes (clear_array (capacity t) (phys_capacity t)) = replicate 8 EMPTY_KEY @ replicate 15 INVAL_KEY"
proof -
  have "case reserve default_build demo_env 3 SimpleHashTable of Inl er \<Rightarrow> False | Inr t \<Rightarrow> array t = replicate 8 EMPTY_KEY @ replicate 15 INVAL_KEY"
    by code_simp
  then show ?thesis using memset_markers [of default_build demo_env 3 SimpleHashTable] by (auto split: sum.splits)
qed

end
