(* ===== verification/Spec2Isabelle.thy ===== *)
theory Spec2Isabelle
  imports CommandLine Services MemoryResults LogResults Bytes
begin

text \<open>
  A verification library for a parallel enumerator of maximal cliques.

  \<^bold>\<open>The program.\<close>  \<^verbatim>\<open>src/main.cpp\<close> reads a graph from a file of edges, orders its
  vertices, and spawns one task for every vertex.  A task keeps a clique \<open>R\<close>, the candidates \<open>P\<close> that may
  extend it and the vertices \<open>X\<close> that have been dealt with; it chooses a pivot, branches on the candidates that
  the pivot does not cover, runs small branches by itself and makes a child task of each of the others, and counts the
  cliques it finds in the histogram of its thread.  Depending on the option \<^verbatim>\<open>-s\<close> it works on the whole
  graph (0), or on a sub-graph made by the root task (1), by every task (2) or in every node of the recursion (3);
  sub-graphs are shared by tasks and freed with their last reference.  Finally the histograms are added up and printed.

  \<^bold>\<open>Containers.\<close>  \<open>Prelude\<close> has the key type, the markers, the build switches of
  \<^verbatim>\<open>include/utils.h\<close>, the errors a run can end with and the fold that stops at the first one.  \<open>Avx512\<close>
  models the vector instructions that are used.  \<open>UnrolledList\<close> (\<^verbatim>\<open>include/UnrolledList.h\<close>,
  \<^verbatim>\<open>src/UnrolledList.cpp\<close>) is the chain of buckets, with its invariant and its meaning as a list;
  \<open>SimpleHashTable\<close> and \<open>Hopscotch\<close> (\<^verbatim>\<open>include/SimpleHashTable.h\<close>) are the sizing, both
  hash functions, lookup and both ways to insert; \<open>SimpleHashSet\<close> (\<^verbatim>\<open>include/SimpleHashSet.h\<close>) is
  a list or a table, with the operations on two sets.  Each scalar and each vector version is a definition of its own.  \<open>Bytes\<close> has
  the \<open>memset\<close>s that fill arrays of keys, and shows that their bytes are the markers.  The
  locales \<open>elem_list\<close>, \<open>key_lookup\<close> and \<open>selection\<close> say what the set operations need of a list and of a
  lookup, and are interpreted on the models.

  \<^bold>\<open>Graphs.\<close>  \<open>Graph\<close> has the operations of \<^verbatim>\<open>include/Graph.h\<close> and
  \<^verbatim>\<open>src/Graph.cpp\<close>; \<open>Subgraph\<close> proves pivots and sub-graphs right with respect to the abstract
  adjacency of a graph; \<open>GraphReader\<close> has the reader, line by line with the extraction of integers from a stream,
  and that a document written by \<open>render\<close> is read back; \<open>Degeneracy\<close> proves the ordering; \<open>Histogram\<close> has the
  printed sums.

  \<^bold>\<open>Enumeration.\<close>  \<open>CliqueSpec\<close> is the abstract specification: cliques, the maximal extensions of a
  clique, and the recursion as an equation on them (locales \<open>ugraph\<close> and \<open>finite_ugraph\<close>, interpreted on the
  abstract adjacency of graphs and of documents).  \<open>BKTask\<close> has the tasks of \<^verbatim>\<open>include/BKTask.h\<close>,
  \<^verbatim>\<open>src/BKTask.cpp\<close> and \<^verbatim>\<open>src/BronKerboschTBB.cpp\<close>: guards, root sets, \<open>StartTask\<close>,
  \<open>LoopIteration\<close>, \<open>SequentialRun\<close>, \<open>SpawnTask\<close>, \<open>Continuation\<close> and \<open>execute\<close>.
  \<open>Enumeration\<close> and \<open>Sequential\<close> show what a call inside a task counts and what it does to the guards;
  \<open>Roots\<close> the root sets; \<open>Tasks\<close> and \<open>Execute\<close> that one call of \<open>execute\<close> keeps a task in order
  and only moves what is left to count and the references between the task, its child and the histogram.

  \<^bold>\<open>Runs.\<close>  \<open>Scheduler\<close> has all tasks of a run as slots with counts of references, and the
  step relation: any ready task is executed by any thread, and then recycled, made to wait for its children, or
  finished.  \<open>Transition\<close> is the locale of step relations that lower a number; \<open>Runs\<close> interprets it and shows
  that the count is kept, that a run goes on while a task is left and ends, and that it then has counted the maximal
  cliques.  \<open>HistEntries\<close> shows that no histogram has an entry without a clique.  \<open>RootTask\<close> is the task that
  spawns the others, from its first execution to its last, with the counter of all tasks.

  \<^bold>\<open>Memory of the sets.\<close>  \<open>SetPool\<close> has the heap of all sets and pools ever made, by number, and the places sets are
  given: memory of their own, or the blocks of the pool \<open>sets_chunk\<close> of a task (\<^verbatim>\<open>include/MemChunk.h\<close>, which
  \<open>MemChunk\<close> models by itself).  \<open>SetMemory\<close> and \<open>TaskMemory\<close> have the operations of \<open>BKTask\<close> again, with every
  statement that chooses a pool, counts, creates, fills or deletes a set; using what has been deleted or freed is an error
  there.  \<open>Matches\<close> relates two programs that run side by side, and with it \<open>SeqMemory\<close> shows one node, and
  \<open>MemoryRuns\<close> whole runs, to compute what they compute without places, so that none of these errors happens; the locale
  \<open>annotated_steps\<close> of \<open>Transition\<close> is interpreted on the runs with places.  \<open>SetSizes\<close> and \<open>PoolPrivacy\<close> show whose
  pool a set may lie in.  \<open>MemoryResults\<close> states the properties, and the two cases in which they fail: a size limit, and
  thresholds that let tasks share a pool.

  \<^bold>\<open>Entries of the log.\<close>  \<open>MemUsageLogger\<close> (\<^verbatim>\<open>include/MemUsageLogger.h\<close>) is the log by itself.  \<open>MemAccount\<close>
  has what constructors, destructors and operations of the containers, graphs, tasks and pools tell it, as lists of
  entries beside the results; \<open>LogGrowth\<close> shows what a hopscotch table that grows enters, \<open>MemLife\<close> follows objects
  from their first entry to their last, and \<open>LogResults\<close> compares the log with the memory in use, which it does not
  show: the members of a set are told to it twice, and of a table that grows the new array is taken off in place of the old one.

  \<^bold>\<open>The program.\<close>  \<open>Program\<close> has the options and \<open>main\<close> up to the enumeration, \<open>HelpText\<close> the help with the
  options and the defaults it names, and \<open>Failures\<close> inputs and options with which the program fails.  \<open>WholeProgram\<close> puts all of it
  together: the relation \<open>program\<close> between the arguments and how the program ends, with every line that it prints, in which any
  number of threads may take part.  Asked for a document, the program ends, and prints what the specification of the
  cliques of the document demands.  \<open>CommandLine\<close> shows that settings written as a command line are read back, and
  compares the help with the program.

  \<^bold>\<open>Properties.\<close>  \<open>WholeProgram\<close> states those of the program, \<open>Results\<close> those of runs and of tasks, \<open>Services\<close> those of the steps of a
  task, of the reader, the ordering, the histogram, the pool and the log, \<open>MemoryResults\<close> and \<open>LogResults\<close>
  those of the memory and of the log, \<open>CommandLine\<close> those of the options and the help, \<open>RootTask\<close> one, and \<open>Containers\<close> and \<open>Bytes\<close> those of the
  containers.  \<open>Examples\<close> has the document and the graph at which their hypotheses are shown to hold.

  \<^bold>\<open>Errors.\<close>  Undefined behaviour, failed assertions, uncaught exceptions and the exit of the hopscotch
  table are values of the type \<open>error\<close>.  Many properties have the form \<open>ends bld e r Q\<close>: the result \<open>r\<close> satisfies
  \<open>Q\<close>, or it is an error that the build is \<open>excused\<close> for.  These are: a vector load past the end of a hash table, which
  the code can do in builds with the vector instructions; hopscotch hashing giving up or running out of memory as it grows; and
  the undefined shift of a table sized for no key, where the environment answers with an error.  A build without the
  vector instructions and hopscotch hashing, on a machine that shifts without an error, is excused for nothing.

  \<^bold>\<open>Bounds and fuel.\<close>  The depth of \<open>SequentialRun\<close> is the size of \<open>P\<close>, which every branch
  reduces; the fuel is one more, and the properties show that it never runs out.  Sets have at most \<open>2 ^ 28\<close> keys, which is
  what the sizing of the tables allows for, and documents half as many edges.  \<open>sane\<close> options are the modes 0 to 3,
  and in mode 1 a size limit of at least 2: a limit of 1 frees the graph too early, as \<open>Failures\<close> shows.

  \<^bold>\<open>Parameters.\<close>  The order in which an \<open>unordered_map\<close> is iterated over and the first element of an
  \<open>unordered_set\<close> (\<open>library\<close>, with \<open>library_ok\<close>: the order lists every key once, the first element is one of the
  set), \<open>rand_r\<close>, the time and the undefined shift (\<open>env\<close>), the files and environment variables (\<open>system\<close>), and the random numbers
  of the log.  The time is a function of the size of the table that is made, so that within a run tables of one size have
  the same seed; the properties hold for every such function.

  \<^bold>\<open>The task library.\<close>  Its counts of references, children and safe continuations are modelled as documented.  In one
  point the code relies on more than is documented: a task that calls \<open>recycle_to_reexecute\<close> has to return another task, but
  \<open>SpawnTask\<close> also returns null then, when the branch was run in the task itself.  In the model such a task is ready
  again, as the code expects.  A call of
  \<open>execute\<close> is one step: tasks share only the guards, whose counts are changed under a lock, and graphs that
  are no longer changed.  Assertions are enabled, as in a build without \<^verbatim>\<open>NDEBUG\<close>.

  \<^bold>\<open>Not modelled.\<close>  Where graphs, guards and cliques are placed in memory; the freeing of the buckets of a set that has
  memory of its own, apart from its entries in the log; the deletion of a task's clique within a run; the entries of a
  whole run added up; the copies that a task hands back with \<open>returnClique\<close>, which no task sets; \<open>print_tasks_timestamp\<close>,
  \<open>BronKerbosch\<close> and other declarations without a body; the deletion of the graph and of the log at the end of \<open>main\<close>; the
  measuring of the times, which are parameters of what is printed; the time stamps and kilobytes of the log's file; files that
  cannot be read, on which the reading loop does not end; calls of \<open>execute\<close> that interfere with each other; the overlap of a
  sample of the log with calls of other threads; and the wrap-around of counts of more than \<open>2 ^ 63\<close> cliques in a thread, of
  \<open>taskSpawnCnt\<close>, an \<open>int\<close> that overflows after \<open>2 ^ 31\<close> sequential calls in one task and is a natural number here, and of
  \<open>taskIdCnt\<close> after \<open>2 ^ 64\<close> tasks.
\<close>

end
